(* ===== verification/Prelude.thy ===== *)
theory Prelude
  imports Main "HOL-Library.Product_Lexorder" "HOL-Library.List_Lexorder" "HOL-Library.Char_ord"
begin

text \<open>
  What every component of the development shares: the ranges of Rust's machine integers
  that the code checks, the result type of a fallible operation, and the order on stamps.

  A Rust \<open>String\<close> or \<open>&str\<close> is its UTF-8 byte sequence, a \<^typ>\<open>string\<close> here, one
  \<^typ>\<open>char\<close> for one byte. Rust compares strings byte by byte and so do the orders of
  \<open>List_Lexorder\<close> and \<open>Char_ord\<close>; Rust compares tuples lexicographically and so does
  \<open>Product_Lexorder\<close>.
\<close>

section \<open>Machine integers\<close>

text \<open>
  An \<open>i64\<close> is an \<^typ>\<open>int\<close> and a \<open>u32\<close>, \<open>u64\<close> or \<open>usize\<close> a \<^typ>\<open>nat\<close>; where the code
  checks an overflow, or where one would be observable, the bound is written out.
\<close>

definition i64_max :: int where
  "i64_max = 2 ^ 63 - 1"

definition i64_min :: int where
  "i64_min = - (2 ^ 63)"

definition u32_max :: nat where
  "u32_max = 2 ^ 32 - 1"

definition u64_max :: nat where
  "u64_max = 2 ^ 64 - 1"

text \<open>\<open>checked_add\<close> on a \<open>u32\<close> and on an \<open>i64\<close>: \<open>None\<close> on overflow.\<close>

definition u32_checked_add :: "nat \<Rightarrow> nat \<Rightarrow> nat option" where
  "u32_checked_add a b = (if a + b \<le> u32_max then Some (a + b) else None)"

definition i64_checked_add :: "int \<Rightarrow> int \<Rightarrow> int option" where
  "i64_checked_add a b = (if i64_min \<le> a + b \<and> a + b \<le> i64_max then Some (a + b) else None)"

text \<open>\<open>saturating_add\<close> on a \<open>u64\<close>.\<close>

definition u64_saturating_add :: "nat \<Rightarrow> nat \<Rightarrow> nat" where
  "u64_saturating_add a b = min (a + b) u64_max"

text \<open>Arithmetic on an \<open>i64\<close> that overflows wraps around in a release build; \<open>saturating_mul\<close> and
  \<open>saturating_add\<close> stop at the ends.\<close>

definition wrap64 :: "int \<Rightarrow> int" where
  "wrap64 x = (x + 2 ^ 63) mod 2 ^ 64 - 2 ^ 63"

definition i64_saturating :: "int \<Rightarrow> int" where
  "i64_saturating x = max i64_min (min i64_max x)"

text \<open>\<open>abs_diff\<close> on a \<open>u64\<close>.\<close>

definition abs_diff :: "nat \<Rightarrow> nat \<Rightarrow> nat" where
  "abs_diff a b = (if a < b then b - a else a - b)"

lemma abs_diff_le: "abs_diff a b \<le> d \<longleftrightarrow> a \<le> b + d \<and> b \<le> a + d"
  by (auto simp: abs_diff_def)

lemma u32_max_pos [simp]: "0 < u32_max" "u32_max \<noteq> 0"
  by (simp_all add: u32_max_def)

lemma i64_max_pos [simp]: "0 < i64_max"
  by (simp add: i64_max_def)

lemma i64_min_neg [simp]: "i64_min < 0"
  by (simp add: i64_min_def)

definition is_i64 :: "int \<Rightarrow> bool" where
  "is_i64 x \<longleftrightarrow> i64_min \<le> x \<and> x \<le> i64_max"

definition is_u32 :: "nat \<Rightarrow> bool" where
  "is_u32 x \<longleftrightarrow> x \<le> u32_max"

lemma wrap64_id: "is_i64 x \<Longrightarrow> wrap64 x = x"
  by (simp add: is_i64_def wrap64_def i64_min_def i64_max_def)

section \<open>Fallible operations\<close>

text \<open>A Rust \<open>Result\<close> is a sum, the error on the left.\<close>

type_synonym ('e, 'a) result = "'e + 'a"

abbreviation Err :: "'e \<Rightarrow> ('e, 'a) result" where
  "Err \<equiv> Inl"

abbreviation Ok :: "'a \<Rightarrow> ('e, 'a) result" where
  "Ok \<equiv> Inr"

text \<open>The \<open>?\<close> operator.\<close>

definition bind_result :: "('e, 'a) result \<Rightarrow> ('a \<Rightarrow> ('e, 'b) result) \<Rightarrow> ('e, 'b) result" where
  "bind_result r f = (case r of Err e \<Rightarrow> Err e | Ok x \<Rightarrow> f x)"

lemma bind_result_Err [simp]: "bind_result (Err e) f = Err e"
  by (simp add: bind_result_def)

lemma bind_result_Ok [simp]: "bind_result (Ok x) f = f x"
  by (simp add: bind_result_def)

lemma bind_result_eq_Ok: "bind_result r f = Ok y \<longleftrightarrow> (\<exists>x. r = Ok x \<and> f x = Ok y)"
  by (cases r) auto

definition is_ok :: "('e, 'a) result \<Rightarrow> bool" where
  "is_ok r = (case r of Err e \<Rightarrow> False | Ok x \<Rightarrow> True)"

lemma is_ok_simps [simp]: "is_ok (Err e) = False" "is_ok (Ok x) = True"
  by (simp_all add: is_ok_def)

lemma is_ok_iff: "is_ok r \<longleftrightarrow> (\<exists>x. r = Ok x)"
  by (cases r) auto

section \<open>What steps keep\<close>

text \<open>
  A store whose steps change an entry only upwards in some order keeps every entry, at least
  as far as it had come, through any sequence of steps.
\<close>

locale kept_entries =
  fixes step :: "'s \<Rightarrow> 's \<Rightarrow> bool" and entry :: "'s \<Rightarrow> 'k \<Rightarrow> 'a option" and le :: "'a \<Rightarrow> 'a \<Rightarrow> bool"
  assumes le_refl: "le a a"
    and le_trans: "le a b \<Longrightarrow> le b c \<Longrightarrow> le a c"
    and step_keeps: "step s s' \<Longrightarrow> entry s k = Some a \<Longrightarrow> \<exists>b. entry s' k = Some b \<and> le a b"
begin

lemma steps_keep:
  assumes "step\<^sup>*\<^sup>* s s'" and "entry s k = Some a"
  shows "\<exists>b. entry s' k = Some b \<and> le a b"
  using assms(1)
proof (induction rule: rtranclp_induct)
  case base thus ?case using assms(2) le_refl by blast
next
  case (step y z) thus ?case using step_keeps le_trans by blast
qed

end

end
