(* ===== verification/Work.thy ===== *)
theory Work
  imports Prelude "HOL-Library.AList" "HOL-Library.Multiset"
begin

text \<open>
  The work ledger of \<^verbatim>\<open>src/sync/src/work.rs\<close>: a ledger row, why an item is not ready,
  and \<open>status\<close>, which runs Kahn's topological pass over the open items and orders the
  whole ledger. Every loop of the source is a recursion here; the two panics it contains
  (an unknown id in \<open>indeg\<close>, a count below zero) are the result \<^const>\<open>None\<close>.

  The lemmas show that \<open>status\<close> never panics, that it lists exactly the items, that its
  order depends on the rows and not on the order they were read in, what \<open>Ready\<close> means,
  and that \<open>Cycle\<close> is said of exactly the items from which a dependency cycle is reached.
\<close>

section \<open>Ledger rows\<close>

record work_item =
  wi_id :: string
  wi_channel :: string
  project_id :: "string option"
  title :: string
  body :: string
  state :: string
  priority :: int
  deps :: "string list"
  discovered_from :: "string option"
  discovered_by_session :: "string option"
  discovered_by_lane :: "string option"
  phase_plan_slug :: "string option"
  closed_by_session :: "string option"
  created_ms :: int
  updated_ms :: int

definition CLOSED :: string where
  "CLOSED = ''closed''"

datatype blocker = BOpen string | BUnknown string | BCycle

datatype readiness = Ready | Blocked "blocker list" | Closed

text \<open>A \<open>BTreeSet\<close> as the list of its elements in order.\<close>

definition btree_set :: "'a::linorder list \<Rightarrow> 'a list" where
  "btree_set xs = sort (remdups xs)"

text \<open>A \<open>BTreeMap\<close> collected from an iterator keeps the last value of a key.\<close>

definition by_id :: "work_item list \<Rightarrow> string \<Rightarrow> work_item option" where
  "by_id items = map_of (rev (map (\<lambda>i. (wi_id i, i)) items))"

definition open_ids :: "work_item list \<Rightarrow> string list" where
  "open_ids items = btree_set (map wi_id (filter (\<lambda>i. state i \<noteq> CLOSED) items))"

section \<open>Kahn's pass over the open items\<close>

text \<open>
  The dependencies of an open item that are themselves open, with repetitions; the
  in-degree counts them, and \<open>rev_edges\<close> lists, for one id, the open items that wait on it,
  once for every time they name it.
\<close>

definition open_deps :: "work_item list \<Rightarrow> string \<Rightarrow> string list" where
  "open_deps items i = filter (\<lambda>d. d \<in> set (open_ids items)) (deps (the (by_id items i)))"

definition init_indeg :: "work_item list \<Rightarrow> (string \<times> nat) list" where
  "init_indeg items = map (\<lambda>i. (i, length (open_deps items i))) (open_ids items)"

definition rev_edges :: "work_item list \<Rightarrow> string \<Rightarrow> string list" where
  "rev_edges items d =
     concat (map (\<lambda>i. map (\<lambda>_. i) (filter (\<lambda>e. e = d) (open_deps items i))) (open_ids items))"

fun relax :: "string list \<Rightarrow> (string \<times> nat) list \<Rightarrow> string list
    \<Rightarrow> ((string \<times> nat) list \<times> string list) option" where
  "relax [] indeg queue = Some (indeg, queue)"
| "relax (nxt # ns) indeg queue =
     (case map_of indeg nxt of
        None \<Rightarrow> None
      | Some 0 \<Rightarrow> None
      | Some (Suc n) \<Rightarrow>
          relax ns (AList.update nxt n indeg) (if n = 0 then insort_insert nxt queue else queue))"

lemma sum_update:
  "map_of al k = Some v \<Longrightarrow>
     sum_list (map snd (AList.update k (w::nat) al)) + v = sum_list (map snd al) + w"
  by (induction al) (auto split: if_splits)

lemma length_insort_insert: "length (insort_insert x xs) \<le> Suc (length xs)"
  by (simp add: insort_insert_key_def)

lemma relax_measure:
  "relax ns indeg queue = Some (indeg', queue') \<Longrightarrow>
     sum_list (map snd indeg') + length queue' \<le> sum_list (map snd indeg) + length queue"
proof (induction ns indeg queue rule: relax.induct)
  case (1 indeg queue)
  then show ?case by simp
next
  case (2 nxt ns indeg queue)
  then obtain n where n: "map_of indeg nxt = Some (Suc n)"
    by (auto split: option.splits nat.splits)
  let ?q = "if n = 0 then insort_insert nxt queue else queue"
  from 2 n have "sum_list (map snd indeg') + length queue'
      \<le> sum_list (map snd (AList.update nxt n indeg)) + length ?q" by simp
  moreover have "sum_list (map snd (AList.update nxt n indeg)) + Suc n = sum_list (map snd indeg) + n"
    by (rule sum_update [OF n])
  moreover have "length ?q \<le> Suc (length queue)" by (simp add: length_insort_insert)
  ultimately show ?case by simp
qed

text \<open>The \<open>while let\<close> loop: what shrinks is the sum of the in-degrees plus the queue.\<close>

function kahn :: "(string \<Rightarrow> string list) \<Rightarrow> (string \<times> nat) list \<Rightarrow> string list \<Rightarrow> string list
    \<Rightarrow> string list option" where
  "kahn edges indeg [] order = Some order"
| "kahn edges indeg (i # queue) order =
     (case relax (edges i) indeg queue of
        None \<Rightarrow> None
      | Some (indeg', queue') \<Rightarrow> kahn edges indeg' queue' (order @ [i]))"
  by pat_completeness auto
termination
  by (relation "measure (\<lambda>(edges, indeg, queue, order). sum_list (map snd indeg) + length queue)")
     (auto dest: relax_measure)

definition init_queue :: "work_item list \<Rightarrow> string list" where
  "init_queue items = btree_set (map fst (filter (\<lambda>(i, n). n = 0) (init_indeg items)))"

definition topo_order :: "work_item list \<Rightarrow> string list option" where
  "topo_order items = kahn (rev_edges items) (init_indeg items) (init_queue items) []"

section \<open>Readiness and the order of the ledger\<close>

definition blockers :: "work_item list \<Rightarrow> work_item \<Rightarrow> blocker list" where
  "blockers items item =
     concat (map (\<lambda>d. case by_id items d of
                        Some dep \<Rightarrow> if state dep = CLOSED then [] else [BOpen d]
                      | None \<Rightarrow> [BUnknown d]) (deps item))"

definition readiness_of :: "work_item list \<Rightarrow> string list \<Rightarrow> work_item \<Rightarrow> readiness" where
  "readiness_of items in_cycle item =
     (if state item = CLOSED then Closed
      else if wi_id item \<in> set in_cycle then Blocked [BCycle]
      else let bs = blockers items item in if bs = [] then Ready else Blocked bs)"

text \<open>
  \<open>ready.sort_by\<close>: priority descending, then creation ascending, then id; and the closed
  items, the last updated first, then by id. Rust's \<open>sort_by\<close> is stable, as
  \<^const>\<open>sort_key\<close> is.
\<close>

definition ready_key :: "work_item \<Rightarrow> int \<times> int \<times> string" where
  "ready_key i = (- priority i, created_ms i, wi_id i)"

definition closed_key :: "work_item \<Rightarrow> int \<times> string" where
  "closed_key i = (- updated_ms i, wi_id i)"

text \<open>The open items the pass never reached: in a cycle, or behind one.\<close>

definition in_cycle_ids :: "work_item list \<Rightarrow> string list \<Rightarrow> string list" where
  "in_cycle_ids items order = filter (\<lambda>i. i \<notin> set order) (open_ids items)"

definition ledger_order :: "work_item list \<Rightarrow> string list \<Rightarrow> work_item list" where
  "ledger_order items order =
     (let r = readiness_of items (in_cycle_ids items order);
          ordered = map (\<lambda>i. the (by_id items i)) order;
          ready = filter (\<lambda>i. r i = Ready) ordered;
          blocked = filter (\<lambda>i. r i \<noteq> Ready) ordered
            @ map (\<lambda>i. the (by_id items i)) (in_cycle_ids items order);
          closed = filter (\<lambda>i. state i = CLOSED) items
      in sort_key ready_key ready @ blocked @ sort_key closed_key closed)"

definition status :: "work_item list \<Rightarrow> (work_item \<times> readiness) list option" where
  "status items =
     map_option (\<lambda>order. map (\<lambda>i. (i, readiness_of items (in_cycle_ids items order) i))
                  (ledger_order items order))
       (topo_order items)"

definition ready :: "work_item list \<Rightarrow> work_item list option" where
  "ready items = map_option (\<lambda>st. map fst (filter (\<lambda>(i, r). r = Ready) st)) (status items)"

section \<open>Correctness of the topological pass\<close>

lemma set_btree_set [simp]: "set (btree_set xs) = set xs"
  by (simp add: btree_set_def)

lemma distinct_btree_set [simp]: "distinct (btree_set xs)"
  by (simp add: btree_set_def)

lemma sorted_btree_set [simp]: "sorted (btree_set xs)"
  by (simp add: btree_set_def)

lemma btree_set_cong: "set xs = set ys \<Longrightarrow> btree_set xs = btree_set ys"
  by (intro sorted_distinct_set_unique) auto

lemma relax_spec:
  assumes "\<forall>o' \<in> set ns. \<exists>n. map_of indeg o' = Some n \<and> count_list ns o' \<le> n"
    and "sorted queue" and "distinct queue"
  shows "\<exists>indeg' queue'. relax ns indeg queue = Some (indeg', queue')
     \<and> (\<forall>o'. map_of indeg' o' = map_option (\<lambda>n. n - count_list ns o') (map_of indeg o'))
     \<and> set queue' = set queue \<union> {o' \<in> set ns. map_of indeg o' = Some (count_list ns o')}
     \<and> sorted queue' \<and> distinct queue'"
  using assms
proof (induction ns arbitrary: indeg queue)
  case Nil
  then show ?case by (simp add: option.map_ident)
next
  case (Cons x ns)
  from Cons.prems(1) obtain n where n: "map_of indeg x = Some (Suc n)" "count_list ns x \<le> n"
    by (auto simp: Suc_le_eq elim: less_natE)
  let ?indeg = "AList.update x n indeg"
  let ?q = "if n = 0 then insort_insert x queue else queue"
  have "\<forall>o' \<in> set ns. \<exists>m. map_of ?indeg o' = Some m \<and> count_list ns o' \<le> m"
    using Cons.prems(1) n by (auto simp: AList.update_conv')
  moreover have "sorted ?q" "distinct ?q"
    using Cons.prems by (auto simp: sorted_insort_insert distinct_insort_insert)
  ultimately obtain indeg' queue' where r: "relax ns ?indeg ?q = Some (indeg', queue')"
      "\<forall>o'. map_of indeg' o' = map_option (\<lambda>n. n - count_list ns o') (map_of ?indeg o')"
      "set queue' = set ?q \<union> {o' \<in> set ns. map_of ?indeg o' = Some (count_list ns o')}"
      "sorted queue'" "distinct queue'"
    using Cons.IH by blast
  have "map_of indeg' o' = map_option (\<lambda>n. n - count_list (x # ns) o') (map_of indeg o')" for o'
    using r(2) n by (auto simp: AList.update_conv')
  moreover have "o' \<in> set queue' \<longleftrightarrow>
      o' \<in> set queue \<or> o' \<in> set (x # ns) \<and> map_of indeg o' = Some (count_list (x # ns) o')" for o'
  proof (cases "o' = x")
    case True
    have "x \<in> set ns \<longleftrightarrow> 0 < count_list ns x" by (metis count_list_0_iff neq0_conv)
    with True r(3) n show ?thesis by (auto simp: AList.update_conv' set_insort_insert)
  next
    case False
    with r(3) n show ?thesis by (simp add: AList.update_conv' set_insort_insert)
  qed
  then have "set queue' = set queue
      \<union> {o' \<in> set (x # ns). map_of indeg o' = Some (count_list (x # ns) o')}"
    by blast
  ultimately show ?case using r n by auto
qed

definition pending :: "work_item list \<Rightarrow> string list \<Rightarrow> string \<Rightarrow> nat" where
  "pending items order i = length (filter (\<lambda>d. d \<notin> set order) (open_deps items i))"

lemma pending_zero: "pending items order i = 0 \<longleftrightarrow> set (open_deps items i) \<subseteq> set order"
  by (auto simp: pending_def filter_empty_conv)

lemma length_filter_remove:
  "P x \<Longrightarrow> length (filter (\<lambda>d. P d \<and> d \<noteq> x) xs) + count_list xs x = length (filter P xs)"
  by (induction xs) auto

lemma pending_snoc:
  assumes "x \<notin> set order"
  shows "pending items (order @ [x]) i + count_list (open_deps items i) x = pending items order i"
  using length_filter_remove [of "\<lambda>d. d \<notin> set order" x "open_deps items i"] assms
  by (auto simp: pending_def conj_commute intro: arg_cong)

lemma count_concat_replicate:
  "distinct xs \<Longrightarrow> count_list (concat (map (\<lambda>i. map (\<lambda>_. i) (f i)) xs)) y
     = (if y \<in> set xs then length (f y) else 0)"
proof (induction xs)
  case Nil
  then show ?case by simp
next
  case (Cons x xs)
  have "count_list (map (\<lambda>_. x) ys) y = (if x = y then length ys else 0)" for ys :: "'b list"
    by (induction ys) auto
  with Cons show ?case by (auto simp: count_list_append)
qed

lemma length_filter_eq: "length (filter (\<lambda>e. e = d) xs) = count_list xs d"
  by (induction xs) auto

lemma count_rev_edges:
  "count_list (rev_edges items d) i
     = (if i \<in> set (open_ids items) then count_list (open_deps items i) d else 0)"
  unfolding rev_edges_def
  by (simp add: count_concat_replicate open_ids_def length_filter_eq)

definition topological :: "work_item list \<Rightarrow> string list \<Rightarrow> bool" where
  "topological items order \<longleftrightarrow>
     (\<forall>pre i post. order = pre @ i # post \<longrightarrow> set (open_deps items i) \<subseteq> set pre)"

definition kahn_inv :: "work_item list \<Rightarrow> (string \<times> nat) list \<Rightarrow> string list \<Rightarrow> string list \<Rightarrow> bool" where
  "kahn_inv items indeg queue order \<longleftrightarrow>
     distinct (order @ queue) \<and> sorted queue \<and> topological items order \<and>
     (\<forall>i. map_of indeg i = (if i \<in> set (open_ids items) then Some (pending items order i) else None)) \<and>
     set order \<union> set queue = {i \<in> set (open_ids items). pending items order i = 0}"

lemma topological_snoc:
  assumes "topological items order" and "set (open_deps items i) \<subseteq> set order"
  shows "topological items (order @ [i])"
  unfolding topological_def
proof (intro allI impI)
  fix pre x post
  assume eq: "order @ [i] = pre @ x # post"
  show "set (open_deps items x) \<subseteq> set pre"
  proof (cases post rule: rev_cases)
    case Nil
    with eq assms(2) show ?thesis by simp
  next
    case (snoc ys y)
    with eq have "order = pre @ x # ys" by simp
    with assms(1) show ?thesis by (auto simp: topological_def)
  qed
qed

lemma kahn_inv_init: "kahn_inv items (init_indeg items) (init_queue items) []"
  by (auto simp: kahn_inv_def topological_def init_indeg_def init_queue_def pending_def
        map_of_map_restrict image_iff intro!: exI)

lemma kahn_inv_step:
  assumes inv: "kahn_inv items indeg (i # queue) order"
  shows "\<exists>indeg' queue'. relax (rev_edges items i) indeg queue = Some (indeg', queue')
     \<and> kahn_inv items indeg' queue' (order @ [i])"
proof -
  let ?ns = "rev_edges items i"
  from inv have i: "i \<notin> set order" "i \<notin> set queue" "pending items order i = 0"
      "i \<in> set (open_ids items)"
    and q: "sorted queue" "distinct queue" "distinct order" "set order \<inter> set queue = {}"
    and topo: "topological items order"
    and ind: "\<And>o'. map_of indeg o' = (if o' \<in> set (open_ids items) then Some (pending items order o') else None)"
    and pop: "insert i (set order \<union> set queue) = {i \<in> set (open_ids items). pending items order i = 0}"
    by (auto simp: kahn_inv_def)
  have pend: "pending items order o' = pending items (order @ [i]) o' + count_list (open_deps items o') i" for o'
    by (rule pending_snoc [OF i(1), symmetric])
  have in_ns: "o' \<in> set ?ns \<longleftrightarrow> o' \<in> set (open_ids items) \<and> 0 < count_list (open_deps items o') i" for o'
    using count_rev_edges [of items i o'] by (metis count_list_0_iff neq0_conv)
  have le: "\<forall>o' \<in> set ?ns. \<exists>n. map_of indeg o' = Some n \<and> count_list ?ns o' \<le> n"
    using ind by (auto simp: count_rev_edges in_ns pend)
  from relax_spec [OF le q(1,2)] obtain indeg' queue'
    where r: "relax ?ns indeg queue = Some (indeg', queue')"
      and m: "\<And>o'. map_of indeg' o' = map_option (\<lambda>n. n - count_list ?ns o') (map_of indeg o')"
      and s: "set queue' = set queue \<union> {o' \<in> set ?ns. map_of indeg o' = Some (count_list ?ns o')}"
      and sd: "sorted queue'" "distinct queue'" by blast
  have ind': "map_of indeg' o' = (if o' \<in> set (open_ids items) then Some (pending items (order @ [i]) o') else None)" for o'
    using m [of o'] ind [of o'] by (auto simp: count_rev_edges pend)
  have fresh: "{o' \<in> set ?ns. map_of indeg o' = Some (count_list ?ns o')}
      = {o' \<in> set (open_ids items). 0 < pending items order o' \<and> pending items (order @ [i]) o' = 0}"
    by (auto simp: in_ns ind count_rev_edges pend)
  have "set (order @ [i]) \<union> set queue' = insert i (set order \<union> set queue)
      \<union> {o' \<in> set (open_ids items). 0 < pending items order o' \<and> pending items (order @ [i]) o' = 0}"
    unfolding s fresh by auto
  also have "\<dots> = {o' \<in> set (open_ids items). pending items (order @ [i]) o' = 0}"
    unfolding pop by (auto simp: pend)
  finally have "set (order @ [i]) \<union> set queue' = {o' \<in> set (open_ids items). pending items (order @ [i]) o' = 0}" .
  moreover have "distinct ((order @ [i]) @ queue')"
    using pop i q s fresh sd by auto
  moreover have "topological items (order @ [i])"
    using topo i(3) by (simp add: topological_snoc pending_zero)
  ultimately have "kahn_inv items indeg' queue' (order @ [i])"
    using sd ind' by (simp add: kahn_inv_def)
  with r show ?thesis by blast
qed

lemma kahn_correct:
  "kahn_inv items indeg queue order \<Longrightarrow>
     \<exists>order'. kahn (rev_edges items) indeg queue order = Some order' \<and> (\<exists>indeg'. kahn_inv items indeg' [] order')"
proof (induction "rev_edges items" indeg queue order rule: kahn.induct)
  case (1 indeg order)
  then show ?case by auto
next
  case (2 indeg i queue order)
  from kahn_inv_step [OF 2(2)] obtain indeg' queue' where
    "relax (rev_edges items i) indeg queue = Some (indeg', queue')"
    "kahn_inv items indeg' queue' (order @ [i])" by blast
  with 2(1) show ?case by simp
qed

lemma topo_order_correct:
  obtains order where "topo_order items = Some order" and "distinct order"
    and "topological items order"
    and "set order = {i \<in> set (open_ids items). set (open_deps items i) \<subseteq> set order}"
  using kahn_correct [OF kahn_inv_init, of items]
  by (auto simp: topo_order_def kahn_inv_def pending_zero)

section \<open>The ledger as a whole\<close>

text \<open>
  The ledger is read from a table whose primary key is the id, so the ids of the rows are
  distinct.
\<close>

abbreviation keyed :: "work_item list \<Rightarrow> bool" where
  "keyed items \<equiv> distinct (map wi_id items)"

lemma by_id_Some:
  assumes "keyed items"
  shows "by_id items k = Some i \<longleftrightarrow> i \<in> set items \<and> wi_id i = k"
proof -
  have "distinct (map fst (rev (map (\<lambda>i. (wi_id i, i)) items)))"
    using assms by (simp add: rev_map [symmetric] comp_def)
  from map_of_eq_Some_iff [OF this] show ?thesis by (auto simp: by_id_def)
qed

lemma by_id_self [simp]: "keyed items \<Longrightarrow> i \<in> set items \<Longrightarrow> by_id items (wi_id i) = Some i"
  by (simp add: by_id_Some)

lemma by_id_None: "by_id items k = None \<longleftrightarrow> k \<notin> wi_id ` set items"
  by (force simp: by_id_def map_of_eq_None_iff)

lemma set_open_ids: "set (open_ids items) = wi_id ` {i \<in> set items. state i \<noteq> CLOSED}"
  by (auto simp: open_ids_def)

lemma in_open_ids:
  "keyed items \<Longrightarrow> i \<in> set items \<Longrightarrow> wi_id i \<in> set (open_ids items) \<longleftrightarrow> state i \<noteq> CLOSED"
  by (auto simp: set_open_ids dest!: inj_onD [OF distinct_map [THEN iffD1, THEN conjunct2]])

lemma mset_open_items:
  assumes "keyed items" and "distinct order" and "set order \<subseteq> set (open_ids items)"
  shows "mset (map (\<lambda>i. the (by_id items i)) (order @ in_cycle_ids items order))
     = mset (filter (\<lambda>i. state i \<noteq> CLOSED) items)"
proof -
  let ?o = "filter (\<lambda>i. state i \<noteq> CLOSED) items"
  have "distinct (order @ in_cycle_ids items order)"
    using assms(2) by (auto simp: in_cycle_ids_def open_ids_def)
  moreover have "distinct (map wi_id ?o)"
    using assms(1) by (simp add: distinct_map_filter)
  moreover have "set (order @ in_cycle_ids items order) = set (map wi_id ?o)"
    using assms(3) by (auto simp: in_cycle_ids_def set_open_ids)
  ultimately have "mset (order @ in_cycle_ids items order) = mset (map wi_id ?o)"
    using set_eq_iff_mset_eq_distinct by blast
  then have "mset (map (\<lambda>i. the (by_id items i)) (order @ in_cycle_ids items order))
      = mset (map (\<lambda>i. the (by_id items i)) (map wi_id ?o))"
    by (metis mset_map)
  also have "map (\<lambda>i. the (by_id items i)) (map wi_id ?o) = ?o"
    using assms(1) by (auto intro!: map_idI)
  finally show ?thesis .
qed

lemma mset_ledger_order:
  assumes "keyed items" and "distinct order" and "set order \<subseteq> set (open_ids items)"
  shows "mset (ledger_order items order) = mset items"
proof -
  have "mset (ledger_order items order)
      = mset (map (\<lambda>i. the (by_id items i)) (order @ in_cycle_ids items order))
        + mset (filter (\<lambda>i. state i = CLOSED) items)"
    by (simp add: ledger_order_def Let_def ac_simps del: mset_map mset_filter)
       (simp add: multiset_partition [symmetric])
  then show ?thesis
    unfolding mset_open_items [OF assms] by (simp add: multiset_partition [symmetric] ac_simps)
qed

lemma statusE:
  assumes "keyed items"
  obtains order where "status items =
      Some (map (\<lambda>i. (i, readiness_of items (in_cycle_ids items order) i)) (ledger_order items order))"
    and "topological items order" and "distinct order"
    and "set order = {i \<in> set (open_ids items). set (open_deps items i) \<subseteq> set order}"
    and "mset (ledger_order items order) = mset items"
proof -
  obtain order where order: "topo_order items = Some order" "distinct order"
    "topological items order"
    "set order = {i \<in> set (open_ids items). set (open_deps items i) \<subseteq> set order}"
    by (rule topo_order_correct)
  from order(4) have "set order \<subseteq> set (open_ids items)" by blast
  with order mset_ledger_order [OF assms order(2)] show thesis
    by (intro that [of order]) (simp_all add: status_def)
qed

lemma in_status:
  assumes "status items =
      Some (map (\<lambda>i. (i, readiness_of items (in_cycle_ids items order) i)) (ledger_order items order))"
    and "mset (ledger_order items order) = mset items"
  shows "(i, r) \<in> set (the (status items)) \<longleftrightarrow>
    i \<in> set items \<and> r = readiness_of items (in_cycle_ids items order) i"
  using assms(1) mset_eq_setD [OF assms(2)] by auto

text \<open>A row for concrete instances, the rest of its fields empty.\<close>

definition sample_item :: "string \<Rightarrow> string \<Rightarrow> string list \<Rightarrow> work_item" where
  "sample_item i st ds =
     \<lparr>wi_id = i, wi_channel = ''personal'', project_id = None, title = i, body = [], state = st,
      priority = 0, deps = ds, discovered_from = None, discovered_by_session = None,
      discovered_by_lane = None, phase_plan_slug = None, closed_by_session = None,
      created_ms = 0, updated_ms = 0\<rparr>"

text \<open>
  \<open>status\<close> never panics: its two fallible steps (an id missing from the in-degree
  table, a count decremented below zero) are never reached, the loop ends, and the result
  lists every row of the ledger exactly once.
\<close>

theorem status_total:
  assumes "keyed items"
  shows "\<exists>st. status items = Some st \<and> mset (map fst st) = mset items"
  using assms by (auto elim!: statusE simp: comp_def multiset.map_comp)

theorem status_total_witness:
  "\<exists>st. status [sample_item ''x'' ''open'' [''x''], sample_item ''a'' ''closed'' []] = Some st
    \<and> length st = 2"
proof -
  let ?items = "[sample_item ''x'' ''open'' [''x''], sample_item ''a'' ''closed'' []]"
  obtain st where st: "status ?items = Some st" "mset (map fst st) = mset ?items"
    using status_total [of ?items] by (auto simp: sample_item_def)
  from mset_eq_length [OF st(2)] st(1) show ?thesis by simp
qed

lemma blockers_Nil:
  assumes "keyed items"
  shows "blockers items i = [] \<longleftrightarrow>
    (\<forall>d \<in> set (deps i). \<exists>j \<in> set items. wi_id j = d \<and> state j = CLOSED)"
proof -
  have "(case by_id items d of Some dep \<Rightarrow> if state dep = CLOSED then [] else [BOpen d]
          | None \<Rightarrow> [BUnknown d]) = [] \<longleftrightarrow> (\<exists>j \<in> set items. wi_id j = d \<and> state j = CLOSED)" for d
    using by_id_Some [OF assms, of d] by (cases "by_id items d") (auto, metis)
  then show ?thesis by (simp add: blockers_def)
qed

lemma BCycle_not_blocker: "BCycle \<notin> set (blockers items i)"
  by (auto simp: blockers_def split: option.splits if_splits)

lemma open_deps_closed:
  assumes "keyed items" and "i \<in> set items"
    and "\<forall>d \<in> set (deps i). \<exists>j \<in> set items. wi_id j = d \<and> state j = CLOSED"
  shows "open_deps items (wi_id i) = []"
  using assms in_open_ids [OF assms(1)] by (auto simp: open_deps_def filter_empty_conv)

text \<open>
  C35: An item is \<open>Ready\<close> exactly when it is open and every id it waits on is a row of the
  ledger that is closed. In particular an item that waits on an id the replica has never
  seen is not ready.
\<close>

theorem ready_iff_deps_closed:
  assumes "keyed items"
  shows "(i, Ready) \<in> set (the (status items)) \<longleftrightarrow>
    i \<in> set items \<and> state i \<noteq> CLOSED \<and>
    (\<forall>d \<in> set (deps i). \<exists>j \<in> set items. wi_id j = d \<and> state j = CLOSED)"
proof -
  obtain order where st: "status items =
      Some (map (\<lambda>i. (i, readiness_of items (in_cycle_ids items order) i)) (ledger_order items order))"
    and order: "set order = {i \<in> set (open_ids items). set (open_deps items i) \<subseteq> set order}"
    and m: "mset (ledger_order items order) = mset items"
    using assms by (rule statusE)
  have "wi_id i \<notin> set (in_cycle_ids items order)"
    if "i \<in> set items" "\<forall>d \<in> set (deps i). \<exists>j \<in> set items. wi_id j = d \<and> state j = CLOSED"
    using open_deps_closed [OF assms that] order by (auto simp: in_cycle_ids_def)
  then show ?thesis
    by (auto simp: in_status [OF st m] readiness_of_def Let_def blockers_Nil [OF assms] split: if_splits)
qed

subsection \<open>Cycles\<close>

text \<open>One open item waits on another: the edges of the open subgraph.\<close>

definition waits_on :: "work_item list \<Rightarrow> (string \<times> string) set" where
  "waits_on items = {(i, d). i \<in> set (open_ids items) \<and> d \<in> set (open_deps items i)}"

lemma waits_on_open: "(i, d) \<in> waits_on items \<Longrightarrow> d \<in> set (open_ids items)"
  by (auto simp: waits_on_def open_deps_def)

lemma finite_waits_on: "finite (waits_on items)"
  by (rule finite_subset [of _ "set (open_ids items) \<times> set (open_ids items)"])
     (auto dest: waits_on_open, auto simp: waits_on_def)

text \<open>What a topological order lists waits only on what it lists earlier.\<close>

lemma topological_trancl:
  assumes "topological items order" and "(i, d) \<in> (waits_on items)\<^sup>+" and "order = pre @ i # post"
  shows "d \<in> set pre"
  using assms(2)
proof (induction rule: trancl_induct)
  case (base y)
  with assms(1,3) show ?case by (auto simp: topological_def waits_on_def)
next
  case (step y z)
  then obtain p1 p2 where "pre = p1 @ y # p2" by (meson split_list)
  with assms(3) have "order = p1 @ y # (p2 @ i # post)" by simp
  with assms(1) step.hyps(2) have "z \<in> set p1" by (auto simp: topological_def waits_on_def)
  with \<open>pre = p1 @ y # p2\<close> show ?case by simp
qed

lemma topological_no_cycle:
  assumes "topological items order" and "distinct order" and "i \<in> set order"
    and "(i, c) \<in> (waits_on items)\<^sup>*"
  shows "(c, c) \<notin> (waits_on items)\<^sup>+"
proof
  assume cyc: "(c, c) \<in> (waits_on items)\<^sup>+"
  from assms(3) obtain pre post where split: "order = pre @ i # post" by (meson split_list)
  have "c \<in> set order"
    using assms(4) split topological_trancl [OF assms(1) _ split]
    by (auto simp: rtrancl_eq_or_trancl)
  then obtain p1 p2 where "order = p1 @ c # p2" by (meson split_list)
  with topological_trancl [OF assms(1) cyc] assms(2) show False by auto
qed

text \<open>Where every element of a finite set has a successor in it, a cycle is reached.\<close>

lemma cycle_reached:
  assumes "finite r" and "i \<in> R" and "\<And>x. x \<in> R \<Longrightarrow> \<exists>y \<in> R. (x, y) \<in> r"
  shows "\<exists>c. (i, c) \<in> r\<^sup>* \<and> (c, c) \<in> r\<^sup>+"
proof (rule ccontr)
  assume no: "\<not> ?thesis"
  let ?S = "{x \<in> R. (i, x) \<in> r\<^sup>*}"
  let ?q = "r \<inter> ?S \<times> ?S"
  have "acyclic ?q"
  proof (rule acyclicI, intro allI notI)
    fix x assume loop: "(x, x) \<in> ?q\<^sup>+"
    then have "x \<in> ?S" by (meson IntD2 SigmaD1 tranclD)
    moreover from loop have "(x, x) \<in> r\<^sup>+" by (rule trancl_mono) blast
    ultimately show False using no by blast
  qed
  then have "wf (?q\<inverse>)" using assms(1) by (intro finite_acyclic_wf_converse) auto
  moreover have "i \<in> ?S" using assms(2) by simp
  ultimately obtain m where m: "m \<in> ?S" "\<And>y. (y, m) \<in> ?q\<inverse> \<Longrightarrow> y \<notin> ?S"
    by (rule wfE_min) blast
  from m(1) assms(3) obtain y where "y \<in> R" "(m, y) \<in> r" by blast
  with m show False by (auto intro: rtrancl_into_rtrancl)
qed

text \<open>
  An item is reported as blocked by a cycle exactly when it is open and, following the
  open items it waits on, one reaches an item that waits on itself. No other item is
  reported so, and no such item is missed.
\<close>

theorem cycle_iff_reaches_cycle:
  assumes "keyed items"
  shows "(i, Blocked [BCycle]) \<in> set (the (status items)) \<longleftrightarrow>
    i \<in> set items \<and> state i \<noteq> CLOSED \<and>
    (\<exists>c. (wi_id i, c) \<in> (waits_on items)\<^sup>* \<and> (c, c) \<in> (waits_on items)\<^sup>+)"
proof -
  obtain order where st: "status items =
      Some (map (\<lambda>i. (i, readiness_of items (in_cycle_ids items order) i)) (ledger_order items order))"
    and topo: "topological items order" "distinct order"
    and order: "set order = {i \<in> set (open_ids items). set (open_deps items i) \<subseteq> set order}"
    and m: "mset (ledger_order items order) = mset items"
    using assms by (rule statusE)
  have stuck: "\<exists>y \<in> set (in_cycle_ids items order). (x, y) \<in> waits_on items"
    if "x \<in> set (in_cycle_ids items order)" for x
    using that order by (auto simp: in_cycle_ids_def waits_on_def open_deps_def)
  have "wi_id i \<in> set (in_cycle_ids items order) \<longleftrightarrow>
      (\<exists>c. (wi_id i, c) \<in> (waits_on items)\<^sup>* \<and> (c, c) \<in> (waits_on items)\<^sup>+)"
    if "i \<in> set items" "state i \<noteq> CLOSED"
    using cycle_reached [OF finite_waits_on _ stuck] topological_no_cycle [OF topo, of "wi_id i"]
      in_open_ids [OF assms that(1)] that(2) by (auto simp: in_cycle_ids_def)
  then show ?thesis
    using BCycle_not_blocker [of items i]
    by (auto simp: in_status [OF st m] readiness_of_def Let_def split: if_splits)
       (metis list.set_intros(1))
qed

theorem ready_iff_deps_closed_witness:
  "(sample_item ''b'' ''open'' [''a''], Ready) \<in> set (the (status
     [sample_item ''a'' ''closed'' [], sample_item ''b'' ''open'' [''a'']]))"
  using ready_iff_deps_closed [of "[sample_item ''a'' ''closed'' [], sample_item ''b'' ''open'' [''a'']]"
      "sample_item ''b'' ''open'' [''a'']"]
  by (simp add: sample_item_def CLOSED_def)

theorem cycle_iff_reaches_cycle_witness:
  "(sample_item ''z'' ''open'' [''x''], Blocked [BCycle]) \<in> set (the (status
     [sample_item ''x'' ''open'' [''x''], sample_item ''z'' ''open'' [''x'']]))"
proof -
  let ?items = "[sample_item ''x'' ''open'' [''x''], sample_item ''z'' ''open'' [''x'']]"
  have "(''z'', ''x'') \<in> waits_on ?items" "(''x'', ''x'') \<in> waits_on ?items"
    by (simp_all add: waits_on_def open_deps_def open_ids_def by_id_def sample_item_def CLOSED_def)
  then show ?thesis
    using cycle_iff_reaches_cycle [of ?items "sample_item ''z'' ''open'' [''x'']"]
    by (auto simp: sample_item_def CLOSED_def)
qed

section \<open>One order for every replica\<close>

lemma by_id_perm:
  assumes "keyed items" and "mset items = mset items'"
  shows "by_id items = by_id items'"
proof
  fix k
  have "keyed items'" using assms by (metis mset_eq_imp_distinct_iff mset_map)
  with by_id_Some [OF assms(1)] by_id_Some [of items'] mset_eq_setD [OF assms(2)]
  show "by_id items k = by_id items' k" by (metis option.exhaust)
qed

text \<open>
  Two replicas that hold the same rows compute the same list, whatever order their
  databases return the rows in: \<open>status\<close> of a permutation of the ledger is the same value.
\<close>

theorem status_order_independent:
  assumes "keyed items" and "mset items = mset items'"
  shows "status items = status items'"
proof -
  note eq = by_id_perm [OF assms] mset_eq_setD [OF assms(2)]
  have open_eq: "open_ids items = open_ids items'"
    unfolding open_ids_def by (rule btree_set_cong) (simp add: eq(2))
  then have deps_eq: "open_deps items = open_deps items'"
    by (simp add: open_deps_def fun_eq_iff eq(1))
  then have "rev_edges items = rev_edges items'"
    by (simp add: rev_edges_def fun_eq_iff open_eq)
  then have "topo_order items = topo_order items'"
    by (simp add: topo_order_def init_indeg_def init_queue_def open_eq deps_eq)
  moreover have ready_eq: "readiness_of items = readiness_of items'"
    by (simp add: readiness_of_def blockers_def fun_eq_iff eq(1))
  moreover have "sort_key closed_key (filter (\<lambda>i. state i = CLOSED) items)
      = sort_key closed_key (filter (\<lambda>i. state i = CLOSED) items')"
  proof (rule sort_key_inj_key_eq)
    show "inj_on closed_key (set (filter (\<lambda>i. state i = CLOSED) items))"
      using assms(1) by (auto simp: closed_key_def distinct_map intro!: inj_onI dest: inj_onD)
  qed (simp_all add: assms(2))
  ultimately show ?thesis
    by (simp add: status_def ledger_order_def in_cycle_ids_def open_eq eq(1))
qed

theorem status_order_independent_witness:
  "status [sample_item ''a'' ''open'' [''b''], sample_item ''b'' ''open'' []]
     = status [sample_item ''b'' ''open'' [], sample_item ''a'' ''open'' [''b'']]"
  by (rule status_order_independent) (simp_all add: sample_item_def)

lemma filter_map_pair: "map fst (filter (\<lambda>(i, r). P r) (map (\<lambda>i. (i, f i)) xs)) = filter (\<lambda>i. P (f i)) xs"
  by (induction xs) auto

text \<open>
  \<open>ready\<close> lists the ready items and no others, each once, in the order the ledger
  promises: higher priority first, then the older one, then by id.
\<close>

theorem ready_sorted:
  assumes "keyed items"
  shows "\<exists>rs. ready items = Some rs \<and> distinct rs \<and> sorted (map ready_key rs)
    \<and> set rs = {i. (i, Ready) \<in> set (the (status items))}"
proof -
  obtain order where st: "status items =
      Some (map (\<lambda>i. (i, readiness_of items (in_cycle_ids items order) i)) (ledger_order items order))"
    and m: "mset (ledger_order items order) = mset items"
    using assms by (rule statusE)
  let ?r = "readiness_of items (in_cycle_ids items order)"
  let ?ready = "filter (\<lambda>i. ?r i = Ready) (map (\<lambda>i. the (by_id items i)) order)"
  have open_not: "?r (the (by_id items i)) \<noteq> Ready" if "i \<in> set (in_cycle_ids items order)" for i
  proof -
    from that obtain j where "j \<in> set items" "wi_id j = i"
      by (auto simp: in_cycle_ids_def set_open_ids)
    with that assms show ?thesis by (auto simp: readiness_of_def)
  qed
  have closed_not: "?r i \<noteq> Ready" if "state i = CLOSED" for i
    using that by (simp add: readiness_of_def)
  have "filter (\<lambda>i. ?r i = Ready) (ledger_order items order) = sort_key ready_key ?ready"
    using open_not closed_not by (simp add: ledger_order_def Let_def filter_empty_conv filter_sort)
  then have rs: "ready items = Some (sort_key ready_key ?ready)"
    by (simp add: ready_def st filter_map_pair [where P = "\<lambda>r. r = Ready"])
  have "distinct (ledger_order items order)"
    using m assms by (metis distinct_map mset_eq_imp_distinct_iff)
  then have "distinct (filter (\<lambda>i. ?r i = Ready) (ledger_order items order))"
    by (rule distinct_filter)
  then have dist: "distinct (sort_key ready_key ?ready)"
    using \<open>filter _ (ledger_order items order) = _\<close> by simp
  have "set (sort_key ready_key ?ready) = {i. (i, Ready) \<in> set (the (status items))}"
    unfolding \<open>filter _ (ledger_order items order) = _\<close> [symmetric] by (auto simp: st)
  with rs dist show ?thesis by (metis sorted_sort_key)
qed

theorem ready_sorted_witness:
  "\<exists>rs. ready [sample_item ''b'' ''open'' [], sample_item ''a'' ''open'' []] = Some rs
     \<and> sorted (map ready_key rs)"
  using ready_sorted [of "[sample_item ''b'' ''open'' [], sample_item ''a'' ''open'' []]"]
  by (auto simp: sample_item_def)

end
