(* ===== verification/Json.thy ===== *)
theory Json
  imports Prelude
begin

text \<open>
  \<open>serde_json::Value\<close>, which the replicated rows, the tool arguments and the provider
  messages are made of. Writing and reading its text is serde_json's, a parameter where the
  code uses it. A double is its bit pattern.
\<close>

type_synonym f64 = nat

text \<open>
  A number is an integer (of \<open>i64\<close> or \<open>u64\<close>) or a double. An object's entries are in the
  order of \<open>serde_json::Map\<close>; a lookup finds the one entry of a key.
\<close>

datatype json = JNull | JBool bool | JInt int | JFloat f64 | JStr string
  | JArr "json list" | JObj "(string \<times> json) list"

fun jget :: "json \<Rightarrow> string \<Rightarrow> json option" where
  "jget (JObj kvs) k = map_of kvs k"
| "jget _ k = None"

text \<open>Indexing a value, \<open>v["k"]\<close>: an absent member reads as \<open>null\<close>.\<close>

definition jindex :: "json \<Rightarrow> string \<Rightarrow> json" where
  "jindex v k = (case jget v k of Some x \<Rightarrow> x | None \<Rightarrow> JNull)"

fun as_str :: "json \<Rightarrow> string option" where
  "as_str (JStr s) = Some s"
| "as_str _ = None"

fun as_object :: "json \<Rightarrow> (string \<times> json) list option" where
  "as_object (JObj kvs) = Some kvs"
| "as_object _ = None"

text \<open>\<open>Map::insert\<close>: the entries are in the order of their keys.\<close>

fun jput :: "string \<Rightarrow> json \<Rightarrow> (string \<times> json) list \<Rightarrow> (string \<times> json) list" where
  "jput k v [] = [(k, v)]"
| "jput k v ((k', v') # kvs) =
     (if k = k' then (k, v) # kvs
      else if k < k' then (k, v) # (k', v') # kvs
      else (k', v') # jput k v kvs)"

lemma map_of_jput_same [simp]: "map_of (jput k v kvs) k = Some v"
  by (induction kvs) (auto split: if_splits)

lemma map_of_jput_other [simp]: "k' \<noteq> k \<Longrightarrow> map_of (jput k v kvs) k' = map_of kvs k'"
  by (induction kvs) (auto split: if_splits)

text \<open>An entry of an object is smaller than the object.\<close>

lemma size_entry: "(k, v) \<in> set kvs \<Longrightarrow> size v < size (JObj kvs)"
  by (induction kvs) auto

lemma size_item: "v \<in> set xs \<Longrightarrow> size v < size (JArr xs)"
  by (induction xs) auto

end
