(* ===== verification/Hlc.thy ===== *)
theory Hlc
  imports Prelude
begin

text \<open>
  The hybrid logical clock of \<^verbatim>\<open>src/sync/src/hlc.rs\<close>: the state \<open>Hlc\<close>, its two steps
  \<open>tick\<close> (a local write) and \<open>observe\<close> (a stamp received from another site), and the
  successor \<open>bump\<close>. A step that runs out of stamps returns \<^const>\<open>None\<close> and leaves the
  clock as it was, as the early return of \<open>?\<close> does. Loading and storing the clock's row
  is part of the database model (theory \<open>Sync_Apply\<close>).

  The lemmas show that every stamp a site issues is greater than every stamp it issued or
  saw before, whatever the wall clock does, and exactly when a step is refused.
\<close>

section \<open>The clock\<close>

type_synonym stamp = "int \<times> nat"

record hlc =
  last_ms :: int
  last_ctr :: nat

definition hlc_stamp :: "hlc \<Rightarrow> stamp" where
  "hlc_stamp h = (last_ms h, last_ctr h)"

definition set_stamp :: "hlc \<Rightarrow> stamp \<Rightarrow> hlc" where
  "set_stamp h s = h\<lparr>last_ms := fst s, last_ctr := snd s\<rparr>"

definition bump :: "int \<Rightarrow> nat \<Rightarrow> stamp option" where
  "bump ms ctr =
     (case u32_checked_add ctr 1 of
        Some nxt \<Rightarrow> if \<not> (ms = i64_max \<and> nxt = u32_max) then Some (ms, nxt) else None
      | None \<Rightarrow> map_option (\<lambda>next_ms. (next_ms, 0)) (i64_checked_add ms 1))"

text \<open>The clock after a step, and what the step returns.\<close>

definition commit :: "hlc \<Rightarrow> stamp option \<Rightarrow> hlc \<times> stamp option" where
  "commit h r = (case r of None \<Rightarrow> (h, None) | Some s \<Rightarrow> (set_stamp h s, Some s))"

definition tick :: "hlc \<Rightarrow> int \<Rightarrow> hlc \<times> stamp option" where
  "tick h now_ms =
     commit h (if now_ms > last_ms h then Some (now_ms, 0)
               else bump (last_ms h) (last_ctr h))"

definition observe :: "hlc \<Rightarrow> int \<Rightarrow> stamp \<Rightarrow> hlc \<times> stamp option" where
  "observe h now_ms remote =
     (let (rms, rctr) = remote in
      commit h (if now_ms > last_ms h \<and> now_ms > rms then Some (now_ms, 0)
                else if rms > last_ms h then bump rms rctr
                else if rms = last_ms h then bump (last_ms h) (max (last_ctr h) rctr)
                else bump (last_ms h) (last_ctr h)))"

section \<open>The successor of a stamp\<close>

text \<open>A stamp the wire and the table can carry: an \<open>i64\<close> and a \<open>u32\<close>.\<close>

definition wf_stamp :: "stamp \<Rightarrow> bool" where
  "wf_stamp s \<longleftrightarrow> is_i64 (fst s) \<and> is_u32 (snd s)"

definition max_stamp :: stamp where
  "max_stamp = (i64_max, u32_max)"

lemma bump_greater: "bump ms ctr = Some s \<Longrightarrow> (ms, ctr) < s"
  by (auto simp: bump_def u32_checked_add_def i64_checked_add_def split: if_splits)

lemma bump_wf: "wf_stamp (ms, ctr) \<Longrightarrow> bump ms ctr = Some s \<Longrightarrow> wf_stamp s \<and> s \<noteq> max_stamp"
  by (auto simp: bump_def u32_checked_add_def i64_checked_add_def wf_stamp_def is_i64_def
        is_u32_def max_stamp_def split: if_splits)

lemma bump_None:
  assumes "wf_stamp (ms, ctr)"
  shows "bump ms ctr = None \<longleftrightarrow> ms = i64_max \<and> u32_max \<le> ctr + 1"
  using assms
  by (auto simp: bump_def u32_checked_add_def i64_checked_add_def wf_stamp_def is_i64_def
        is_u32_def split: if_splits)

text \<open>Between a stamp and its successor there is no other stamp of the type.\<close>

lemma bump_least:
  assumes "bump ms ctr = Some s" and "wf_stamp t" and "(ms, ctr) < t"
  shows "s \<le> t"
  using assms
  by (cases t) (auto simp: bump_def u32_checked_add_def i64_checked_add_def wf_stamp_def
        is_u32_def split: if_splits)

section \<open>Steps of the clock\<close>

lemma hlc_stamp_set_stamp [simp]: "hlc_stamp (set_stamp h s) = s"
  by (simp add: hlc_stamp_def set_stamp_def)

lemma commit_simps [simp]:
  "commit h None = (h, None)"
  "commit h (Some s) = (set_stamp h s, Some s)"
  by (simp_all add: commit_def)

lemma commit_Some: "commit h r = (h', Some s) \<longleftrightarrow> r = Some s \<and> h' = set_stamp h s"
  by (auto simp: commit_def split: option.splits)

lemma commit_None: "commit h r = (h', None) \<longleftrightarrow> r = None \<and> h' = h"
  by (auto simp: commit_def split: option.splits)

text \<open>A step that returns a stamp leaves the clock at that stamp; one that does not leaves
  the clock alone.\<close>

lemma tick_Some: "tick h now = (h', Some s) \<Longrightarrow> hlc_stamp h' = s \<and> hlc_stamp h < s"
  by (auto simp: tick_def commit_Some hlc_stamp_def dest!: bump_greater split: if_splits)
     (simp_all add: set_stamp_def)

lemma tick_None: "tick h now = (h', None) \<Longrightarrow> h' = h"
  by (simp add: tick_def commit_None)

lemma observe_Some:
  assumes "observe h now r = (h', Some s)"
  shows "hlc_stamp h' = s \<and> hlc_stamp h < s \<and> r < s"
  using assms
  by (cases r; cases s) (auto simp: observe_def commit_Some hlc_stamp_def set_stamp_def max_def
        dest!: bump_greater split: if_splits)

lemma observe_None: "observe h now r = (h', None) \<Longrightarrow> h' = h"
  by (cases r) (simp add: observe_def commit_None)

section \<open>Runs of a site\<close>

text \<open>
  A site's clock is driven by two kinds of event, each at some reading of its wall clock:
  a local write and a stamp that arrived. \<open>run\<close> is the clock after a list of events and
  the stamps it returned, in order.
\<close>

datatype clock_event = LocalWrite int | Received int stamp

fun clock_step :: "hlc \<Rightarrow> clock_event \<Rightarrow> hlc \<times> stamp option" where
  "clock_step h (LocalWrite now) = tick h now"
| "clock_step h (Received now r) = observe h now r"

fun run :: "hlc \<Rightarrow> clock_event list \<Rightarrow> hlc \<times> stamp list" where
  "run h [] = (h, [])"
| "run h (e # es) =
     (let (h1, r) = clock_step h e; (h2, ss) = run h1 es
      in (h2, (case r of None \<Rightarrow> ss | Some s \<Rightarrow> s # ss)))"

lemma clock_step_cases:
  assumes "clock_step h e = (h', r)"
  shows "(r = None \<and> h' = h) \<or> (\<exists>s. r = Some s \<and> hlc_stamp h' = s \<and> hlc_stamp h < s)"
  using assms by (cases e; cases r) (auto dest: tick_Some tick_None observe_Some observe_None)

lemma run_sorted:
  "run h es = (h', ss) \<Longrightarrow>
     sorted_wrt (<) (hlc_stamp h # ss) \<and> hlc_stamp h' = last (hlc_stamp h # ss)"
proof (induction es arbitrary: h h' ss)
  case Nil
  then show ?case by simp
next
  case (Cons e es)
  obtain h1 r where step: "clock_step h e = (h1, r)" by (cases "clock_step h e")
  obtain h2 ss1 where rest: "run h1 es = (h2, ss1)" by (cases "run h1 es")
  from Cons.IH [OF rest] have IH: "sorted_wrt (<) (hlc_stamp h1 # ss1)"
    "hlc_stamp h2 = last (hlc_stamp h1 # ss1)" by auto
  have run: "h' = h2" "ss = (case r of None \<Rightarrow> ss1 | Some s \<Rightarrow> s # ss1)"
    using Cons.prems step rest by auto
  from clock_step_cases [OF step] show ?case
  proof
    assume "r = None \<and> h1 = h"
    with run IH show ?thesis by simp
  next
    assume "\<exists>s. r = Some s \<and> hlc_stamp h1 = s \<and> hlc_stamp h < s"
    then obtain s where s: "r = Some s" "hlc_stamp h1 = s" "hlc_stamp h < s" by blast
    have "\<forall>x \<in> set ss1. hlc_stamp h < x"
      using IH(1) s(2,3) by (auto intro: less_trans [OF s(3)])
    with run IH s show ?thesis by simp
  qed
qed

text \<open>
  C31: For every site, whatever its wall clock reads at each event (it may jump or run
  backwards), the stamps its clock returns for local writes and for received stamps are
  strictly increasing, and each is greater than the clock's stamp at the start. The clock
  ends at the last stamp it returned.
\<close>

theorem stamps_strictly_increase:
  "case run h es of (h', ss) \<Rightarrow>
     sorted_wrt (<) (hlc_stamp h # ss) \<and> hlc_stamp h' = last (hlc_stamp h # ss)"
  using run_sorted by (cases "run h es") blast

text \<open>
  A received stamp is never overtaken: after a site has taken in the stamp \<open>r\<close>, every
  later local write of the site, at any wall-clock reading and after any further events,
  carries a stamp greater than \<open>r\<close>.
\<close>

theorem observed_never_overtaken:
  assumes "observe h now r = (h1, Some s)"
    and "run h1 es = (h2, ss)"
    and "tick h2 later = (h3, Some w)"
  shows "r < w"
proof -
  from observe_Some [OF assms(1)] have "r < s" and h1: "hlc_stamp h1 = s" by auto
  from run_sorted [OF assms(2)] h1 have "s \<le> hlc_stamp h2"
    by (cases ss rule: rev_cases) auto
  also from tick_Some [OF assms(3)] have "hlc_stamp h2 < w" by simp
  finally show ?thesis using \<open>r < s\<close> by (rule less_trans [rotated])
qed

theorem observed_never_overtaken_witness:
  "(2000, 3) < ((2000, 5) :: stamp)"
  using observed_never_overtaken
    [of "\<lparr>last_ms = 500, last_ctr = 0\<rparr>" 400 "(2000, 3)" "\<lparr>last_ms = 2000, last_ctr = 4\<rparr>"
        "(2000, 4)" "[]" "\<lparr>last_ms = 2000, last_ctr = 4\<rparr>" "[]" 400
        "\<lparr>last_ms = 2000, last_ctr = 5\<rparr>" "(2000, 5)"]
  by (simp add: observe_def tick_def bump_def commit_def set_stamp_def u32_checked_add_def
        u32_max_def i64_max_def)

text \<open>
  C36: A local write is refused exactly when the clock has reached the last stamp it can
  issue and the wall clock is not ahead of it; the refusal leaves the clock unchanged. A
  stamp that is issued is one the \<open>i64\<close> and \<open>u32\<close> fields can carry, and never the
  largest such stamp.
\<close>

theorem tick_refuses_only_exhaustion:
  assumes "wf_stamp (hlc_stamp h)" and "is_i64 now"
  shows "case tick h now of
           (h', None) \<Rightarrow> h' = h \<and> now \<le> last_ms h \<and> last_ms h = i64_max \<and> u32_max \<le> last_ctr h + 1
         | (h', Some s) \<Rightarrow> \<not> (now \<le> last_ms h \<and> last_ms h = i64_max \<and> u32_max \<le> last_ctr h + 1)
             \<and> hlc_stamp h' = s \<and> wf_stamp s \<and> s \<noteq> max_stamp"
proof (cases "now > last_ms h")
  case True
  then show ?thesis using assms
    by (auto simp: tick_def wf_stamp_def is_u32_def max_stamp_def)
next
  case False
  from assms(1) have wf: "wf_stamp (last_ms h, last_ctr h)" by (simp add: hlc_stamp_def)
  show ?thesis
  proof (cases "bump (last_ms h) (last_ctr h)")
    case None
    with False bump_None [OF wf] show ?thesis by (simp add: tick_def)
  next
    case (Some s)
    with False bump_None [OF wf] bump_wf [OF wf Some] show ?thesis by (auto simp: tick_def)
  qed
qed

theorem tick_refuses_only_exhaustion_witness:
  "tick \<lparr>last_ms = 1000, last_ctr = u32_max\<rparr> 0
     = (\<lparr>last_ms = 1001, last_ctr = 0\<rparr>, Some (1001, 0)) \<and> (1001, 0) \<noteq> max_stamp"
  using tick_refuses_only_exhaustion [of "\<lparr>last_ms = 1000, last_ctr = u32_max\<rparr>" 0]
  by (simp add: tick_def bump_def commit_def set_stamp_def u32_checked_add_def hlc_stamp_def
        i64_checked_add_def wf_stamp_def is_i64_def is_u32_def i64_max_def i64_min_def)

end
