(* ===== verification/Sync_Schema.thy ===== *)
theory Sync_Schema
  imports Json Hlc
begin

text \<open>
  The replicated schema of \<^verbatim>\<open>src/sync/src/schema.rs\<close> and the column lists of
  \<^verbatim>\<open>src/sync/src/lib.rs\<close>. A table's columns carry what decides whether a row may be
  written: \<open>NOT NULL\<close> and \<open>DEFAULT\<close>. The steps are the migration statements in order;
  indices, the full-text tables and their triggers hold no replicated column and are kept
  only as named objects. \<open>install\<close> is the upgrade loop; a statement SQLite refuses (adding
  a column twice, altering a table that is not there) is the result \<^const>\<open>None\<close>.

  The lemmas show that installing is idempotent, that a database of any older release is
  brought to the schema a fresh one gets, and that the column lists the code reads rows by
  name only columns that exist.
\<close>

section \<open>Columns and values\<close>

datatype sqlval = SNull | SInt int | SReal f64 | SText string

datatype sqltype = TEXT | INTEGER | REAL

record column =
  cname :: string
  ctype :: sqltype
  notnull :: bool
  dflt :: "sqlval option"

definition nullable :: "string \<Rightarrow> sqltype \<Rightarrow> column" where
  "nullable n t = \<lparr>cname = n, ctype = t, notnull = False, dflt = None\<rparr>"

definition required :: "string \<Rightarrow> sqltype \<Rightarrow> column" where
  "required n t = \<lparr>cname = n, ctype = t, notnull = True, dflt = None\<rparr>"

definition defaulted :: "string \<Rightarrow> sqltype \<Rightarrow> sqlval \<Rightarrow> column" where
  "defaulted n t v = \<lparr>cname = n, ctype = t, notnull = True, dflt = Some v\<rparr>"

definition empty_text :: "string \<Rightarrow> column" where
  "empty_text n = defaulted n TEXT (SText [])"

definition f64_one :: f64 where
  "f64_one = 4607182418800017408"

datatype ddl =
    CreateTable string "column list"
  | InsertClock
  | AddColumn string column
  | DropColumn string string
  | CreateAux string

section \<open>The migration steps\<close>

definition stamp_columns :: "column list" where
  "stamp_columns =
     [required ''site'' TEXT, required ''site_seq'' INTEGER, required ''hlc_ms'' INTEGER,
      defaulted ''hlc_ctr'' INTEGER (SInt 0), defaulted ''deleted'' INTEGER (SInt 0)]"

definition step1 :: "ddl list" where
  "step1 =
    [CreateTable ''hlc'' [nullable ''id'' INTEGER, required ''last_ms'' INTEGER, required ''last_ctr'' INTEGER],
     InsertClock,
     CreateTable ''change_log''
       [required ''site'' TEXT, required ''site_seq'' INTEGER, required ''channel'' TEXT,
        required ''tbl'' TEXT, required ''op'' TEXT, required ''record_id'' TEXT,
        required ''hlc_ms'' INTEGER, required ''hlc_ctr'' INTEGER, nullable ''row_json'' TEXT,
        required ''applied'' INTEGER, required ''created_ms'' INTEGER],
     CreateAux ''change_log_channel'',
     CreateTable ''document''
       ([nullable ''id'' TEXT, required ''channel'' TEXT, required ''slug'' TEXT,
         defaulted ''kind'' TEXT (SText ''other''), empty_text ''title'', empty_text ''body'',
         empty_text ''hash''] @ stamp_columns @
        [required ''created_ms'' INTEGER, required ''updated_ms'' INTEGER]),
     CreateAux ''document_slug'',
     CreateTable ''memory''
       ([nullable ''id'' TEXT, required ''channel'' TEXT, defaulted ''scope'' TEXT (SText ''global''),
         nullable ''scope_ref'' TEXT, required ''kind'' TEXT, empty_text ''body'',
         nullable ''source_session'' TEXT, nullable ''source_node'' TEXT,
         defaulted ''confidence'' REAL (SReal f64_one), defaulted ''state'' TEXT (SText ''active'')]
        @ stamp_columns @
        [required ''created_ms'' INTEGER, required ''updated_ms'' INTEGER]),
     CreateAux ''memory_channel'',
     CreateTable ''promotion''
       ([nullable ''id'' TEXT, required ''channel'' TEXT,
         defaulted ''items_json'' TEXT (SText ''[]''), defaulted ''state'' TEXT (SText ''open''),
         nullable ''verdicts_json'' TEXT, nullable ''decided_by'' TEXT, nullable ''decided_ms'' INTEGER]
        @ stamp_columns @ [required ''created_ms'' INTEGER]),
     CreateAux ''document_fts'', CreateAux ''document_ai'', CreateAux ''document_ad'',
     CreateAux ''document_au'', CreateAux ''memory_fts'', CreateAux ''memory_ai'',
     CreateAux ''memory_ad'', CreateAux ''memory_au'']"

definition step2 :: "ddl list" where
  "step2 =
    [CreateTable ''work_item''
       ([nullable ''id'' TEXT, required ''channel'' TEXT, nullable ''project_id'' TEXT,
         empty_text ''title'', empty_text ''body'', defaulted ''state'' TEXT (SText ''open''),
         defaulted ''priority'' INTEGER (SInt 0), defaulted ''deps_json'' TEXT (SText ''[]''),
         nullable ''discovered_from'' TEXT, nullable ''discovered_by_session'' TEXT,
         nullable ''phase_plan_slug'' TEXT, nullable ''closed_by_session'' TEXT]
        @ stamp_columns @
        [required ''created_ms'' INTEGER, required ''updated_ms'' INTEGER]),
     CreateAux ''work_item_channel'']"

definition step4 :: "ddl list" where
  "step4 =
    [AddColumn ''document'' (defaulted ''format'' TEXT (SText ''markdown'')),
     AddColumn ''document'' (nullable ''entry_path'' TEXT),
     AddColumn ''document'' (nullable ''source_name'' TEXT),
     CreateTable ''document_bundle_file''
       ([nullable ''id'' TEXT, empty_text ''channel'', empty_text ''document_id'',
         empty_text ''document_hash'', empty_text ''path'',
         defaulted ''media_type'' TEXT (SText ''application/octet-stream''),
         defaulted ''size_bytes'' INTEGER (SInt 0), empty_text ''content_hash'',
         defaulted ''chunk_count'' INTEGER (SInt 0)] @ stamp_columns @
        [defaulted ''created_ms'' INTEGER (SInt 0), defaulted ''updated_ms'' INTEGER (SInt 0)]),
     CreateAux ''document_bundle_file_generation'',
     CreateTable ''document_bundle_chunk''
       ([nullable ''id'' TEXT, empty_text ''channel'', empty_text ''document_id'',
         empty_text ''document_hash'', empty_text ''file_id'',
         defaulted ''chunk_ix'' INTEGER (SInt 0), empty_text ''bytes_b64'',
         empty_text ''content_hash''] @ stamp_columns @
        [defaulted ''created_ms'' INTEGER (SInt 0), defaulted ''updated_ms'' INTEGER (SInt 0)]),
     CreateAux ''document_bundle_chunk_file'']"

definition STEPS :: "ddl list list" where
  "STEPS =
    [step1, step2,
     [AddColumn ''document'' (defaulted ''archived'' INTEGER (SInt 0))],
     step4,
     [AddColumn ''work_item'' (nullable ''brief_slug'' TEXT)],
     [AddColumn ''document'' (defaulted ''pinned'' INTEGER (SInt 0))],
     [AddColumn ''work_item'' (nullable ''discovered_by_lane'' TEXT)],
     [AddColumn ''memory'' (nullable ''supersedes'' TEXT), CreateAux ''memory_supersedes''],
     [DropColumn ''work_item'' ''brief_slug'']]"

section \<open>Installing\<close>

record catalog =
  version :: nat
  tabs :: "(string \<times> column list) list"
  clock_row :: "hlc option"

definition fresh :: catalog where
  "fresh = \<lparr>version = 0, tabs = [], clock_row = None\<rparr>"

text \<open>\<open>CREATE TABLE IF NOT EXISTS\<close> and \<open>INSERT OR IGNORE\<close> leave what is there alone.\<close>

fun exec_ddl :: "ddl \<Rightarrow> catalog \<Rightarrow> catalog option" where
  "exec_ddl (CreateTable t cols) c =
     Some (if map_of (tabs c) t = None then c\<lparr>tabs := tabs c @ [(t, cols)]\<rparr> else c)"
| "exec_ddl InsertClock c =
     Some (if clock_row c = None then c\<lparr>clock_row := Some \<lparr>last_ms = 0, last_ctr = 0\<rparr>\<rparr> else c)"
| "exec_ddl (AddColumn t col) c =
     (case map_of (tabs c) t of
        None \<Rightarrow> None
      | Some cols \<Rightarrow>
          if cname col \<in> set (map cname cols) then None
          else Some (c\<lparr>tabs := map (\<lambda>(n, cs). if n = t then (n, cs @ [col]) else (n, cs)) (tabs c)\<rparr>))"
| "exec_ddl (DropColumn t n) c =
     (case map_of (tabs c) t of
        None \<Rightarrow> None
      | Some cols \<Rightarrow>
          if n \<notin> set (map cname cols) then None
          else Some (c\<lparr>tabs := map (\<lambda>(m, cs). if m = t then (m, filter (\<lambda>x. cname x \<noteq> n) cs)
                                            else (m, cs)) (tabs c)\<rparr>))"
| "exec_ddl (CreateAux n) c = Some c"

fun exec_batch :: "ddl list \<Rightarrow> catalog \<Rightarrow> catalog option" where
  "exec_batch [] c = Some c"
| "exec_batch (d # ds) c = Option.bind (exec_ddl d c) (exec_batch ds)"

text \<open>The loop of \<open>install\<close>: the version is read once, before it.\<close>

fun install_from :: "nat \<Rightarrow> nat \<Rightarrow> ddl list list \<Rightarrow> catalog \<Rightarrow> catalog option" where
  "install_from v i [] c = Some c"
| "install_from v i (d # ds) c =
     (if v < i + 1
      then Option.bind (exec_batch d c) (\<lambda>c'. install_from v (i + 1) ds (c'\<lparr>version := i + 1\<rparr>))
      else install_from v (i + 1) ds c)"

definition install_steps :: "ddl list list \<Rightarrow> catalog \<Rightarrow> catalog option" where
  "install_steps steps c = install_from (version c) 0 steps c"

definition install :: "catalog \<Rightarrow> catalog option" where
  "install = install_steps STEPS"

section \<open>The replicated tables\<close>

definition TABLES :: "(string \<times> string list) list" where
  "TABLES =
    [(''document'', [''channel'', ''slug'', ''kind'', ''title'', ''body'', ''hash'', ''archived'',
       ''pinned'', ''format'', ''entry_path'', ''source_name'', ''created_ms'', ''updated_ms'']),
     (''memory'', [''channel'', ''scope'', ''scope_ref'', ''kind'', ''body'', ''source_session'',
       ''source_node'', ''confidence'', ''state'', ''supersedes'', ''created_ms'', ''updated_ms'']),
     (''promotion'', [''channel'', ''items_json'', ''state'', ''verdicts_json'', ''decided_by'',
       ''decided_ms'', ''created_ms'']),
     (''work_item'', [''channel'', ''project_id'', ''title'', ''body'', ''state'', ''priority'',
       ''deps_json'', ''discovered_from'', ''discovered_by_session'', ''discovered_by_lane'',
       ''phase_plan_slug'', ''closed_by_session'', ''created_ms'', ''updated_ms'']),
     (''document_bundle_file'', [''channel'', ''document_id'', ''document_hash'', ''path'',
       ''media_type'', ''size_bytes'', ''content_hash'', ''chunk_count'', ''created_ms'', ''updated_ms'']),
     (''document_bundle_chunk'', [''channel'', ''document_id'', ''document_hash'', ''file_id'',
       ''chunk_ix'', ''bytes_b64'', ''content_hash'', ''created_ms'', ''updated_ms''])]"

definition CLEARED_ON_DELETE :: "string list" where
  "CLEARED_ON_DELETE = [''title'', ''body'', ''items_json'', ''verdicts_json'', ''bytes_b64'']"

definition columns_of :: "string \<Rightarrow> string list option" where
  "columns_of table = map_of TABLES table"

text \<open>The columns of a table once every step has run.\<close>

definition installed :: "(string \<times> column list) list" where
  "installed = (case install fresh of None \<Rightarrow> [] | Some c \<Rightarrow> tabs c)"

definition schema_of :: "string \<Rightarrow> column list" where
  "schema_of t = (case map_of installed t of None \<Rightarrow> [] | Some cs \<Rightarrow> cs)"

definition stamp_names :: "string list" where
  "stamp_names = [''id'', ''site'', ''site_seq'', ''hlc_ms'', ''hlc_ctr'', ''deleted'']"

section \<open>Upgrades\<close>

lemma install_from_skip:
  "i + length ds \<le> v \<Longrightarrow> install_from v i ds c = Some c"
  by (induction ds arbitrary: i) auto

text \<open>The loop goes through the steps a database already has without touching it.\<close>

lemma install_from_append:
  "i + length ds \<le> v \<Longrightarrow> install_from v i (ds @ es) c = install_from v (i + length ds) es c"
  by (induction ds arbitrary: i) auto

lemma exec_ddl_version: "exec_ddl d c = Some c' \<Longrightarrow> version c' = version c"
  by (induction d c rule: exec_ddl.induct) (auto split: option.splits if_splits)

lemma exec_batch_version: "exec_batch ds c = Some c' \<Longrightarrow> version c' = version c"
  by (induction ds arbitrary: c) (auto simp: Option.bind_eq_Some_conv dest: exec_ddl_version)

text \<open>Where every step is still to run, what matters is where the counter stands.\<close>

lemma install_from_low:
  "v \<le> i \<Longrightarrow> w \<le> i \<Longrightarrow> install_from v i ds c = install_from w i ds c"
proof (induction ds arbitrary: i c)
  case Nil
  show ?case by simp
next
  case (Cons d ds)
  then have "install_from v (i + 1) ds = install_from w (i + 1) ds" by (intro ext) simp
  with Cons.prems show ?case by simp
qed

lemma install_from_version:
  "v \<le> i \<Longrightarrow> install_from v i ds c = Some c' \<Longrightarrow> version c \<le> i \<Longrightarrow>
     ds \<noteq> [] \<Longrightarrow> version c' = i + length ds"
proof (induction ds arbitrary: i c)
  case Nil
  then show ?case by simp
next
  case (Cons d ds)
  then obtain c1 where c1: "exec_batch d c = Some c1"
    "install_from v (i + 1) ds (c1\<lparr>version := i + 1\<rparr>) = Some c'"
    by (auto simp: Option.bind_eq_Some_conv)
  show ?case
  proof (cases ds)
    case Nil
    with c1 show ?thesis by auto
  next
    case (Cons e es)
    with Cons.IH [of "i + 1" "c1\<lparr>version := i + 1\<rparr>"] c1 \<open>v \<le> i\<close> show ?thesis by simp
  qed
qed

lemma install_from_split:
  "v \<le> i \<Longrightarrow> install_from v i (ds @ es) c =
     Option.bind (install_from v i ds c) (install_from v (i + length ds) es)"
  by (induction ds arbitrary: i c) (auto simp: Option.bind_assoc intro: bind_option_cong)

lemma upgrade_general:
  assumes "install_steps ds c0 = Some c" and "version c0 = 0"
  shows "install_steps (ds @ es) c = install_steps (ds @ es) c0"
proof (cases "ds = []")
  case True
  with assms show ?thesis by (simp add: install_steps_def)
next
  case False
  have v: "version c = length ds"
    using install_from_version [of 0 0 ds c0 c] assms False by (simp add: install_steps_def)
  have "install_steps (ds @ es) c = install_from (length ds) (length ds) es c"
    by (simp add: install_steps_def v install_from_append)
  also have "\<dots> = install_from 0 (length ds) es c"
    by (rule install_from_low) simp_all
  also have "\<dots> = install_steps (ds @ es) c0"
    using assms by (simp add: install_steps_def install_from_split)
  finally show ?thesis .
qed

lemmas column_defs = nullable_def required_def defaulted_def empty_text_def stamp_columns_def

lemmas install_eval = install_def install_steps_def STEPS_def step1_def step2_def step4_def
  fresh_def column_defs

lemma install_fresh_version: "map_option version (install fresh) = Some 9"
  by (simp add: install_eval)

text \<open>What the steps leave behind, computed once.\<close>

lemma installed_tables:
  "installed =
    [(''hlc'', [nullable ''id'' INTEGER, required ''last_ms'' INTEGER, required ''last_ctr'' INTEGER]),
     (''change_log'',
       [required ''site'' TEXT, required ''site_seq'' INTEGER, required ''channel'' TEXT,
        required ''tbl'' TEXT, required ''op'' TEXT, required ''record_id'' TEXT,
        required ''hlc_ms'' INTEGER, required ''hlc_ctr'' INTEGER, nullable ''row_json'' TEXT,
        required ''applied'' INTEGER, required ''created_ms'' INTEGER]),
     (''document'',
       [nullable ''id'' TEXT, required ''channel'' TEXT, required ''slug'' TEXT,
        defaulted ''kind'' TEXT (SText ''other''), empty_text ''title'', empty_text ''body'',
        empty_text ''hash''] @ stamp_columns @
       [required ''created_ms'' INTEGER, required ''updated_ms'' INTEGER,
        defaulted ''archived'' INTEGER (SInt 0), defaulted ''format'' TEXT (SText ''markdown''),
        nullable ''entry_path'' TEXT, nullable ''source_name'' TEXT,
        defaulted ''pinned'' INTEGER (SInt 0)]),
     (''memory'',
       [nullable ''id'' TEXT, required ''channel'' TEXT, defaulted ''scope'' TEXT (SText ''global''),
        nullable ''scope_ref'' TEXT, required ''kind'' TEXT, empty_text ''body'',
        nullable ''source_session'' TEXT, nullable ''source_node'' TEXT,
        defaulted ''confidence'' REAL (SReal f64_one), defaulted ''state'' TEXT (SText ''active'')]
       @ stamp_columns @
       [required ''created_ms'' INTEGER, required ''updated_ms'' INTEGER, nullable ''supersedes'' TEXT]),
     (''promotion'',
       [nullable ''id'' TEXT, required ''channel'' TEXT,
        defaulted ''items_json'' TEXT (SText ''[]''), defaulted ''state'' TEXT (SText ''open''),
        nullable ''verdicts_json'' TEXT, nullable ''decided_by'' TEXT, nullable ''decided_ms'' INTEGER]
       @ stamp_columns @ [required ''created_ms'' INTEGER]),
     (''work_item'',
       [nullable ''id'' TEXT, required ''channel'' TEXT, nullable ''project_id'' TEXT,
        empty_text ''title'', empty_text ''body'', defaulted ''state'' TEXT (SText ''open''),
        defaulted ''priority'' INTEGER (SInt 0), defaulted ''deps_json'' TEXT (SText ''[]''),
        nullable ''discovered_from'' TEXT, nullable ''discovered_by_session'' TEXT,
        nullable ''phase_plan_slug'' TEXT, nullable ''closed_by_session'' TEXT]
       @ stamp_columns @
       [required ''created_ms'' INTEGER, required ''updated_ms'' INTEGER,
        nullable ''discovered_by_lane'' TEXT]),
     (''document_bundle_file'',
       [nullable ''id'' TEXT, empty_text ''channel'', empty_text ''document_id'',
        empty_text ''document_hash'', empty_text ''path'',
        defaulted ''media_type'' TEXT (SText ''application/octet-stream''),
        defaulted ''size_bytes'' INTEGER (SInt 0), empty_text ''content_hash'',
        defaulted ''chunk_count'' INTEGER (SInt 0)] @ stamp_columns @
       [defaulted ''created_ms'' INTEGER (SInt 0), defaulted ''updated_ms'' INTEGER (SInt 0)]),
     (''document_bundle_chunk'',
       [nullable ''id'' TEXT, empty_text ''channel'', empty_text ''document_id'',
        empty_text ''document_hash'', empty_text ''file_id'',
        defaulted ''chunk_ix'' INTEGER (SInt 0), empty_text ''bytes_b64'',
        empty_text ''content_hash''] @ stamp_columns @
       [defaulted ''created_ms'' INTEGER (SInt 0), defaulted ''updated_ms'' INTEGER (SInt 0)])]"
  by (simp add: installed_def install_eval)

lemma length_STEPS: "length STEPS = 9"
  by (simp add: STEPS_def)

text \<open>
  A database of any earlier release, one that has run the first \<open>k\<close> steps, exists for
  every \<open>k\<close>; it carries the version \<open>k\<close>, and installing this release brings it to exactly
  the schema and version a fresh database gets. Installing is never refused on such a
  database.
\<close>

theorem install_upgrades_every_release:
  assumes "k \<le> length STEPS"
  shows "\<exists>c. install_steps (take k STEPS) fresh = Some c \<and> version c = k
    \<and> install c = install fresh \<and> install fresh \<noteq> None"
proof -
  have ok: "install fresh \<noteq> None" using install_fresh_version by auto
  have "install_steps STEPS fresh =
      Option.bind (install_steps (take k STEPS) fresh) (install_from 0 k (drop k STEPS))"
    using install_from_split [of 0 0 "take k STEPS" "drop k STEPS" fresh] assms
    by (simp add: install_steps_def fresh_def)
  with ok obtain c where c: "install_steps (take k STEPS) fresh = Some c"
    by (cases "install_steps (take k STEPS) fresh") (auto simp: install_def)
  have "version c = k"
  proof (cases "k = 0")
    case True
    with c show ?thesis by (auto simp: install_steps_def fresh_def)
  next
    case False
    then have "take k STEPS \<noteq> []" using length_STEPS by auto
    with c assms install_from_version [of 0 0 "take k STEPS" fresh c] show ?thesis
      by (auto simp: install_steps_def fresh_def)
  qed
  moreover have "install c = install fresh"
    using upgrade_general [OF c, of "drop k STEPS"] by (simp add: install_def fresh_def)
  ultimately show ?thesis using c ok by blast
qed

theorem install_upgrades_every_release_witness:
  "\<exists>c. install_steps (take 3 STEPS) fresh = Some c \<and> version c = 3 \<and> install c = install fresh"
  using install_upgrades_every_release [of 3] by (auto simp: length_STEPS)

definition column_names :: "string \<Rightarrow> string list" where
  "column_names t = map cname (schema_of t)"

lemma column_names_installed:
  "column_names ''document'' =
      [''id'', ''channel'', ''slug'', ''kind'', ''title'', ''body'', ''hash'',
       ''site'', ''site_seq'', ''hlc_ms'', ''hlc_ctr'', ''deleted'', ''created_ms'',
       ''updated_ms'', ''archived'', ''format'', ''entry_path'', ''source_name'',
       ''pinned'']"
  "column_names ''memory'' =
      [''id'', ''channel'', ''scope'', ''scope_ref'', ''kind'', ''body'',
       ''source_session'', ''source_node'', ''confidence'', ''state'', ''site'',
       ''site_seq'', ''hlc_ms'', ''hlc_ctr'', ''deleted'', ''created_ms'',
       ''updated_ms'', ''supersedes'']"
  "column_names ''promotion'' =
      [''id'', ''channel'', ''items_json'', ''state'', ''verdicts_json'',
       ''decided_by'', ''decided_ms'', ''site'', ''site_seq'', ''hlc_ms'',
       ''hlc_ctr'', ''deleted'', ''created_ms'']"
  "column_names ''work_item'' =
      [''id'', ''channel'', ''project_id'', ''title'', ''body'', ''state'',
       ''priority'', ''deps_json'', ''discovered_from'', ''discovered_by_session'',
       ''phase_plan_slug'', ''closed_by_session'', ''site'', ''site_seq'', ''hlc_ms'',
       ''hlc_ctr'', ''deleted'', ''created_ms'', ''updated_ms'',
       ''discovered_by_lane'']"
  "column_names ''document_bundle_file'' =
      [''id'', ''channel'', ''document_id'', ''document_hash'', ''path'',
       ''media_type'', ''size_bytes'', ''content_hash'', ''chunk_count'', ''site'',
       ''site_seq'', ''hlc_ms'', ''hlc_ctr'', ''deleted'', ''created_ms'',
       ''updated_ms'']"
  "column_names ''document_bundle_chunk'' =
      [''id'', ''channel'', ''document_id'', ''document_hash'', ''file_id'',
       ''chunk_ix'', ''bytes_b64'', ''content_hash'', ''site'', ''site_seq'',
       ''hlc_ms'', ''hlc_ctr'', ''deleted'', ''created_ms'', ''updated_ms'']"
  by (simp_all add: column_names_def schema_of_def installed_tables column_defs)

text \<open>
  The column lists the code reads and writes rows by agree with the schema the steps
  leave behind: for every replicated table, its listed columns together with the id and
  the sync stamps are exactly the columns of the installed table, none listed twice. No
  statement the code builds from the lists names a column that is not there, and no column
  is left out of replication.
\<close>

theorem tables_match_installed_schema:
  "list_all (\<lambda>(t, cols). distinct cols \<and>
      set (stamp_names @ cols) = set (column_names t)) TABLES"
  by (simp add: TABLES_def stamp_names_def column_names_installed insert_commute)

text \<open>
  What a tombstone for a record never seen supplies covers every column that may not be
  empty and has no default (used where such a row is inserted).
\<close>

definition tombstone_supplies :: "string list" where
  "tombstone_supplies = [''channel'', ''slug'', ''kind'', ''created_ms'', ''updated_ms'']"

lemma schema_required:
  "list_all (\<lambda>(t, cols). list_all (\<lambda>c. notnull c \<longrightarrow>
      cname c \<in> set stamp_names \<or>
      (cname c \<in> set tombstone_supplies \<and> cname c \<in> set cols) \<or>
      (dflt c \<noteq> None \<and> dflt c \<noteq> Some SNull)) (schema_of t)) TABLES"
  by (simp add: TABLES_def stamp_names_def tombstone_supplies_def schema_of_def
        installed_tables column_defs)

end
