(* ===== verification/Sync_Apply.thy ===== *)
theory Sync_Apply
  imports Sync_Schema "HOL-Library.AList"
begin

text \<open>
  Stamping local writes and applying remote ones: \<^verbatim>\<open>src/sync/src/apply.rs\<close>, over a model
  of the database it runs on. The database is the clock's row, the change log and the
  replicated tables. A SQL statement of the source is a function on that state; a statement
  SQLite refuses (an empty \<open>NOT NULL\<close> column, a second row under a primary key) is the
  error \<open>Sqlite\<close>. A transaction that fails is rolled back, so a failing operation returns an
  error and no new state.

  What is not in the repository is a parameter, the record \<open>libs\<close>: how a column's declared
  type changes a bound value (SQLite's type affinity), how a JSON value is written and read
  (serde_json), and how a number beyond \<open>i64\<close> becomes a double.
\<close>

section \<open>The libraries\<close>

record libs =
  affinity :: "sqltype \<Rightarrow> sqlval \<Rightarrow> sqlval"
  json_text :: "json \<Rightarrow> string"
  json_parse :: "string \<Rightarrow> json option"
  f64_of_int :: "int \<Rightarrow> f64"

fun json_to_sql :: "libs \<Rightarrow> json \<Rightarrow> sqlval" where
  "json_to_sql l JNull = SNull"
| "json_to_sql l (JBool b) = SInt (if b then 1 else 0)"
| "json_to_sql l (JInt i) = (if is_i64 i then SInt i else SReal (f64_of_int l i))"
| "json_to_sql l (JFloat f) = SReal f"
| "json_to_sql l (JStr s) = SText s"
| "json_to_sql l v = SText (json_text l v)"

section \<open>Changes and the database\<close>

datatype change_op = Upsert | Delete

record change =
  table :: string
  op :: change_op
  rec_id :: string
  site :: string
  site_seq :: int
  hlc_ms :: int
  hlc_ctr :: nat
  row :: json

datatype applied = Stored | Lost | Duplicate | Impersonation | Malformed

datatype sync_error = Sqlite | MalformedErr string

text \<open>
  A row of a replicated table. The stamps and the channel are always bound to text or
  integer columns of their own type, which SQLite stores as they are; \<open>r_vals\<close> holds the
  other columns by name.
\<close>

record rrow =
  r_channel :: string
  r_site :: string
  r_seq :: int
  r_ms :: int
  r_ctr :: nat
  r_deleted :: bool
  r_vals :: "string \<Rightarrow> sqlval"

record log_row =
  l_site :: string
  l_seq :: int
  l_channel :: string
  l_tbl :: string
  l_op :: string
  l_record :: string
  l_ms :: int
  l_ctr :: nat
  l_row :: "string option"
  l_applied :: bool
  l_created :: int

record db =
  clock :: hlc
  change_log :: "log_row list"
  recs :: "string \<Rightarrow> (string \<times> rrow) list"

definition lookup :: "db \<Rightarrow> string \<Rightarrow> string \<Rightarrow> rrow option" where
  "lookup d t i = map_of (recs d t) i"

definition store_row :: "db \<Rightarrow> string \<Rightarrow> string \<Rightarrow> rrow \<Rightarrow> db" where
  "store_row d t i r = d\<lparr>recs := (recs d)(t := AList.update i r (recs d t))\<rparr>"

section \<open>Writing a row\<close>

text \<open>The columns of a table other than the id, the stamps and the channel.\<close>

definition value_columns :: "string \<Rightarrow> column list" where
  "value_columns t = filter (\<lambda>c. cname c \<notin> set stamp_names \<and> cname c \<noteq> ''channel'') (schema_of t)"

definition col_type :: "string \<Rightarrow> string \<Rightarrow> sqltype" where
  "col_type t n = (case find (\<lambda>c. cname c = n) (schema_of t) of None \<Rightarrow> TEXT | Some c \<Rightarrow> ctype c)"

text \<open>A new row: the bound values, the defaults, and \<open>NULL\<close>; refused where a \<open>NOT NULL\<close>
  column is left at \<open>NULL\<close>. SQLite checks this before it looks for a conflict on the id.\<close>

definition inserted :: "libs \<Rightarrow> string \<Rightarrow> (string \<times> sqlval) list \<Rightarrow> string \<Rightarrow> sqlval" where
  "inserted l t given n =
     (case map_of given n of
        Some v \<Rightarrow> affinity l (col_type t n) v
      | None \<Rightarrow> (case find (\<lambda>c. cname c = n) (schema_of t) of
                   Some c \<Rightarrow> (case dflt c of Some v \<Rightarrow> v | None \<Rightarrow> SNull)
                 | None \<Rightarrow> SNull))"

definition bound :: "(string \<times> sqlval) list \<Rightarrow> column \<Rightarrow> sqlval" where
  "bound given c =
     (case map_of given (cname c) of
        Some v \<Rightarrow> v
      | None \<Rightarrow> (case dflt c of Some v \<Rightarrow> v | None \<Rightarrow> SNull))"

definition not_null_ok :: "string \<Rightarrow> (string \<times> sqlval) list \<Rightarrow> bool" where
  "not_null_ok t given = list_all (\<lambda>c. notnull c \<longrightarrow> bound given c \<noteq> SNull) (value_columns t)"

definition given_values :: "libs \<Rightarrow> string list \<Rightarrow> (string \<times> json) list \<Rightarrow> (string \<times> sqlval) list" where
  "given_values l cols obj =
     concat (map (\<lambda>col. if col = ''channel'' then []
                        else (case map_of obj col of
                                None \<Rightarrow> []
                              | Some v \<Rightarrow> [(col, json_to_sql l v)])) cols)"

text \<open>What a tombstone for a record never seen is inserted with.\<close>

definition tombstone_values :: "string list \<Rightarrow> int \<Rightarrow> (string \<times> sqlval) list" where
  "tombstone_values cols ms =
     concat (map (\<lambda>col. if col = ''slug'' \<or> col = ''kind'' then [(col, SText [])]
                        else if col = ''created_ms'' \<or> col = ''updated_ms'' then [(col, SInt ms)]
                        else []) cols)"

definition put_upsert :: "libs \<Rightarrow> db \<Rightarrow> string \<Rightarrow> string list \<Rightarrow> change \<Rightarrow> (sync_error, db) result" where
  "put_upsert l d channel cols c =
     (case as_object (row c) of
        None \<Rightarrow> Err (MalformedErr ''upsert without a row'')
      | Some obj \<Rightarrow>
          let given = given_values l cols obj in
          if \<not> not_null_ok (table c) given then Err Sqlite
          else Ok (store_row d (table c) (rec_id c)
            \<lparr>r_channel = channel, r_site = site c, r_seq = site_seq c, r_ms = hlc_ms c,
             r_ctr = hlc_ctr c, r_deleted = False,
             r_vals = (case lookup d (table c) (rec_id c) of
                None \<Rightarrow> inserted l (table c) given
              | Some old \<Rightarrow> (\<lambda>n. if n \<in> fst ` set given then inserted l (table c) given n
                                else r_vals old n))\<rparr>))"

definition put_delete :: "libs \<Rightarrow> db \<Rightarrow> string \<Rightarrow> string list \<Rightarrow> change \<Rightarrow> (sync_error, db) result" where
  "put_delete l d channel cols c =
     (let clears = filter (\<lambda>col. col \<in> set CLEARED_ON_DELETE) cols;
          given = tombstone_values cols (hlc_ms c) in
      case lookup d (table c) (rec_id c) of
        Some old \<Rightarrow>
          if r_channel old = channel
          then Ok (store_row d (table c) (rec_id c)
            (old\<lparr>r_site := site c, r_seq := site_seq c, r_ms := hlc_ms c, r_ctr := hlc_ctr c,
               r_deleted := True,
               r_vals := (\<lambda>n. if n \<in> set clears then affinity l (col_type (table c) n) (SText [])
                              else r_vals old n)\<rparr>))
          else Err Sqlite
      | None \<Rightarrow>
          if \<not> not_null_ok (table c) given then Err Sqlite
          else Ok (store_row d (table c) (rec_id c)
            \<lparr>r_channel = channel, r_site = site c, r_seq = site_seq c, r_ms = hlc_ms c,
             r_ctr = hlc_ctr c, r_deleted = True, r_vals = inserted l (table c) given\<rparr>))"

definition put_row :: "libs \<Rightarrow> db \<Rightarrow> string \<Rightarrow> change \<Rightarrow> (sync_error, db) result" where
  "put_row l d channel c =
     (let cols = the (columns_of (table c)) in
      case op c of
        Upsert \<Rightarrow> put_upsert l d channel cols c
      | Delete \<Rightarrow> put_delete l d channel cols c)"

section \<open>The change log\<close>

fun op_name :: "change_op \<Rightarrow> string" where
  "op_name Upsert = ''upsert''"
| "op_name Delete = ''delete''"

definition log_entry :: "libs \<Rightarrow> string \<Rightarrow> change \<Rightarrow> bool \<Rightarrow> int \<Rightarrow> log_row" where
  "log_entry l channel c ap now_ms =
     \<lparr>l_site = site c, l_seq = site_seq c, l_channel = channel, l_tbl = table c,
      l_op = op_name (op c), l_record = rec_id c, l_ms = hlc_ms c, l_ctr = hlc_ctr c,
      l_row = (if row c = JNull then None else Some (json_text l (row c))),
      l_applied = ap, l_created = now_ms\<rparr>"

definition logged :: "db \<Rightarrow> string \<Rightarrow> int \<Rightarrow> bool" where
  "logged d s q = list_ex (\<lambda>e. l_site e = s \<and> l_seq e = q) (change_log d)"

definition log_change :: "libs \<Rightarrow> db \<Rightarrow> string \<Rightarrow> change \<Rightarrow> bool \<Rightarrow> int \<Rightarrow> (sync_error, db) result" where
  "log_change l d channel c ap now_ms =
     (if logged d (site c) (site_seq c) then Err Sqlite
      else Ok (d\<lparr>change_log := change_log d @ [log_entry l channel c ap now_ms]\<rparr>))"

definition validate_channel :: "db \<Rightarrow> string \<Rightarrow> change \<Rightarrow> (sync_error, unit) result" where
  "validate_channel d channel c =
     (if columns_of (table c) = None
      then Err (MalformedErr (''no replicated table '' @ table c))
      else if op c = Upsert \<and> Option.bind (jget (row c) ''channel'') as_str \<noteq> Some channel
      then Err (MalformedErr ''row channel does not match envelope'')
      else case lookup d (table c) (rec_id c) of
        Some r \<Rightarrow> if r_channel r \<noteq> channel
                  then Err (MalformedErr ''record id already belongs to another channel'')
                  else Ok ()
      | None \<Rightarrow> Ok ())"

section \<open>Local writes\<close>

text \<open>\<open>Hlc::load\<close> and \<open>Hlc::store\<close>: the counter is read back as a \<open>u32\<close>.\<close>

definition hlc_load :: "db \<Rightarrow> hlc" where
  "hlc_load d = (clock d)\<lparr>last_ctr := last_ctr (clock d) mod 2 ^ 32\<rparr>"

definition hlc_store :: "hlc \<Rightarrow> db \<Rightarrow> db" where
  "hlc_store h d = d\<lparr>clock := h\<rparr>"

definition max_seq :: "log_row list \<Rightarrow> int" where
  "max_seq es = (if es = [] then 0 else Max (set (map l_seq es)))"

definition next_site_seq :: "db \<Rightarrow> string \<Rightarrow> int" where
  "next_site_seq d s = max_seq (filter (\<lambda>e. l_site e = s) (change_log d)) + 1"

text \<open>The sequence number leaves \<open>i64\<close> as a double, which \<open>get\<close> refuses to read.\<close>

definition write_change :: "libs \<Rightarrow> db \<Rightarrow> string \<Rightarrow> string \<Rightarrow> string \<Rightarrow> change_op \<Rightarrow> string
    \<Rightarrow> json \<Rightarrow> int \<Rightarrow> (sync_error, db \<times> change) result" where
  "write_change l d s channel tbl o' i rw now_ms =
     (if columns_of tbl = None then Err (MalformedErr (''no replicated table '' @ tbl))
      else case tick (hlc_load d) now_ms of
        (h, None) \<Rightarrow> Err (MalformedErr ''hybrid logical clock exhausted'')
      | (h, Some (ms, ctr)) \<Rightarrow>
          if next_site_seq d s > i64_max then Err Sqlite
          else
            let c = \<lparr>table = tbl, op = o', rec_id = i, site = s, site_seq = next_site_seq d s,
                     hlc_ms = ms, hlc_ctr = ctr, row = (if o' = Delete then JNull else rw)\<rparr> in
            bind_result (validate_channel d channel c) (\<lambda>_.
            bind_result (put_row l d channel c) (\<lambda>d1.
            bind_result (log_change l d1 channel c True now_ms) (\<lambda>d2.
            Ok (hlc_store h d2, c)))))"

section \<open>Remote changes\<close>

text \<open>A row's place in the last-writer-wins order: \<open>(hlc_ms, hlc_ctr, site)\<close>.\<close>

type_synonym lww = "int \<times> nat \<times> string"

definition change_key :: "change \<Rightarrow> lww" where
  "change_key c = (hlc_ms c, hlc_ctr c, site c)"

definition row_key :: "rrow \<Rightarrow> lww" where
  "row_key r = (r_ms r, r_ctr r, r_site r)"

definition wins :: "db \<Rightarrow> change \<Rightarrow> bool" where
  "wins d c = (case lookup d (table c) (rec_id c) of
                 None \<Rightarrow> True | Some r \<Rightarrow> change_key c > row_key r)"

definition mark_applied :: "db \<Rightarrow> string \<Rightarrow> int \<Rightarrow> db" where
  "mark_applied d s q = d\<lparr>change_log :=
     map (\<lambda>e. if l_site e = s \<and> l_seq e = q then e\<lparr>l_applied := True\<rparr> else e) (change_log d)\<rparr>"

text \<open>One turn of the loop: the state of the transaction, the clock held beside it, and
  what became of the change.\<close>

definition well_formed :: "db \<Rightarrow> string \<Rightarrow> change \<Rightarrow> bool" where
  "well_formed d channel c \<longleftrightarrow>
     columns_of (table c) \<noteq> None \<and> \<not> (op c = Upsert \<and> as_object (row c) = None)
     \<and> is_ok (validate_channel d channel c)"

definition apply_one :: "libs \<Rightarrow> string \<Rightarrow> int \<Rightarrow> db \<Rightarrow> hlc \<Rightarrow> change
    \<Rightarrow> (sync_error, db \<times> hlc \<times> applied) result" where
  "apply_one l channel now_ms d h c =
     (if \<not> well_formed d channel c then Ok (d, h, Malformed)
      else case observe h now_ms (hlc_ms c, hlc_ctr c) of
        (_, None) \<Rightarrow> Ok (d, h, Malformed)
      | (observed, Some _) \<Rightarrow>
          if logged d (site c) (site_seq c) then Ok (d, h, Duplicate)
          else
            let d1 = d\<lparr>change_log := change_log d @ [log_entry l channel c False now_ms]\<rparr> in
            if wins d1 c
            then bind_result (put_row l d1 channel c) (\<lambda>d2.
                   Ok (mark_applied d2 (site c) (site_seq c), observed, Stored))
            else Ok (d1, observed, Lost))"

fun apply_loop :: "libs \<Rightarrow> string \<Rightarrow> int \<Rightarrow> db \<Rightarrow> hlc \<Rightarrow> change list
    \<Rightarrow> (sync_error, db \<times> hlc \<times> applied list) result" where
  "apply_loop l channel now_ms d h [] = Ok (d, h, [])"
| "apply_loop l channel now_ms d h (c # cs) =
     bind_result (apply_one l channel now_ms d h c) (\<lambda>(d1, h1, a).
     bind_result (apply_loop l channel now_ms d1 h1 cs) (\<lambda>(d2, h2, out).
     Ok (d2, h2, a # out)))"

definition apply_changes :: "libs \<Rightarrow> db \<Rightarrow> string \<Rightarrow> string \<Rightarrow> change list \<Rightarrow> int
    \<Rightarrow> (sync_error, db \<times> applied list) result" where
  "apply_changes l d sender channel cs now_ms =
     (if list_ex (\<lambda>c. site c \<noteq> sender) cs
      then Ok (d, replicate (length cs) Impersonation)
      else bind_result (apply_loop l channel now_ms d (hlc_load d) cs) (\<lambda>(d1, h1, out).
           Ok (hlc_store h1 d1, out)))"

section \<open>Reading the log, and pruning\<close>

definition logged_change :: "libs \<Rightarrow> string \<Rightarrow> log_row \<Rightarrow> change" where
  "logged_change l s e =
     \<lparr>table = l_tbl e, op = (if l_op e = ''delete'' then Delete else Upsert), rec_id = l_record e,
      site = s, site_seq = l_seq e, hlc_ms = l_ms e, hlc_ctr = l_ctr e mod 2 ^ 32,
      row = (case Option.bind (l_row e) (json_parse l) of None \<Rightarrow> JNull | Some v \<Rightarrow> v)\<rparr>"

definition changes_of_site_after :: "libs \<Rightarrow> db \<Rightarrow> string \<Rightarrow> string \<Rightarrow> int \<Rightarrow> nat \<Rightarrow> change list" where
  "changes_of_site_after l d s channel after limit =
     map (logged_change l s) (take limit (sort_key l_seq
       (filter (\<lambda>e. l_site e = s \<and> l_channel e = channel \<and> l_seq e > after) (change_log d))))"

definition change_log_max :: "db \<Rightarrow> string \<Rightarrow> string \<Rightarrow> int" where
  "change_log_max d s channel =
     max_seq (filter (\<lambda>e. l_site e = s \<and> l_channel e = channel) (change_log d))"

text \<open>SQL leaves the order of a \<open>DISTINCT\<close> selection open; this one keeps first occurrences.\<close>

definition sites_on_channel :: "db \<Rightarrow> string \<Rightarrow> string list" where
  "sites_on_channel d channel =
     remdups (map l_site (filter (\<lambda>e. l_channel e = channel) (change_log d)))"

definition stale_tombstone :: "int \<Rightarrow> rrow \<Rightarrow> bool" where
  "stale_tombstone older_than_ms r \<longleftrightarrow> r_deleted r \<and> r_ms r < older_than_ms"

definition prune_tombstones :: "db \<Rightarrow> int \<Rightarrow> db \<times> nat" where
  "prune_tombstones d older_than_ms =
     (d\<lparr>recs := (\<lambda>t. if columns_of t \<noteq> None
                      then filter (\<lambda>(i, r). \<not> stale_tombstone older_than_ms r) (recs d t)
                      else recs d t),
        change_log := filter (\<lambda>e. \<not> (l_op e = ''delete'' \<and> l_ms e < older_than_ms)) (change_log d)\<rparr>,
      sum_list (map (\<lambda>(t, _). length (filter (\<lambda>(i, r). stale_tombstone older_than_ms r) (recs d t))) TABLES))"

end
