(* ===== verification/Convergence.thy ===== *)
theory Convergence
  imports Main "HOL-Library.Multiset"
begin

text \<open>
  The contract under which replicas that take in the same updates in different orders end
  in the same state: a pair of updates that may meet commutes. A component that merges
  (the last-writer-wins tables, the key epochs of a ring) interprets the locale on its own
  merge step and gets the fold over any permutation for free.
\<close>

locale commuting_updates =
  fixes upd :: "'s \<Rightarrow> 'u \<Rightarrow> 's"
    and may_meet :: "'u \<Rightarrow> 'u \<Rightarrow> bool"
  assumes commute: "may_meet a b \<Longrightarrow> upd (upd s a) b = upd (upd s b) a"
begin

definition coherent :: "'u set \<Rightarrow> bool" where
  "coherent us \<longleftrightarrow> (\<forall>a \<in> us. \<forall>b \<in> us. may_meet a b)"

lemma coherent_subset: "coherent us \<Longrightarrow> vs \<subseteq> us \<Longrightarrow> coherent vs"
  by (auto simp: coherent_def)

lemma foldl_pull_front:
  "coherent (insert a (set us)) \<Longrightarrow> foldl upd (upd s a) us = upd (foldl upd s us) a"
proof (induction us arbitrary: s)
  case Nil
  then show ?case by simp
next
  case (Cons b us)
  then have "upd (upd s a) b = upd (upd s b) a"
    by (intro commute) (simp add: coherent_def)
  moreover have "coherent (insert a (set us))"
    using Cons.prems by (rule coherent_subset) auto
  ultimately show ?case using Cons.IH by simp
qed

lemma foldl_split:
  "coherent (set (us @ a # vs)) \<Longrightarrow> foldl upd s (us @ a # vs) = foldl upd s (a # us @ vs)"
proof -
  assume "coherent (set (us @ a # vs))"
  then have "coherent (insert a (set us))" by (rule coherent_subset) auto
  then show ?thesis by (simp add: foldl_pull_front)
qed

theorem foldl_perm:
  "mset us = mset vs \<Longrightarrow> coherent (set us) \<Longrightarrow> foldl upd s us = foldl upd s vs"
proof (induction us arbitrary: vs s)
  case Nil
  then show ?case by simp
next
  case (Cons a us)
  then have "a \<in> set vs" by (metis list.set_intros(1) mset_eq_setD)
  then obtain ps qs where vs: "vs = ps @ a # qs" by (meson split_list)
  with Cons.prems have "mset us = mset (ps @ qs)" by simp
  moreover from Cons.prems(2) have "coherent (set us)" by (rule coherent_subset) auto
  ultimately have "foldl upd (upd s a) us = foldl upd (upd s a) (ps @ qs)"
    by (rule Cons.IH)
  moreover have "coherent (set (ps @ a # qs))"
    using Cons.prems vs by (metis mset_eq_setD)
  ultimately show ?case by (simp add: vs foldl_split del: foldl_append)
qed

end

text \<open>Updates that change nothing the second time they are taken in.\<close>

locale idempotent_updates = commuting_updates +
  assumes absorb: "upd (upd s a) a = upd s a"
begin

lemma foldl_absorb:
  "a \<in> set us \<Longrightarrow> coherent (set us) \<Longrightarrow> upd (foldl upd s us) a = foldl upd s us"
proof (induction us arbitrary: s)
  case Nil
  then show ?case by simp
next
  case (Cons b us)
  have coh: "coherent (insert b (set us))" "coherent (set us)"
    using Cons.prems(2) by (auto simp: coherent_def)
  show ?case
  proof (cases "a \<in> set us")
    case True
    with Cons coh show ?thesis by simp
  next
    case False
    with Cons.prems(1) have "a = b" by simp
    with coh show ?thesis by (simp add: foldl_pull_front absorb)
  qed
qed

text \<open>Hence only which updates were taken in matters, not how often.\<close>

lemma foldl_remdups:
  "coherent (set us) \<Longrightarrow> foldl upd s (remdups us) = foldl upd s us"
proof (induction us arbitrary: s)
  case Nil
  then show ?case by simp
next
  case (Cons a us)
  have coh: "coherent (set us)" "coherent (insert a (set us))"
    using Cons.prems by (auto simp: coherent_def)
  show ?case
  proof (cases "a \<in> set us")
    case True
    then have "foldl upd s us = upd (foldl upd s us) a"
      using coh by (simp add: foldl_absorb)
    also have "\<dots> = foldl upd (upd s a) us" using coh by (simp add: foldl_pull_front)
    finally show ?thesis using True Cons.IH coh by simp
  next
    case False
    with Cons.IH coh show ?thesis by simp
  qed
qed

theorem foldl_set:
  "set us = set vs \<Longrightarrow> coherent (set us) \<Longrightarrow> foldl upd s us = foldl upd s vs"
proof -
  assume eq: "set us = set vs" and coh: "coherent (set us)"
  have "mset (remdups us) = mset (remdups vs)"
    using eq by (simp add: set_eq_iff_mset_remdups_eq)
  moreover have "coherent (set (remdups us))" using coh by simp
  ultimately have "foldl upd s (remdups us) = foldl upd s (remdups vs)" by (rule foldl_perm)
  with coh eq show ?thesis by (simp add: foldl_remdups)
qed

end

end
