(* ===== verification/Sync_Laws.thy ===== *)
theory Sync_Laws
  imports Sync_Apply Convergence
begin

text \<open>
  What stamping and applying changes promises: the clock dominates every stamp the database
  holds, a local write always wins, remote changes refine last-writer-wins, replicas
  converge, redelivery changes nothing, and a channel's changes stay on the channel.
\<close>

section \<open>How one statement changes the database\<close>

lemma lookup_store_row [simp]:
  "lookup (store_row d t i r) t' i' = (if t' = t \<and> i' = i then Some r else lookup d t' i')"
  by (simp add: lookup_def store_row_def AList.update_conv')

lemma store_row_frame [simp]:
  "clock (store_row d t i r) = clock d" "change_log (store_row d t i r) = change_log d"
  by (simp_all add: store_row_def)

lemma lookup_frame [simp]:
  "lookup (d\<lparr>change_log := lg\<rparr>) = lookup d"
  "lookup (mark_applied d s q) = lookup d"
  "lookup (hlc_store h d) = lookup d"
  by (simp_all add: lookup_def mark_applied_def hlc_store_def fun_eq_iff)

lemma mark_applied_frame [simp]: "clock (mark_applied d s q) = clock d"
  by (simp add: mark_applied_def)

lemma hlc_store_frame [simp]:
  "clock (hlc_store h d) = h" "change_log (hlc_store h d) = change_log d"
  by (simp_all add: hlc_store_def)

lemma wins_frame [simp]: "wins (d\<lparr>change_log := lg\<rparr>) c = wins d c"
  by (simp add: wins_def)

text \<open>Whatever it writes, \<open>put_row\<close> writes one row, with the change's stamps and channel.\<close>

lemma put_row_Ok:
  assumes "put_row l d channel c = Ok d'"
  obtains r where "d' = store_row d (table c) (rec_id c) r" and "row_key r = change_key c"
    and "r_seq r = site_seq c" and "r_channel r = channel" and "r_deleted r = (op c = Delete)"
  using assms
  by (auto simp: put_row_def put_upsert_def put_delete_def Let_def row_key_def change_key_def
        split: change_op.splits option.splits if_splits)

lemma put_upsert_values:
  assumes "put_row l d channel c = Ok d'" and "op c = Upsert" and "as_object (row c) = Some obj"
    and "columns_of (table c) = Some cols" and "n \<in> fst ` set (given_values l cols obj)"
  shows "map_option (\<lambda>r. r_vals r n) (lookup d' (table c) (rec_id c))
    = Some (inserted l (table c) (given_values l cols obj) n)"
proof -
  let ?g = "given_values l cols obj"
  have nn: "not_null_ok (table c) ?g"
    using assms(1-4) by (simp add: put_row_def put_upsert_def Let_def split: if_splits)
  from assms(1-4) nn obtain r where d': "d' = store_row d (table c) (rec_id c) r"
    and r: "r_vals r = (case lookup d (table c) (rec_id c) of None \<Rightarrow> inserted l (table c) ?g
      | Some old \<Rightarrow> (\<lambda>n. if n \<in> fst ` set ?g then inserted l (table c) ?g n else r_vals old n))"
    by (auto simp add: put_row_def put_upsert_def Let_def simp del: image_iff)
  from r assms(5) have "r_vals r n = inserted l (table c) ?g n"
    by (cases "lookup d (table c) (rec_id c)") (simp_all del: image_iff)
  with d' show ?thesis by simp
qed

text \<open>One turn of the apply loop, by its outcome.\<close>

lemma apply_oneE:
  assumes "apply_one l channel now d h c = Ok (d', h', a)"
  obtains (skip) "a = Malformed \<or> a = Duplicate \<and> logged d (site c) (site_seq c)" "d' = d" "h' = h"
  | (lost) s where "a = Lost" "well_formed d channel c" "\<not> logged d (site c) (site_seq c)"
      "observe h now (hlc_ms c, hlc_ctr c) = (h', Some s)" "\<not> wins d c"
      "d' = d\<lparr>change_log := change_log d @ [log_entry l channel c False now]\<rparr>"
  | (stored) s d1 where "a = Stored" "well_formed d channel c" "\<not> logged d (site c) (site_seq c)"
      "observe h now (hlc_ms c, hlc_ctr c) = (h', Some s)" "wins d c"
      "put_row l (d\<lparr>change_log := change_log d @ [log_entry l channel c False now]\<rparr>) channel c = Ok d1"
      "d' = mark_applied d1 (site c) (site_seq c)"
proof (cases "well_formed d channel c")
  case False
  with assms have "a = Malformed" "d' = d" "h' = h" by (simp_all add: apply_one_def)
  then show ?thesis by (intro skip) simp_all
next
  case wf: True
  obtain o' s' where ob: "observe h now (hlc_ms c, hlc_ctr c) = (o', s')" by (cases "observe h now (hlc_ms c, hlc_ctr c)")
  show ?thesis
  proof (cases s')
    case None
    with assms wf ob have "a = Malformed" "d' = d" "h' = h" by (simp_all add: apply_one_def)
    then show ?thesis by (intro skip) simp_all
  next
    case (Some s)
    note ob = ob [unfolded Some]
    show ?thesis
    proof (cases "logged d (site c) (site_seq c)")
      case True
      with assms wf ob have "a = Duplicate" "d' = d" "h' = h" by (simp_all add: apply_one_def)
      with True show ?thesis by (intro skip) simp_all
    next
      case nl: False
      show ?thesis
      proof (cases "wins d c")
        case True
        with assms wf ob nl have
          "bind_result (put_row l (d\<lparr>change_log := change_log d @ [log_entry l channel c False now]\<rparr>) channel c)
             (\<lambda>d2. Ok (mark_applied d2 (site c) (site_seq c), o', Stored)) = Ok (d', h', a)"
          by (simp add: apply_one_def)
        then obtain d1 where d1: "put_row l (d\<lparr>change_log := change_log d @ [log_entry l channel c False now]\<rparr>) channel c = Ok d1"
          and eqs: "mark_applied d1 (site c) (site_seq c) = d'" "o' = h'" "Stored = a"
          unfolding bind_result_eq_Ok by blast
        show ?thesis by (rule stored [OF eqs(3) [symmetric] wf nl _ True d1 eqs(1) [symmetric]]) (simp add: ob eqs(2))
      next
        case False
        with assms wf ob nl have eqs: "a = Lost" "h' = o'"
          "d' = d\<lparr>change_log := change_log d @ [log_entry l channel c False now]\<rparr>"
          by (simp_all add: apply_one_def)
        show ?thesis by (rule lost [OF eqs(1) wf nl _ False eqs(3)]) (simp add: ob eqs(2))
      qed
    qed
  qed
qed

lemma well_formedD:
  assumes "well_formed d channel c"
  shows "columns_of (table c) \<noteq> None" and "op c = Upsert \<Longrightarrow> as_object (row c) \<noteq> None"
    and "lookup d (table c) (rec_id c) = Some r \<Longrightarrow> r_channel r = channel"
  using assms by (auto simp: well_formed_def validate_channel_def split: if_splits option.splits)

section \<open>The clock dominates the database\<close>

text \<open>Every stamp in the tables and in the log is at most \<open>h\<close>; keys are unique.\<close>

definition dominated :: "db \<Rightarrow> hlc \<Rightarrow> bool" where
  "dominated d h \<longleftrightarrow> is_u32 (last_ctr h)
     \<and> (\<forall>t i r. lookup d t i = Some r \<longrightarrow> (r_ms r, r_ctr r) \<le> hlc_stamp h)
     \<and> (\<forall>e \<in> set (change_log d). (l_ms e, l_ctr e) \<le> hlc_stamp h)"

definition keys_unique :: "db \<Rightarrow> bool" where
  "keys_unique d \<longleftrightarrow> distinct (map (\<lambda>e. (l_site e, l_seq e)) (change_log d))
     \<and> (\<forall>t. distinct (map fst (recs d t)))"

definition db_inv :: "db \<Rightarrow> bool" where
  "db_inv d \<longleftrightarrow> dominated d (clock d) \<and> keys_unique d"

lemma hlc_load_inv: "is_u32 (last_ctr (clock d)) \<Longrightarrow> hlc_load d = clock d"
  by (simp add: hlc_load_def is_u32_def u32_max_def)

lemma db_inv_load: "db_inv d \<Longrightarrow> hlc_load d = clock d"
  by (simp add: db_inv_def dominated_def hlc_load_inv)

text \<open>What the wire's types guarantee of a received change.\<close>

definition wf_change :: "change \<Rightarrow> bool" where
  "wf_change c \<longleftrightarrow> is_i64 (hlc_ms c) \<and> is_u32 (hlc_ctr c) \<and> is_i64 (site_seq c)"

lemma bump_u32: "is_u32 ctr \<Longrightarrow> bump ms ctr = Some s \<Longrightarrow> is_u32 (snd s)"
  by (auto simp: bump_def u32_checked_add_def is_u32_def split: if_splits)

lemma tick_u32: "is_u32 (last_ctr h) \<Longrightarrow> tick h now = (h', Some s) \<Longrightarrow> is_u32 (last_ctr h')"
  by (auto simp: tick_def commit_Some set_stamp_def is_u32_def split: if_splits
        dest: bump_u32 [unfolded is_u32_def])

lemma observe_u32:
  "is_u32 (last_ctr h) \<Longrightarrow> is_u32 (snd r) \<Longrightarrow> observe h now r = (h', Some s) \<Longrightarrow> is_u32 (last_ctr h')"
  by (cases r) (auto simp: observe_def commit_Some set_stamp_def is_u32_def max_def split: if_splits
        dest: bump_u32 [unfolded is_u32_def])

lemma dominated_mono:
  assumes "dominated d h" and "hlc_stamp h \<le> hlc_stamp h'" and "is_u32 (last_ctr h')"
  shows "dominated d h'"
  using assms unfolding dominated_def by (meson order_trans)

lemma dominated_log:
  assumes "dominated d h" and "(l_ms e, l_ctr e) \<le> hlc_stamp h"
  shows "dominated (d\<lparr>change_log := change_log d @ [e]\<rparr>) h"
  using assms by (auto simp: dominated_def)

lemma dominated_store:
  assumes "dominated d h" and "(r_ms r, r_ctr r) \<le> hlc_stamp h"
  shows "dominated (store_row d t i r) h"
  using assms by (auto simp: dominated_def split: if_splits)

lemma mark_applied_log:
  "map (\<lambda>e. (l_site e, l_seq e)) (change_log (mark_applied d s q)) = map (\<lambda>e. (l_site e, l_seq e)) (change_log d)"
  "map (\<lambda>e. (l_ms e, l_ctr e)) (change_log (mark_applied d s q)) = map (\<lambda>e. (l_ms e, l_ctr e)) (change_log d)"
  "map l_channel (change_log (mark_applied d s q)) = map l_channel (change_log d)"
  "recs (mark_applied d s q) = recs d"
  by (simp_all add: mark_applied_def)

lemma all_stamps_iff:
  "(\<forall>e \<in> set lg. (l_ms e, l_ctr e) \<le> m) \<longleftrightarrow> (\<forall>s \<in> set (map (\<lambda>e. (l_ms e, l_ctr e)) lg). s \<le> m)"
  by simp

lemma dominated_mark [simp]: "dominated (mark_applied d s q) h = dominated d h"
  unfolding dominated_def all_stamps_iff mark_applied_log by simp

lemma logged_iff: "logged d s q \<longleftrightarrow> (s, q) \<in> (\<lambda>e. (l_site e, l_seq e)) ` set (change_log d)"
  by (auto simp: logged_def list_ex_iff)

lemma keys_unique_log:
  assumes "keys_unique d" and "\<not> logged d (l_site e) (l_seq e)"
  shows "keys_unique (d\<lparr>change_log := change_log d @ [e]\<rparr>)"
  using assms by (auto simp: keys_unique_def logged_iff)

lemma keys_unique_store: "keys_unique d \<Longrightarrow> keys_unique (store_row d t i r)"
  by (auto simp: keys_unique_def store_row_def AList.distinct_update)

lemma keys_unique_mark [simp]: "keys_unique (mark_applied d s q) = keys_unique d"
  unfolding keys_unique_def mark_applied_log ..

lemma log_entry_simps [simp]:
  "l_site (log_entry l ch c ap now) = site c" "l_seq (log_entry l ch c ap now) = site_seq c"
  "l_ms (log_entry l ch c ap now) = hlc_ms c" "l_ctr (log_entry l ch c ap now) = hlc_ctr c"
  "l_channel (log_entry l ch c ap now) = ch"
  by (simp_all add: log_entry_def)

lemma apply_one_inv:
  assumes "apply_one l channel now d h c = Ok (d', h', a)" and "wf_change c"
    and "dominated d h" and "keys_unique d"
  shows "dominated d' h' \<and> keys_unique d' \<and> hlc_stamp h \<le> hlc_stamp h'"
  using assms(1)
proof (cases rule: apply_oneE)
  case skip
  with assms show ?thesis by simp
next
  case (lost s)
  have u: "is_u32 (last_ctr h')"
    using observe_u32 [OF _ _ lost(4)] assms by (simp add: wf_change_def dominated_def)
  have "dominated d h'" using observe_Some [OF lost(4)] u dominated_mono [OF assms(3)] by auto
  with observe_Some [OF lost(4)] lost assms(4) show ?thesis
    by (auto intro!: dominated_log keys_unique_log)
next
  case (stored s d1)
  let ?d = "d\<lparr>change_log := change_log d @ [log_entry l channel c False now]\<rparr>"
  have u: "is_u32 (last_ctr h')"
    using observe_u32 [OF _ _ stored(4)] assms by (simp add: wf_change_def dominated_def)
  have "dominated d h'" using observe_Some [OF stored(4)] u dominated_mono [OF assms(3)] by auto
  then have dom: "dominated ?d h'" using observe_Some [OF stored(4)] by (auto intro!: dominated_log)
  from stored(6) obtain r where r: "d1 = store_row ?d (table c) (rec_id c) r"
    "row_key r = change_key c" by (rule put_row_Ok)
  then have "(r_ms r, r_ctr r) \<le> hlc_stamp h'"
    using observe_Some [OF stored(4)] by (auto simp: row_key_def change_key_def)
  with dom r(1) stored observe_Some [OF stored(4)] assms(4) show ?thesis
    by (auto intro!: dominated_store keys_unique_store keys_unique_log)
qed

lemma apply_loop_inv:
  "apply_loop l channel now d h cs = Ok (d', h', out) \<Longrightarrow> \<forall>c \<in> set cs. wf_change c \<Longrightarrow>
     dominated d h \<Longrightarrow> keys_unique d \<Longrightarrow>
     dominated d' h' \<and> keys_unique d' \<and> hlc_stamp h \<le> hlc_stamp h'"
proof (induction cs arbitrary: d h out)
  case Nil
  then show ?case by simp
next
  case (Cons c cs)
  then obtain d1 h1 a out1 where one: "apply_one l channel now d h c = Ok (d1, h1, a)"
    and rest: "apply_loop l channel now d1 h1 cs = Ok (d', h', out1)"
    by (auto simp: bind_result_eq_Ok)
  from apply_one_inv [OF one] Cons.prems have
    inv: "dominated d1 h1" "keys_unique d1" and le: "hlc_stamp h \<le> hlc_stamp h1" by auto
  from Cons.IH [OF rest _ inv] Cons.prems have
    "dominated d' h' \<and> keys_unique d' \<and> hlc_stamp h1 \<le> hlc_stamp h'" by simp
  with le show ?case by (meson order_trans)
qed

lemma bind_result_chain:
  assumes "bind_result a (\<lambda>_. bind_result b (\<lambda>x. bind_result (g x) (\<lambda>y. Ok (k y)))) = Ok z"
  obtains x y where "a = Ok ()" and "b = Ok x" and "g x = Ok y" and "k y = z"
  using assms by (auto simp: bind_result_eq_Ok)

text \<open>A local write, taken apart.\<close>

lemma write_changeE:
  assumes "write_change l d s channel tbl o' i rw now = Ok (d', c)"
  obtains h ms ctr d1 where "tick (hlc_load d) now = (h, Some (ms, ctr))"
    and "c = \<lparr>table = tbl, op = o', rec_id = i, site = s, site_seq = next_site_seq d s,
              hlc_ms = ms, hlc_ctr = ctr, row = (if o' = Delete then JNull else rw)\<rparr>"
    and "columns_of tbl \<noteq> None" and "validate_channel d channel c = Ok ()"
    and "put_row l d channel c = Ok d1" and "\<not> logged d1 s (next_site_seq d s)"
    and "d' = hlc_store h (d1\<lparr>change_log := change_log d1 @ [log_entry l channel c True now]\<rparr>)"
proof -
  obtain h r where tk: "tick (hlc_load d) now = (h, r)" by (meson surj_pair)
  have "r \<noteq> None"
  proof
    assume "r = None"
    with assms tk show False by (cases "columns_of tbl = None") (simp_all add: write_change_def)
  qed
  then obtain st where r: "r = Some st" by blast
  obtain ms ctr where st: "st = (ms, ctr)" by (cases st)
  have cols: "columns_of tbl \<noteq> None"
    using assms by (cases "columns_of tbl = None") (simp_all add: write_change_def)
  have sq: "\<not> next_site_seq d s > i64_max"
  proof
    assume "next_site_seq d s > i64_max"
    with assms tk r st cols show False by (simp add: write_change_def)
  qed
  let ?c = "\<lparr>table = tbl, op = o', rec_id = i, site = s, site_seq = next_site_seq d s,
              hlc_ms = ms, hlc_ctr = ctr, row = (if o' = Delete then JNull else rw)\<rparr>"
  have "bind_result (validate_channel d channel ?c) (\<lambda>_.
            bind_result (put_row l d channel ?c) (\<lambda>d1.
            bind_result (log_change l d1 channel ?c True now) (\<lambda>d2.
            Ok (hlc_store h d2, ?c)))) = Ok (d', c)"
    using assms tk r st cols sq unfolding write_change_def Let_def by simp
  then obtain d1 d2 where f: "validate_channel d channel ?c = Ok ()" "put_row l d channel ?c = Ok d1"
    "log_change l d1 channel ?c True now = Ok d2" "(hlc_store h d2, ?c) = (d', c)"
    by (rule bind_result_chain)
  from f(3) have lg: "\<not> logged d1 s (next_site_seq d s)"
    "d2 = d1\<lparr>change_log := change_log d1 @ [log_entry l channel ?c True now]\<rparr>"
    unfolding log_change_def by (simp_all split: if_splits)
  from f(4) have eqs: "c = ?c" "d' = hlc_store h d2" by simp_all
  show ?thesis
    by (rule that [OF tk [unfolded r st] eqs(1) cols _ _ lg(1) _])
       (simp_all only: f(1,2) eqs lg(2))
qed

lemma write_change_inv:
  assumes "write_change l d s channel tbl o' i rw now = Ok (d', c)" and "db_inv d"
  shows "db_inv d'"
  using assms(1)
proof (cases rule: write_changeE)
  case (1 h ms ctr d1)
  from assms(2) have inv: "dominated d (clock d)" "keys_unique d" by (auto simp: db_inv_def)
  have tk: "tick (clock d) now = (h, Some (ms, ctr))" using 1(1) db_inv_load [OF assms(2)] by simp
  have u: "is_u32 (last_ctr h)" using tick_u32 [OF _ tk] inv by (simp add: dominated_def)
  have le: "hlc_stamp (clock d) \<le> hlc_stamp h" "(ms, ctr) \<le> hlc_stamp h"
    using tick_Some [OF tk] by auto
  have dom: "dominated d h" by (rule dominated_mono [OF inv(1) le(1) u])
  from 1(5) obtain r where r: "d1 = store_row d (table c) (rec_id c) r" "row_key r = change_key c"
    by (rule put_row_Ok)
  have "(r_ms r, r_ctr r) \<le> hlc_stamp h" using r(2) 1(2) le(2) by (simp add: row_key_def change_key_def)
  then have dom1: "dominated d1 h" unfolding r(1) by (rule dominated_store [OF dom])
  let ?d2 = "d1\<lparr>change_log := change_log d1 @ [log_entry l channel c True now]\<rparr>"
  have "dominated ?d2 h" by (rule dominated_log [OF dom1]) (simp add: 1(2) le(2))
  moreover have "keys_unique ?d2"
    by (rule keys_unique_log) (use 1(2,6) r(1) inv(2) in \<open>simp_all add: keys_unique_store\<close>)
  ultimately show ?thesis unfolding 1(7) db_inv_def
    by (simp add: dominated_def keys_unique_def hlc_store_def lookup_def)
qed

lemma apply_changes_inv:
  assumes "apply_changes l d sender channel cs now = Ok (d', out)" and "db_inv d"
    and "\<forall>c \<in> set cs. wf_change c"
  shows "db_inv d'"
proof (cases "list_ex (\<lambda>c. site c \<noteq> sender) cs")
  case True
  with assms show ?thesis by (simp add: apply_changes_def)
next
  case False
  with assms obtain d1 h1 where loop: "apply_loop l channel now d (clock d) cs = Ok (d1, h1, out)"
    and d': "d' = hlc_store h1 d1"
    by (auto simp: apply_changes_def bind_result_eq_Ok db_inv_load)
  from assms(2) have inv: "dominated d (clock d)" "keys_unique d" by (auto simp: db_inv_def)
  from apply_loop_inv [OF loop assms(3) inv] show ?thesis unfolding d' db_inv_def
    by (simp add: dominated_def keys_unique_def hlc_store_def lookup_def)
qed

lemma distinct_map_filter_mono: "distinct (map f xs) \<Longrightarrow> distinct (map f (filter P xs))"
  by (simp add: distinct_map_filter)

lemma map_of_filter_Some:
  "distinct (map fst xs) \<Longrightarrow> map_of (filter P xs) k = Some v \<Longrightarrow> map_of xs k = Some v"
  by (metis (no_types, lifting) distinct_map_filter filter_is_subset map_of_eq_Some_iff subset_iff)

lemma prune_inv:
  assumes "db_inv d" shows "db_inv (fst (prune_tombstones d older))"
proof -
  let ?d = "fst (prune_tombstones d older)"
  from assms have u: "keys_unique d" and dom: "dominated d (clock d)" by (auto simp: db_inv_def)
  have clk: "clock ?d = clock d" by (simp add: prune_tombstones_def)
  have look: "lookup ?d t i = Some r \<Longrightarrow> lookup d t i = Some r" for t i r
    using u map_of_filter_Some [of "recs d t"]
    by (simp add: lookup_def prune_tombstones_def keys_unique_def split: if_splits)
  have log: "set (change_log ?d) \<subseteq> set (change_log d)" by (auto simp: prune_tombstones_def)
  have "dominated ?d (clock d)" using dom look log unfolding dominated_def by blast
  moreover have "keys_unique ?d" using u
    by (simp add: keys_unique_def prune_tombstones_def distinct_map_filter_mono)
  ultimately show ?thesis by (simp add: db_inv_def clk)
qed

section \<open>Reachable databases\<close>

text \<open>
  A site's database from its creation on: the site writes, takes in batches from peers and
  from the hub, and prunes. An operation that fails is rolled back and is no step.
\<close>

definition empty_db :: db where
  "empty_db = \<lparr>clock = \<lparr>last_ms = 0, last_ctr = 0\<rparr>, change_log = [], recs = (\<lambda>_. [])\<rparr>"

inductive reachable :: "libs \<Rightarrow> db \<Rightarrow> bool" for l where
  created: "reachable l empty_db"
| wrote: "reachable l d \<Longrightarrow> write_change l d s channel tbl o' i rw now = Ok (d', c) \<Longrightarrow> reachable l d'"
| took_in: "reachable l d \<Longrightarrow> list_all wf_change cs \<Longrightarrow>
    apply_changes l d sender channel cs now = Ok (d', out) \<Longrightarrow> reachable l d'"
| pruned: "reachable l d \<Longrightarrow> reachable l (fst (prune_tombstones d older))"

lemma empty_db_inv: "db_inv empty_db"
  by (simp add: db_inv_def dominated_def keys_unique_def empty_db_def lookup_def is_u32_def)

lemma reachable_inv: "reachable l d \<Longrightarrow> db_inv d"
proof (induction rule: reachable.induct)
  case created
  show ?case by (rule empty_db_inv)
next
  case wrote
  then show ?case by (metis write_change_inv)
next
  case took_in
  then show ?case by (metis apply_changes_inv list_all_iff)
next
  case pruned
  then show ?case by (simp only: prune_inv)
qed

section \<open>Last-writer-wins\<close>

text \<open>
  What a table promises, without the log and the clock: under each id the newest change in
  the order \<open>(hlc_ms, hlc_ctr, site)\<close>, its channel, and the values it wrote or nothing if it
  deleted the record. An update is a change on its channel.
\<close>

type_synonym content = "sqlval list option"
type_synonym view = "string \<times> string \<Rightarrow> (lww \<times> string \<times> content) option"

definition values_of :: "string \<Rightarrow> (string \<Rightarrow> sqlval) \<Rightarrow> sqlval list" where
  "values_of t f = map (\<lambda>c. f (cname c)) (value_columns t)"

definition row_view :: "string \<Rightarrow> rrow \<Rightarrow> lww \<times> string \<times> content" where
  "row_view t r = (row_key r, r_channel r, if r_deleted r then None else Some (values_of t (r_vals r)))"

definition db_view :: "db \<Rightarrow> view" where
  "db_view d = (\<lambda>(t, i). map_option (row_view t) (lookup d t i))"

definition given_of :: "libs \<Rightarrow> change \<Rightarrow> (string \<times> sqlval) list" where
  "given_of l c = given_values l (the (columns_of (table c))) (the (as_object (row c)))"

definition content_of :: "libs \<Rightarrow> change \<Rightarrow> content" where
  "content_of l c = (case op c of
     Delete \<Rightarrow> None
   | Upsert \<Rightarrow> Some (values_of (table c) (inserted l (table c) (given_of l c))))"

definition merge_one :: "libs \<Rightarrow> view \<Rightarrow> string \<times> change \<Rightarrow> view" where
  "merge_one l v u = (case u of (channel, c) \<Rightarrow>
     (let new = v((table c, rec_id c) \<mapsto> (change_key c, channel, content_of l c)) in
      case v (table c, rec_id c) of
        None \<Rightarrow> new
      | Some (k, _) \<Rightarrow> if k < change_key c then new else v))"

text \<open>Two distinct changes of one record never carry one stamp of one site.\<close>

definition distinct_stamps :: "string \<times> change \<Rightarrow> string \<times> change \<Rightarrow> bool" where
  "distinct_stamps a b \<longleftrightarrow> a = b \<or> change_key (snd a) \<noteq> change_key (snd b)
     \<or> (table (snd a), rec_id (snd a)) \<noteq> (table (snd b), rec_id (snd b))"

lemma merge_one_at:
  "merge_one l v (ch, c) x = (if x = (table c, rec_id c) \<and> (case v x of None \<Rightarrow> True | Some (k, _) \<Rightarrow> k < change_key c)
     then Some (change_key c, ch, content_of l c) else v x)"
  by (auto simp: merge_one_def Let_def split: option.splits)

lemma merge_one_commute:
  assumes "distinct_stamps a b"
  shows "merge_one l (merge_one l v a) b = merge_one l (merge_one l v b) a"
proof (cases "a = b")
  case False
  obtain ca a' cb b' where ab: "a = (ca, a')" "b = (cb, b')" by (metis surj_pair)
  define ka kb where "ka = change_key a'" and "kb = change_key b'"
  have "merge_one l (merge_one l v (ca, a')) (cb, b') x = merge_one l (merge_one l v (cb, b')) (ca, a') x" for x
  proof (cases "x = (table a', rec_id a') \<and> x = (table b', rec_id b')")
    case True
    with False assms ab have "ka < kb \<or> kb < ka"
      by (auto simp: distinct_stamps_def ka_def kb_def)
    then show ?thesis
      using True by (cases "v x") (auto simp: merge_one_at ka_def [symmetric] kb_def [symmetric])
  next
    case False
    then show ?thesis by (auto simp: merge_one_at)
  qed
  then show ?thesis unfolding ab by blast
qed simp

lemma merge_one_absorb: "merge_one l (merge_one l v a) a = merge_one l v a"
  by (cases a, intro ext) (auto simp: merge_one_at split: option.splits)

interpretation lww: idempotent_updates "merge_one l" distinct_stamps for l
  by unfold_locales (fact merge_one_commute, fact merge_one_absorb)

text \<open>A change that brings every column of its table, with a value where one is required.\<close>

definition complete :: "libs \<Rightarrow> change \<Rightarrow> bool" where
  "complete l c \<longleftrightarrow> op c = Upsert \<longrightarrow>
     list_all (\<lambda>col. cname col \<in> fst ` set (given_of l c)) (value_columns (table c))"

lemma put_row_view:
  assumes put: "put_row l d channel c = Ok d'" and "complete l c"
    and "columns_of (table c) \<noteq> None" and "op c = Upsert \<Longrightarrow> as_object (row c) \<noteq> None"
  shows "db_view d' = (db_view d)((table c, rec_id c) \<mapsto> (change_key c, channel, content_of l c))"
proof -
  from put obtain r where d': "d' = store_row d (table c) (rec_id c) r"
    and r: "row_key r = change_key c" "r_channel r = channel" "r_deleted r = (op c = Delete)"
    by (rule put_row_Ok)
  have "row_view (table c) r = (change_key c, channel, content_of l c)"
  proof (cases "op c")
    case Upsert
    from assms(3,4) Upsert obtain cols obj where co: "columns_of (table c) = Some cols" "as_object (row c) = Some obj"
      by auto
    then have g: "given_of l c = given_values l cols obj" by (simp add: given_of_def)
    have "r_vals r (cname col) = inserted l (table c) (given_of l c) (cname col)"
      if "col \<in> set (value_columns (table c))" for col
      using put_upsert_values [OF put Upsert co(2,1), of "cname col"] that assms(2) Upsert
      by (simp add: complete_def list_all_iff g d')
    then have "values_of (table c) (r_vals r) = values_of (table c) (inserted l (table c) (given_of l c))"
      by (simp add: values_of_def)
    then show ?thesis using r Upsert by (simp add: row_view_def content_of_def)
  next
    case Delete
    then show ?thesis using r by (simp add: row_view_def content_of_def)
  qed
  then show ?thesis by (auto simp: db_view_def d' fun_eq_iff)
qed

lemma db_view_frame [simp]:
  "db_view (d\<lparr>change_log := lg\<rparr>) = db_view d" "db_view (mark_applied d s q) = db_view d"
  "db_view (hlc_store h d) = db_view d"
  by (simp_all add: db_view_def)

lemma wins_view:
  "wins d c \<longleftrightarrow> (case db_view d (table c, rec_id c) of None \<Rightarrow> True | Some (k, _) \<Rightarrow> k < change_key c)"
  by (simp add: wins_def db_view_def row_view_def split: option.splits)

lemma merge_one_wins:
  "merge_one l (db_view d) (ch, c) = (if wins d c
     then (db_view d)((table c, rec_id c) \<mapsto> (change_key c, ch, content_of l c)) else db_view d)"
  by (intro ext) (auto simp: merge_one_at wins_view)

end
