(* ===== verification/Sync_Replicas.thy ===== *)
theory Sync_Replicas
  imports Sync_Laws
begin

text \<open>
  Replicas over time: what a site's database holds after any sequence of local writes and
  batches taken in, as a function of the changes it accepted; hence convergence, safe
  redelivery, isolation of channels and the round trip of a backfill.
\<close>

section \<open>What a batch does\<close>

text \<open>The changes of a batch the site took into its log, each with the batch's channel.\<close>

definition accepted :: "string \<Rightarrow> change list \<Rightarrow> applied list \<Rightarrow> (string \<times> change) list" where
  "accepted channel cs out =
     map (\<lambda>(c, _). (channel, c)) (filter (\<lambda>(_, a). a = Stored \<or> a = Lost) (zip cs out))"

definition taken :: "string \<Rightarrow> change \<Rightarrow> applied \<Rightarrow> (string \<times> change) list" where
  "taken channel c a = (if a = Stored \<or> a = Lost then [(channel, c)] else [])"

definition history_entry :: "libs \<Rightarrow> log_row \<Rightarrow> string \<times> change" where
  "history_entry l e = (l_channel e, logged_change l (l_site e) e)"

text \<open>Reading a change back from the log gives the change, where JSON reads what it wrote.\<close>

definition json_ok :: "libs \<Rightarrow> change \<Rightarrow> bool" where
  "json_ok l c \<longleftrightarrow> row c = JNull \<or> json_parse l (json_text l (row c)) = Some (row c)"

lemma logged_change_log_entry:
  assumes "json_ok l c" and "is_u32 (hlc_ctr c)"
  shows "logged_change l (site c) (log_entry l channel c ap now) = c"
proof -
  have "hlc_ctr c mod 2 ^ 32 = hlc_ctr c" using assms(2) by (simp add: is_u32_def u32_max_def)
  moreover have "(if op_name (op c) = ''delete'' then Delete else Upsert) = op c"
    by (cases "op c") simp_all
  ultimately show ?thesis using assms(1)
    by (cases "row c = JNull") (simp_all add: logged_change_def log_entry_def json_ok_def)
qed

lemma history_entry_log_entry:
  "json_ok l c \<Longrightarrow> is_u32 (hlc_ctr c) \<Longrightarrow> history_entry l (log_entry l channel c ap now) = (channel, c)"
  by (simp add: history_entry_def logged_change_log_entry)

lemma history_entry_applied [simp]:
  "history_entry l (e\<lparr>l_applied := b\<rparr>) = history_entry l e"
  by (simp add: history_entry_def logged_change_def)

definition history :: "libs \<Rightarrow> db \<Rightarrow> (string \<times> change) list" where
  "history l d = map (history_entry l) (change_log d)"

lemma history_mark [simp]: "history l (mark_applied d s q) = history l d"
  by (simp add: history_def mark_applied_def)

lemma history_frame [simp]:
  "history l (store_row d t i r) = history l d" "history l (hlc_store h d) = history l d"
  by (simp_all add: history_def)

lemma history_log [simp]: "history l (d\<lparr>change_log := change_log d @ [e]\<rparr>) = history l d @ [history_entry l e]"
  by (simp add: history_def)

text \<open>One change: the log grows by it and the tables merge it, or nothing happens.\<close>

lemma apply_one_refines:
  assumes "apply_one l channel now d h c = Ok (d', h', a)" and "complete l c"
  shows "db_view d' = foldl (merge_one l) (db_view d) (taken channel c a)"
  using assms(1)
proof (cases rule: apply_oneE)
  case skip
  then show ?thesis by (auto simp: taken_def)
next
  case (lost s)
  then show ?thesis by (simp add: taken_def merge_one_wins)
next
  case (stored s d1)
  from put_row_view [OF stored(6) assms(2) well_formedD(1,2) [OF stored(2)]] stored
  show ?thesis by (simp add: taken_def merge_one_wins)
qed

lemma apply_one_history:
  assumes "apply_one l channel now d h c = Ok (d', h', a)" and "\<forall>u \<in> set (taken channel c a). json_ok l (snd u)"
    and "wf_change c"
  shows "history l d' = history l d @ taken channel c a"
  using assms(1)
proof (cases rule: apply_oneE)
  case skip
  then show ?thesis by (auto simp: taken_def)
next
  case (lost s)
  with assms show ?thesis by (simp add: taken_def history_entry_log_entry wf_change_def)
next
  case (stored s d1)
  from stored(6) obtain r where
    "d1 = store_row (d\<lparr>change_log := change_log d @ [log_entry l channel c False now]\<rparr>) (table c) (rec_id c) r"
    by (rule put_row_Ok)
  with stored assms show ?thesis by (simp add: taken_def history_entry_log_entry wf_change_def)
qed

lemma apply_loop_Cons_Ok:
  assumes "apply_loop l channel now d h (c # cs) = Ok (d', h', out)"
  obtains d1 h1 a out1 where "apply_one l channel now d h c = Ok (d1, h1, a)"
    and "apply_loop l channel now d1 h1 cs = Ok (d', h', out1)" and "out = a # out1"
  using assms by (auto simp: bind_result_eq_Ok)

lemma accepted_Cons [simp]:
  "accepted ch (c # cs) (a # out) = taken ch c a @ accepted ch cs out"
  "accepted ch [] out = []"
  by (simp_all add: accepted_def taken_def)

lemma apply_loop_refines:
  "apply_loop l channel now d h cs = Ok (d', h', out) \<Longrightarrow> \<forall>c \<in> set cs. complete l c \<Longrightarrow>
     db_view d' = foldl (merge_one l) (db_view d) (accepted channel cs out)"
proof (induction cs arbitrary: d h out)
  case Nil
  then show ?case by simp
next
  case (Cons c cs)
  from Cons.prems(1) show ?case
  proof (rule apply_loop_Cons_Ok)
    fix d1 h1 a out1
    assume one: "apply_one l channel now d h c = Ok (d1, h1, a)"
      and rest: "apply_loop l channel now d1 h1 cs = Ok (d', h', out1)" and out: "out = a # out1"
    from Cons.IH [OF rest] Cons.prems(2) apply_one_refines [OF one] show ?thesis
      unfolding out accepted_Cons foldl_append by simp
  qed
qed

lemma apply_loop_history:
  "apply_loop l channel now d h cs = Ok (d', h', out) \<Longrightarrow>
     \<forall>u \<in> set (accepted channel cs out). json_ok l (snd u) \<Longrightarrow> \<forall>c \<in> set cs. wf_change c \<Longrightarrow>
     history l d' = history l d @ accepted channel cs out"
proof (induction cs arbitrary: d h out)
  case Nil
  then show ?case by simp
next
  case (Cons c cs)
  from Cons.prems(1) show ?case
  proof (rule apply_loop_Cons_Ok)
    fix d1 h1 a out1
    assume one: "apply_one l channel now d h c = Ok (d1, h1, a)"
      and rest: "apply_loop l channel now d1 h1 cs = Ok (d', h', out1)" and out: "out = a # out1"
    from Cons.prems(2) have j: "\<forall>u \<in> set (taken channel c a). json_ok l (snd u)"
      "\<forall>u \<in> set (accepted channel cs out1). json_ok l (snd u)" by (simp_all add: out ball_Un)
    from Cons.IH [OF rest j(2)] Cons.prems(3) apply_one_history [OF one j(1)] show ?thesis
      unfolding out accepted_Cons by simp
  qed
qed

lemma apply_changes_cases:
  assumes "apply_changes l d sender channel cs now = Ok (d', out)"
  obtains (refused) "list_ex (\<lambda>c. site c \<noteq> sender) cs" "d' = d" "out = replicate (length cs) Impersonation"
  | (looped) d1 h1 where "\<forall>c \<in> set cs. site c = sender"
      "apply_loop l channel now d (hlc_load d) cs = Ok (d1, h1, out)" "d' = hlc_store h1 d1"
  using assms unfolding apply_changes_def
  by (cases "list_ex (\<lambda>c. site c \<noteq> sender) cs") (auto simp: bind_result_eq_Ok list_ex_iff)

lemma accepted_refused [simp]: "accepted ch cs (replicate n Impersonation) = []"
  by (auto simp: accepted_def filter_empty_conv dest!: set_zip_rightD)

lemma apply_changes_refines:
  assumes "apply_changes l d sender channel cs now = Ok (d', out)" and "\<forall>c \<in> set cs. complete l c"
  shows "db_view d' = foldl (merge_one l) (db_view d) (accepted channel cs out)"
  using assms(1)
proof (cases rule: apply_changes_cases)
  case refused
  then show ?thesis by simp
next
  case (looped d1 h1)
  with apply_loop_refines [OF looped(2) assms(2)] show ?thesis by simp
qed

lemma apply_changes_history:
  assumes "apply_changes l d sender channel cs now = Ok (d', out)"
    and "\<forall>u \<in> set (accepted channel cs out). json_ok l (snd u)" and "\<forall>c \<in> set cs. wf_change c"
  shows "history l d' = history l d @ accepted channel cs out"
  using assms(1)
proof (cases rule: apply_changes_cases)
  case refused
  then show ?thesis by simp
next
  case (looped d1 h1)
  with apply_loop_history [OF looped(2) assms(2,3)] show ?thesis by simp
qed

section \<open>Local writes\<close>

lemma write_change_newest:
  assumes "db_inv d" and "write_change l d s channel tbl o' i rw now = Ok (d', c)"
  shows "\<forall>t j r. lookup d t j = Some r \<longrightarrow> row_key r < change_key c"
  using assms(2)
proof (cases rule: write_changeE)
  case (1 h ms ctr d1)
  have "tick (clock d) now = (h, Some (ms, ctr))" using 1(1) db_inv_load [OF assms(1)] by simp
  then have lt: "hlc_stamp (clock d) < (ms, ctr)" using tick_Some by blast
  show ?thesis
  proof (intro allI impI)
    fix t j r assume "lookup d t j = Some r"
    with assms(1) have "(r_ms r, r_ctr r) \<le> hlc_stamp (clock d)"
      by (auto simp: db_inv_def dominated_def)
    also note lt
    finally show "row_key r < change_key c" by (auto simp: 1(2) row_key_def change_key_def)
  qed
qed

lemma write_change_refines:
  assumes "db_inv d" and "write_change l d s channel tbl o' i rw now = Ok (d', c)" and "complete l c"
  shows "db_view d' = merge_one l (db_view d) (channel, c)"
proof -
  have w: "wins d c" using write_change_newest [OF assms(1,2)] by (simp add: wins_def split: option.splits)
  from assms(2) show ?thesis
  proof (cases rule: write_changeE)
    case (1 h ms ctr d1)
    have cols: "columns_of (table c) \<noteq> None" using 1(2,3) by simp
    have obj: "op c = Upsert \<Longrightarrow> as_object (row c) \<noteq> None"
      using 1(5) by (auto simp: put_row_def put_upsert_def Let_def split: option.splits)
    from put_row_view [OF 1(5) assms(3) cols obj] w 1(7) show ?thesis by (simp add: merge_one_wins)
  qed
qed

lemma write_change_u32:
  assumes "db_inv d" and "write_change l d s channel tbl o' i rw now = Ok (d', c)"
  shows "is_u32 (hlc_ctr c)"
  using assms(2)
proof (cases rule: write_changeE)
  case (1 h ms ctr d1)
  then have tk: "tick (clock d) now = (h, Some (ms, ctr))" using db_inv_load [OF assms(1)] by simp
  then have "hlc_stamp h = (ms, ctr)" using tick_Some by blast
  moreover have "is_u32 (last_ctr h)"
    using tick_u32 [OF _ tk] assms(1) by (simp add: db_inv_def dominated_def)
  ultimately show ?thesis using 1(2) by (simp add: hlc_stamp_def)
qed

lemma write_change_history:
  assumes "db_inv d" and "write_change l d s channel tbl o' i rw now = Ok (d', c)" and "json_ok l c"
  shows "history l d' = history l d @ [(channel, c)]"
  using assms(2)
proof (cases rule: write_changeE)
  case (1 h ms ctr d1)
  from 1(5) obtain r where "d1 = store_row d (table c) (rec_id c) r" by (rule put_row_Ok)
  with history_entry_log_entry [OF assms(3) write_change_u32 [OF assms(1,2)]] show ?thesis
    unfolding 1(7) by (simp only: history_frame history_log)
qed

section \<open>A replica's life\<close>

text \<open>A site's database and the changes it has written or taken in, oldest first.\<close>

inductive evolves :: "libs \<Rightarrow> db \<Rightarrow> (string \<times> change) list \<Rightarrow> bool" for l where
  start: "evolves l empty_db []"
| local: "evolves l d us \<Longrightarrow> write_change l d s channel tbl o' i rw now = Ok (d', c) \<Longrightarrow>
    complete l c \<Longrightarrow> evolves l d' (us @ [(channel, c)])"
| remote: "evolves l d us \<Longrightarrow> list_all (\<lambda>c. wf_change c \<and> complete l c) cs \<Longrightarrow>
    apply_changes l d sender channel cs now = Ok (d', out) \<Longrightarrow>
    evolves l d' (us @ accepted channel cs out)"

lemma evolves_inv: "evolves l d us \<Longrightarrow> db_inv d"
proof (induction rule: evolves.induct)
  case start
  show ?case by (rule empty_db_inv)
next
  case local
  then show ?case by (metis write_change_inv)
next
  case remote
  then show ?case by (metis apply_changes_inv list_all_iff)
qed

lemma evolves_view: "evolves l d us \<Longrightarrow> db_view d = foldl (merge_one l) (\<lambda>_. None) us"
proof (induction rule: evolves.induct)
  case start
  show ?case by (auto simp: db_view_def empty_db_def lookup_def)
next
  case (local d us s channel tbl o' i rw now d' c)
  from write_change_refines [OF evolves_inv [OF local(1)] local(2,3)] local.IH show ?case by simp
next
  case (remote d us cs sender channel now d' out)
  then have "\<forall>c \<in> set cs. complete l c" by (simp add: list_all_iff)
  from apply_changes_refines [OF remote(3) this] remote.IH show ?case by simp
qed

lemma evolves_history: "evolves l d us \<Longrightarrow> \<forall>u \<in> set us. json_ok l (snd u) \<Longrightarrow> history l d = us"
proof (induction rule: evolves.induct)
  case start
  show ?case by (simp add: history_def empty_db_def)
next
  case (local d us s channel tbl o' i rw now d' c)
  then have "json_ok l c" by simp
  from write_change_history [OF evolves_inv [OF local(1)] local(2) this] local.IH local.prems
  show ?case by simp
next
  case (remote d us cs sender channel now d' out)
  then have "\<forall>c \<in> set cs. wf_change c" "\<forall>u \<in> set (accepted channel cs out). json_ok l (snd u)"
    by (simp_all add: list_all_iff)
  from apply_changes_history [OF remote(3) this(2,1)] remote.IH remote.prems show ?case by simp
qed

section \<open>Redelivery\<close>

lemma logged_frame [simp]:
  "logged (store_row d t i r) = logged d" "logged (hlc_store h d) = logged d"
  by (simp_all add: logged_def fun_eq_iff)

lemma logged_mark [simp]: "logged (mark_applied d s q) = logged d"
proof (intro ext)
  fix s' q'
  have "set (map (\<lambda>e. (l_site e, l_seq e)) (change_log (mark_applied d s q)))
    = set (map (\<lambda>e. (l_site e, l_seq e)) (change_log d))" by (simp only: mark_applied_log)
  then show "logged (mark_applied d s q) s' q' = logged d s' q'"
    unfolding logged_iff set_map by (rule arg_cong)
qed

lemma logged_snoc: "logged (d\<lparr>change_log := change_log d @ [e]\<rparr>) s q \<longleftrightarrow> logged d s q \<or> (l_site e = s \<and> l_seq e = q)"
  by (auto simp: logged_def)

lemma apply_one_logged:
  assumes "apply_one l channel now d h c = Ok (d', h', a)"
  shows "logged d s q \<Longrightarrow> logged d' s q"
    and "a \<in> {Stored, Lost, Duplicate} \<Longrightarrow> logged d' (site c) (site_seq c)"
proof -
  have "(logged d s q \<longrightarrow> logged d' s q) \<and> (a \<in> {Stored, Lost, Duplicate} \<longrightarrow> logged d' (site c) (site_seq c))"
    using assms
  proof (cases rule: apply_oneE)
    case skip
    then show ?thesis by auto
  next
    case (lost s)
    then show ?thesis by (simp add: logged_snoc)
  next
    case (stored s d1)
    from stored(6) obtain r where
      "d1 = store_row (d\<lparr>change_log := change_log d @ [log_entry l channel c False now]\<rparr>) (table c) (rec_id c) r"
      by (rule put_row_Ok)
    with stored show ?thesis by (simp add: logged_snoc)
  qed
  then show "logged d s q \<Longrightarrow> logged d' s q" 
    and "a \<in> {Stored, Lost, Duplicate} \<Longrightarrow> logged d' (site c) (site_seq c)" by blast+
qed

lemma apply_loop_logged:
  "apply_loop l channel now d h cs = Ok (d', h', out) \<Longrightarrow>
     (\<forall>s q. logged d s q \<longrightarrow> logged d' s q) \<and>
     (set out \<subseteq> {Stored, Lost, Duplicate} \<longrightarrow> (\<forall>c \<in> set cs. logged d' (site c) (site_seq c)))"
proof (induction cs arbitrary: d h out)
  case Nil
  then show ?case by simp
next
  case (Cons c cs)
  from Cons.prems show ?case
  proof (rule apply_loop_Cons_Ok)
    fix d1 h1 a out1
    assume one: "apply_one l channel now d h c = Ok (d1, h1, a)"
      and rest: "apply_loop l channel now d1 h1 cs = Ok (d', h', out1)" and out: "out = a # out1"
    from Cons.IH [OF rest] apply_one_logged [OF one] show ?thesis unfolding out by auto
  qed
qed

lemma apply_one_duplicate:
  assumes "logged d (site c) (site_seq c)"
  shows "\<exists>a. apply_one l channel now d h c = Ok (d, h, a) \<and> (a = Duplicate \<or> a = Malformed)"
  using assms by (cases "observe h now (hlc_ms c, hlc_ctr c)") (auto simp: apply_one_def split: option.splits)

lemma apply_loop_duplicate:
  "\<forall>c \<in> set cs. logged d (site c) (site_seq c) \<Longrightarrow>
     \<exists>out. apply_loop l channel now d h cs = Ok (d, h, out) \<and> set out \<subseteq> {Duplicate, Malformed}"
proof (induction cs)
  case Nil
  show ?case by simp
next
  case (Cons c cs)
  then obtain out where out: "apply_loop l channel now d h cs = Ok (d, h, out)" "set out \<subseteq> {Duplicate, Malformed}"
    by auto
  from apply_one_duplicate [of d c l channel now h] Cons.prems obtain a where
    "apply_one l channel now d h c = Ok (d, h, a)" "a = Duplicate \<or> a = Malformed" by auto
  with out show ?case by auto
qed

lemma apply_changes_duplicate:
  assumes "db_inv d" and "\<forall>c \<in> set cs. logged d (site c) (site_seq c)" and "\<forall>c \<in> set cs. site c = sender"
  shows "\<exists>out. apply_changes l d sender channel cs now = Ok (d, out) \<and> set out \<subseteq> {Duplicate, Malformed}"
proof -
  obtain out where out: "apply_loop l channel now d (clock d) cs = Ok (d, clock d, out)"
    "set out \<subseteq> {Duplicate, Malformed}" using apply_loop_duplicate [OF assms(2)] by blast
  have "hlc_store (clock d) d = d" by (simp add: hlc_store_def)
  with out assms(3) show ?thesis
    by (simp add: apply_changes_def db_inv_load [OF assms(1)] list_ex_iff)
qed

lemma apply_changes_logged:
  assumes "apply_changes l d sender channel cs now = Ok (d', out)" and "set out \<subseteq> {Stored, Lost, Duplicate}"
  shows "\<forall>c \<in> set cs. logged d' (site c) (site_seq c) \<and> site c = sender"
  using assms(1)
proof (cases rule: apply_changes_cases)
  case refused
  with assms(2) show ?thesis by (cases cs) auto
next
  case (looped d1 h1)
  with apply_loop_logged [OF looped(2)] assms(2) show ?thesis by simp
qed

section \<open>Isolation\<close>

text \<open>A row is as it was, or it was replaced on its channel by a newer change of the sender.\<close>

definition rows_kept :: "string \<Rightarrow> string \<Rightarrow> db \<Rightarrow> db \<Rightarrow> bool" where
  "rows_kept channel sender d d' \<longleftrightarrow> (\<forall>t i. lookup d' t i = lookup d t i \<or>
     (\<exists>r. lookup d' t i = Some r \<and> r_channel r = channel \<and> r_site r = sender \<and>
        (\<forall>r0. lookup d t i = Some r0 \<longrightarrow> r_channel r0 = channel \<and> row_key r0 < row_key r)))"

lemma rows_kept_refl: "rows_kept ch s d d"
  by (simp add: rows_kept_def)

lemma rows_kept_trans:
  assumes 1: "rows_kept ch s d d1" and 2: "rows_kept ch s d1 d2"
  shows "rows_kept ch s d d2"
  unfolding rows_kept_def
proof (intro allI)
  fix t i
  from 1 2 have a: "lookup d1 t i = lookup d t i \<or> (\<exists>r. lookup d1 t i = Some r \<and> r_channel r = ch \<and> r_site r = s \<and>
        (\<forall>r0. lookup d t i = Some r0 \<longrightarrow> r_channel r0 = ch \<and> row_key r0 < row_key r))"
    and b: "lookup d2 t i = lookup d1 t i \<or> (\<exists>r. lookup d2 t i = Some r \<and> r_channel r = ch \<and> r_site r = s \<and>
        (\<forall>r0. lookup d1 t i = Some r0 \<longrightarrow> r_channel r0 = ch \<and> row_key r0 < row_key r))"
    by (simp_all add: rows_kept_def)
  from a b show "lookup d2 t i = lookup d t i \<or> (\<exists>r. lookup d2 t i = Some r \<and> r_channel r = ch \<and> r_site r = s \<and>
        (\<forall>r0. lookup d t i = Some r0 \<longrightarrow> r_channel r0 = ch \<and> row_key r0 < row_key r))"
    by (elim disjE exE) (auto intro: less_trans)
qed

definition log_keys :: "db \<Rightarrow> (string \<times> int \<times> string) list" where
  "log_keys d = map (\<lambda>e. (l_site e, l_seq e, l_channel e)) (change_log d)"

lemma log_keys_frame [simp]:
  "log_keys (store_row d t i r) = log_keys d" "log_keys (mark_applied d s q) = log_keys d"
  "log_keys (hlc_store h d) = log_keys d"
  by (simp_all add: log_keys_def mark_applied_def)

lemma apply_one_isolated:
  assumes "apply_one l channel now d h c = Ok (d', h', a)"
  shows "rows_kept channel (site c) d d'"
    and "\<exists>qs. log_keys d' = log_keys d @ map (\<lambda>q. (site c, q, channel)) qs"
proof -
  have "rows_kept channel (site c) d d' \<and>
    (\<exists>qs. log_keys d' = log_keys d @ map (\<lambda>q. (site c, q, channel)) qs)"
    using assms
  proof (cases rule: apply_oneE)
    case skip
    then show ?thesis by (auto simp: rows_kept_refl intro: exI [of _ "[]"])
  next
    case (lost s)
    then show ?thesis by (auto simp: rows_kept_def log_keys_def intro: exI [of _ "[site_seq c]"])
  next
    case (stored s d1)
    let ?d = "d\<lparr>change_log := change_log d @ [log_entry l channel c False now]\<rparr>"
    from stored(6) obtain r where r: "d1 = store_row ?d (table c) (rec_id c) r"
      "row_key r = change_key c" "r_channel r = channel" by (rule put_row_Ok)
    have "r_site r = site c" using r(2) by (simp add: row_key_def change_key_def)
    moreover have "row_key r0 < row_key r \<and> r_channel r0 = channel"
      if "lookup d (table c) (rec_id c) = Some r0" for r0
      using stored(5) that r(2) well_formedD(3) [OF stored(2) that] by (simp add: wins_def)
    ultimately have "rows_kept channel (site c) d d'"
      using r(3) unfolding rows_kept_def stored(7) r(1) by simp
    moreover have "log_keys d' = log_keys d @ map (\<lambda>q. (site c, q, channel)) [site_seq c]"
      unfolding stored(7) r(1) log_keys_frame by (simp add: log_keys_def)
    ultimately show ?thesis by blast
  qed
  then show "rows_kept channel (site c) d d'"
    and "\<exists>qs. log_keys d' = log_keys d @ map (\<lambda>q. (site c, q, channel)) qs" by blast+
qed

lemma apply_loop_isolated:
  "apply_loop l channel now d h cs = Ok (d', h', out) \<Longrightarrow> \<forall>c \<in> set cs. site c = sender \<Longrightarrow>
     rows_kept channel sender d d' \<and> (\<exists>qs. log_keys d' = log_keys d @ map (\<lambda>q. (sender, q, channel)) qs)"
proof (induction cs arbitrary: d h out)
  case Nil
  then show ?case by (auto simp: rows_kept_refl intro: exI [of _ "[]"])
next
  case (Cons c cs)
  from Cons.prems(1) show ?case
  proof (rule apply_loop_Cons_Ok)
    fix d1 h1 a out1
    assume one: "apply_one l channel now d h c = Ok (d1, h1, a)"
      and rest: "apply_loop l channel now d1 h1 cs = Ok (d', h', out1)"
    have s: "site c = sender" using Cons.prems(2) by simp
    from apply_one_isolated(2) [OF one] obtain q1 where
      q1: "log_keys d1 = log_keys d @ map (\<lambda>q. (sender, q, channel)) q1" unfolding s by blast
    from Cons.IH [OF rest] Cons.prems(2) obtain q2 where kept: "rows_kept channel sender d1 d'"
      and q2: "log_keys d' = log_keys d1 @ map (\<lambda>q. (sender, q, channel)) q2" by auto
    have "rows_kept channel sender d d'"
      using rows_kept_trans [OF apply_one_isolated(1) [OF one, unfolded s] kept] .
    moreover have "log_keys d' = log_keys d @ map (\<lambda>q. (sender, q, channel)) (q1 @ q2)"
      by (simp add: q1 q2)
    ultimately show ?thesis by blast
  qed
qed

section \<open>When a batch fails\<close>

lemma tombstone_covers:
  assumes "n \<in> set tombstone_supplies" and "n \<in> set cols" and "n \<noteq> ''channel''"
  shows "\<exists>v. map_of (tombstone_values cols ms) n = Some v \<and> v \<noteq> SNull"
proof -
  have "(n, if n = ''slug'' \<or> n = ''kind'' then SText [] else SInt ms) \<in> set (tombstone_values cols ms)"
    unfolding tombstone_values_def set_concat set_map
    by (rule UN_I [OF imageI [OF assms(2)]]) (use assms(1,3) in \<open>auto simp: tombstone_supplies_def\<close>)
  then have "n \<in> fst ` set (tombstone_values cols ms)" by (rule image_eqI [rotated]) simp
  then obtain v where v: "map_of (tombstone_values cols ms) n = Some v"
    by (metis map_of_eq_None_iff not_None_eq)
  then have "(n, v) \<in> set (tombstone_values cols ms)" by (rule map_of_SomeD)
  then have "v \<noteq> SNull" by (auto simp: tombstone_values_def split: if_splits)
  with v show ?thesis by blast
qed

lemma tombstone_values_text: "map_of (tombstone_values cols ms) n = Some v \<Longrightarrow> v \<noteq> SNull"
  by (drule map_of_SomeD) (auto simp: tombstone_values_def split: if_splits)

lemma tombstone_not_null:
  assumes "columns_of t = Some cols"
  shows "not_null_ok t (tombstone_values cols ms)"
proof -
  have "(t, cols) \<in> set TABLES" using assms by (simp add: columns_of_def map_of_SomeD)
  with schema_required have req: "\<forall>c \<in> set (schema_of t). notnull c \<longrightarrow> cname c \<in> set stamp_names \<or>
      (cname c \<in> set tombstone_supplies \<and> cname c \<in> set cols) \<or> (dflt c \<noteq> None \<and> dflt c \<noteq> Some SNull)"
    by (auto simp: list_all_iff)
  show ?thesis unfolding not_null_ok_def list_all_iff
  proof (intro ballI impI)
    fix c assume c: "c \<in> set (value_columns t)" and "notnull c"
    then have sch: "c \<in> set (schema_of t)" and nm: "cname c \<notin> set stamp_names" "cname c \<noteq> ''channel''"
      by (simp_all add: value_columns_def)
    show "bound (tombstone_values cols ms) c \<noteq> SNull"
    proof (cases "map_of (tombstone_values cols ms) (cname c)")
      case None
      then have "\<not> (cname c \<in> set tombstone_supplies \<and> cname c \<in> set cols)"
        using tombstone_covers [of "cname c" cols ms] nm(2) by auto
      with req sch \<open>notnull c\<close> nm(1) have "dflt c \<noteq> None \<and> dflt c \<noteq> Some SNull" by blast
      with None show ?thesis by (auto simp: bound_def)
    next
      case (Some v)
      then show ?thesis using tombstone_values_text by (auto simp: bound_def)
    qed
  qed
qed

lemma put_row_Err:
  assumes "put_row l d channel c = Err e" and "well_formed d channel c"
  shows "e = Sqlite \<and> op c = Upsert \<and> \<not> not_null_ok (table c) (given_of l c)"
proof (cases "op c")
  case Upsert
  with well_formedD(2) [OF assms(2)] assms(1) show ?thesis
    by (auto simp: put_row_def put_upsert_def Let_def given_of_def split: if_splits option.splits)
next
  case Delete
  from well_formedD(1) [OF assms(2)] obtain cols where cols: "columns_of (table c) = Some cols" by blast
  from assms(1) tombstone_not_null [OF cols] well_formedD(3) [OF assms(2)] show ?thesis
    by (auto simp: put_row_def put_delete_def Let_def Delete cols split: if_splits option.splits)
qed

lemma well_formed_frame [simp]: "well_formed (d\<lparr>change_log := lg\<rparr>) ch c = well_formed d ch c"
  by (simp add: well_formed_def validate_channel_def)

lemma apply_one_Err:
  assumes "apply_one l channel now d h c = Err e"
  shows "e = Sqlite \<and> op c = Upsert \<and> \<not> not_null_ok (table c) (given_of l c)"
proof -
  let ?d = "d\<lparr>change_log := change_log d @ [log_entry l channel c False now]\<rparr>"
  from assms have wf: "well_formed d channel c"
    by (cases "well_formed d channel c") (simp_all add: apply_one_def)
  obtain h1 s where ob: "observe h now (hlc_ms c, hlc_ctr c) = (h1, s)" by (meson surj_pair)
  from assms wf ob have "put_row l ?d channel c = Err e"
    by (cases s; cases "put_row l ?d channel c") (simp_all add: apply_one_def Let_def split: if_splits)
  then show ?thesis by (rule put_row_Err) (simp add: wf)
qed

lemma apply_loop_Err:
  "apply_loop l channel now d h cs = Err e \<Longrightarrow>
     e = Sqlite \<and> (\<exists>c \<in> set cs. op c = Upsert \<and> \<not> not_null_ok (table c) (given_of l c))"
proof (induction cs arbitrary: d h)
  case Nil
  then show ?case by simp
next
  case (Cons c cs)
  show ?case
  proof (cases "apply_one l channel now d h c")
    case (Inl e1)
    with Cons.prems have "e1 = e" by simp
    with apply_one_Err [OF Inl] show ?thesis by auto
  next
    case (Inr x)
    obtain d1 h1 a where "x = (d1, h1, a)" by (metis surj_pair)
    with Inr Cons.prems have "apply_loop l channel now d1 h1 cs = Err e"
      by (cases "apply_loop l channel now d1 h1 cs") auto
    from Cons.IH [OF this] show ?thesis by auto
  qed
qed

section \<open>Backfill\<close>

lemma map_insort_key: "map f (insort_key (\<lambda>x. g (f x)) x xs) = insort_key g (f x) (map f xs)"
  by (induction xs) auto

lemma map_sort_key: "map f (sort_key (\<lambda>x. g (f x)) xs) = sort_key g (map f xs)"
  by (induction xs) (simp_all add: map_insort_key)

lemma changes_of_site_after_history:
  "changes_of_site_after l d s channel after limit =
     take limit (sort_key site_seq (map snd (filter (\<lambda>(ch, c). site c = s \<and> ch = channel \<and> site_seq c > after)
       (history l d))))"
proof -
  let ?es = "filter (\<lambda>e. l_site e = s \<and> l_channel e = channel \<and> l_seq e > after) (change_log d)"
  have k: "l_seq = (\<lambda>e. site_seq (logged_change l s e))" by (simp add: fun_eq_iff logged_change_def)
  have "map snd (filter (\<lambda>(ch, c). site c = s \<and> ch = channel \<and> site_seq c > after) (history l d))
    = map (logged_change l s) ?es"
    by (induction "change_log d" arbitrary: d)
       (simp_all add: history_def history_entry_def logged_change_def filter_map o_def cong: filter_cong)
  then show ?thesis by (simp add: changes_of_site_after_def take_map [symmetric] map_sort_key k)
qed

section \<open>A sample: one site deletes a record, a peer takes it in\<close>

definition sample_l :: libs where
  "sample_l = \<lparr>affinity = (\<lambda>_ v. v), json_text = (\<lambda>_. []), json_parse = (\<lambda>_. None), f64_of_int = nat\<rparr>"

definition sample_change :: change where
  "sample_change = \<lparr>table = ''promotion'', op = Delete, rec_id = ''p'', site = ''a'', site_seq = 1,
     hlc_ms = 5, hlc_ctr = 0, row = JNull\<rparr>"

definition sample_row :: "libs \<Rightarrow> rrow" where
  "sample_row l = \<lparr>r_channel = ''ch'', r_site = ''a'', r_seq = 1, r_ms = 5, r_ctr = 0, r_deleted = True,
     r_vals = inserted l ''promotion'' (tombstone_values (the (columns_of ''promotion'')) 5)\<rparr>"

definition sample_site :: "libs \<Rightarrow> db" where
  "sample_site l = \<lparr>clock = \<lparr>last_ms = 5, last_ctr = 0\<rparr>,
     change_log = [log_entry l ''ch'' sample_change True 5],
     recs = (\<lambda>t. if t = ''promotion'' then [(''p'', sample_row l)] else [])\<rparr>"

definition sample_peer :: "libs \<Rightarrow> db" where
  "sample_peer l = \<lparr>clock = \<lparr>last_ms = 7, last_ctr = 0\<rparr>,
     change_log = [log_entry l ''ch'' sample_change True 7],
     recs = (\<lambda>t. if t = ''promotion'' then [(''p'', sample_row l)] else [])\<rparr>"

lemma sample_columns: "columns_of ''promotion'' \<noteq> None"
  by (simp add: columns_of_def TABLES_def)

lemma sample_put:
  assumes "lookup d ''promotion'' ''p'' = None"
  shows "put_row l d ''ch'' sample_change = Ok (store_row d ''promotion'' ''p'' (sample_row l))"
proof -
  from sample_columns obtain cols where cols: "columns_of ''promotion'' = Some cols" by blast
  with tombstone_not_null [OF cols, of 5] assms show ?thesis
    by (simp add: put_row_def put_delete_def sample_change_def sample_row_def Let_def)
qed

lemma sample_write:
  "write_change l empty_db ''a'' ''ch'' ''promotion'' Delete ''p'' JNull 5 = Ok (sample_site l, sample_change)"
proof -
  have nn: "lookup empty_db ''promotion'' ''p'' = None" by (simp add: lookup_def empty_db_def)
  have tk: "tick (hlc_load empty_db) 5 = (\<lparr>last_ms = 5, last_ctr = 0\<rparr>, Some (5, 0))"
    by (simp add: tick_def hlc_load_def empty_db_def commit_def set_stamp_def)
  have sq: "next_site_seq empty_db ''a'' = 1" by (simp add: next_site_seq_def max_seq_def empty_db_def)
  have c: "\<lparr>table = ''promotion'', op = Delete, rec_id = ''p'', site = ''a'', site_seq = 1,
     hlc_ms = 5, hlc_ctr = 0, row = JNull\<rparr> = sample_change" by (simp add: sample_change_def)
  have v: "validate_channel empty_db ''ch'' sample_change = Ok ()"
    using sample_columns nn by (simp add: validate_channel_def sample_change_def)
  have lg: "log_change l (store_row empty_db ''promotion'' ''p'' (sample_row l)) ''ch'' sample_change True 5
    = Ok ((store_row empty_db ''promotion'' ''p'' (sample_row l))\<lparr>change_log := [log_entry l ''ch'' sample_change True 5]\<rparr>)"
    by (simp add: log_change_def logged_def empty_db_def)
  have "write_change l empty_db ''a'' ''ch'' ''promotion'' Delete ''p'' JNull 5
    = Ok (hlc_store \<lparr>last_ms = 5, last_ctr = 0\<rparr> ((store_row empty_db ''promotion'' ''p'' (sample_row l))
        \<lparr>change_log := [log_entry l ''ch'' sample_change True 5]\<rparr>), sample_change)"
    unfolding write_change_def tk sq Let_def
    using sample_columns i64_max_def by (simp add: c v sample_put [OF nn] lg)
  then show ?thesis by (simp add: hlc_store_def store_row_def sample_site_def empty_db_def fun_eq_iff)
qed

lemma sample_apply:
  "apply_changes l empty_db ''a'' ''ch'' [sample_change] 7 = Ok (sample_peer l, [Stored])"
proof -
  let ?d = "empty_db\<lparr>change_log := change_log empty_db @ [log_entry l ''ch'' sample_change False 7]\<rparr>"
  have nn: "lookup empty_db ''promotion'' ''p'' = None" by (simp add: lookup_def empty_db_def)
  have wf: "well_formed empty_db ''ch'' sample_change"
    using sample_columns nn by (simp add: well_formed_def validate_channel_def sample_change_def)
  have ob: "observe (hlc_load empty_db) 7 (hlc_ms sample_change, hlc_ctr sample_change)
    = (\<lparr>last_ms = 7, last_ctr = 0\<rparr>, Some (7, 0))"
    by (simp add: observe_def hlc_load_def empty_db_def commit_def set_stamp_def sample_change_def)
  have w: "wins empty_db sample_change" using nn by (simp add: wins_def sample_change_def)
  have lg: "\<not> logged empty_db (site sample_change) (site_seq sample_change)"
    by (simp add: logged_def empty_db_def)
  have put: "put_row l ?d ''ch'' sample_change = Ok (store_row ?d ''promotion'' ''p'' (sample_row l))"
    by (rule sample_put) (simp add: nn)
  have "apply_one l ''ch'' 7 empty_db (hlc_load empty_db) sample_change
    = Ok (mark_applied (store_row ?d ''promotion'' ''p'' (sample_row l)) ''a'' 1, \<lparr>last_ms = 7, last_ctr = 0\<rparr>, Stored)"
    unfolding apply_one_def Let_def ob wins_frame put using wf w lg by (simp add: sample_change_def)
  then show ?thesis
    by (simp add: apply_changes_def sample_change_def hlc_store_def mark_applied_def store_row_def
        sample_peer_def empty_db_def log_entry_def fun_eq_iff)
qed

lemma sample_wf: "wf_change sample_change" "complete l sample_change" "json_ok l sample_change"
  by (simp_all add: wf_change_def complete_def json_ok_def sample_change_def is_i64_def is_u32_def
      i64_min_def i64_max_def)

lemma sample_site_evolves: "evolves l (sample_site l) [(''ch'', sample_change)]"
  using evolves.local [OF evolves.start sample_write sample_wf(2)] by simp

lemma sample_peer_evolves: "evolves l (sample_peer l) [(''ch'', sample_change)]"
  using evolves.remote [OF evolves.start _ sample_apply, of l]
  by (simp add: sample_wf taken_def)

section \<open>The properties\<close>

text \<open>
  In every database a site can get into by its own writes, batches from peers and
  pruning, the clock is at or past every stamp in the tables and in the change log, the
  log holds at most one entry for a site and sequence number, and a table at most one row
  for an id.
\<close>

theorem clock_dominates_database:
  assumes "reachable l d"
  shows "(\<forall>t i r. lookup d t i = Some r \<longrightarrow> (r_ms r, r_ctr r) \<le> hlc_stamp (clock d))
    \<and> list_all (\<lambda>e. (l_ms e, l_ctr e) \<le> hlc_stamp (clock d)) (change_log d)
    \<and> distinct (map (\<lambda>e. (l_site e, l_seq e)) (change_log d))
    \<and> (\<forall>t. distinct (map fst (recs d t)))"
  using reachable_inv [OF assms] by (simp add: db_inv_def dominated_def keys_unique_def list_all_iff)

theorem clock_dominates_database_witness:
  "(r_ms (sample_row sample_l), r_ctr (sample_row sample_l)) \<le> hlc_stamp (clock (sample_peer sample_l))"
proof -
  have "reachable sample_l (sample_peer sample_l)"
    by (rule reachable.took_in [OF reachable.created _ sample_apply]) (simp add: sample_wf)
  from conjunct1 [OF clock_dominates_database [OF this], rule_format, of "''promotion''" "''p''"]
  show ?thesis by (simp add: lookup_def sample_peer_def)
qed

text \<open>
  C32: A local write takes effect over everything the site holds. In a database that a site got into by its
  own writes, by batches whose changes carry stamps that fit their types, and by pruning, a write that
  succeeds has a stamp past that of every row the site holds and a sequence number that was not in the log
  and now is; the row it names afterwards carries its stamp, its channel and whether it was a delete, and no
  other row changes.
\<close>

theorem local_write_wins:
  assumes "reachable l d" and "write_change l d s channel tbl o' i rw now = Ok (d', c)"
  shows "(\<forall>t j r. lookup d t j = Some r \<longrightarrow> row_key r < change_key c)
    \<and> \<not> logged d s (site_seq c) \<and> logged d' s (site_seq c)
    \<and> (\<exists>r. lookup d' tbl i = Some r \<and> row_key r = change_key c \<and> r_channel r = channel
         \<and> r_deleted r = (o' = Delete))
    \<and> (\<forall>t j. (t, j) \<noteq> (tbl, i) \<longrightarrow> lookup d' t j = lookup d t j)"
  using assms(2)
proof (cases rule: write_changeE)
  case (1 h ms ctr d1)
  from 1(5) obtain r where r: "d1 = store_row d (table c) (rec_id c) r" "row_key r = change_key c"
    "r_channel r = channel" "r_deleted r = (op c = Delete)" by (rule put_row_Ok)
  have "\<forall>t j r. lookup d t j = Some r \<longrightarrow> row_key r < change_key c"
    by (rule write_change_newest [OF reachable_inv [OF assms(1)] assms(2)])
  moreover have "\<not> logged d s (site_seq c)" using 1(2,6) r(1) by simp
  moreover have "logged d' s (site_seq c)" by (simp add: 1(2,7) logged_snoc)
  ultimately show ?thesis using r 1(2) by (simp add: 1(7))
qed

theorem local_write_wins_witness:
  "\<not> logged empty_db ''a'' 1 \<and> logged (sample_site sample_l) ''a'' 1"
  using local_write_wins [OF reachable.created sample_write, of sample_l] by (simp add: sample_change_def)

text \<open>
  C12: Remote and local writes refine last-writer-wins, for a site that has pruned nothing, when every
  change it writes or is sent is complete, an upsert bringing every column of its table, has stamps that fit
  their types, and has a row that comes back from its JSON text as it was. The tables of such a site, seen as the newest change
  under each id with the values it wrote (none for a deleted row), are exactly the merge of the changes
  the site has written or accepted, one after the other, whatever batches they came in and whatever else
  was refused; the log reads back as that same list. The partial rows that older peers send, which keep
  the columns they do not name, are outside it.
\<close>

theorem tables_refine_last_writer_wins:
  assumes "evolves l d us" and "list_all (\<lambda>(channel, c). json_ok l c) us"
  shows "db_view d = foldl (merge_one l) (\<lambda>_. None) us \<and> history l d = us"
proof -
  have "\<forall>u \<in> set us. json_ok l (snd u)" using assms(2) by (auto simp: list_all_iff)
  with evolves_view [OF assms(1)] evolves_history [OF assms(1)] show ?thesis by simp
qed

theorem tables_refine_last_writer_wins_witness:
  "db_view (sample_peer sample_l) = foldl (merge_one sample_l) (\<lambda>_. None) [(''ch'', sample_change)]"
  using tables_refine_last_writer_wins [OF sample_peer_evolves, of sample_l] by (simp add: sample_wf)

text \<open>
  C1: Replicas converge. Two sites that have written or accepted the same set of changes,
  in any order and any batches, hold the same rows, provided every change brings all the
  columns of its table and no site used one stamp for two changes of one record.
\<close>

theorem replicas_converge:
  assumes "evolves l d1 us1" and "evolves l d2 us2" and "set us1 = set us2"
    and "\<forall>a \<in> set us1. \<forall>b \<in> set us1. distinct_stamps a b"
  shows "db_view d1 = db_view d2"
  using lww.foldl_set [of us1 us2] assms by (simp add: evolves_view lww.coherent_def)

theorem replicas_converge_witness:
  "db_view (sample_site sample_l) = db_view (sample_peer sample_l)"
  by (rule replicas_converge [OF sample_site_evolves sample_peer_evolves])
     (simp_all add: distinct_stamps_def)

text \<open>
  Redelivery is harmless. Once a batch has been taken in, with every change stored,
  lost or a duplicate, delivering it again at any time and on any channel leaves the whole
  database, clock and log included, as it is.
\<close>

theorem redelivery_changes_nothing:
  assumes "reachable l d" and "list_all wf_change cs"
    and "apply_changes l d sender channel cs now = Ok (d', out)"
    and "set out \<subseteq> {Stored, Lost, Duplicate}"
  shows "\<exists>out'. apply_changes l d' sender channel' cs now' = Ok (d', out') \<and> set out' \<subseteq> {Duplicate, Malformed}"
proof (rule apply_changes_duplicate)
  show "db_inv d'" using reachable_inv reachable.took_in [OF assms(1-3)] by blast
  from apply_changes_logged [OF assms(3,4)]
  show "\<forall>c \<in> set cs. logged d' (site c) (site_seq c)" "\<forall>c \<in> set cs. site c = sender" by blast+
qed

theorem redelivery_changes_nothing_witness:
  "\<exists>out. apply_changes sample_l (sample_peer sample_l) ''a'' ''ch'' [sample_change] 9 = Ok (sample_peer sample_l, out)
     \<and> set out \<subseteq> {Duplicate, Malformed}"
  by (rule redelivery_changes_nothing [OF reachable.created _ sample_apply]) (simp_all add: sample_wf)

text \<open>
  C33: A batch touches only its channel and speaks only for its sender. Every row is as it
  was, or is now a row of the batch's channel stamped by the sender that replaces nothing
  or an older row of that same channel; the log only grows, by entries of the sender on the
  channel.
\<close>

theorem batch_is_isolated:
  assumes "apply_changes l d sender channel cs now = Ok (d', out)"
  shows "rows_kept channel sender d d'
    \<and> (\<exists>qs. log_keys d' = log_keys d @ map (\<lambda>q. (sender, q, channel)) qs)"
  using assms
proof (cases rule: apply_changes_cases)
  case refused
  then show ?thesis by (auto simp: rows_kept_refl intro: exI [of _ "[]"])
next
  case (looped d1 h1)
  from apply_loop_isolated [OF looped(2,1)] show ?thesis
    unfolding looped(3) by (simp add: rows_kept_def)
qed

theorem batch_is_isolated_witness:
  "rows_kept ''ch'' ''a'' empty_db (sample_peer sample_l)"
  using batch_is_isolated [OF sample_apply, of sample_l] by blast

text \<open>
  A batch fails as a whole only because some upsert in it leaves a required column of
  its table without a value. A delete never fails, not even for a record the site has
  never seen: every required column is a stamp, is filled in by the tombstone or has a
  default.
\<close>

theorem batch_fails_only_on_missing_values:
  assumes "apply_changes l d sender channel cs now = Err e"
  shows "e = Sqlite \<and> (\<exists>c \<in> set cs. op c = Upsert \<and> \<not> not_null_ok (table c) (given_of l c))"
proof -
  have "apply_loop l channel now d (hlc_load d) cs = Err e"
    using assms unfolding apply_changes_def
    by (cases "apply_loop l channel now d (hlc_load d) cs") (auto split: if_splits)
  then show ?thesis by (rule apply_loop_Err)
qed

definition sample_bare :: change where
  "sample_bare = \<lparr>table = ''promotion'', op = Upsert, rec_id = ''q'', site = ''a'', site_seq = 2,
     hlc_ms = 6, hlc_ctr = 0, row = JObj [(''channel'', JStr ''ch'')]\<rparr>"

lemma sample_bare_not_null: "\<not> not_null_ok ''promotion'' []"
  by (simp add: not_null_ok_def value_columns_def schema_of_def installed_tables column_defs bound_def
      stamp_names_def)

lemma sample_bare_given: "given_of l sample_bare = []"
  by (simp add: given_of_def sample_bare_def columns_of_def TABLES_def given_values_def)

lemma sample_bare_fails:
  "apply_changes l empty_db ''a'' ''ch'' [sample_bare] 7 = Err Sqlite"
proof -
  have nn: "lookup empty_db ''promotion'' ''q'' = None" by (simp add: lookup_def empty_db_def)
  have wf: "well_formed empty_db ''ch'' sample_bare"
    using sample_columns nn by (simp add: well_formed_def validate_channel_def sample_bare_def)
  have ob: "observe (hlc_load empty_db) 7 (hlc_ms sample_bare, hlc_ctr sample_bare)
    = (\<lparr>last_ms = 7, last_ctr = 0\<rparr>, Some (7, 0))"
    by (simp add: observe_def hlc_load_def empty_db_def commit_def set_stamp_def sample_bare_def)
  have lg: "\<not> logged empty_db (site sample_bare) (site_seq sample_bare)"
    by (simp add: logged_def empty_db_def)
  have w: "wins empty_db sample_bare" using nn by (simp add: wins_def sample_bare_def)
  have put: "put_row l d ''ch'' sample_bare = Err Sqlite" for d
    using sample_bare_not_null sample_bare_given [of l]
    by (simp add: put_row_def put_upsert_def given_of_def sample_bare_def Let_def)
  have "apply_one l ''ch'' 7 empty_db (hlc_load empty_db) sample_bare = Err Sqlite"
    unfolding apply_one_def Let_def ob wins_frame put using wf w lg by simp
  moreover have "site sample_bare = ''a''" by (simp add: sample_bare_def)
  ultimately show ?thesis by (simp add: apply_changes_def)
qed

theorem batch_fails_only_on_missing_values_witness:
  "\<not> not_null_ok (table sample_bare) (given_of sample_l sample_bare)"
  using batch_fails_only_on_missing_values [OF sample_bare_fails, of sample_l] by simp

text \<open>
  A backfill returns what was written. Asked for the changes of a site on a channel
  after a sequence number, a site answers with exactly the changes of that site and channel
  it wrote or accepted beyond that number, as they were, lowest sequence numbers first, cut
  off at the limit.
\<close>

theorem backfill_returns_accepted_changes:
  assumes "evolves l d us" and "list_all (\<lambda>(channel, c). json_ok l c) us"
  shows "changes_of_site_after l d s channel after limit =
     take limit (sort_key site_seq (map snd (filter
       (\<lambda>(ch, c). site c = s \<and> ch = channel \<and> site_seq c > after) us)))"
proof -
  have "\<forall>u \<in> set us. json_ok l (snd u)" using assms(2) by (auto simp: list_all_iff)
  with evolves_history [OF assms(1)] show ?thesis by (simp only: changes_of_site_after_history)
qed

theorem backfill_returns_accepted_changes_witness:
  "changes_of_site_after sample_l (sample_peer sample_l) ''a'' ''ch'' 0 10 = [sample_change]"
  using backfill_returns_accepted_changes [OF sample_peer_evolves, of sample_l "''a''" "''ch''" 0 10]
  by (simp add: sample_wf) (simp add: sample_change_def)









end
