(* ===== verification/Text_Prims.thy ===== *)
theory Text_Prims
  imports Prelude
begin

text \<open>
  What the components use of Rust's \<open>str\<close>: decimal numbers printed by \<open>to_string\<close> and
  \<open>{:020}\<close> and read by \<open>parse::<u64>\<close>, the whitespace of \<open>trim\<close>, and the ASCII classes. A
  string is its UTF-8 bytes, so a whitespace character is a sequence of bytes.
\<close>

section \<open>Bytes\<close>

abbreviation byte :: "char \<Rightarrow> nat" where
  "byte c \<equiv> of_char c"

definition is_digit :: "char \<Rightarrow> bool" where
  "is_digit c \<longleftrightarrow> 48 \<le> byte c \<and> byte c \<le> 57"

definition is_lower :: "char \<Rightarrow> bool" where
  "is_lower c \<longleftrightarrow> 97 \<le> byte c \<and> byte c \<le> 122"

definition is_upper :: "char \<Rightarrow> bool" where
  "is_upper c \<longleftrightarrow> 65 \<le> byte c \<and> byte c \<le> 90"

definition is_alnum :: "char \<Rightarrow> bool" where
  "is_alnum c \<longleftrightarrow> is_digit c \<or> is_lower c \<or> is_upper c"

text \<open>\<open>to_ascii_lowercase\<close>.\<close>

definition lower :: "char \<Rightarrow> char" where
  "lower c = (if is_upper c then char_of (byte c + 32) else c)"

lemma byte_less: "byte c < 256"
  by (cases c) (simp add: of_char_def horner_sum_simps)

lemma byte_char_of: "n < 256 \<Longrightarrow> byte (char_of n) = n"
  by simp

lemma lower_idem [simp]: "lower (lower c) = lower c"
proof (cases "is_upper c")
  case True
  then have "byte (lower c) = byte c + 32" by (simp add: lower_def is_upper_def)
  with True have "\<not> is_upper (lower c)" by (simp add: is_upper_def)
  then show ?thesis by (simp add: lower_def)
qed (simp add: lower_def)

section \<open>Decimal numbers\<close>

definition digit :: "nat \<Rightarrow> char" where
  "digit d = char_of (48 + d)"

definition digit_value :: "char \<Rightarrow> nat" where
  "digit_value c = byte c - 48"

lemma is_digit_digit [simp]: "d < 10 \<Longrightarrow> is_digit (digit d)"
  by (simp add: is_digit_def digit_def)

lemma digit_value_digit [simp]: "d < 10 \<Longrightarrow> digit_value (digit d) = d"
  by (simp add: digit_value_def digit_def)

fun dec :: "nat \<Rightarrow> string" where
  "dec n = (if n < 10 then [digit n] else dec (n div 10) @ [digit (n mod 10)])"

declare dec.simps [simp del]

definition pad20 :: "nat \<Rightarrow> string" where
  "pad20 n = replicate (20 - length (dec n)) (digit 0) @ dec n"

definition dec_value :: "string \<Rightarrow> nat" where
  "dec_value s = foldl (\<lambda>v c. 10 * v + digit_value c) 0 s"

text \<open>\<open>str::parse::<u64>\<close>: an optional plus sign, at least one digit, nothing else, in range.\<close>

definition parse_u64 :: "string \<Rightarrow> nat option" where
  "parse_u64 s =
     (let ds = (case s of c # r \<Rightarrow> if c = CHR ''+'' then r else s | [] \<Rightarrow> []) in
      if ds \<noteq> [] \<and> list_all is_digit ds \<and> dec_value ds \<le> u64_max then Some (dec_value ds) else None)"

lemma dec_digits: "list_all is_digit (dec n)"
  by (induction n rule: dec.induct) (subst dec.simps, simp)

lemma dec_nonempty [simp]: "dec n \<noteq> []"
  by (subst dec.simps) simp

lemma dec_value_snoc [simp]: "dec_value (s @ [c]) = 10 * dec_value s + digit_value c"
  by (simp add: dec_value_def)

lemma dec_value_dec [simp]: "dec_value (dec n) = n"
proof (induction n rule: dec.induct)
  case (1 n)
  show ?case
  proof (cases "n < 10")
    case True
    then show ?thesis by (subst dec.simps) (simp add: dec_value_def)
  next
    case False
    with 1 show ?thesis by (subst dec.simps) simp
  qed
qed

lemma dec_value_zeros [simp]: "dec_value (replicate k (digit 0) @ s) = dec_value s"
proof (induction k)
  case (Suc k)
  then show ?case by (simp add: dec_value_def digit_value_digit [of 0])
qed simp

lemma digit_not_plus: "is_digit c \<Longrightarrow> c \<noteq> CHR ''+''"
  by (auto simp: is_digit_def)

lemma parse_u64_digits:
  assumes "ds \<noteq> []" and "list_all is_digit ds"
  shows "parse_u64 ds = (if dec_value ds \<le> u64_max then Some (dec_value ds) else None)"
proof -
  from assms obtain c r where "ds = c # r" "c \<noteq> CHR ''+''" by (cases ds) (auto dest: digit_not_plus)
  with assms show ?thesis by (simp add: parse_u64_def)
qed

lemma parse_u64_dec: "n \<le> u64_max \<Longrightarrow> parse_u64 (dec n) = Some n"
  by (simp add: parse_u64_digits dec_digits)

lemma parse_u64_pad20: "n \<le> u64_max \<Longrightarrow> parse_u64 (pad20 n) = Some n"
proof -
  have "list_all is_digit (pad20 n)"
    using dec_digits [of n] by (auto simp: pad20_def list_all_iff)
  moreover have "pad20 n \<noteq> []" "dec_value (pad20 n) = n" by (simp_all add: pad20_def)
  moreover assume "n \<le> u64_max"
  ultimately show ?thesis by (simp add: parse_u64_digits)
qed

lemma pad20_inj: "m \<le> u64_max \<Longrightarrow> n \<le> u64_max \<Longrightarrow> pad20 m = pad20 n \<longleftrightarrow> m = n"
  by (metis option.inject parse_u64_pad20)

section \<open>Whitespace\<close>

text \<open>The UTF-8 encodings of the characters \<open>char::is_whitespace\<close> accepts.\<close>

definition ws_seqs :: "string list" where
  "ws_seqs = map (map char_of)
     ([[9], [10], [11], [12], [13], [32], [194, 133], [194, 160], [225, 154, 128]]
      @ map (\<lambda>k. [226, 128, 128 + k]) [0..<11]
      @ [[226, 128, 168], [226, 128, 169], [226, 128, 175], [226, 129, 159], [227, 128, 128 :: nat]])"

lemma ws_seqs_chars [code]:
  "ws_seqs = [[CHR 0x09], [CHR 0x0A], [CHR 0x0B], [CHR 0x0C], [CHR 0x0D], [CHR 0x20], [CHR 0xC2, CHR 0x85],
     [CHR 0xC2, CHR 0xA0], [CHR 0xE1, CHR 0x9A, CHR 0x80], [CHR 0xE2, CHR 0x80, CHR 0x80], [CHR
     0xE2, CHR 0x80, CHR 0x81], [CHR 0xE2, CHR 0x80, CHR 0x82], [CHR 0xE2, CHR 0x80, CHR 0x83], [CHR
     0xE2, CHR 0x80, CHR 0x84], [CHR 0xE2, CHR 0x80, CHR 0x85], [CHR 0xE2, CHR 0x80, CHR 0x86], [CHR
     0xE2, CHR 0x80, CHR 0x87], [CHR 0xE2, CHR 0x80, CHR 0x88], [CHR 0xE2, CHR 0x80, CHR 0x89], [CHR
     0xE2, CHR 0x80, CHR 0x8A], [CHR 0xE2, CHR 0x80, CHR 0xA8], [CHR 0xE2, CHR 0x80, CHR 0xA9], [CHR
     0xE2, CHR 0x80, CHR 0xAF], [CHR 0xE2, CHR 0x81, CHR 0x9F], [CHR 0xE3, CHR 0x80, CHR 0x80]]"
  by code_simp

fun strip_prefix :: "string \<Rightarrow> string \<Rightarrow> string option" where
  "strip_prefix [] s = Some s"
| "strip_prefix (p # ps) [] = None"
| "strip_prefix (p # ps) (c # s) = (if p = c then strip_prefix ps s else None)"

lemma strip_prefix_Some: "strip_prefix p s = Some r \<longleftrightarrow> s = p @ r"
  by (induction p s rule: strip_prefix.induct) auto

lemma strip_prefix_None: "strip_prefix p s = None \<longleftrightarrow> (\<nexists>r. s = p @ r)"
  by (metis not_None_eq strip_prefix_Some)

fun strip_first :: "string list \<Rightarrow> string \<Rightarrow> string option" where
  "strip_first [] s = None"
| "strip_first (w # ws) s = (case strip_prefix w s of Some r \<Rightarrow> Some r | None \<Rightarrow> strip_first ws s)"

lemma strip_first_length:
  "[] \<notin> set ws \<Longrightarrow> strip_first ws s = Some r \<Longrightarrow> length r < length s"
  by (induction ws) (auto split: option.splits simp: strip_prefix_Some)

lemma ws_seqs_nonempty: "[] \<notin> set ws_seqs" "[] \<notin> set (map rev ws_seqs)"
  by (auto simp: ws_seqs_def)

function trim_start :: "string \<Rightarrow> string" where
  "trim_start s = (case strip_first ws_seqs s of Some r \<Rightarrow> trim_start r | None \<Rightarrow> s)"
  by auto
termination
  by (relation "measure length") (auto simp: strip_first_length [OF ws_seqs_nonempty(1)])

declare trim_start.simps [simp del]

function trim_end_rev :: "string \<Rightarrow> string" where
  "trim_end_rev s = (case strip_first (map rev ws_seqs) s of Some r \<Rightarrow> trim_end_rev r | None \<Rightarrow> s)"
  by auto
termination
  by (relation "measure length") (auto simp: strip_first_length [OF ws_seqs_nonempty(2)])

declare trim_end_rev.simps [simp del]

definition trim_end :: "string \<Rightarrow> string" where
  "trim_end s = rev (trim_end_rev (rev s))"

definition trim :: "string \<Rightarrow> string" where
  "trim s = trim_end (trim_start s)"

definition is_space_byte :: "char \<Rightarrow> bool" where
  "is_space_byte c \<longleftrightarrow> c \<in> set (map hd ws_seqs) \<or> c \<in> set (map last ws_seqs)"

lemma strip_first_None_hd:
  "(\<And>w. w \<in> set ws \<Longrightarrow> w \<noteq> [] \<and> (s = [] \<or> hd w \<noteq> hd s)) \<Longrightarrow> strip_first ws s = None"
proof (induction ws)
  case (Cons w ws)
  have "strip_prefix w s = None" using Cons.prems [of w] by (cases w; cases s) auto
  with Cons show ?case by simp
qed simp

lemma ws_nonempty: "w \<in> set ws_seqs \<Longrightarrow> w \<noteq> []"
  using ws_seqs_nonempty(1) by blast

text \<open>A text whose first and last bytes belong to no whitespace is its own trim.\<close>

lemma trim_id:
  assumes "s = [] \<or> \<not> is_space_byte (hd s) \<and> \<not> is_space_byte (last s)"
  shows "trim s = s"
proof -
  have a: "strip_first ws_seqs s = None"
    using assms by (intro strip_first_None_hd) (auto simp: is_space_byte_def image_iff dest: ws_nonempty)
  have b: "strip_first (map rev ws_seqs) (rev s) = None"
    using assms
    by (intro strip_first_None_hd) (auto simp: is_space_byte_def hd_rev image_iff dest: ws_nonempty)
  from a have "trim_start s = s" by (subst trim_start.simps) simp
  moreover from b have "trim_end s = s" by (simp add: trim_end_def) (subst trim_end_rev.simps, simp)
  ultimately show ?thesis by (simp add: trim_def)
qed

lemma digit_not_space: "is_digit c \<Longrightarrow> \<not> is_space_byte c"
  by (auto simp: is_space_byte_def ws_seqs_def is_digit_def upt_rec)

lemma trim_dec [simp]: "trim (dec n) = dec n"
  using dec_digits [of n] by (intro trim_id) (auto simp: list_all_iff digit_not_space)

section \<open>UTF-8 and splitting\<close>

definition cont :: "char \<Rightarrow> bool" where
  "cont c \<longleftrightarrow> 128 \<le> byte c \<and> byte c \<le> 191"

text \<open>The well-formed sequences, by their first byte; \<open>String::from_utf8\<close> accepts no others.\<close>

fun utf8_valid :: "string \<Rightarrow> bool" where
  "utf8_valid [] = True"
| "utf8_valid (a # s) =
     (if byte a < 128 then utf8_valid s
      else (case s of [] \<Rightarrow> False | b # s2 \<Rightarrow>
        if 194 \<le> byte a \<and> byte a \<le> 223 then cont b \<and> utf8_valid s2
        else (case s2 of [] \<Rightarrow> False | c # s3 \<Rightarrow>
          if 224 \<le> byte a \<and> byte a \<le> 239
          then cont b \<and> cont c \<and> (byte a = 224 \<longrightarrow> 160 \<le> byte b) \<and> (byte a = 237 \<longrightarrow> byte b \<le> 159) \<and> utf8_valid s3
          else (case s3 of [] \<Rightarrow> False | d # s4 \<Rightarrow>
            240 \<le> byte a \<and> byte a \<le> 244 \<and> cont b \<and> cont c \<and> cont d
            \<and> (byte a = 240 \<longrightarrow> 144 \<le> byte b) \<and> (byte a = 244 \<longrightarrow> byte b \<le> 143) \<and> utf8_valid s4))))"

text \<open>\<open>str::split\<close> on one character: always at least one piece.\<close>

fun split_on :: "char \<Rightarrow> string \<Rightarrow> string list" where
  "split_on d [] = [[]]"
| "split_on d (c # s) =
     (if c = d then [] # split_on d s
      else (case split_on d s of p # ps \<Rightarrow> (c # p) # ps | [] \<Rightarrow> [[c]]))"

lemma split_on_nonempty [simp]: "split_on d s \<noteq> []"
  by (induction s) (auto split: list.splits)

fun join_with :: "string \<Rightarrow> string list \<Rightarrow> string" where
  "join_with d [] = []"
| "join_with d [p] = p"
| "join_with d (p # q # ps) = p @ d @ join_with d (q # ps)"

lemma join_with_Cons: "ps \<noteq> [] \<Longrightarrow> join_with d (p # ps) = p @ d @ join_with d ps"
  by (cases ps) auto

lemma join_split: "join_with [d] (split_on d s) = s"
proof (induction s)
  case (Cons c s)
  show ?case
  proof (cases "c = d")
    case True
    with Cons show ?thesis by (simp add: join_with_Cons)
  next
    case False
    obtain p ps where ps: "split_on d s = p # ps" by (metis list.exhaust split_on_nonempty)
    with False Cons show ?thesis by (cases ps) auto
  qed
qed simp

lemma split_on_pieces: "p \<in> set (split_on d s) \<Longrightarrow> d \<notin> set p"
proof (induction s arbitrary: p)
  case (Cons c s)
  obtain q qs where qs: "split_on d s = q # qs" by (metis list.exhaust split_on_nonempty)
  with Cons show ?case by (auto split: if_splits)
qed simp

section \<open>Searching\<close>

text \<open>What stands before and after the first occurrence of \<open>n\<close>, as \<open>str::find\<close> gives it.\<close>

fun split_once :: "string \<Rightarrow> string \<Rightarrow> (string \<times> string) option" where
  "split_once n s =
     (case strip_prefix n s of
        Some r \<Rightarrow> Some ([], r)
      | None \<Rightarrow> (case s of [] \<Rightarrow> None | c # s' \<Rightarrow> map_option (apfst ((#) c)) (split_once n s')))"

declare split_once.simps [simp del]

definition contains_str :: "string \<Rightarrow> string \<Rightarrow> bool" where
  "contains_str s n \<longleftrightarrow> split_once n s \<noteq> None"

definition starts_with :: "string \<Rightarrow> string \<Rightarrow> bool" where
  "starts_with s p \<longleftrightarrow> strip_prefix p s \<noteq> None"

definition ends_with :: "string \<Rightarrow> string \<Rightarrow> bool" where
  "ends_with s p \<longleftrightarrow> strip_prefix (rev p) (rev s) \<noteq> None"

definition lowercase :: "string \<Rightarrow> string" where
  "lowercase s = map lower s"

lemma starts_with_iff: "starts_with s p \<longleftrightarrow> (\<exists>r. s = p @ r)"
  by (auto simp: starts_with_def strip_prefix_Some)

lemma ends_with_iff: "ends_with s p \<longleftrightarrow> (\<exists>r. s = r @ p)"
proof
  assume "ends_with s p"
  then obtain r where "rev s = rev p @ r" by (auto simp: ends_with_def strip_prefix_Some)
  then have "s = rev r @ p" by (metis rev_append rev_rev_ident)
  then show "\<exists>r. s = r @ p" ..
next
  assume "\<exists>r. s = r @ p"
  then show "ends_with s p" by (auto simp: ends_with_def strip_prefix_Some)
qed

lemma split_once_Some: "split_once n s = Some (a, b) \<Longrightarrow> s = a @ n @ b"
proof (induction n s arbitrary: a rule: split_once.induct)
  case (1 n s)
  show ?case
  proof (cases "strip_prefix n s")
    case (Some r)
    with 1(2) show ?thesis by (subst (asm) split_once.simps) (simp add: strip_prefix_Some)
  next
    case None
    with 1(2) obtain c s' a' where "s = c # s'" "split_once n s' = Some (a', b)" "a = c # a'"
      by (subst (asm) split_once.simps) (auto split: list.splits)
    with 1(1) [OF None] show ?thesis by simp
  qed
qed

text \<open>The occurrence found is the first: any other leaves less behind it.\<close>

lemma split_once_first:
  "s = x @ n @ y \<Longrightarrow> \<exists>a b. split_once n s = Some (a, b) \<and> length y \<le> length b"
proof (induction n s arbitrary: x rule: split_once.induct)
  case (1 n s)
  show ?case
  proof (cases "strip_prefix n s")
    case (Some r)
    then have "s = n @ r" by (simp add: strip_prefix_Some)
    then have "length y \<le> length r" using 1(2) by (metis add_le_cancel_left length_append le_add2)
    with Some show ?thesis by (subst split_once.simps) simp
  next
    case None
    then have "x \<noteq> []" using 1(2) by (auto simp: strip_prefix_None)
    then obtain c x' where x: "x = c # x'" by (cases x) auto
    from 1(1) [OF None, of c "x' @ n @ y" x'] 1(2) x
    obtain a b where "split_once n (x' @ n @ y) = Some (a, b)" "length y \<le> length b" by auto
    with None 1(2) x show ?thesis by (subst split_once.simps) simp
  qed
qed

lemma contains_str_iff: "contains_str s n \<longleftrightarrow> (\<exists>a b. s = a @ n @ b)"
proof
  assume "contains_str s n"
  then obtain a b where "split_once n s = Some (a, b)" by (auto simp: contains_str_def)
  then show "\<exists>a b. s = a @ n @ b" using split_once_Some by blast
next
  assume "\<exists>a b. s = a @ n @ b"
  then show "contains_str s n" using split_once_first by (fastforce simp: contains_str_def)
qed

text \<open>\<open>str::replace\<close> of a needle that is not empty, from the left without overlap.\<close>

function replace_str :: "string \<Rightarrow> string \<Rightarrow> string \<Rightarrow> string" where
  "replace_str n w s =
     (if n = [] then s
      else (case split_once n s of None \<Rightarrow> s | Some (a, b) \<Rightarrow> a @ w @ replace_str n w b))"
  by auto
termination
  by (relation "measure (\<lambda>(n, w, s). length s)") (auto dest!: split_once_Some)

declare replace_str.simps [simp del]

lemma length_replace_str: "length w \<le> length n \<Longrightarrow> length (replace_str n w s) \<le> length s"
proof (induction n w s rule: replace_str.induct)
  case (1 n w s)
  show ?case
  proof (cases "n = [] \<or> split_once n s = None")
    case True
    then show ?thesis by (subst replace_str.simps) auto
  next
    case False
    then obtain a b where s: "split_once n s = Some (a, b)" by auto
    then have "length s = length a + length n + length b" by (auto dest: split_once_Some)
    with 1(1) [of "(a, b)" a b] 1(2) False s show ?thesis by (subst replace_str.simps) simp
  qed
qed

lemma replace_str_shorter:
  assumes "length w < length n" and "contains_str s n"
  shows "length (replace_str n w s) < length s"
proof -
  obtain a b where s: "split_once n s = Some (a, b)" using assms(2) by (auto simp: contains_str_def)
  then have "length s = length a + length n + length b" by (auto dest: split_once_Some)
  moreover have "length (replace_str n w b) \<le> length b" using assms(1) by (intro length_replace_str) simp
  ultimately show ?thesis using s assms(1) by (subst replace_str.simps) auto
qed

text \<open>Trimming cuts whitespace off both ends.\<close>

lemma strip_first_Some: "strip_first ws s = Some r \<Longrightarrow> \<exists>w \<in> set ws. s = w @ r"
  by (induction ws) (auto simp: strip_prefix_Some split: option.splits)

lemma trim_start_suffix: "\<exists>w. s = concat w @ trim_start s \<and> set w \<subseteq> set ws_seqs"
proof (induction s rule: trim_start.induct)
  case (1 s)
  show ?case
  proof (cases "strip_first ws_seqs s")
    case None
    then show ?thesis by (intro exI [of _ "[]"]) (simp add: trim_start.simps)
  next
    case (Some r)
    from strip_first_Some [OF Some] obtain v where v: "v \<in> set ws_seqs" "s = v @ r" by blast
    from 1 [OF Some] obtain w where "r = concat w @ trim_start r" "set w \<subseteq> set ws_seqs" by blast
    moreover have "trim_start s = trim_start r" using Some by (simp add: trim_start.simps [of s])
    ultimately show ?thesis using v by (intro exI [of _ "v # w"]) simp
  qed
qed

lemma trim_end_rev_suffix: "\<exists>w. s = w @ trim_end_rev s"
proof (induction s rule: trim_end_rev.induct)
  case (1 s)
  show ?case
  proof (cases "strip_first (map rev ws_seqs) s")
    case None
    then show ?thesis by (simp add: trim_end_rev.simps)
  next
    case (Some r)
    from strip_first_Some [OF Some] obtain v where v: "s = v @ r" by blast
    from 1 [OF Some] obtain w where "r = w @ trim_end_rev r" by blast
    moreover have "trim_end_rev s = trim_end_rev r" using Some by (simp add: trim_end_rev.simps [of s])
    ultimately have "s = (v @ w) @ trim_end_rev s" using v by simp
    then show ?thesis ..
  qed
qed

lemma trim_parts: "\<exists>w x. s = concat w @ trim s @ x \<and> set w \<subseteq> set ws_seqs"
proof -
  obtain w where w: "s = concat w @ trim_start s" "set w \<subseteq> set ws_seqs" using trim_start_suffix by blast
  obtain v where "rev (trim_start s) = v @ trim_end_rev (rev (trim_start s))" using trim_end_rev_suffix by blast
  then have "trim_start s = trim s @ rev v"
    by (metis rev_append rev_rev_ident trim_def trim_end_def)
  with w have "s = concat w @ trim s @ rev v \<and> set w \<subseteq> set ws_seqs" by simp
  then show ?thesis by blast
qed

text \<open>Trimming again changes nothing.\<close>

lemma strip_first_None: "strip_first ws s = None \<longleftrightarrow> (\<forall>w \<in> set ws. \<nexists>r. s = w @ r)"
  by (induction ws) (auto simp: strip_prefix_None strip_prefix_Some split: option.splits)

lemma strip_first_prefix: "strip_first ws s = Some r \<Longrightarrow> strip_first ws (s @ t) \<noteq> None"
  using strip_first_Some [of ws s r] unfolding strip_first_None by force

lemma trim_start_done: "strip_first ws_seqs (trim_start s) = None"
proof (induction s rule: trim_start.induct)
  case (1 s)
  then show ?case by (cases "strip_first ws_seqs s") (simp_all add: trim_start.simps [of s])
qed

lemma trim_end_rev_done: "strip_first (map rev ws_seqs) (trim_end_rev s) = None"
proof (induction s rule: trim_end_rev.induct)
  case (1 s)
  then show ?case by (cases "strip_first (map rev ws_seqs) s") (simp_all add: trim_end_rev.simps [of s])
qed

lemma trim_trim [simp]: "trim (trim s) = trim s"
proof -
  obtain v where "rev (trim_start s) = v @ trim_end_rev (rev (trim_start s))" using trim_end_rev_suffix by blast
  then have "trim_start s = trim s @ rev v" by (metis rev_append rev_rev_ident trim_def trim_end_def)
  with trim_start_done [of s] have "strip_first ws_seqs (trim s) = None"
    using strip_first_prefix [of ws_seqs "trim s" _ "rev v"] by (cases "strip_first ws_seqs (trim s)") auto
  then have a: "trim_start (trim s) = trim s" by (subst trim_start.simps) simp
  have "strip_first (map rev ws_seqs) (rev (trim s)) = None"
    using trim_end_rev_done [of "rev (trim_start s)"] by (simp add: trim_def trim_end_def)
  then have "trim_end_rev (rev (trim s)) = rev (trim s)" by (subst trim_end_rev.simps) simp
  with a show ?thesis by (simp add: trim_def [of "trim s"] trim_end_def)
qed

end
