(* ===== verification/Hub_Frames.thy ===== *)
theory Hub_Frames
  imports Text_Prims "HOL-Library.AList"
begin

text \<open>
  The hub's frame stores, \<^verbatim>\<open>src/hub/src/store.rs\<close> (frames): the trait \<open>FrameStore\<close> as a
  locale, and its two implementations, the one in memory and the one on disk, each as pure
  functions on its state. A file system is a map from channels to the files of their
  directories; a file has a name, its bytes and its modification time in milliseconds. The
  stores hold one lock per call, so a run is a sequence of calls. A failing disk is not
  modelled except for a crash between the two writes of an append.
\<close>

section \<open>Frames in memory\<close>

record page =
  p_frames :: "(nat \<times> string) list"
  p_oldest :: nat
  p_latest :: nat

record mem_channel =
  mc_frames :: "(nat \<times> string \<times> int) list"
  mc_next :: nat

type_synonym mem_frames = "string \<Rightarrow> mem_channel option"

definition mem_append :: "mem_frames \<Rightarrow> string \<Rightarrow> string \<Rightarrow> int \<Rightarrow> mem_frames \<times> nat" where
  "mem_append m channel envelope now_ms =
     (let c = (case m channel of Some c \<Rightarrow> c | None \<Rightarrow> \<lparr>mc_frames = [], mc_next = 1\<rparr>);
          seq = mc_next c in
      (m(channel \<mapsto> \<lparr>mc_frames = mc_frames c @ [(seq, envelope, now_ms)], mc_next = seq + 1\<rparr>), seq))"

definition mem_read :: "mem_frames \<Rightarrow> string \<Rightarrow> nat \<Rightarrow> nat \<Rightarrow> page" where
  "mem_read m channel after limit =
     (case m channel of
        None \<Rightarrow> \<lparr>p_frames = [], p_oldest = 0, p_latest = 0\<rparr>
      | Some c \<Rightarrow>
          \<lparr>p_frames = map (\<lambda>(s, e, _). (s, e)) (take limit (filter (\<lambda>(s, _, _). s > after) (mc_frames c))),
           p_oldest = (case mc_frames c of
              f # _ \<Rightarrow> fst f
            | [] \<Rightarrow> mc_next c - 1 + (if mc_next c > 1 then 1 else 0)),
           p_latest = mc_next c - 1\<rparr>)"

definition frame_bytes :: "(nat \<times> string \<times> int) list \<Rightarrow> nat" where
  "frame_bytes fs = sum_list (map (\<lambda>(_, e, _). length e) fs)"

fun mem_drop_old :: "int \<Rightarrow> (nat \<times> string \<times> int) list \<Rightarrow> (nat \<times> string \<times> int) list \<times> nat" where
  "mem_drop_old older [] = ([], 0)"
| "mem_drop_old older ((s, e, t) # fs) =
     (if t < older then (let (fs', n) = mem_drop_old older fs in (fs', n + 1)) else ((s, e, t) # fs, 0))"

fun mem_drop_bytes :: "nat \<Rightarrow> nat \<Rightarrow> (nat \<times> string \<times> int) list \<Rightarrow> (nat \<times> string \<times> int) list \<times> nat" where
  "mem_drop_bytes max_bytes tot [] = ([], 0)"
| "mem_drop_bytes max_bytes tot ((s, e, t) # fs) =
     (if tot > max_bytes
      then (let (fs', n) = mem_drop_bytes max_bytes (tot - length e) fs in (fs', n + 1))
      else ((s, e, t) # fs, 0))"

definition mem_prune :: "mem_frames \<Rightarrow> string \<Rightarrow> int \<Rightarrow> nat \<Rightarrow> mem_frames \<times> nat" where
  "mem_prune m channel older_than_ms max_bytes =
     (case m channel of
        None \<Rightarrow> (m, 0)
      | Some c \<Rightarrow>
          let (fs1, n1) = mem_drop_old older_than_ms (mc_frames c);
              (fs2, n2) = mem_drop_bytes max_bytes (frame_bytes fs1) fs1 in
          (m(channel \<mapsto> c\<lparr>mc_frames := fs2\<rparr>), n1 + n2))"

section \<open>Frames on disk\<close>

record fs_file =
  f_name :: string
  f_bytes :: string
  f_mtime :: int

type_synonym fs_frames = "string \<Rightarrow> fs_file list option"

definition files_in :: "fs_frames \<Rightarrow> string \<Rightarrow> fs_file list" where
  "files_in d channel = (case d channel of None \<Rightarrow> [] | Some fs \<Rightarrow> fs)"

text \<open>A \<open>BTreeMap\<close> keyed by the number a file's name parses as; other names are passed over.\<close>

definition scan_insert :: "(nat \<times> fs_file) list \<Rightarrow> fs_file \<Rightarrow> (nat \<times> fs_file) list" where
  "scan_insert m f = (case parse_u64 (f_name f) of None \<Rightarrow> m | Some q \<Rightarrow> AList.update q f m)"

definition scan :: "fs_frames \<Rightarrow> string \<Rightarrow> (nat \<times> fs_file) list" where
  "scan d channel = sort_key fst (foldl scan_insert [] (files_in d channel))"

definition read_file :: "fs_file list \<Rightarrow> string \<Rightarrow> string option" where
  "read_file fs name = map_option f_bytes (find (\<lambda>f. f_name f = name) fs)"

definition next_seq :: "fs_frames \<Rightarrow> string \<Rightarrow> nat" where
  "next_seq d channel =
     (case Option.bind (read_file (files_in d channel) ''.seq'') (\<lambda>s. parse_u64 (trim s)) of
        Some n \<Rightarrow> n
      | None \<Rightarrow> (case scan d channel of [] \<Rightarrow> 1 | xs \<Rightarrow> fst (last xs) + 1))"

text \<open>Staged and renamed: the file is there whole or not at all, replacing one of its name.\<close>

definition atomic_write :: "fs_frames \<Rightarrow> string \<Rightarrow> string \<Rightarrow> string \<Rightarrow> int \<Rightarrow> fs_frames" where
  "atomic_write d channel name bytes now =
     d(channel \<mapsto> filter (\<lambda>f. f_name f \<noteq> name) (files_in d channel)
                  @ [\<lparr>f_name = name, f_bytes = bytes, f_mtime = now\<rparr>])"

text \<open>The frame first, then the cache; a crash in between leaves \<open>fs_append_frame\<close>.\<close>

definition fs_append_frame :: "fs_frames \<Rightarrow> string \<Rightarrow> string \<Rightarrow> int \<Rightarrow> fs_frames" where
  "fs_append_frame d channel envelope now = atomic_write d channel (pad20 (next_seq d channel)) envelope now"

definition fs_append :: "fs_frames \<Rightarrow> string \<Rightarrow> string \<Rightarrow> int \<Rightarrow> fs_frames \<times> nat" where
  "fs_append d channel envelope now =
     (let seq = next_seq d channel in
      (atomic_write (fs_append_frame d channel envelope now) channel ''.seq'' (dec (seq + 1)) now, seq))"

definition fs_read :: "fs_frames \<Rightarrow> string \<Rightarrow> nat \<Rightarrow> nat \<Rightarrow> page" where
  "fs_read d channel after limit =
     (let files = scan d channel;
          latest = next_seq d channel - 1 in
      \<lparr>p_frames = map (\<lambda>(q, f). (q, f_bytes f)) (take limit (filter (\<lambda>(q, _). (after + 1) mod 2 ^ 64 \<le> q) files)),
       p_oldest = (case files of (q, _) # _ \<Rightarrow> q | [] \<Rightarrow> latest + (if latest > 0 then 1 else 0)),
       p_latest = latest\<rparr>)"

definition file_time :: "fs_file \<Rightarrow> int" where
  "file_time f = (if f_mtime f < 0 then 0 else f_mtime f)"

fun fs_prune_loop :: "int \<Rightarrow> nat \<Rightarrow> nat \<Rightarrow> fs_file list \<Rightarrow> fs_file list \<Rightarrow> fs_file list \<times> nat" where
  "fs_prune_loop older max_bytes tot dir [] = (dir, 0)"
| "fs_prune_loop older max_bytes tot dir (f # fs) =
     (if file_time f < older \<or> tot > max_bytes
      then (let (dir', n) = fs_prune_loop older max_bytes (tot - length (f_bytes f))
                              (filter (\<lambda>g. f_name g \<noteq> f_name f) dir) fs in (dir', n + 1))
      else (dir, 0))"

definition fs_prune :: "fs_frames \<Rightarrow> string \<Rightarrow> int \<Rightarrow> nat \<Rightarrow> fs_frames \<times> nat" where
  "fs_prune d channel older_than_ms max_bytes =
     (case d channel of
        None \<Rightarrow> (d, 0)
      | Some dir \<Rightarrow>
          let sized = map snd (scan d channel);
              tot = sum_list (map (\<lambda>f. length (f_bytes f)) sized);
              (dir', n) = fs_prune_loop older_than_ms max_bytes tot dir sized in
          (d(channel \<mapsto> dir'), n))"

section \<open>The contract of a frame store\<close>

text \<open>
  \<open>frames_of\<close> is what a channel retains, oldest first, and \<open>next_of\<close> the number its next
  frame gets. A prune drops a prefix, enough of it to come within the bytes, and no frame
  that was both young enough and affordable.
\<close>

datatype frame_call = Append string string int | Prune string int nat

locale frame_store =
  fixes append :: "'s \<Rightarrow> string \<Rightarrow> string \<Rightarrow> int \<Rightarrow> 's \<times> nat"
    and read :: "'s \<Rightarrow> string \<Rightarrow> nat \<Rightarrow> nat \<Rightarrow> page"
    and prune :: "'s \<Rightarrow> string \<Rightarrow> int \<Rightarrow> nat \<Rightarrow> 's \<times> nat"
    and empty :: 's
    and ok :: "'s \<Rightarrow> bool"
    and frames_of :: "'s \<Rightarrow> string \<Rightarrow> (nat \<times> string \<times> int) list"
    and next_of :: "'s \<Rightarrow> string \<Rightarrow> nat"
  assumes empty_ok: "ok empty"
    and empty_frames: "frames_of empty ch = []" "next_of empty ch = 1"
    and contiguous: "ok s \<Longrightarrow> length (frames_of s ch) < next_of s ch \<and>
      map fst (frames_of s ch) = [next_of s ch - length (frames_of s ch)..<next_of s ch]"
    and append_ok: "ok s \<Longrightarrow> next_of s ch < u64_max \<Longrightarrow> append s ch e now = (s', q) \<Longrightarrow>
      ok s' \<and> q = next_of s ch \<and> (\<exists>t. frames_of s' ch = frames_of s ch @ [(q, e, t)]) \<and> next_of s' ch = q + 1"
    and append_other: "ok s \<Longrightarrow> append s ch e now = (s', q) \<Longrightarrow> ch' \<noteq> ch \<Longrightarrow>
      frames_of s' ch' = frames_of s ch' \<and> next_of s' ch' = next_of s ch'"
    and prune_ok: "ok s \<Longrightarrow> prune s ch older max_bytes = (s', n) \<Longrightarrow>
      ok s' \<and> n \<le> length (frames_of s ch) \<and> frames_of s' ch = drop n (frames_of s ch)
      \<and> next_of s' ch = next_of s ch \<and> frame_bytes (frames_of s' ch) \<le> max_bytes
      \<and> (0 < n \<longrightarrow> snd (snd (frames_of s ch ! (n - 1))) < older
                 \<or> frame_bytes (drop (n - 1) (frames_of s ch)) > max_bytes)"
    and prune_other: "ok s \<Longrightarrow> prune s ch older max_bytes = (s', n) \<Longrightarrow> ch' \<noteq> ch \<Longrightarrow>
      frames_of s' ch' = frames_of s ch' \<and> next_of s' ch' = next_of s ch'"
    and read_ok: "ok s \<Longrightarrow> after < u64_max \<Longrightarrow> read s ch after limit =
      \<lparr>p_frames = map (\<lambda>(q, e, _). (q, e)) (take limit (filter (\<lambda>(q, _, _). after < q) (frames_of s ch))),
       p_oldest = (case frames_of s ch of f # _ \<Rightarrow> fst f | [] \<Rightarrow> if next_of s ch = 1 then 0 else next_of s ch),
       p_latest = next_of s ch - 1\<rparr>"
begin

text \<open>Calls on a store, and the numbers its appends were given, with their channels.\<close>

fun run :: "'s \<Rightarrow> frame_call list \<Rightarrow> 's \<times> (string \<times> nat) list" where
  "run s [] = (s, [])"
| "run s (Append ch e now # cs) =
     (let (s1, q) = append s ch e now; (s2, qs) = run s1 cs in (s2, (ch, q) # qs))"
| "run s (Prune ch older max_bytes # cs) = run (fst (prune s ch older max_bytes)) cs"

lemma run_spec:
  "ok s \<Longrightarrow> run s cs = (s', qs) \<Longrightarrow> \<forall>ch. next_of s ch + length cs \<le> u64_max \<Longrightarrow>
     ok s' \<and> (\<forall>ch. map snd (filter (\<lambda>(c, _). c = ch) qs) = [next_of s ch..<next_of s' ch]
                 \<and> next_of s ch \<le> next_of s' ch)"
proof (induction s cs arbitrary: s' qs rule: run.induct)
  case (1 s)
  then show ?case by simp
next
  case (2 s ch e now cs)
  obtain s1 q where ap: "append s ch e now = (s1, q)" by (meson surj_pair)
  obtain s2 qs2 where rn: "run s1 cs = (s2, qs2)" by (meson surj_pair)
  from 2(3) ap rn have out: "s' = s2" "qs = (ch, q) # qs2" by simp_all
  have lt: "next_of s ch < u64_max" using 2(4) [rule_format, of ch] by simp
  note ap1 = append_ok [OF 2(2) lt ap]
  have nx: "next_of s1 c = (if c = ch then next_of s c + 1 else next_of s c)" for c
    using ap1 append_other [OF 2(2) ap, of c] by auto
  have IH: "ok s2 \<and> (\<forall>c. map snd (filter (\<lambda>(x, _). x = c) qs2) = [next_of s1 c..<next_of s2 c]
      \<and> next_of s1 c \<le> next_of s2 c)"
  proof (rule 2(1) [OF ap [symmetric] refl _ rn])
    show "ok s1" using ap1 by simp
    show "\<forall>c. next_of s1 c + length cs \<le> u64_max"
    proof
      fix c show "next_of s1 c + length cs \<le> u64_max"
        using 2(4) [rule_format, of c] nx [of c] by (simp split: if_splits)
    qed
  qed
  have "map snd (filter (\<lambda>(x, _). x = c) qs) = [next_of s c..<next_of s' c] \<and> next_of s c \<le> next_of s' c" for c
  proof (cases "c = ch")
    case True
    then show ?thesis
      using IH [THEN conjunct2, rule_format, of c] nx [of c] ap1 unfolding out by (simp add: upt_conv_Cons)
  next
    case False
    then show ?thesis using IH [THEN conjunct2, rule_format, of c] nx [of c] unfolding out by simp
  qed
  with IH out(1) show ?case by blast
next
  case (3 s ch older max_bytes cs)
  obtain s1 n where pr: "prune s ch older max_bytes = (s1, n)" by (meson surj_pair)
  have nx: "next_of s1 c = next_of s c" for c
    using prune_ok [OF 3(2) pr] prune_other [OF 3(2) pr, of c] by (cases "c = ch") simp_all
  have "ok s1" using prune_ok [OF 3(2) pr] by simp
  moreover have "run s1 cs = (s', qs)" using 3(3) pr by simp
  moreover have "\<forall>c. next_of s1 c + length cs \<le> u64_max"
  proof
    fix c show "next_of s1 c + length cs \<le> u64_max" using 3(4) [rule_format, of c] nx [of c] by simp
  qed
  ultimately show ?case using 3(1) [unfolded pr fst_conv] by (simp add: nx)
qed

text \<open>From an empty store, each channel's numbers are 1, 2, 3 and so on.\<close>

lemma run_numbers:
  assumes "run empty cs = (s, qs)" and "length cs < u64_max"
  shows "ok s \<and> (\<forall>ch. map snd (filter (\<lambda>(c, _). c = ch) qs) = [1..<next_of s ch])"
  using run_spec [OF empty_ok assms(1)] assms(2) by (simp add: empty_frames)

text \<open>A client that follows a channel by its cursor, page after page, until a page is empty.\<close>

fun follow :: "nat \<Rightarrow> 's \<Rightarrow> string \<Rightarrow> nat \<Rightarrow> nat \<Rightarrow> (nat \<times> string) list" where
  "follow 0 s ch after limit = []"
| "follow (Suc fuel) s ch after limit =
     (let fs = p_frames (read s ch after limit) in
      if fs = [] then [] else fs @ follow fuel s ch (fst (last fs)) limit)"

definition retained_after :: "'s \<Rightarrow> string \<Rightarrow> nat \<Rightarrow> (nat \<times> string) list" where
  "retained_after s ch after = map (\<lambda>(q, e, _). (q, e)) (filter (\<lambda>(q, _, _). after < q) (frames_of s ch))"

lemma sorted_frames: "ok s \<Longrightarrow> sorted_wrt (<) (map fst (frames_of s ch))"
  using contiguous by simp

lemma filter_above:
  fixes us :: "(nat \<times> string \<times> int) list"
  assumes "sorted_wrt (<) (map fst (us @ (q0, e0, t0) # vs))"
  shows "filter (\<lambda>(q, _, _). q0 < q) (us @ (q0, e0, t0) # vs) = vs"
proof -
  have "\<forall>x \<in> set us. \<not> q0 < fst x" "\<forall>x \<in> set vs. q0 < fst x"
    using assms by (force simp: sorted_wrt_append)+
  then have "filter (\<lambda>(q, _, _). q0 < q) us = []" "filter (\<lambda>(q, _, _). q0 < q) vs = vs"
    by (auto simp: filter_empty_conv filter_id_conv)
  then show ?thesis by simp
qed

lemma filter_after_last:
  fixes fs :: "(nat \<times> string \<times> int) list"
  assumes "sorted_wrt (<) (map fst fs)" and "take n (filter (\<lambda>(q, _, _). a < q) fs) = us @ [(q0, e0, t0)]"
  shows "filter (\<lambda>(q, _, _). q0 < q) fs = drop n (filter (\<lambda>(q, _, _). a < q) fs)"
proof -
  let ?gs = "filter (\<lambda>(q, _, _). a < q) fs"
  have srt: "sorted_wrt (<) (map fst ?gs)" using assms(1)
    by (metis sorted_wrt_filter sorted_wrt_map)
  have gs: "?gs = us @ (q0, e0, t0) # drop n ?gs"
    using append_take_drop_id [of n ?gs] assms(2) by simp
  have "(q0, e0, t0) \<in> set (take n ?gs)" by (simp add: assms(2))
  then have a: "a < q0" by (auto dest: in_set_takeD)
  have "filter (\<lambda>(q, _, _). q0 < q) fs = filter (\<lambda>(q, _, _). q0 < q) ?gs"
    unfolding filter_filter using a by (intro filter_cong) (auto intro: less_trans)
  also have "\<dots> = filter (\<lambda>(q, _, _). q0 < q) (us @ (q0, e0, t0) # drop n ?gs)" using gs by metis
  also have "\<dots> = drop n ?gs"
    by (rule filter_above) (use srt gs in metis)
  finally show ?thesis .
qed

lemma follow_complete:
  assumes "ok s" and "0 < limit"
  shows "length (retained_after s ch after) < fuel \<Longrightarrow> after < u64_max \<Longrightarrow> next_of s ch \<le> u64_max \<Longrightarrow>
     follow fuel s ch after limit = retained_after s ch after"
proof (induction fuel arbitrary: after)
  case 0
  then show ?case by simp
next
  case (Suc fuel)
  let ?gs = "filter (\<lambda>(q, _, _). after < q) (frames_of s ch)"
  have page: "p_frames (read s ch after limit) = map (\<lambda>(q, e, _). (q, e)) (take limit ?gs)"
    using read_ok [OF assms(1) Suc.prems(2)] by simp
  show ?case
  proof (cases "?gs = []")
    case True
    with page show ?thesis by (simp add: retained_after_def)
  next
    case False
    with assms(2) have ne: "take limit ?gs \<noteq> []" by simp
    then obtain us q0 e0 t0 where us: "take limit ?gs = us @ [(q0, e0, t0)]"
      by (metis append_butlast_last_id surj_pair)
    have ret: "retained_after s ch q0 = map (\<lambda>(q, e, _). (q, e)) (drop limit ?gs)"
      using filter_after_last [OF sorted_frames [OF assms(1)] us] by (simp add: retained_after_def)
    have all: "retained_after s ch after = map (\<lambda>(q, e, _). (q, e)) (take limit ?gs) @ retained_after s ch q0"
      unfolding ret map_append [symmetric] append_take_drop_id by (simp add: retained_after_def)
    have "(q0, e0, t0) \<in> set (take limit ?gs)" by (simp add: us)
    then have "(q0, e0, t0) \<in> set (frames_of s ch)" by (auto dest: in_set_takeD)
    then have "q0 \<in> set (map fst (frames_of s ch))" by force
    then have q0: "q0 < next_of s ch" using contiguous [OF assms(1), of ch] by simp
    have "length (retained_after s ch q0) < fuel" using all ne Suc.prems(1) by (cases "take limit ?gs") auto
    then have "follow fuel s ch q0 limit = retained_after s ch q0"
      using Suc.IH q0 Suc.prems(3) by simp
    then show ?thesis using page us ne all by (simp add: Let_def)
  qed
qed

text \<open>A cursor has lost frames exactly when the oldest retained one is beyond its successor.\<close>

lemma stale_iff:
  assumes "ok s" and "after < u64_max" and "after < next_of s ch"
  shows "p_oldest (read s ch after limit) \<le> after + 1 \<longleftrightarrow>
    (\<forall>q. after < q \<and> q < next_of s ch \<longrightarrow> q \<in> fst ` set (frames_of s ch))"
proof -
  let ?f = "frames_of s ch" and ?n = "next_of s ch"
  from contiguous [OF assms(1), of ch] have len: "length ?f < ?n"
    and keys: "map fst ?f = [?n - length ?f..<?n]" by auto
  have set: "fst ` set ?f = {?n - length ?f..<?n}" using arg_cong [OF keys, of set] by simp
  show ?thesis
  proof (cases ?f)
    case Nil
    then show ?thesis using assms read_ok [OF assms(1,2)] by auto
  next
    case (Cons f fs)
    have "fst f = ?n - length ?f" using keys len Cons by (metis diff_less hd_map length_greater_0_conv
          list.sel(1) list.simps(3) list.simps(9) order_le_less_trans upt_conv_Cons zero_less_diff less_nat_zero_code linorder_neqE_nat)
    then show ?thesis using assms(3) read_ok [OF assms(1,2), of ch limit] Cons len unfolding set
      by (auto simp: Suc_le_eq)
  qed
qed

end

section \<open>The store in memory keeps the contract\<close>

definition mem_frames_of :: "mem_frames \<Rightarrow> string \<Rightarrow> (nat \<times> string \<times> int) list" where
  "mem_frames_of m ch = (case m ch of None \<Rightarrow> [] | Some c \<Rightarrow> mc_frames c)"

definition mem_next_of :: "mem_frames \<Rightarrow> string \<Rightarrow> nat" where
  "mem_next_of m ch = (case m ch of None \<Rightarrow> 1 | Some c \<Rightarrow> mc_next c)"

definition mem_ok :: "mem_frames \<Rightarrow> bool" where
  "mem_ok m \<longleftrightarrow> (\<forall>ch. length (mem_frames_of m ch) < mem_next_of m ch \<and>
     map fst (mem_frames_of m ch) = [mem_next_of m ch - length (mem_frames_of m ch)..<mem_next_of m ch])"

text \<open>A list that drops a prefix keeps the rest of a contiguous range.\<close>

lemma contiguous_drop:
  assumes "length fs < n" and "map fst fs = [n - length fs..<n]"
  shows "length (drop k fs) < n \<and> map fst (drop k fs) = [n - length (drop k fs)..<n]"
proof -
  have "map fst (drop k fs) = drop k [n - length fs..<n]" by (simp add: drop_map [symmetric] assms(2))
  also have "\<dots> = [n - length fs + k..<n]" by (rule drop_upt)
  also have "\<dots> = [n - length (drop k fs)..<n]" using assms(1) by (cases "k \<le> length fs") auto
  finally show ?thesis using assms(1) by simp
qed

lemma contiguous_snoc:
  assumes "length fs < n" and "map fst fs = [n - length fs..<n]"
  shows "map fst (fs @ [(n, e, t)]) = [n + 1 - length (fs @ [(n, e, t)])..<n + 1]"
  using assms by simp

lemma mem_drop_old_spec:
  "mem_drop_old older fs = (fs', n) \<Longrightarrow> fs' = drop n fs \<and> n \<le> length fs
     \<and> (\<forall>i < n. snd (snd (fs ! i)) < older)"
proof (induction older fs arbitrary: fs' n rule: mem_drop_old.induct)
  case (2 older s e t fs)
  show ?case
  proof (cases "t < older")
    case True
    obtain f1 n1 where r: "mem_drop_old older fs = (f1, n1)" by (meson surj_pair)
    with True 2(2) have "fs' = f1" "n = Suc n1" by auto
    with 2(1) [OF True r] show ?thesis using True by (auto simp: nth_Cons split: nat.splits)
  next
    case False
    with 2(2) show ?thesis by auto
  qed
qed simp

lemma mem_drop_bytes_spec:
  "mem_drop_bytes m tot fs = (fs', n) \<Longrightarrow> tot = frame_bytes fs \<Longrightarrow> fs' = drop n fs \<and> n \<le> length fs
     \<and> frame_bytes fs' \<le> m \<and> (0 < n \<longrightarrow> frame_bytes (drop (n - 1) fs) > m)"
proof (induction m tot fs arbitrary: fs' n rule: mem_drop_bytes.induct)
  case (1 m tot)
  then show ?case by (auto simp: frame_bytes_def)
next
  case (2 m tot s e t fs)
  show ?case
  proof (cases "tot > m")
    case True
    obtain f1 n1 where r: "mem_drop_bytes m (tot - length e) fs = (f1, n1)" by (meson surj_pair)
    with True 2(2) have n: "fs' = f1" "n = Suc n1" by auto
    have "tot - length e = frame_bytes fs" using 2(3) by (simp add: frame_bytes_def)
    from 2(1) [OF True r this] n True 2(3) show ?thesis by (cases n1) auto
  next
    case False
    with 2(2,3) show ?thesis by auto
  qed
qed

lemma mem_prune_spec:
  assumes "mem_prune m ch older mb = (m', n)"
  shows "n \<le> length (mem_frames_of m ch) \<and> mem_frames_of m' ch = drop n (mem_frames_of m ch)
    \<and> mem_next_of m' ch = mem_next_of m ch \<and> frame_bytes (mem_frames_of m' ch) \<le> mb
    \<and> (0 < n \<longrightarrow> snd (snd (mem_frames_of m ch ! (n - 1))) < older
               \<or> frame_bytes (drop (n - 1) (mem_frames_of m ch)) > mb)"
proof (cases "m ch")
  case None
  with assms show ?thesis by (simp add: mem_prune_def mem_frames_of_def frame_bytes_def)
next
  case (Some c)
  obtain f1 n1 where 1: "mem_drop_old older (mc_frames c) = (f1, n1)" by (meson surj_pair)
  obtain f2 n2 where 2: "mem_drop_bytes mb (frame_bytes f1) f1 = (f2, n2)" by (meson surj_pair)
  from assms Some 1 2 have out: "m' = m(ch \<mapsto> c\<lparr>mc_frames := f2\<rparr>)" "n = n1 + n2"
    by (simp_all add: mem_prune_def)
  note s1 = mem_drop_old_spec [OF 1] and s2 = mem_drop_bytes_spec [OF 2 refl]
  have "f2 = drop n (mc_frames c)" "n \<le> length (mc_frames c)" using s1 s2 out by (auto simp: add.commute)
  moreover have "snd (snd (mc_frames c ! (n - 1))) < older \<or> frame_bytes (drop (n - 1) (mc_frames c)) > mb" if "0 < n"
  proof (cases n2)
    case 0
    then show ?thesis using s1 out that by auto
  next
    case (Suc k)
    then have "drop (n - 1) (mc_frames c) = drop (n2 - 1) f1" using s1 out by (simp add: add.commute)
    with s2 Suc show ?thesis by simp
  qed
  moreover have "frame_bytes f2 \<le> mb" using s2 by blast
  ultimately show ?thesis using Some out(1) by (simp add: mem_frames_of_def mem_next_of_def)
qed

lemma mem_prune_other:
  "mem_prune m ch older mb = (m', n) \<Longrightarrow> ch' \<noteq> ch \<Longrightarrow> m' ch' = m ch'"
  by (auto simp: mem_prune_def split: option.splits prod.splits)

interpretation mem: frame_store mem_append mem_read mem_prune "\<lambda>_. None" mem_ok mem_frames_of mem_next_of
proof
  show "mem_ok (\<lambda>_. None)" by (simp add: mem_ok_def mem_frames_of_def mem_next_of_def)
next
  fix ch show "mem_frames_of (\<lambda>_. None) ch = []" "mem_next_of (\<lambda>_. None) ch = 1"
    by (simp_all add: mem_frames_of_def mem_next_of_def)
next
  fix s ch assume "mem_ok s"
  then show "length (mem_frames_of s ch) < mem_next_of s ch \<and> map fst (mem_frames_of s ch)
      = [mem_next_of s ch - length (mem_frames_of s ch)..<mem_next_of s ch]" by (simp add: mem_ok_def)
next
  fix s ch e now s' q assume ok: "mem_ok s" and ap: "mem_append s ch e now = (s', q)"
  have q: "q = mem_next_of s ch" and fr: "mem_frames_of s' c = (if c = ch then mem_frames_of s ch @ [(q, e, now)] else mem_frames_of s c)"
    and nx: "mem_next_of s' c = (if c = ch then q + 1 else mem_next_of s c)" for c
    using ap by (auto simp: mem_append_def mem_frames_of_def mem_next_of_def Let_def split: option.splits)
  have "mem_ok s'" unfolding mem_ok_def
  proof
    fix c show "length (mem_frames_of s' c) < mem_next_of s' c \<and> map fst (mem_frames_of s' c)
        = [mem_next_of s' c - length (mem_frames_of s' c)..<mem_next_of s' c]"
      using ok contiguous_snoc [of "mem_frames_of s ch" q e now] by (auto simp: mem_ok_def fr nx q)
  qed
  then show "mem_ok s' \<and> q = mem_next_of s ch \<and> (\<exists>t. mem_frames_of s' ch = mem_frames_of s ch @ [(q, e, t)])
      \<and> mem_next_of s' ch = q + 1" using q fr nx by simp
next
  fix s ch e now s' q ch' assume "mem_append s ch e now = (s', q)" "ch' \<noteq> (ch :: string)"
  then show "mem_frames_of s' ch' = mem_frames_of s ch' \<and> mem_next_of s' ch' = mem_next_of s ch'"
    by (auto simp: mem_append_def mem_frames_of_def mem_next_of_def Let_def)
next
  fix s ch older mb s' n assume ok: "mem_ok s" and pr: "mem_prune s ch older mb = (s', n)"
  note sp = mem_prune_spec [OF pr]
  have "mem_ok s'" unfolding mem_ok_def
  proof
    fix c show "length (mem_frames_of s' c) < mem_next_of s' c \<and> map fst (mem_frames_of s' c)
        = [mem_next_of s' c - length (mem_frames_of s' c)..<mem_next_of s' c]"
    proof (cases "c = ch")
      case True
      then show ?thesis using contiguous_drop [of "mem_frames_of s ch" "mem_next_of s ch" n] ok sp
        by (simp add: mem_ok_def)
    next
      case False
      with mem_prune_other [OF pr False] ok show ?thesis
        by (simp add: mem_ok_def mem_frames_of_def mem_next_of_def)
    qed
  qed
  with sp show "mem_ok s' \<and> n \<le> length (mem_frames_of s ch) \<and> mem_frames_of s' ch = drop n (mem_frames_of s ch)
      \<and> mem_next_of s' ch = mem_next_of s ch \<and> frame_bytes (mem_frames_of s' ch) \<le> mb
      \<and> (0 < n \<longrightarrow> snd (snd (mem_frames_of s ch ! (n - 1))) < older
                 \<or> mb < frame_bytes (drop (n - 1) (mem_frames_of s ch)))" by blast
next
  fix s ch older mb s' n ch' assume "mem_prune s ch older mb = (s', n)" "ch' \<noteq> (ch :: string)"
  from mem_prune_other [OF this] show "mem_frames_of s' ch' = mem_frames_of s ch' \<and> mem_next_of s' ch' = mem_next_of s ch'"
    by (simp add: mem_frames_of_def mem_next_of_def)
next
  fix s after ch limit assume ok: "mem_ok s"
  show "mem_read s ch after limit =
      \<lparr>p_frames = map (\<lambda>(q, e, _). (q, e)) (take limit (filter (\<lambda>(q, _, _). after < q) (mem_frames_of s ch))),
       p_oldest = (case mem_frames_of s ch of f # _ \<Rightarrow> fst f | [] \<Rightarrow> if mem_next_of s ch = 1 then 0 else mem_next_of s ch),
       p_latest = mem_next_of s ch - 1\<rparr>"
  proof (cases "s ch")
    case None
    then show ?thesis by (simp add: mem_read_def mem_frames_of_def mem_next_of_def)
  next
    case (Some c)
    with ok have "0 < mc_next c" by (auto simp: mem_ok_def mem_frames_of_def mem_next_of_def dest: spec [of _ ch])
    with Some show ?thesis by (auto simp: mem_read_def mem_frames_of_def mem_next_of_def split: list.splits)
  qed
qed

section \<open>The store on disk keeps the contract\<close>

definition fs_frames_of :: "fs_frames \<Rightarrow> string \<Rightarrow> (nat \<times> string \<times> int) list" where
  "fs_frames_of d ch = map (\<lambda>(q, f). (q, f_bytes f, file_time f)) (scan d ch)"

text \<open>A channel's directory: frames under consecutive numbers, and the cache after them.\<close>

definition dir_ok :: "fs_file list \<Rightarrow> nat \<Rightarrow> nat \<Rightarrow> bool" where
  "dir_ok fs lo nx \<longleftrightarrow> 1 \<le> lo \<and> lo \<le> nx \<and> nx \<le> u64_max \<and> distinct (map f_name fs)
     \<and> f_name ` set fs - {''.seq''} = pad20 ` {lo..<nx}
     \<and> (''.seq'' \<in> f_name ` set fs \<or> fs = [] \<and> nx = 1)
     \<and> (\<forall>f \<in> set fs. f_name f = ''.seq'' \<longrightarrow> f_bytes f = dec nx)"

definition fs_ok :: "fs_frames \<Rightarrow> bool" where
  "fs_ok d \<longleftrightarrow> (\<forall>ch. \<exists>lo nx. dir_ok (files_in d ch) lo nx)"

lemma parse_dot_seq [simp]: "parse_u64 ''.seq'' = None"
  by (simp add: parse_u64_def is_digit_def)

lemma pad20_not_seq: "n \<le> u64_max \<Longrightarrow> pad20 n \<noteq> ''.seq''"
  using parse_u64_pad20 by force

definition keyed :: "fs_file list \<Rightarrow> (nat \<times> fs_file) list" where
  "keyed fs = map (\<lambda>f. (the (parse_u64 (f_name f)), f)) (filter (\<lambda>f. parse_u64 (f_name f) \<noteq> None) fs)"

lemma set_keyed: "set (keyed fs) = {(q, f). f \<in> set fs \<and> parse_u64 (f_name f) = Some q}"
  by (auto simp: keyed_def image_iff)

lemma update_new: "q \<notin> fst ` set m \<Longrightarrow> AList.update q f m = m @ [(q, f)]"
  by (induction m) auto

lemma scan_fold:
  "distinct (map fst (m @ keyed fs)) \<Longrightarrow> foldl scan_insert m fs = m @ keyed fs"
proof (induction fs arbitrary: m)
  case Nil
  then show ?case by (simp add: keyed_def)
next
  case (Cons f fs)
  show ?case
  proof (cases "parse_u64 (f_name f)")
    case None
    then show ?thesis using Cons by (simp add: scan_insert_def keyed_def)
  next
    case (Some q)
    then have k: "keyed (f # fs) = (q, f) # keyed fs" by (simp add: keyed_def)
    have "scan_insert m f = m @ [(q, f)]"
      using Cons.prems Some by (simp add: scan_insert_def k update_new)
    then show ?thesis using Cons.IH [of "m @ [(q, f)]"] Cons.prems by (simp add: k)
  qed
qed

lemma dir_ok_name:
  assumes "dir_ok fs lo nx" and "f \<in> set fs"
  shows "f_name f = ''.seq'' \<or> (\<exists>n. lo \<le> n \<and> n < nx \<and> f_name f = pad20 n)"
proof -
  have "f_name f = ''.seq'' \<or> f_name f \<in> f_name ` set fs - {''.seq''}" using assms(2) by blast
  then show ?thesis using assms(1) unfolding dir_ok_def by auto
qed

lemma dir_ok_parse:
  assumes "dir_ok fs lo nx" and "f \<in> set fs"
  shows "parse_u64 (f_name f) = Some q \<longleftrightarrow> lo \<le> q \<and> q < nx \<and> f_name f = pad20 q"
proof -
  have nx: "nx \<le> u64_max" using assms by (simp add: dir_ok_def)
  from dir_ok_name [OF assms] show ?thesis
  proof
    assume "f_name f = ''.seq''"
    then show ?thesis using nx pad20_not_seq [of q] by auto
  next
    assume "\<exists>n. lo \<le> n \<and> n < nx \<and> f_name f = pad20 n"
    then obtain n where "lo \<le> n" "n < nx" "f_name f = pad20 n" by blast
    then show ?thesis using nx parse_u64_pad20 [of n] pad20_inj [of n q] by auto
  qed
qed

lemma name_inj:
  "distinct (map f_name fs) \<Longrightarrow> f \<in> set fs \<Longrightarrow> g \<in> set fs \<Longrightarrow> f_name f = f_name g \<Longrightarrow> f = g"
  by (simp add: distinct_map inj_on_def)

text \<open>What a scan of a well-kept directory returns.\<close>

lemma scan_spec:
  assumes "files_in d ch = fs" and "dir_ok fs lo nx"
  shows "sorted (map fst (scan d ch)) \<and> distinct (map fst (scan d ch)) \<and>
    set (scan d ch) = {(q, f). f \<in> set fs \<and> lo \<le> q \<and> q < nx \<and> f_name f = pad20 q}"
proof -
  have dist: "distinct (map f_name fs)" using assms(2) by (simp add: dir_ok_def)
  have inj: "f = g" if "f \<in> set fs" "g \<in> set fs" "parse_u64 (f_name f) = Some q" "parse_u64 (f_name g) = Some q" for f g q
  proof -
    have "f_name f = f_name g" using dir_ok_parse [OF assms(2)] that by metis
    then show ?thesis by (rule name_inj [OF dist that(1,2)])
  qed
  have "distinct fs" using dist by (simp add: distinct_map)
  then have "distinct (map fst (keyed fs))"
    unfolding keyed_def map_map o_def fst_conv distinct_map using inj by (auto intro!: inj_onI)
  then have fold: "foldl scan_insert [] fs = keyed fs" "distinct (map fst (keyed fs))"
    using scan_fold [of "[]" fs] by simp_all
  have srt: "sorted (map fst (sort_key fst (keyed fs)))" by simp
  have dst: "distinct (map fst (sort_key fst (keyed fs)))" using fold(2) by (simp add: distinct_map)
  have "set (keyed fs) = {(q, f). f \<in> set fs \<and> lo \<le> q \<and> q < nx \<and> f_name f = pad20 q}"
    unfolding set_keyed using dir_ok_parse [OF assms(2)] by blast
  with srt dst show ?thesis
    unfolding scan_def using assms(1) by (simp add: fold(1))
qed

lemma scan_keys:
  assumes "files_in d ch = fs" and "dir_ok fs lo nx"
  shows "map fst (scan d ch) = [lo..<nx]"
proof (rule sorted_distinct_set_unique)
  note s = scan_spec [OF assms]
  show "sorted (map fst (scan d ch))" "distinct (map fst (scan d ch))" using s by auto
  have "\<exists>f \<in> set fs. f_name f = pad20 q" if "lo \<le> q" "q < nx" for q
  proof -
    have "pad20 q \<in> f_name ` set fs - {''.seq''}" using assms(2) that by (simp add: dir_ok_def)
    then show ?thesis by auto
  qed
  then have "fst ` {(q, f). f \<in> set fs \<and> lo \<le> q \<and> q < nx \<and> f_name f = pad20 q} = {lo..<nx}"
    by (intro set_eqI iffI) (auto simp: image_iff)
  then show "set (map fst (scan d ch)) = set [lo..<nx]" using s by simp
qed simp_all

lemma read_seq_file:
  assumes "''.seq'' \<in> f_name ` set fs" and "\<forall>f \<in> set fs. f_name f = ''.seq'' \<longrightarrow> f_bytes f = b"
  shows "read_file fs ''.seq'' = Some b"
proof -
  have "find (\<lambda>f. f_name f = ''.seq'') fs \<noteq> None" using assms(1) by (auto simp: find_None_iff)
  then obtain f where f: "find (\<lambda>f. f_name f = ''.seq'') fs = Some f" by blast
  then have "f \<in> set fs \<and> f_name f = ''.seq''" by (auto simp: find_Some_iff)
  with assms(2) f show ?thesis by (simp add: read_file_def)
qed

lemma next_seq_ok:
  assumes "files_in d ch = fs" and "dir_ok fs lo nx"
  shows "next_seq d ch = nx"
proof (cases "''.seq'' \<in> f_name ` set fs")
  case True
  then have "read_file fs ''.seq'' = Some (dec nx)" using assms(2) by (intro read_seq_file) (auto simp: dir_ok_def)
  moreover have "nx \<le> u64_max" using assms(2) by (simp add: dir_ok_def)
  ultimately show ?thesis using assms(1) by (simp add: next_seq_def parse_u64_dec)
next
  case False
  with assms have "fs = []" "nx = 1" by (auto simp: dir_ok_def)
  with assms(1) show ?thesis by (simp add: next_seq_def scan_def read_file_def)
qed

lemma files_in_write [simp]:
  "files_in (atomic_write d ch name b now) ch' = (if ch' = ch
     then filter (\<lambda>f. f_name f \<noteq> name) (files_in d ch) @ [\<lparr>f_name = name, f_bytes = b, f_mtime = now\<rparr>]
     else files_in d ch')"
  by (simp add: atomic_write_def files_in_def)

text \<open>The directory after an append.\<close>

definition appended :: "fs_file list \<Rightarrow> nat \<Rightarrow> string \<Rightarrow> int \<Rightarrow> fs_file list" where
  "appended fs nx e now = filter (\<lambda>f. f_name f \<noteq> ''.seq'') (filter (\<lambda>f. f_name f \<noteq> pad20 nx) fs
       @ [\<lparr>f_name = pad20 nx, f_bytes = e, f_mtime = now\<rparr>])
     @ [\<lparr>f_name = ''.seq'', f_bytes = dec (nx + 1), f_mtime = now\<rparr>]"

lemma files_in_append:
  assumes "files_in d ch = fs" and "dir_ok fs lo nx"
  shows "files_in (fst (fs_append d ch e now)) ch' = (if ch' = ch then appended fs nx e now else files_in d ch')"
    and "snd (fs_append d ch e now) = nx"
  using next_seq_ok [OF assms] assms(1)
  by (simp_all add: fs_append_def fs_append_frame_def appended_def Let_def)

lemma no_next_file: "dir_ok fs lo nx \<Longrightarrow> f \<in> set fs \<Longrightarrow> f_name f \<noteq> pad20 nx"
proof
  assume ok: "dir_ok fs lo nx" "f \<in> set fs" and n: "f_name f = pad20 nx"
  have "nx \<le> u64_max" using ok(1) by (simp add: dir_ok_def)
  then have "parse_u64 (f_name f) = Some nx" by (simp add: n parse_u64_pad20)
  with dir_ok_parse [OF ok, of nx] show False by simp
qed

lemma appended_eq:
  assumes "dir_ok fs lo nx"
  shows "appended fs nx e now = filter (\<lambda>f. f_name f \<noteq> ''.seq'') fs
     @ [\<lparr>f_name = pad20 nx, f_bytes = e, f_mtime = now\<rparr>, \<lparr>f_name = ''.seq'', f_bytes = dec (nx + 1), f_mtime = now\<rparr>]"
proof -
  have "filter (\<lambda>f. f_name f \<noteq> pad20 nx) fs = fs" using no_next_file [OF assms] by (auto simp: filter_id_conv)
  moreover have "pad20 nx \<noteq> ''.seq''" using assms pad20_not_seq by (simp add: dir_ok_def)
  ultimately show ?thesis by (simp add: appended_def)
qed

lemma appended_ok:
  assumes ok: "dir_ok fs lo nx" and "nx < u64_max"
  shows "dir_ok (appended fs nx e now) lo (nx + 1)"
proof -
  from ok have b: "1 \<le> lo" "lo \<le> nx" "distinct (map f_name fs)"
    and nm: "f_name ` set fs - {''.seq''} = pad20 ` {lo..<nx}" by (auto simp: dir_ok_def)
  have ns: "pad20 nx \<noteq> ''.seq''" using assms(2) pad20_not_seq by simp
  have "f_name ` {f \<in> set fs. f_name f \<noteq> ''.seq''} = f_name ` set fs - {''.seq''}" by auto
  then have A: "f_name ` {f \<in> set fs. f_name f \<noteq> ''.seq''} = pad20 ` {lo..<nx}" using nm by simp
  have E: "f_name ` set (appended fs nx e now)
      = insert (pad20 nx) (insert ''.seq'' (f_name ` {f \<in> set fs. f_name f \<noteq> ''.seq''}))"
    unfolding appended_eq [OF ok] by (simp add: image_Un)
  have N: "''.seq'' \<notin> pad20 ` {lo..<nx}" unfolding nm [symmetric] by simp
  have "{lo..<nx + 1} = insert nx {lo..<nx}" using b by auto
  then have "pad20 ` {lo..<nx + 1} = insert (pad20 nx) (pad20 ` {lo..<nx})" by (simp only: image_insert)
  moreover have "insert (pad20 nx) (insert ''.seq'' (pad20 ` {lo..<nx})) - {''.seq''} = insert (pad20 nx) (pad20 ` {lo..<nx})"
    using ns N by (simp add: insert_Diff_if insert_commute)
  ultimately have F1: "f_name ` set (appended fs nx e now) - {''.seq''} = pad20 ` {lo..<nx + 1}"
    unfolding E A by (simp only:)
  have F2: "distinct (map f_name (appended fs nx e now))"
  proof -
    have "pad20 nx \<notin> f_name ` {f \<in> set fs. f_name f \<noteq> ''.seq''}"
    proof
      assume "pad20 nx \<in> f_name ` {f \<in> set fs. f_name f \<noteq> ''.seq''}"
      then obtain f where "f \<in> set fs" "f_name f = pad20 nx" by auto
      with no_next_file [OF ok, of f] show False by simp
    qed
    moreover have "''.seq'' \<notin> f_name ` {f \<in> set fs. f_name f \<noteq> ''.seq''}" by auto
    moreover have "distinct (map f_name (filter (\<lambda>f. f_name f \<noteq> ''.seq'') fs))"
      by (rule distinct_map_filter [OF b(3)])
    ultimately show ?thesis using ns by (simp add: appended_eq [OF ok])
  qed
  have F3: "\<forall>f \<in> set (appended fs nx e now). f_name f = ''.seq'' \<longrightarrow> f_bytes f = dec (nx + 1)"
    using ns unfolding appended_eq [OF ok] by auto
  have F4: "''.seq'' \<in> f_name ` set (appended fs nx e now)" unfolding appended_eq [OF ok] by simp
  show ?thesis unfolding dir_ok_def using b(1,2) assms(2) by (intro conjI F1 F2 F3 disjI1 [OF F4]) simp_all
qed

lemma scan_append:
  assumes fs: "files_in d ch = fs" and ok: "dir_ok fs lo nx" and lt: "nx < u64_max"
  shows "scan (fst (fs_append d ch e now)) ch = scan d ch @ [(nx, \<lparr>f_name = pad20 nx, f_bytes = e, f_mtime = now\<rparr>)]"
proof -
  let ?f = "\<lparr>f_name = pad20 nx, f_bytes = e, f_mtime = now\<rparr>" and ?d = "fst (fs_append d ch e now)"
  have in': "files_in ?d ch = appended fs nx e now" by (simp add: files_in_append [OF fs ok])
  note s = scan_spec [OF fs ok] scan_keys [OF fs ok]
    and s' = scan_spec [OF in' appended_ok [OF ok lt]]
  have set: "set (scan ?d ch) = set (scan d ch @ [(nx, ?f)])"
  proof -
    have "f \<in> set (appended fs nx e now) \<and> lo \<le> q \<and> q < nx + 1 \<and> f_name f = pad20 q \<longleftrightarrow>
      f \<in> set fs \<and> lo \<le> q \<and> q < nx \<and> f_name f = pad20 q \<or> q = nx \<and> f = ?f" for q f
      using no_next_file [OF ok, of f] ok lt pad20_not_seq [of q] pad20_inj [of q nx]
      unfolding appended_eq [OF ok] dir_ok_def by (cases "q = nx") auto
    then show ?thesis using s(1) s' by auto
  qed
  show ?thesis
  proof (rule map_sorted_distinct_set_unique [where f = fst])
    show "inj_on fst (set (scan ?d ch) \<union> set (scan d ch @ [(nx, ?f)]))"
      unfolding set using set s' by (metis Un_absorb distinct_map)
    show "sorted (map fst (scan d ch @ [(nx, ?f)]))" "distinct (map fst (scan d ch @ [(nx, ?f)]))"
      using s(2) by (simp_all add: sorted_append)
  qed (use s' set in simp_all)
qed

definition files_bytes :: "fs_file list \<Rightarrow> nat" where
  "files_bytes fs = sum_list (map (\<lambda>f. length (f_bytes f)) fs)"

lemma fs_prune_loop_spec:
  "fs_prune_loop older mb tot dir fs = (dir', n) \<Longrightarrow> tot = files_bytes fs \<Longrightarrow>
     n \<le> length fs \<and> dir' = filter (\<lambda>g. f_name g \<notin> f_name ` set (take n fs)) dir
     \<and> files_bytes (drop n fs) \<le> mb
     \<and> (0 < n \<longrightarrow> file_time (fs ! (n - 1)) < older \<or> files_bytes (drop (n - 1) fs) > mb)"
proof (induction older mb tot dir fs arbitrary: dir' n rule: fs_prune_loop.induct)
  case (1 older mb tot dir)
  then show ?case by (auto simp: files_bytes_def)
next
  case (2 older mb tot dir f fs)
  show ?case
  proof (cases "file_time f < older \<or> tot > mb")
    case True
    let ?dir = "filter (\<lambda>g. f_name g \<noteq> f_name f) dir"
    obtain d1 n1 where r: "fs_prune_loop older mb (tot - length (f_bytes f)) ?dir fs = (d1, n1)"
      by (meson surj_pair)
    with True 2(2) have out: "dir' = d1" "n = Suc n1" by auto
    have "tot - length (f_bytes f) = files_bytes fs" using 2(3) by (simp add: files_bytes_def)
    note IH = 2(1) [OF True r this]
    have "dir' = filter (\<lambda>g. f_name g \<notin> f_name ` set (take n (f # fs))) dir"
      using IH out by (auto intro: filter_cong)
    moreover have "file_time ((f # fs) ! (n - 1)) < older \<or> files_bytes (drop (n - 1) (f # fs)) > mb"
      using IH out True 2(3) by (cases n1) auto
    ultimately show ?thesis using IH out by auto
  next
    case False
    with 2(2,3) show ?thesis by auto
  qed
qed

lemma set_drop_keys:
  fixes xs :: "(nat \<times> 'a) list"
  assumes "map fst xs = [lo..<nx]"
  shows "set (drop n xs) = {x \<in> set xs. lo + n \<le> fst x}" and "fst ` set (take n xs) = {lo..<min nx (lo + n)}"
proof -
  have d: "map fst (drop n xs) = [lo + n..<nx]" by (simp add: drop_map [symmetric] assms)
  have t: "map fst (take n xs) = [lo..<min nx (lo + n)]"
  proof (cases "lo + n \<le> nx")
    case True
    then show ?thesis by (simp add: take_map [symmetric] assms take_upt min_def)
  next
    case False
    then show ?thesis by (simp add: take_map [symmetric] assms min_def)
  qed
  have d': "fst ` set (drop n xs) = {lo + n..<nx}" using arg_cong [OF d, of set] by simp
  show t': "fst ` set (take n xs) = {lo..<min nx (lo + n)}" using arg_cong [OF t, of set] by simp
  have xs: "set xs = set (take n xs) \<union> set (drop n xs)" by (metis append_take_drop_id set_append)
  have "fst x \<in> {lo + n..<nx}" if "x \<in> set (drop n xs)" for x using that d' by blast
  moreover have "fst x \<in> {lo..<min nx (lo + n)}" if "x \<in> set (take n xs)" for x using that t' by blast
  ultimately have "\<forall>x \<in> set (drop n xs). lo + n \<le> fst x" "\<forall>x \<in> set (take n xs). \<not> lo + n \<le> fst x"
    by (simp_all add: not_le)
  then show "set (drop n xs) = {x \<in> set xs. lo + n \<le> fst x}" using xs by blast
qed

text \<open>The directory after a prune.\<close>

lemma fs_prune_dir:
  assumes fs: "files_in d ch = fs" and ok: "dir_ok fs lo nx" and pr: "fs_prune d ch older mb = (d', n)"
  shows "n \<le> nx - lo \<and> files_in d' ch = filter (\<lambda>g. f_name g \<notin> pad20 ` {lo..<lo + n}) fs
    \<and> files_bytes (drop n (map snd (scan d ch))) \<le> mb
    \<and> (0 < n \<longrightarrow> file_time (map snd (scan d ch) ! (n - 1)) < older
               \<or> files_bytes (drop (n - 1) (map snd (scan d ch))) > mb)"
proof (cases "d ch")
  case None
  then show ?thesis using pr fs by (auto simp: fs_prune_def files_in_def scan_def files_bytes_def)
next
  case (Some dir)
  then have dir: "dir = fs" using fs by (simp add: files_in_def)
  let ?sz = "map snd (scan d ch)"
  obtain dir' where lp: "fs_prune_loop older mb (files_bytes ?sz) fs ?sz = (dir', n)" and d': "d' = d(ch \<mapsto> dir')"
    using pr Some dir by (auto simp: fs_prune_def Let_def files_bytes_def split: prod.splits)
  note sp = fs_prune_loop_spec [OF lp refl]
  have keys: "map fst (scan d ch) = [lo..<nx]" by (rule scan_keys [OF fs ok])
  then have len: "length (scan d ch) = nx - lo" by (metis length_map length_upt)
  have nm: "\<forall>x \<in> set (scan d ch). f_name (snd x) = pad20 (fst x)"
    using scan_spec [OF fs ok] by auto
  have "f_name ` set (take n ?sz) = (\<lambda>x. f_name (snd x)) ` set (take n (scan d ch))"
    by (simp add: take_map image_image)
  also have "\<dots> = pad20 ` fst ` set (take n (scan d ch))"
    unfolding image_image using nm by (intro image_cong) (auto dest: in_set_takeD)
  also have "\<dots> = pad20 ` {lo..<lo + n}"
    using set_drop_keys(2) [OF keys, of n] sp len ok by (auto simp: dir_ok_def min_def)
  finally show ?thesis using sp len d' by (simp add: files_in_def)
qed

lemma pruned_ok:
  assumes ok: "dir_ok fs lo nx" and n: "n \<le> nx - lo"
  shows "dir_ok (filter (\<lambda>g. f_name g \<notin> pad20 ` {lo..<lo + n}) fs) (lo + n) nx"
proof -
  let ?fs = "filter (\<lambda>g. f_name g \<notin> pad20 ` {lo..<lo + n}) fs"
  from ok have b: "1 \<le> lo" "lo \<le> nx" "nx \<le> u64_max" "distinct (map f_name fs)"
    and nm: "f_name ` set fs - {''.seq''} = pad20 ` {lo..<nx}" by (auto simp: dir_ok_def)
  have inj: "inj_on pad20 {lo..<nx}" using b(3) by (auto intro!: inj_onI simp: pad20_inj)
  have ns: "''.seq'' \<notin> pad20 ` {lo..<lo + n}"
  proof
    assume "''.seq'' \<in> pad20 ` {lo..<lo + n}"
    then obtain q where "q < lo + n" "pad20 q = ''.seq''" by auto
    then show False using pad20_not_seq [of q] n b by simp
  qed
  have "f_name ` set ?fs - {''.seq''} = (f_name ` set fs - {''.seq''}) - pad20 ` {lo..<lo + n}" by auto
  also have "\<dots> = pad20 ` ({lo..<nx} - {lo..<lo + n})"
    unfolding nm using inj n b by (subst inj_on_image_set_diff [where C = "{lo..<nx}"]) auto
  also have "{lo..<nx} - {lo..<lo + n} = {lo + n..<nx}" by auto
  finally have "f_name ` set ?fs - {''.seq''} = pad20 ` {lo + n..<nx}" .
  moreover have "''.seq'' \<in> f_name ` set ?fs \<or> ?fs = [] \<and> nx = 1"
  proof -
    from ok have "''.seq'' \<in> f_name ` set fs \<or> fs = [] \<and> nx = 1" by (simp add: dir_ok_def)
    then show ?thesis using ns by force
  qed
  moreover have "\<forall>f \<in> set ?fs. f_name f = ''.seq'' \<longrightarrow> f_bytes f = dec nx" using ok by (auto simp: dir_ok_def)
  moreover have "lo + n \<le> nx" "1 \<le> lo + n" using b n by simp_all
  moreover have "distinct (map f_name ?fs)" using b(4) by (rule distinct_map_filter)
  ultimately show ?thesis using b(3) unfolding dir_ok_def by blast
qed

lemma scan_prune:
  assumes fs: "files_in d ch = fs" and ok: "dir_ok fs lo nx" and pr: "fs_prune d ch older mb = (d', n)"
  shows "scan d' ch = drop n (scan d ch)"
proof -
  note dir = fs_prune_dir [OF assms]
  note fs' = dir [THEN conjunct2, THEN conjunct1]
  have n: "n \<le> nx - lo" using dir by blast
  note s = scan_spec [OF fs ok] and keys = scan_keys [OF fs ok] and s' = scan_spec [OF fs' pruned_ok [OF ok n]]
  have nxm: "nx \<le> u64_max" using ok by (simp add: dir_ok_def)
  have "(f_name f \<notin> pad20 ` {lo..<lo + n} \<and> lo + n \<le> q \<and> q < nx \<and> f_name f = pad20 q) \<longleftrightarrow>
      (lo + n \<le> q \<and> lo \<le> q \<and> q < nx \<and> f_name f = pad20 q)" for f q
  proof -
    have "pad20 q \<notin> pad20 ` {lo..<lo + n}" if "lo + n \<le> q" "q < nx"
      using that nxm pad20_inj by auto
    then show ?thesis by (metis trans_le_add1 le_add1 order_trans)
  qed
  note iff = this
  have mem': "(q, f) \<in> set (scan d' ch) \<longleftrightarrow> f \<in> set fs \<and> f_name f \<notin> pad20 ` {lo..<lo + n}
      \<and> lo + n \<le> q \<and> q < nx \<and> f_name f = pad20 q" for q f using s' by simp
  have mem: "(q, f) \<in> set (drop n (scan d ch)) \<longleftrightarrow> f \<in> set fs \<and> lo + n \<le> q \<and> lo \<le> q \<and> q < nx
      \<and> f_name f = pad20 q" for q f using s set_drop_keys(1) [OF keys, of n] by auto
  have set: "set (scan d' ch) = set (drop n (scan d ch))"
    unfolding set_eq_iff split_paired_All mem mem' iff by blast
  show ?thesis
  proof (rule map_sorted_distinct_set_unique [where f = fst])
    show "inj_on fst (set (scan d' ch) \<union> set (drop n (scan d ch)))"
      unfolding set [symmetric] Un_absorb using s' unfolding distinct_map by blast
    show "sorted (map fst (drop n (scan d ch)))" "distinct (map fst (drop n (scan d ch)))"
      unfolding drop_map [symmetric] keys by simp_all
  qed (use s' set in simp_all)
qed

lemma fs_ok_dir:
  assumes "fs_ok d" obtains lo where "dir_ok (files_in d ch) lo (next_seq d ch)"
  using assms next_seq_ok unfolding fs_ok_def by metis

lemma fs_frames_bytes: "frame_bytes (map (\<lambda>(q, f). (q, f_bytes f, file_time f)) xs) = files_bytes (map snd xs)"
  by (induction xs) (auto simp: frame_bytes_def files_bytes_def)

lemma fs_prune_other: "fs_prune d ch older mb = (d', n) \<Longrightarrow> ch' \<noteq> ch \<Longrightarrow> files_in d' ch' = files_in d ch'"
  by (auto simp: fs_prune_def Let_def files_in_def split: option.splits prod.splits)

lemma same_files:
  "files_in d' ch = files_in d ch \<Longrightarrow> scan d' ch = scan d ch \<and> next_seq d' ch = next_seq d ch"
proof -
  assume f: "files_in d' ch = files_in d ch"
  then have s: "scan d' ch = scan d ch" by (simp add: scan_def)
  show ?thesis unfolding next_seq_def f s by simp
qed

lemma next_seq_none: "d ch = None \<Longrightarrow> scan d ch = [] \<and> next_seq d ch = 1"
  by (simp add: next_seq_def scan_def files_in_def read_file_def)

interpretation disk: frame_store fs_append fs_read fs_prune "\<lambda>_. None" fs_ok fs_frames_of next_seq
proof
  have "dir_ok [] 1 1" by (simp add: dir_ok_def u64_max_def)
  then show "fs_ok (\<lambda>_. None)" unfolding fs_ok_def files_in_def by auto
next
  fix ch show "fs_frames_of (\<lambda>_. None) ch = []" "next_seq (\<lambda>_. None) ch = 1"
    using next_seq_none by (simp_all add: fs_frames_of_def)
next
  fix d ch assume "fs_ok d"
  then obtain lo where ok: "dir_ok (files_in d ch) lo (next_seq d ch)" by (rule fs_ok_dir)
  have keys: "map fst (fs_frames_of d ch) = [lo..<next_seq d ch]"
    using scan_keys [OF refl ok] by (simp add: fs_frames_of_def o_def case_prod_beta)
  then have "length (fs_frames_of d ch) = next_seq d ch - lo" by (metis length_map length_upt)
  with keys ok show "length (fs_frames_of d ch) < next_seq d ch \<and> map fst (fs_frames_of d ch)
      = [next_seq d ch - length (fs_frames_of d ch)..<next_seq d ch]" by (simp add: dir_ok_def)
next
  fix d ch e now d' q
  assume fok: "fs_ok d" and lt: "next_seq d ch < u64_max" and ap: "fs_append d ch e now = (d', q)"
  from fok obtain lo where ok: "dir_ok (files_in d ch) lo (next_seq d ch)" by (rule fs_ok_dir)
  have d': "d' = fst (fs_append d ch e now)" and q: "q = next_seq d ch"
    using ap files_in_append(2) [OF refl ok, of e now] by simp_all
  have in': "files_in d' ch = appended (files_in d ch) (next_seq d ch) e now"
    unfolding d' by (simp add: files_in_append [OF refl ok])
  have "fs_ok d'" unfolding fs_ok_def
  proof
    fix c show "\<exists>lo nx. dir_ok (files_in d' c) lo nx"
      using fok appended_ok [OF ok lt, of e now] unfolding d' files_in_append(1) [OF refl ok] fs_ok_def
      by (cases "c = ch") auto
  qed
  moreover have "next_seq d' ch = q + 1"
    unfolding q by (rule next_seq_ok [OF in' appended_ok [OF ok lt]])
  ultimately show "fs_ok d' \<and> q = next_seq d ch \<and> (\<exists>t. fs_frames_of d' ch = fs_frames_of d ch @ [(q, e, t)])
      \<and> next_seq d' ch = q + 1"
    using q scan_append [OF refl ok lt, of e now] d' by (simp add: fs_frames_of_def)
next
  fix d ch e now d' q ch' assume "fs_append d ch e now = (d', q)" "ch' \<noteq> (ch :: string)"
  then have "files_in d' ch' = files_in d ch'" by (auto simp: fs_append_def fs_append_frame_def Let_def)
  from same_files [OF this] show "fs_frames_of d' ch' = fs_frames_of d ch' \<and> next_seq d' ch' = next_seq d ch'"
    by (simp add: fs_frames_of_def)
next
  fix d ch older mb d' n assume fok: "fs_ok d" and pr: "fs_prune d ch older mb = (d', n)"
  from fok obtain lo where ok: "dir_ok (files_in d ch) lo (next_seq d ch)" by (rule fs_ok_dir)
  note dir = fs_prune_dir [OF refl ok pr] and sc = scan_prune [OF refl ok pr]
  have n: "n \<le> next_seq d ch - lo" using dir by blast
  note in' = dir [THEN conjunct2, THEN conjunct1]
  have fr: "fs_frames_of d' ch = drop n (fs_frames_of d ch)" by (simp add: fs_frames_of_def sc drop_map)
  have len: "length (scan d ch) = next_seq d ch - lo" using scan_keys [OF refl ok] by (metis length_map length_upt)
  have "fs_ok d'" unfolding fs_ok_def
  proof
    fix c show "\<exists>lo nx. dir_ok (files_in d' c) lo nx"
      using fok pruned_ok [OF ok n] in' fs_prune_other [OF pr, of c] unfolding fs_ok_def by (cases "c = ch") auto
  qed
  moreover have "n \<le> length (fs_frames_of d ch)" using n len by (simp add: fs_frames_of_def)
  moreover have "next_seq d' ch = next_seq d ch" by (rule next_seq_ok [OF in' pruned_ok [OF ok n]])
  moreover have "frame_bytes (fs_frames_of d' ch) \<le> mb"
    using dir unfolding fr unfolding fs_frames_of_def drop_map fs_frames_bytes by (simp add: drop_map)
  moreover have "snd (snd (fs_frames_of d ch ! (n - 1))) < older \<or> mb < frame_bytes (drop (n - 1) (fs_frames_of d ch))"
    if "0 < n"
  proof -
    have "n - 1 < length (scan d ch)" using n len that by simp
    then have "snd (snd (fs_frames_of d ch ! (n - 1))) = file_time (map snd (scan d ch) ! (n - 1))"
      by (simp add: fs_frames_of_def case_prod_beta)
    moreover have "frame_bytes (drop (n - 1) (fs_frames_of d ch)) = files_bytes (drop (n - 1) (map snd (scan d ch)))"
      unfolding fs_frames_of_def drop_map fs_frames_bytes ..
    ultimately show ?thesis using dir that by simp
  qed
  ultimately show "fs_ok d' \<and> n \<le> length (fs_frames_of d ch) \<and> fs_frames_of d' ch = drop n (fs_frames_of d ch)
      \<and> next_seq d' ch = next_seq d ch \<and> frame_bytes (fs_frames_of d' ch) \<le> mb
      \<and> (0 < n \<longrightarrow> snd (snd (fs_frames_of d ch ! (n - 1))) < older
                 \<or> mb < frame_bytes (drop (n - 1) (fs_frames_of d ch)))" using fr by blast
next
  fix d ch older mb d' n ch' assume "fs_prune d ch older mb = (d', n)" "ch' \<noteq> (ch :: string)"
  from same_files [OF fs_prune_other [OF this]]
  show "fs_frames_of d' ch' = fs_frames_of d ch' \<and> next_seq d' ch' = next_seq d ch'" by (simp add: fs_frames_of_def)
next
  fix d after ch limit assume fok: "fs_ok d" and af: "after < u64_max"
  from fok obtain lo where ok: "dir_ok (files_in d ch) lo (next_seq d ch)" by (rule fs_ok_dir)
  have m: "(after + 1) mod 2 ^ 64 = after + 1" using af by (simp add: u64_max_def)
  have pos: "0 < next_seq d ch" using ok by (simp add: dir_ok_def)
  have fr: "map (\<lambda>(q, f). (q, f_bytes f)) (take limit (filter (\<lambda>(q, _). after + 1 \<le> q) (scan d ch)))
    = map (\<lambda>(q, e, _). (q, e)) (take limit (filter (\<lambda>(q, _, _). after < q) (fs_frames_of d ch)))"
    by (simp add: fs_frames_of_def filter_map take_map o_def case_prod_unfold Suc_le_eq)
  show "fs_read d ch after limit =
      \<lparr>p_frames = map (\<lambda>(q, e, _). (q, e)) (take limit (filter (\<lambda>(q, _, _). after < q) (fs_frames_of d ch))),
       p_oldest = (case fs_frames_of d ch of f # _ \<Rightarrow> fst f | [] \<Rightarrow> if next_seq d ch = 1 then 0 else next_seq d ch),
       p_latest = next_seq d ch - 1\<rparr>"
    using pos unfolding fs_read_def Let_def m fr
    by (cases "scan d ch") (auto simp: fs_frames_of_def)
qed

section \<open>The properties\<close>

text \<open>
  C27: Whatever appends and prunes either store goes through from empty, the frames
  appended to a channel are numbered 1, 2, 3 and so on, none twice and none left out, and
  what a channel retains afterwards is a contiguous run of numbers ending with the latest.
\<close>

theorem frame_numbers_never_repeat:
  assumes "length cs < u64_max" and "mem.run (\<lambda>_. None) cs = (m, qs)" and "disk.run (\<lambda>_. None) cs = (d, rs)"
  shows "map snd (filter (\<lambda>(c, _). c = ch) qs) = [1..<mem_next_of m ch]
    \<and> map fst (mem_frames_of m ch) = [mem_next_of m ch - length (mem_frames_of m ch)..<mem_next_of m ch]
    \<and> map snd (filter (\<lambda>(c, _). c = ch) rs) = [1..<next_seq d ch]
    \<and> map fst (fs_frames_of d ch) = [next_seq d ch - length (fs_frames_of d ch)..<next_seq d ch]"
  using mem.run_numbers [OF assms(2,1)] mem.contiguous [of m ch]
    disk.run_numbers [OF assms(3,1)] disk.contiguous [of d ch] by blast

theorem frame_numbers_never_repeat_witness:
  "map snd (snd (mem.run (\<lambda>_. None) [Append ''c'' ''a'' 1, Prune ''c'' 5 0, Append ''c'' ''b'' 2])) = [1, 2]"
proof -
  let ?cs = "[Append ''c'' ''a'' 1, Prune ''c'' 5 0, Append ''c'' ''b'' 2]"
  obtain m qs where r: "mem.run (\<lambda>_. None) ?cs = (m, qs)" by (meson surj_pair)
  obtain d rs where r': "disk.run (\<lambda>_. None) ?cs = (d, rs)" by (meson surj_pair)
  have n: "mem_next_of m ''c'' = 3" and f: "filter (\<lambda>(c, _). c = ''c'') qs = qs"
    using r by (auto simp: mem_append_def mem_prune_def mem_next_of_def frame_bytes_def)
  have "length ?cs < u64_max" by (simp add: u64_max_def)
  from frame_numbers_never_repeat [OF this r r', of "''c''"] r n f show ?thesis by (simp add: upt_rec)
qed

text \<open>
  C34: A client that asks for the frames after its cursor, moves the cursor to the last one
  it was given and asks again until a page is empty, with any positive page size, receives
  every frame the channel retains beyond its first cursor, once and in order; and the page's
  \<open>oldest\<close> field tells it whether frames beyond the cursor are gone. Both for the store on
  disk, in any state it reaches.
\<close>

theorem following_a_channel_misses_nothing:
  assumes "disk.run (\<lambda>_. None) cs = (d, rs)" and "length cs < u64_max"
    and "0 < limit" and "after < next_seq d ch" and "next_seq d ch \<le> u64_max"
    and "length (fs_frames_of d ch) < fuel"
  shows "disk.follow fuel d ch after limit
      = map (\<lambda>(q, e, _). (q, e)) (filter (\<lambda>(q, _, _). after < q) (fs_frames_of d ch))
    \<and> (p_oldest (fs_read d ch after limit) \<le> after + 1 \<longleftrightarrow>
      (\<forall>q. after < q \<and> q < next_seq d ch \<longrightarrow> q \<in> fst ` set (fs_frames_of d ch)))"
proof -
  have ok: "fs_ok d" using disk.run_numbers [OF assms(1,2)] by simp
  have af: "after < u64_max" using assms(4,5) by simp
  have "length (disk.retained_after d ch after) \<le> length (fs_frames_of d ch)"
    by (simp add: disk.retained_after_def)
  then have "length (disk.retained_after d ch after) < fuel" using assms(6) by simp
  from disk.follow_complete [OF ok assms(3) this af assms(5)] disk.stale_iff [OF ok af assms(4)]
  show ?thesis by (simp add: disk.retained_after_def)
qed

theorem following_a_channel_misses_nothing_witness:
  "\<exists>d. disk.follow 5 d ''c'' 0 1 = [(1, ''a'')]"
proof -
  obtain d q where ap: "fs_append (\<lambda>_. None) ''c'' ''a'' 1 = (d, q)" by (meson surj_pair)
  have run: "disk.run (\<lambda>_. None) [Append ''c'' ''a'' 1] = (d, [(''c'', q)])" using ap by simp
  have "next_seq (\<lambda>_. None) ''c'' < u64_max" using next_seq_none by (simp add: u64_max_def)
  from disk.append_ok [OF disk.empty_ok this ap] obtain t where
    fr: "fs_frames_of d ''c'' = [(1, ''a'', t)]" and nx: "next_seq d ''c'' = 2"
    using next_seq_none by (auto simp: disk.empty_frames)
  from following_a_channel_misses_nothing [OF run, of 1 0 "''c''" 5] fr nx
  show ?thesis by (auto simp: u64_max_def)
qed

lemma scan_ignores_seq:
  "foldl scan_insert m (filter (\<lambda>f. f_name f \<noteq> ''.seq'') fs) = foldl scan_insert m fs"
  by (induction fs arbitrary: m) (auto simp: scan_insert_def)

lemma scan_append_frame:
  assumes ok: "dir_ok (files_in d ch) lo nx" and lt: "nx < u64_max"
  shows "scan (fs_append_frame d ch e now) ch = scan d ch @ [(nx, \<lparr>f_name = pad20 nx, f_bytes = e, f_mtime = now\<rparr>)]"
proof -
  have "files_in (fst (fs_append d ch e now)) ch
    = filter (\<lambda>f. f_name f \<noteq> ''.seq'') (files_in (fs_append_frame d ch e now) ch)
      @ [\<lparr>f_name = ''.seq'', f_bytes = dec (next_seq d ch + 1), f_mtime = now\<rparr>]"
    by (simp add: fs_append_def fs_append_frame_def Let_def)
  then have "scan (fst (fs_append d ch e now)) ch = scan (fs_append_frame d ch e now) ch"
    unfolding scan_def by (simp add: scan_ignores_seq) (simp add: scan_insert_def)
  then show ?thesis using scan_append [OF refl ok lt, of e now] by simp
qed

text \<open>
  A crash between the two writes of an append can lose a frame that was already read.
  The frame is on disk, under the next number, and readers are given it; the cached next
  number is still the old one, so the next append takes the same number and replaces the
  frame. A reader whose cursor has passed that number is never given the new frame.
\<close>

theorem crash_in_append_reuses_number:
  assumes "fs_ok d" and "files_in d ch \<noteq> []" and "next_seq d ch < u64_max"
  shows "p_frames (fs_read (fs_append_frame d ch e1 t1) ch (next_seq d ch - 1) 1) = [(next_seq d ch, e1)]
    \<and> snd (fs_append (fs_append_frame d ch e1 t1) ch e2 t2) = next_seq d ch
    \<and> p_frames (fs_read (fst (fs_append (fs_append_frame d ch e1 t1) ch e2 t2)) ch (next_seq d ch - 1) 1)
        = [(next_seq d ch, e2)]"
proof -
  define nx where "nx = next_seq d ch"
  from assms(1) obtain lo where ok: "dir_ok (files_in d ch) lo nx" unfolding nx_def by (rule fs_ok_dir)
  have lt: "nx < u64_max" using assms(3) by (simp add: nx_def)
  let ?d1 = "fs_append_frame d ch e1 t1"
  have pos: "1 \<le> nx" and ns: "pad20 nx \<noteq> ''.seq''" using ok pad20_not_seq by (auto simp: dir_ok_def)
  have in1: "files_in ?d1 ch = files_in d ch @ [\<lparr>f_name = pad20 nx, f_bytes = e1, f_mtime = t1\<rparr>]"
    using no_next_file [OF ok] by (simp add: fs_append_frame_def nx_def filter_id_conv)
  have "read_file (files_in ?d1 ch) ''.seq'' = Some (dec nx)"
    by (rule read_seq_file) (use ok ns assms(2) in1 in \<open>auto simp: dir_ok_def\<close>)
  then have nx1: "next_seq ?d1 ch = nx" using lt by (simp add: next_seq_def parse_u64_dec)
  have same: "files_in (fst (fs_append ?d1 ch e2 t2)) ch = files_in (fst (fs_append d ch e2 t2)) ch"
    by (simp add: fs_append_def [of ?d1] fs_append_def [of d] fs_append_frame_def [of ?d1] nx1 Let_def)
       (simp add: fs_append_frame_def nx_def)
  have keys: "\<forall>x \<in> set (scan d ch). fst x < nx" using scan_spec [OF refl ok] by auto
  have top: "p_frames (fs_read d' ch (nx - 1) 1) = [(nx, f_bytes f)]" if "scan d' ch = scan d ch @ [(nx, f)]" for d' f
  proof -
    have "(nx - 1 + 1) mod 2 ^ 64 = nx" using pos lt by (simp add: u64_max_def)
    moreover have "filter (\<lambda>(q, _). nx \<le> q) (scan d ch) = []" using keys by (auto simp: filter_empty_conv)
    ultimately show ?thesis using that by (simp add: fs_read_def Let_def)
  qed
  have s2: "scan (fst (fs_append ?d1 ch e2 t2)) ch = scan d ch @ [(nx, \<lparr>f_name = pad20 nx, f_bytes = e2, f_mtime = t2\<rparr>)]"
    using same_files [OF same] scan_append [OF refl ok lt, of e2 t2] by simp
  have "snd (fs_append ?d1 ch e2 t2) = nx" by (simp add: fs_append_def nx1 Let_def)
  with top [OF scan_append_frame [OF ok lt, of e1 t1]] top [OF s2] show ?thesis by (simp add: nx_def)
qed

theorem crash_in_append_reuses_number_witness:
  "\<exists>d. p_frames (fs_read (fs_append_frame d ''c'' ''lost'' 2) ''c'' 1 1) = [(2, ''lost'')]
    \<and> snd (fs_append (fs_append_frame d ''c'' ''lost'' 2) ''c'' ''b'' 3) = 2"
proof -
  obtain d q where ap: "fs_append (\<lambda>_. None) ''c'' ''a'' 1 = (d, q)" by (meson surj_pair)
  have "next_seq (\<lambda>_. None) ''c'' < u64_max" using next_seq_none by (simp add: u64_max_def)
  from disk.append_ok [OF disk.empty_ok this ap] have ok: "fs_ok d" and nx: "next_seq d ''c'' = 2"
    using next_seq_none by (auto simp: disk.empty_frames)
  have "d = fst (fs_append (\<lambda>_. None) ''c'' ''a'' 1)" by (simp add: ap)
  then have "files_in d ''c'' \<noteq> []" by (simp add: fs_append_def Let_def)
  moreover have "next_seq d ''c'' < u64_max" by (simp add: nx u64_max_def)
  ultimately have "p_frames (fs_read (fs_append_frame d ''c'' ''lost'' 2) ''c'' 1 1) = [(2, ''lost'')]
    \<and> snd (fs_append (fs_append_frame d ''c'' ''lost'' 2) ''c'' ''b'' 3) = 2"
    using crash_in_append_reuses_number [OF ok, of "''c''" "''lost''" 2 "''b''" 3] by (simp add: nx)
  then show ?thesis by blast
qed

end
