(* ===== verification/Hub_Slots.thy ===== *)
theory Hub_Slots
  imports Text_Prims
begin

text \<open>
  The hub's short-lived stores in memory, \<^verbatim>\<open>src/hub/src/store.rs\<close>: enrollment slots, claims
  and the rate limit, with the claim route of \<^verbatim>\<open>src/hub/src/routes.rs\<close> that bounds how long
  a claim is held. Each holds one lock per call, so concurrent callers are a sequence of
  calls. A hash map is a map; a member is its public key.
\<close>

section \<open>Enrollment slots\<close>

type_synonym member_key = string

record slot =
  s_inviter :: member_key
  s_expires_at :: nat
  s_filled :: "string option"

type_synonym slots = "string \<Rightarrow> slot option"

datatype fill_result = Filled | FillUnknown | AlreadyFilled
datatype take_result = NotYet | Ready string | TakeUnknown | NotYours

definition sweep :: "slots \<Rightarrow> nat \<Rightarrow> slots" where
  "sweep m now = (\<lambda>c. case m c of Some s \<Rightarrow> if s_expires_at s > now then Some s else None | None \<Rightarrow> None)"

definition slot_open :: "slots \<Rightarrow> string \<Rightarrow> member_key \<Rightarrow> nat \<Rightarrow> nat \<Rightarrow> slots \<times> bool" where
  "slot_open m code inviter expires_at now =
     (let m1 = sweep m now in
      if m1 code \<noteq> None then (m1, False)
      else (m1(code \<mapsto> \<lparr>s_inviter = inviter, s_expires_at = expires_at, s_filled = None\<rparr>), True))"

definition slot_fill :: "slots \<Rightarrow> string \<Rightarrow> string \<Rightarrow> nat \<Rightarrow> slots \<times> fill_result" where
  "slot_fill m code body now =
     (let m1 = sweep m now in
      case m1 code of
        None \<Rightarrow> (m1, FillUnknown)
      | Some s \<Rightarrow> if s_filled s \<noteq> None then (m1, AlreadyFilled)
                  else (m1(code \<mapsto> s\<lparr>s_filled := Some body\<rparr>), Filled))"

definition slot_take :: "slots \<Rightarrow> string \<Rightarrow> member_key \<Rightarrow> nat \<Rightarrow> slots \<times> take_result" where
  "slot_take m code inviter now =
     (let m1 = sweep m now in
      case m1 code of
        None \<Rightarrow> (m1, TakeUnknown)
      | Some s \<Rightarrow> if s_inviter s \<noteq> inviter then (m1, NotYours)
                  else (case s_filled s of None \<Rightarrow> (m1, NotYet)
                                         | Some b \<Rightarrow> (m1(code := None), Ready b)))"

definition slot_cancel :: "slots \<Rightarrow> string \<Rightarrow> member_key \<Rightarrow> slots \<times> bool" where
  "slot_cancel m code inviter =
     (case m code of
        Some s \<Rightarrow> if s_inviter s = inviter then (m(code := None), True) else (m, False)
      | None \<Rightarrow> (m, False))"

text \<open>What the hub answered, in order: the trace of a store since it was created.\<close>

datatype slot_event =
    EOpen string member_key bool
  | EFill string string fill_result
  | ETake string member_key take_result
  | ECancel string member_key bool

inductive slot_run :: "slots \<Rightarrow> slot_event list \<Rightarrow> bool" where
  new: "slot_run (\<lambda>_. None) []"
| opens: "slot_run m es \<Longrightarrow> slot_open m code inviter expires now = (m', r) \<Longrightarrow>
    slot_run m' (es @ [EOpen code inviter r])"
| fills: "slot_run m es \<Longrightarrow> slot_fill m code body now = (m', r) \<Longrightarrow>
    slot_run m' (es @ [EFill code body r])"
| takes: "slot_run m es \<Longrightarrow> slot_take m code inviter now = (m', r) \<Longrightarrow>
    slot_run m' (es @ [ETake code inviter r])"
| cancels: "slot_run m es \<Longrightarrow> slot_cancel m code inviter = (m', r) \<Longrightarrow>
    slot_run m' (es @ [ECancel code inviter r])"

fun is_opened :: "string \<Rightarrow> slot_event \<Rightarrow> bool" where
  "is_opened code (EOpen c _ r) = (c = code \<and> r)"
| "is_opened code _ = False"

fun is_filled :: "string \<Rightarrow> slot_event \<Rightarrow> bool" where
  "is_filled code (EFill c _ r) = (c = code \<and> r = Filled)"
| "is_filled code _ = False"

fun is_delivered :: "string \<Rightarrow> slot_event \<Rightarrow> bool" where
  "is_delivered code (ETake c _ (Ready _)) = (c = code)"
| "is_delivered code _ = False"

definition occurs :: "('a \<Rightarrow> bool) \<Rightarrow> 'a list \<Rightarrow> nat" where
  "occurs P xs = length (filter P xs)"

lemma occurs_snoc [simp]: "occurs P (xs @ [x]) = occurs P xs + (if P x then 1 else 0)"
  by (simp add: occurs_def)

lemma occurs_Nil [simp]: "occurs P [] = 0"
  by (simp add: occurs_def)

text \<open>A slot was opened by its inviter, and filled with what it holds; each filling and each
  delivery uses up one opening.\<close>

definition slot_ok :: "slots \<Rightarrow> slot_event list \<Rightarrow> string \<Rightarrow> bool" where
  "slot_ok m es code \<longleftrightarrow>
     occurs (is_delivered code) es + (if \<exists>s b. m code = Some s \<and> s_filled s = Some b then 1 else 0)
       \<le> occurs (is_filled code) es
   \<and> occurs (is_filled code) es + (if \<exists>s. m code = Some s \<and> s_filled s = None then 1 else 0)
       \<le> occurs (is_opened code) es
   \<and> (\<forall>s. m code = Some s \<longrightarrow> EOpen code (s_inviter s) True \<in> set es
        \<and> (\<forall>b. s_filled s = Some b \<longrightarrow> EFill code b Filled \<in> set es))"

lemma slot_ok_sweep: "slot_ok m es code \<Longrightarrow> slot_ok (sweep m now) es code"
  by (auto simp: slot_ok_def sweep_def split: option.splits if_splits)

lemma slot_ok_other:
  assumes "slot_ok m es code" and "m' code = m code" and "\<not> is_delivered code e"
    and "\<not> is_filled code e" and "\<not> is_opened code e"
  shows "slot_ok m' (es @ [e]) code"
  using assms unfolding slot_ok_def by simp

lemma slot_run_ok: "slot_run m es \<Longrightarrow> slot_ok m es code"
proof (induction rule: slot_run.induct)
  case new
  show ?case by (simp add: slot_ok_def)
next
  case (opens m es c inviter expires now m' r)
  from slot_ok_sweep [OF opens.IH, of now] have ok: "slot_ok (sweep m now) es code" .
  show ?case
  proof (cases "c = code \<and> r")
    case True
    with opens(2) have "sweep m now code = None" "m' code = Some \<lparr>s_inviter = inviter, s_expires_at = expires, s_filled = None\<rparr>"
      by (auto simp: slot_open_def Let_def split: if_splits)
    with ok True show ?thesis by (simp add: slot_ok_def)
  next
    case False
    with opens(2) have "m' code = sweep m now code" by (auto simp: slot_open_def Let_def split: if_splits)
    from slot_ok_other [where m' = m', OF ok this] False show ?thesis by simp
  qed
next
  case (fills m es c body now m' r)
  from slot_ok_sweep [OF fills.IH, of now] have ok: "slot_ok (sweep m now) es code" .
  show ?case
  proof (cases "c = code \<and> r = Filled")
    case True
    with fills(2) obtain s where "sweep m now code = Some s" "s_filled s = None" "m' code = Some (s\<lparr>s_filled := Some body\<rparr>)"
      by (auto simp: slot_fill_def Let_def split: if_splits option.splits)
    with ok True show ?thesis by (auto simp: slot_ok_def)
  next
    case False
    with fills(2) have "m' code = sweep m now code"
      by (auto simp: slot_fill_def Let_def split: if_splits option.splits)
    from slot_ok_other [where m' = m', OF ok this] False show ?thesis by simp
  qed
next
  case (takes m es c inviter now m' r)
  from slot_ok_sweep [OF takes.IH, of now] have ok: "slot_ok (sweep m now) es code" .
  show ?case
  proof (cases "\<exists>b. c = code \<and> r = Ready b")
    case True
    with takes(2) obtain s b where "sweep m now code = Some s" "s_filled s = Some b" "m' code = None"
      by (auto simp: slot_take_def Let_def split: if_splits option.splits)
    with ok True show ?thesis by (auto simp: slot_ok_def)
  next
    case False
    with takes(2) have "m' code = sweep m now code"
      by (auto simp: slot_take_def Let_def split: if_splits option.splits)
    from slot_ok_other [where m' = m', OF ok this] False show ?thesis by (cases r) auto
  qed
next
  case (cancels m es c inviter m' r)
  then have "m' code = m code \<or> m' code = None"
    by (auto simp: slot_cancel_def split: option.splits if_splits)
  then show ?case
  proof
    assume "m' code = m code"
    from slot_ok_other [where m' = m', OF cancels.IH this] show ?thesis by simp
  next
    assume "m' code = None"
    with cancels.IH show ?thesis by (simp add: slot_ok_def)
  qed
qed

text \<open>
  An enrollment answer reaches the member who invited, once. Whenever a take delivers a
  body, that body was put into the slot and the slot had been opened by the same inviter;
  and over any sequence of calls a code is delivered at most as often as it was filled and
  filled at most as often as it was opened.
\<close>

theorem enrollment_delivered_once_to_inviter:
  assumes "slot_run m es"
  shows "(\<forall>m' b. slot_take m code inviter now = (m', Ready b) \<longrightarrow>
       EOpen code inviter True \<in> set es \<and> EFill code b Filled \<in> set es \<and> m' code = None)
    \<and> occurs (is_delivered code) es \<le> occurs (is_filled code) es
    \<and> occurs (is_filled code) es \<le> occurs (is_opened code) es"
proof -
  have ok: "slot_ok (sweep m now) es code" by (rule slot_ok_sweep [OF slot_run_ok [OF assms]])
  then show ?thesis
    by (auto simp: slot_take_def slot_ok_def Let_def split: option.splits if_splits)
qed

theorem enrollment_delivered_once_to_inviter_witness:
  "EOpen ''code'' ''a'' True \<in> set [EOpen ''code'' ''a'' True, EFill ''code'' ''x'' Filled]"
proof -
  let ?s = "\<lparr>s_inviter = ''a'', s_expires_at = 9, s_filled = None\<rparr>"
  have "slot_open (\<lambda>_. None) ''code'' ''a'' 9 1 = ((\<lambda>_. None)(''code'' \<mapsto> ?s), True)"
    by (simp add: slot_open_def sweep_def fun_eq_iff)
  from slot_run.opens [OF slot_run.new this]
  have "slot_run ((\<lambda>_. None)(''code'' \<mapsto> ?s)) [EOpen ''code'' ''a'' True]" by simp
  moreover have "slot_fill ((\<lambda>_. None)(''code'' \<mapsto> ?s)) ''code'' ''x'' 2
    = ((\<lambda>_. None)(''code'' \<mapsto> ?s\<lparr>s_filled := Some ''x''\<rparr>), Filled)"
    by (simp add: slot_fill_def sweep_def fun_eq_iff)
  ultimately have run: "slot_run ((\<lambda>_. None)(''code'' \<mapsto> ?s\<lparr>s_filled := Some ''x''\<rparr>))
      [EOpen ''code'' ''a'' True, EFill ''code'' ''x'' Filled]" using slot_run.fills by fastforce
  have tk: "slot_take ((\<lambda>_. None)(''code'' \<mapsto> ?s\<lparr>s_filled := Some ''x''\<rparr>)) ''code'' ''a'' 3
    = (\<lambda>_. None, Ready ''x'')"
    by (simp add: slot_take_def sweep_def fun_eq_iff)
  from enrollment_delivered_once_to_inviter [OF run, of "''code''" "''a''" 3] tk show ?thesis by blast
qed

section \<open>Claims\<close>

record claim =
  c_version :: nat
  c_holder :: member_key
  c_expires_at :: nat

type_synonym claims = "string \<Rightarrow> claim option"

datatype claim_outcome = Granted nat | Held member_key nat | Stale nat

definition CLAIM_MEMORY_SECS :: nat where
  "CLAIM_MEMORY_SECS = 24 * 60 * 60"

definition claim_retain :: "claims \<Rightarrow> nat \<Rightarrow> claims" where
  "claim_retain m now = (\<lambda>k. case m k of
     Some c \<Rightarrow> if c_expires_at c + CLAIM_MEMORY_SECS > now then Some c else None | None \<Rightarrow> None)"

definition claim_version :: "claims \<Rightarrow> string \<Rightarrow> nat \<Rightarrow> member_key \<Rightarrow> nat \<Rightarrow> nat \<Rightarrow> claims \<times> claim_outcome" where
  "claim_version m key version holder expires_at now =
     (let m1 = claim_retain m now;
          granted = (m1(key \<mapsto> \<lparr>c_version = version, c_holder = holder, c_expires_at = expires_at\<rparr>),
                     Granted expires_at) in
      case m1 key of
        Some c \<Rightarrow>
          if c_version c > version then (m1, Stale (c_version c))
          else if c_version c = version \<and> c_holder c \<noteq> holder \<and> c_expires_at c > now
          then (m1, Held (c_holder c) (c_version c))
          else granted
      | None \<Rightarrow> granted)"

text \<open>The route: the key is a 32-byte hash in hex, the time asked for is clamped.\<close>

definition MAX_CLAIM_SECS :: nat where
  "MAX_CLAIM_SECS = 600"

definition is_hexdigit :: "char \<Rightarrow> bool" where
  "is_hexdigit c \<longleftrightarrow> is_digit c \<or> (97 \<le> byte c \<and> byte c \<le> 102) \<or> (65 \<le> byte c \<and> byte c \<le> 70)"

record claim_call =
  cc_key :: string
  cc_version :: nat
  cc_ttl :: "nat option"
  cc_owner :: member_key
  cc_now :: nat

definition claim_ttl :: "nat option \<Rightarrow> nat" where
  "claim_ttl ttl = max 1 (min (case ttl of None \<Rightarrow> 120 | Some t \<Rightarrow> t) MAX_CLAIM_SECS)"

definition claim_route :: "claims \<Rightarrow> claim_call \<Rightarrow> claims \<times> claim_outcome option" where
  "claim_route m q =
     (if length (cc_key q) \<noteq> 64 \<or> \<not> list_all is_hexdigit (cc_key q) then (m, None)
      else let (m', r) = claim_version m (map lower (cc_key q)) (cc_version q) (cc_owner q)
                           (cc_now q + claim_ttl (cc_ttl q)) (cc_now q) in (m', Some r))"

fun claim_serve :: "claims \<Rightarrow> claim_call list \<Rightarrow> claims" where
  "claim_serve m [] = m"
| "claim_serve m (q # qs) = claim_serve (fst (claim_route m q)) qs"

lemma claim_ttl_bounds: "1 \<le> claim_ttl t" "claim_ttl t \<le> 600"
  by (auto simp: claim_ttl_def MAX_CLAIM_SECS_def)

text \<open>A key is taken up to a version by a member until a moment: no one else is given that
  version, or one before it, until then.\<close>

definition taken_until :: "claims \<Rightarrow> string \<Rightarrow> nat \<Rightarrow> member_key \<Rightarrow> nat \<Rightarrow> bool" where
  "taken_until m key v a e \<longleftrightarrow> (\<exists>c. m key = Some c \<and> c_expires_at c + CLAIM_MEMORY_SECS \<ge> e \<and>
     (c_version c > v \<or> (c_version c = v \<and> c_holder c = a \<and> c_expires_at c \<ge> e)))"

lemma claim_retain_taken:
  "taken_until m key v a e \<Longrightarrow> now < e \<Longrightarrow> taken_until (claim_retain m now) key v a e"
  by (auto simp: taken_until_def claim_retain_def)

lemma claim_version_taken:
  assumes "taken_until m key v a e" and "now < e" and "holder \<noteq> a" and "e \<le> expires + CLAIM_MEMORY_SECS"
  shows "taken_until (fst (claim_version m key' version holder expires now)) key v a e
    \<and> (key' = key \<and> version \<le> v \<longrightarrow> (\<forall>x. snd (claim_version m key' version holder expires now) \<noteq> Granted x))"
proof -
  from claim_retain_taken [OF assms(1,2)] obtain c where
    "claim_retain m now key = Some c" "c_expires_at c + CLAIM_MEMORY_SECS \<ge> e"
    "c_version c > v \<or> (c_version c = v \<and> c_holder c = a \<and> c_expires_at c \<ge> e)"
    by (auto simp: taken_until_def)
  then show ?thesis using assms(2-4)
    by (cases "key' = key") (auto simp: claim_version_def taken_until_def Let_def split: option.splits)
qed

lemma claim_serve_taken:
  assumes "taken_until m key v a e" and "e \<le> t0 + 600"
    and "list_all (\<lambda>q. t0 \<le> cc_now q \<and> cc_now q < e \<and> cc_owner q \<noteq> a) qs"
  shows "taken_until (claim_serve m qs) key v a e"
  using assms
proof (induction m qs rule: claim_serve.induct)
  case (2 m q qs)
  have "taken_until (fst (claim_version m (map lower (cc_key q)) (cc_version q) (cc_owner q)
      (cc_now q + claim_ttl (cc_ttl q)) (cc_now q))) key v a e"
    using claim_version_taken [OF 2(2), of "cc_now q" "cc_owner q" "cc_now q + claim_ttl (cc_ttl q)"] 2(3,4)
    by (simp add: CLAIM_MEMORY_SECS_def)
  then have "taken_until (fst (claim_route m q)) key v a e"
    using 2(2) by (simp add: claim_route_def case_prod_unfold Let_def)
  then show ?case using 2(1,3,4) by simp
qed simp

text \<open>
  C29: One member acts on a version at a time. Once a member has been granted a version of a
  key until some moment, then whatever other members claim before that moment, none of them
  is granted that version or an older one; a newer version may be granted, and then the old
  one is stale.
\<close>

theorem claim_has_one_holder:
  assumes "claim_route m q = (m1, Some (Granted e))"
    and "list_all (\<lambda>r. cc_now q \<le> cc_now r \<and> cc_now r < e \<and> cc_owner r \<noteq> cc_owner q) (rs @ [r])"
    and "map lower (cc_key r) = map lower (cc_key q)" and "cc_version r \<le> cc_version q"
  shows "\<forall>x. snd (claim_route (claim_serve m1 rs) r) \<noteq> Some (Granted x)"
proof -
  let ?k = "map lower (cc_key q)"
  have e: "e = cc_now q + claim_ttl (cc_ttl q)"
    and m1: "m1 ?k = Some \<lparr>c_version = cc_version q, c_holder = cc_owner q, c_expires_at = e\<rparr>"
    using assms(1)
    by (auto simp: claim_route_def claim_version_def Let_def split: if_splits prod.splits option.splits)
  have "taken_until m1 ?k (cc_version q) (cc_owner q) e" using m1 by (simp add: taken_until_def)
  then have taken: "taken_until (claim_serve m1 rs) ?k (cc_version q) (cc_owner q) e"
    by (rule claim_serve_taken [where ?t0.0 = "cc_now q"])
       (use e claim_ttl_bounds(2) [of "cc_ttl q"] assms(2) in simp_all)
  have "e \<le> cc_now r + claim_ttl (cc_ttl r) + CLAIM_MEMORY_SECS"
    using assms(2) e claim_ttl_bounds(2) [of "cc_ttl q"] by (simp add: CLAIM_MEMORY_SECS_def)
  with claim_version_taken [OF taken, of "cc_now r" "cc_owner r" "cc_now r + claim_ttl (cc_ttl r)" ?k "cc_version r"]
    assms(2-4) show ?thesis
    by (simp add: claim_route_def case_prod_unfold Let_def)
qed

theorem claim_has_one_holder_witness:
  "\<forall>x. snd (claim_route (fst (claim_route (\<lambda>_. None)
       \<lparr>cc_key = replicate 64 CHR ''0'', cc_version = 3, cc_ttl = None, cc_owner = ''a'', cc_now = 10\<rparr>))
       \<lparr>cc_key = replicate 64 CHR ''0'', cc_version = 3, cc_ttl = None, cc_owner = ''b'', cc_now = 20\<rparr>)
     \<noteq> Some (Granted x)"
proof -
  let ?q = "\<lparr>cc_key = replicate 64 CHR ''0'', cc_version = 3, cc_ttl = None, cc_owner = ''a'', cc_now = 10\<rparr>"
  have "list_all is_hexdigit (replicate 64 CHR ''0'')" by (simp add: list_all_iff is_hexdigit_def is_digit_def)
  then have "claim_route (\<lambda>_. None) ?q = (fst (claim_route (\<lambda>_. None) ?q), Some (Granted 130))"
    by (simp add: claim_route_def claim_version_def claim_retain_def claim_ttl_def MAX_CLAIM_SECS_def Let_def)
  from claim_has_one_holder [OF this, of "[]"
      "\<lparr>cc_key = replicate 64 CHR ''0'', cc_version = 3, cc_ttl = None, cc_owner = ''b'', cc_now = 20\<rparr>"]
  show ?thesis by simp
qed

section \<open>The rate limit\<close>

type_synonym rate_windows = "string \<Rightarrow> (nat \<times> nat) option"

definition allow :: "rate_windows \<Rightarrow> string \<Rightarrow> nat \<Rightarrow> nat \<Rightarrow> nat \<Rightarrow> rate_windows \<times> bool" where
  "allow w key max_calls window_secs now =
     (let w1 = (\<lambda>k. case w k of Some (start, n) \<Rightarrow> if now - start < window_secs * 2 then Some (start, n) else None
                             | None \<Rightarrow> None);
          (start, n) = (case w1 key of Some e \<Rightarrow> e | None \<Rightarrow> (now, 0));
          (start', n') = (if now - start \<ge> window_secs then (now, 0) else (start, n)) in
      (w1(key \<mapsto> (start', n' + 1)), n' + 1 \<le> max_calls))"

fun allow_all :: "rate_windows \<Rightarrow> string \<Rightarrow> nat \<Rightarrow> nat \<Rightarrow> nat list \<Rightarrow> nat" where
  "allow_all w key m win [] = 0"
| "allow_all w key m win (t # ts) =
     (let (w', ok) = allow w key m win t in (if ok then 1 else 0) + allow_all w' key m win ts)"

text \<open>Calls that fall into one window of a key: what is left of its allowance.\<close>

lemma allow_same_window:
  "w key = Some (start, n) \<Longrightarrow> \<forall>t \<in> set ts. t - start < win \<Longrightarrow> allow_all w key m win ts \<le> m - n"
proof (induction ts arbitrary: w n)
  case (Cons t ts)
  obtain w' ok where a: "allow w key m win t = (w', ok)" by (meson surj_pair)
  have "w' key = Some (start, n + 1)" and ok: "ok = (n + 1 \<le> m)"
    using a Cons.prems by (auto simp: allow_def Let_def)
  from Cons.IH [of w', OF this(1)] Cons.prems have "allow_all w' key m win ts \<le> m - (n + 1)" by simp
  with a ok show ?case by auto
qed simp

end
