(* ===== verification/Wire_Bytes.thy ===== *)
theory Wire_Bytes
  imports Text_Prims
begin

text \<open>
  The canonical byte encodings of \<^verbatim>\<open>src/proto/src/lib.rs\<close>: big-endian integers,
  length-prefixed bytes, the contract's domain labels, and reading a prefix off a slice.
  A byte string is a \<^typ>\<open>string\<close>, one \<^typ>\<open>char\<close> for one byte.
\<close>

type_synonym bytes = string

section \<open>Big-endian integers\<close>

fun be :: "nat \<Rightarrow> nat \<Rightarrow> bytes" where
  "be 0 n = []"
| "be (Suc k) n = be k (n div 256) @ [char_of (n mod 256)]"

definition of_be :: "bytes \<Rightarrow> nat" where
  "of_be s = foldl (\<lambda>v c. 256 * v + byte c) 0 s"

lemma length_be [simp]: "length (be k n) = k"
  by (induction k n rule: be.induct) auto

lemma of_be_snoc [simp]: "of_be (s @ [c]) = 256 * of_be s + byte c"
  by (simp add: of_be_def)

lemma of_be_Nil [simp]: "of_be [] = 0"
  by (simp add: of_be_def)

lemma of_be_be: "of_be (be k n) = n mod 256 ^ k"
proof (induction k n rule: be.induct)
  case (2 k n)
  have "n mod 256 ^ Suc k = 256 * (n div 256 mod 256 ^ k) + n mod 256"
    using mod_mult2_eq [of n 256 "256 ^ k"] by simp
  with 2 show ?case by simp
qed simp

lemma of_be_be_small: "n < 256 ^ k \<Longrightarrow> of_be (be k n) = n"
  by (simp add: of_be_be)

lemma be_of_be: "length s = k \<Longrightarrow> be k (of_be s) = s"
proof (induction s arbitrary: k rule: rev_induct)
  case (snoc c s)
  then obtain j where k: "k = Suc j" "length s = j" by (cases k) auto
  have "(256 * of_be s + byte c) div 256 = of_be s" "(256 * of_be s + byte c) mod 256 = byte c"
    using byte_less [of c] by simp_all
  with snoc k show ?case by simp
qed simp

lemma be_inj: "m < 256 ^ k \<Longrightarrow> n < 256 ^ k \<Longrightarrow> be k m = be k n \<longleftrightarrow> m = n"
  by (metis of_be_be_small)

lemma of_be_bound: "of_be s < 256 ^ length s"
proof (induction s rule: rev_induct)
  case (snoc c s)
  have "256 * of_be s + byte c < 256 * (of_be s + 1)" using byte_less [of c] by simp
  also have "\<dots> \<le> 256 * 256 ^ length s" using snoc by (intro mult_left_mono) auto
  finally show ?case by simp
qed simp

text \<open>\<open>u32\<close>, \<open>u64\<close> and \<open>i64\<close> as \<open>to_be_bytes\<close> writes and \<open>from_be_bytes\<close> reads them; \<open>as u32\<close> wraps.\<close>

definition be32 :: "nat \<Rightarrow> bytes" where
  "be32 n = be 4 n"

definition be64 :: "nat \<Rightarrow> bytes" where
  "be64 n = be 8 n"

definition be_i64 :: "int \<Rightarrow> bytes" where
  "be_i64 x = be 8 (nat (x mod 2 ^ 64))"

definition of_be_i64 :: "bytes \<Rightarrow> int" where
  "of_be_i64 s = (if of_be s < 2 ^ 63 then int (of_be s) else int (of_be s) - 2 ^ 64)"

lemma length_be_simps [simp]: "length (be32 n) = 4" "length (be64 n) = 8" "length (be_i64 x) = 8"
  by (simp_all add: be32_def be64_def be_i64_def)

lemma of_be32: "n < 2 ^ 32 \<Longrightarrow> of_be (be32 n) = n"
  unfolding be32_def by (rule of_be_be_small) simp

lemma of_be64: "n < 2 ^ 64 \<Longrightarrow> of_be (be64 n) = n"
  unfolding be64_def by (rule of_be_be_small) simp

lemma of_be_i64_be: "is_i64 x \<Longrightarrow> of_be_i64 (be_i64 x) = x"
proof -
  assume x: "is_i64 x"
  have "nat (x mod 2 ^ 64) < 256 ^ 8" by simp
  then have n: "of_be (be_i64 x) = nat (x mod 2 ^ 64)" unfolding be_i64_def by (rule of_be_be_small)
  show ?thesis
  proof (cases "0 \<le> x")
    case True
    with x have "x mod 2 ^ 64 = x" by (simp add: is_i64_def i64_max_def)
    with True x n show ?thesis by (simp add: of_be_i64_def is_i64_def i64_max_def nat_less_iff)
  next
    case False
    have "(x + 2 ^ 64) mod 2 ^ 64 = x + 2 ^ 64"
      by (rule mod_pos_pos_trivial) (use x False in \<open>simp_all add: is_i64_def i64_min_def\<close>)
    then have "x mod 2 ^ 64 = x + 2 ^ 64" by simp
    with False x n show ?thesis by (simp add: of_be_i64_def is_i64_def i64_min_def nat_less_iff)
  qed
qed

section \<open>Length-prefixed bytes and labels\<close>

definition put_bytes :: "bytes \<Rightarrow> bytes \<Rightarrow> bytes" where
  "put_bytes out b = out @ be32 (length b) @ b"

definition put_str :: "bytes \<Rightarrow> string \<Rightarrow> bytes" where
  "put_str out s = put_bytes out s"

definition CONTRACT_MAJOR :: nat where
  "CONTRACT_MAJOR = 0"

definition version_label :: "string \<Rightarrow> string" where
  "version_label operation = ''tracon/v'' @ dec CONTRACT_MAJOR @ ''/'' @ operation"

text \<open>A length-prefixed field can be read back whatever follows it.\<close>

lemma prefixed_inj:
  assumes "be32 (length a) @ a @ r = be32 (length b) @ b @ s"
    and "length a < 2 ^ 32" and "length b < 2 ^ 32"
  shows "a = b \<and> r = s"
proof -
  from assms(1) have "be32 (length a) = be32 (length b)" and rest: "a @ r = b @ s"
    by (simp_all add: append_eq_append_conv)
  then have "length a = length b" using assms(2,3) by (metis of_be32)
  with rest show ?thesis by simp
qed

section \<open>Reading\<close>

definition split_take :: "nat \<Rightarrow> bytes \<Rightarrow> (bytes \<times> bytes) option" where
  "split_take n cur = (if length cur < n then None else Some (take n cur, drop n cur))"

lemma split_take_append [simp]: "length a = n \<Longrightarrow> split_take n (a @ r) = Some (a, r)"
  by (simp add: split_take_def)

lemma split_take_Some: "split_take n cur = Some (a, r) \<longleftrightarrow> cur = a @ r \<and> length a = n"
  by (auto simp: split_take_def)

section \<open>Hexadecimal\<close>

fun hex_nibble :: "char \<Rightarrow> nat option" where
  "hex_nibble c =
     (if is_digit c then Some (byte c - 48)
      else if 97 \<le> byte c \<and> byte c \<le> 102 then Some (byte c - 87)
      else if 65 \<le> byte c \<and> byte c \<le> 70 then Some (byte c - 55)
      else None)"

fun hex_decode :: "string \<Rightarrow> bytes option" where
  "hex_decode [] = Some []"
| "hex_decode [c] = None"
| "hex_decode (c # d # s) =
     (case (hex_nibble c, hex_nibble d, hex_decode s) of
        (Some h, Some l, Some r) \<Rightarrow> Some (char_of (16 * h + l) # r)
      | _ \<Rightarrow> None)"

definition hex_digit :: "nat \<Rightarrow> char" where
  "hex_digit n = char_of (if n < 10 then 48 + n else 87 + n)"

definition hex_encode :: "bytes \<Rightarrow> string" where
  "hex_encode b = concat (map (\<lambda>c. [hex_digit (byte c div 16), hex_digit (byte c mod 16)]) b)"

lemma hex_nibble_digit [simp]: "n < 16 \<Longrightarrow> hex_nibble (hex_digit n) = Some n"
  by (auto simp: hex_digit_def is_digit_def)

lemma hex_decode_encode [simp]: "hex_decode (hex_encode b) = Some b"
proof (induction b)
  case (Cons c b)
  have "byte c div 16 < 16" using byte_less [of c] by presburger
  moreover have "16 * (byte c div 16) + byte c mod 16 = byte c" by presburger
  moreover have "hex_encode (c # b) = hex_digit (byte c div 16) # hex_digit (byte c mod 16) # hex_encode b"
    by (simp add: hex_encode_def)
  ultimately show ?case using Cons by (simp del: hex_nibble.simps)
qed (simp add: hex_encode_def)

lemma hex_digit_not_space: "n < 16 \<Longrightarrow> \<not> is_space_byte (hex_digit n)"
proof -
  assume "n < 16"
  then have "n \<in> {0, 1, 2, 3, 4, 5, 6, 7, 8, 9, 10, 11, 12, 13, 14, 15}" by (simp, presburger)
  moreover have "list_all (\<lambda>n. \<not> is_space_byte (hex_digit n)) [0, 1, 2, 3, 4, 5, 6, 7, 8, 9, 10, 11, 12, 13, 14, 15]"
    by code_simp
  ultimately show ?thesis by auto
qed

lemma trim_hex [simp]: "trim (hex_encode b) = hex_encode b"
proof (cases "b = []")
  case False
  then obtain c b' where b: "b = c # b'" by (cases b) auto
  obtain d b'' where b': "b = b'' @ [d]" using False by (metis append_butlast_last_id)
  have lt: "byte x div 16 < 16" for x :: char using byte_less [of x] by presburger
  have "hd (hex_encode b) = hex_digit (byte c div 16)" using b by (simp add: hex_encode_def)
  moreover have "last (hex_encode b) = hex_digit (byte d mod 16)" using b' by (simp add: hex_encode_def)
  ultimately show ?thesis using lt by (intro trim_id) (simp add: hex_digit_not_space)
qed (simp add: hex_encode_def trim_id)

end
