(* ===== verification/Hub_Auth.thy ===== *)
theory Hub_Auth
  imports Wire_Bytes
begin

text \<open>
  Signed requests: the canonical descriptor of \<^verbatim>\<open>src/proto/src/auth.rs\<close>, the hub's check
  of \<^verbatim>\<open>src/hub/src/auth.rs\<close> and its replay guard \<^verbatim>\<open>src/hub/src/nonce.rs\<close>. SHA-256 and
  Ed25519 are parameters: \<open>sha\<close> hashes a body, \<open>verify\<close> checks a signature over bytes
  against a public key (false where the key does not decode). A header's value is the text
  \<open>to_str\<close> gives, if any.
\<close>

section \<open>The descriptor\<close>

record auth_request =
  a_method :: string
  a_path :: string
  a_body_sha256 :: bytes
  a_timestamp :: nat

definition auth_request_new :: "(bytes \<Rightarrow> bytes) \<Rightarrow> string \<Rightarrow> string \<Rightarrow> bytes \<Rightarrow> nat \<Rightarrow> auth_request" where
  "auth_request_new sha method path body timestamp =
     \<lparr>a_method = method, a_path = path, a_body_sha256 = sha body, a_timestamp = timestamp\<rparr>"

definition signing_bytes :: "auth_request \<Rightarrow> bytes" where
  "signing_bytes r =
     put_str (put_str (version_label ''relay-auth'') (a_method r)) (a_path r)
       @ a_body_sha256 r @ be64 (a_timestamp r)"

type_synonym verifier = "bytes \<Rightarrow> bytes \<Rightarrow> bytes \<Rightarrow> bool"

definition verify_request :: "verifier \<Rightarrow> bytes \<Rightarrow> bytes \<Rightarrow> auth_request \<Rightarrow> bool" where
  "verify_request verify public_key signature request = verify public_key (signing_bytes request) signature"

section \<open>The replay guard\<close>

type_synonym nonce_store = "bytes \<Rightarrow> nat option"

definition check_and_remember :: "nonce_store \<Rightarrow> bytes \<Rightarrow> nat \<Rightarrow> nat \<Rightarrow> nonce_store \<times> bool" where
  "check_and_remember seen signature expires_at now =
     (let kept = (\<lambda>s. case seen s of Some exp \<Rightarrow> if exp > now then Some exp else None | None \<Rightarrow> None) in
      case kept signature of
        Some _ \<Rightarrow> (kept, False)
      | None \<Rightarrow> (kept(signature \<mapsto> expires_at), True))"

section \<open>The check\<close>

datatype status_code = UNAUTHORIZED | PAYLOAD_TOO_LARGE

definition hex_header :: "nat \<Rightarrow> string option \<Rightarrow> (status_code, bytes) result" where
  "hex_header n h =
     (case Option.bind h hex_decode of
        Some b \<Rightarrow> if length b = n then Ok b else Err UNAUTHORIZED
      | None \<Rightarrow> Err UNAUTHORIZED)"

record http_request =
  q_method :: string
  q_path :: string
  q_body :: bytes
  q_public_key :: "string option"
  q_timestamp :: "string option"
  q_signature :: "string option"

definition MAX_BODY :: nat where
  "MAX_BODY = 4 * 1024 * 1024 + 64 * 1024"

definition state_changing :: "string \<Rightarrow> bool" where
  "state_changing method \<longleftrightarrow> method \<noteq> ''GET'' \<and> method \<noteq> ''HEAD''"

text \<open>The owner the request is tagged with, or the status it is refused with.\<close>

definition require_auth :: "(bytes \<Rightarrow> bytes) \<Rightarrow> verifier \<Rightarrow> nat \<Rightarrow> nonce_store \<Rightarrow> nat \<Rightarrow> http_request
    \<Rightarrow> nonce_store \<times> (status_code, bytes) result" where
  "require_auth sha verify max_skew seen now req =
     (case (hex_header 32 (q_public_key req), hex_header 64 (q_signature req),
            Option.bind (q_timestamp req) parse_u64) of
        (Ok public_key, Ok signature, Some timestamp) \<Rightarrow>
          if abs_diff now timestamp > max_skew then (seen, Err UNAUTHORIZED)
          else if length (q_body req) > MAX_BODY then (seen, Err PAYLOAD_TOO_LARGE)
          else if \<not> verify_request verify public_key signature
                      (auth_request_new sha (q_method req) (q_path req) (q_body req) timestamp)
          then (seen, Err UNAUTHORIZED)
          else if state_changing (q_method req)
          then (case check_and_remember seen signature (u64_saturating_add timestamp max_skew) now of
                  (seen', new) \<Rightarrow> (seen', if new then Ok public_key else Err UNAUTHORIZED))
          else (seen, Ok public_key)
      | _ \<Rightarrow> (seen, Err UNAUTHORIZED))"


section \<open>The signature binds the request\<close>

lemma signing_bytes_split:
  "signing_bytes r = version_label ''relay-auth'' @ be32 (length (a_method r)) @ a_method r
     @ be32 (length (a_path r)) @ a_path r @ a_body_sha256 r @ be64 (a_timestamp r)"
  by (simp add: signing_bytes_def put_str_def put_bytes_def)

text \<open>
  The descriptor that is signed is unambiguous. Two requests with the same signed bytes
  have the same method, the same path and query, the same body hash and the same timestamp,
  so a signature made for one request is a signature for no other, up to a collision of the
  hash.
\<close>

theorem signing_bytes_injective:
  assumes "signing_bytes r = signing_bytes r'"
    and "list_all (\<lambda>x. length (a_method x) < 2 ^ 32 \<and> length (a_path x) < 2 ^ 32
           \<and> length (a_body_sha256 x) = 32 \<and> a_timestamp x < 2 ^ 64) [r, r']"
  shows "r = r'"
proof -
  from assms(2) have len: "length (a_method r) < 2 ^ 32" "length (a_method r') < 2 ^ 32"
    "length (a_path r) < 2 ^ 32" "length (a_path r') < 2 ^ 32"
    "length (a_body_sha256 r) = 32" "length (a_body_sha256 r') = 32"
    "a_timestamp r < 2 ^ 64" "a_timestamp r' < 2 ^ 64" by simp_all
  let ?t = "\<lambda>x. be32 (length (a_path x)) @ a_path x @ a_body_sha256 x @ be64 (a_timestamp x)"
  from assms(1) have "be32 (length (a_method r)) @ a_method r @ ?t r = be32 (length (a_method r')) @ a_method r' @ ?t r'"
    by (simp only: signing_bytes_split same_append_eq)
  from prefixed_inj [OF this len(1,2)] have m: "a_method r = a_method r'" and t: "?t r = ?t r'" by blast+
  from prefixed_inj [OF t len(3,4)] have p: "a_path r = a_path r'"
    and rest: "a_body_sha256 r @ be64 (a_timestamp r) = a_body_sha256 r' @ be64 (a_timestamp r')" by blast+
  from rest len(5,6) have h: "a_body_sha256 r = a_body_sha256 r'" and ts: "be64 (a_timestamp r) = be64 (a_timestamp r')"
    by (simp_all add: append_eq_append_conv)
  from arg_cong [OF ts, of of_be] have "a_timestamp r = a_timestamp r'" by (simp only: of_be64 len)
  with m p h show ?thesis by (intro auth_request.equality) simp_all
qed

theorem signing_bytes_injective_witness:
  "\<lparr>a_method = ''PUT'', a_path = ''/'', a_body_sha256 = replicate 32 CHR ''h'', a_timestamp = 5\<rparr>
   = auth_request_new (\<lambda>_. replicate 32 CHR ''h'') ''PUT'' ''/'' [] 5"
  by (rule signing_bytes_injective) (simp_all add: auth_request_new_def)

section \<open>Replays\<close>




lemma require_auth_Ok:
  assumes "require_auth sha verify max_skew seen now req = (seen', Ok owner)"
  obtains signature timestamp where "hex_header 32 (q_public_key req) = Ok owner"
    and "hex_header 64 (q_signature req) = Ok signature"
    and "Option.bind (q_timestamp req) parse_u64 = Some timestamp"
    and "abs_diff now timestamp \<le> max_skew"
    and "verify_request verify owner signature
           (auth_request_new sha (q_method req) (q_path req) (q_body req) timestamp)"
    and "state_changing (q_method req) \<Longrightarrow>
           check_and_remember seen signature (u64_saturating_add timestamp max_skew) now = (seen', True)"
  using assms
  by (auto simp: require_auth_def split: sum.splits option.splits prod.splits if_splits)

lemma remembered:
  "check_and_remember seen s e now = (seen', True) \<Longrightarrow> seen' s = Some e"
  by (auto simp: check_and_remember_def Let_def split: option.splits if_splits)


text \<open>A sample request: any signature is taken as valid, the hash is constant.\<close>

definition sample_req :: http_request where
  "sample_req = \<lparr>q_method = ''PUT'', q_path = ''/'', q_body = [],
     q_public_key = Some (replicate 64 CHR ''a''), q_timestamp = Some ''100'',
     q_signature = Some (replicate 128 CHR ''b'')\<rparr>"

lemma hex_decode_replicate:
  "hex_nibble c = Some h \<Longrightarrow> hex_decode (replicate (2 * n) c) = Some (replicate n (char_of (17 * h)))"
  by (induction n) simp_all

lemma sample_headers:
  "hex_header 32 (q_public_key sample_req) = Ok (replicate 32 (char_of (170 :: nat)))"
  "hex_header 64 (q_signature sample_req) = Ok (replicate 64 (char_of (187 :: nat)))"
  "Option.bind (q_timestamp sample_req) parse_u64 = Some 100"
  using hex_decode_replicate [of "CHR ''a''" 10 32] hex_decode_replicate [of "CHR ''b''" 11 64]
  by (simp_all add: sample_req_def hex_header_def is_digit_def parse_u64_def dec_value_def digit_value_def u64_max_def)

lemma sample_accepted:
  "require_auth (\<lambda>_. []) (\<lambda>_ _ _. True) 30 (\<lambda>_. None) 100 sample_req
   = (\<lambda>s. if s = replicate 64 (char_of (187 :: nat)) then Some 130 else None,
      Ok (replicate 32 (char_of (170 :: nat))))"
  unfolding require_auth_def sample_headers
  by (simp add: sample_req_def abs_diff_def verify_request_def state_changing_def check_and_remember_def
      u64_saturating_add_def u64_max_def fun_eq_iff)


text \<open>
  In that one second the guard is open. The freshness check still admits a request whose
  timestamp plus the allowed skew is the present second, but the nonce kept until that
  moment has just been dropped: a replay of an accepted state-changing request at exactly
  timestamp plus skew is accepted a second time.
\<close>

theorem replay_accepted_in_last_second:
  assumes "require_auth sha verify max_skew seen now req = (seen1, Ok owner)"
    and "state_changing (q_method req)"
    and "Option.bind (q_timestamp req) parse_u64 = Some timestamp"
    and "timestamp + max_skew \<le> u64_max"
  shows "snd (require_auth sha verify max_skew seen1 (timestamp + max_skew) req) = Ok owner"
proof -
  from assms(1) obtain signature where
    pk: "hex_header 32 (q_public_key req) = Ok owner" and sg: "hex_header 64 (q_signature req) = Ok signature"
    and ver: "verify_request verify owner signature
           (auth_request_new sha (q_method req) (q_path req) (q_body req) timestamp)"
    and rem: "check_and_remember seen signature (u64_saturating_add timestamp max_skew) now = (seen1, True)"
    using assms(2,3) by (elim require_auth_Ok) auto
  have body: "\<not> length (q_body req) > MAX_BODY"
    using assms(1) pk sg assms(3) by (auto simp: require_auth_def split: if_splits)
  have e: "u64_saturating_add timestamp max_skew = timestamp + max_skew"
    using assms(4) by (simp add: u64_saturating_add_def)
  have "seen1 signature = Some (timestamp + max_skew)" using remembered [OF rem] e by simp
  then have "snd (check_and_remember seen1 signature (timestamp + max_skew) (timestamp + max_skew)) = True"
    by (simp add: check_and_remember_def Let_def)
  with body ver assms(2) show ?thesis
    by (auto simp: require_auth_def pk sg assms(3) e abs_diff_def split: prod.splits)
qed

theorem replay_accepted_in_last_second_witness:
  "snd (require_auth (\<lambda>_. []) (\<lambda>_ _ _. True) 30
     (fst (require_auth (\<lambda>_. []) (\<lambda>_ _ _. True) 30 (\<lambda>_. None) 100 sample_req)) 130 sample_req)
   = Ok (replicate 32 (char_of (170 :: nat)))"
  using replay_accepted_in_last_second [OF sample_accepted _ sample_headers(3)]
  by (simp add: sample_accepted state_changing_def u64_max_def) (simp add: sample_req_def)

end
