(* ===== verification/Envelope.thy ===== *)
theory Envelope
  imports Wire_Bytes
begin

text \<open>
  The sealing primitives of \<^verbatim>\<open>src/proto/src/envelope.rs\<close>: a data key, a sealed body, a key
  wrapped and a body sealed to a recipient, and their byte layouts. The ciphers and the
  curve are third-party code and are the fields of the record \<open>crypto\<close>: XChaCha20-Poly1305,
  X25519 and HKDF-SHA256. Random bytes (the ephemeral secret and the nonce) are arguments.
\<close>

record crypto =
  aead_seal :: "bytes \<Rightarrow> bytes \<Rightarrow> bytes \<Rightarrow> bytes \<Rightarrow> bytes"
  aead_open :: "bytes \<Rightarrow> bytes \<Rightarrow> bytes \<Rightarrow> bytes \<Rightarrow> bytes option"
  dh :: "bytes \<Rightarrow> bytes \<Rightarrow> bytes"
  public_of :: "bytes \<Rightarrow> bytes"
  hkdf :: "bytes \<Rightarrow> bytes \<Rightarrow> bytes \<Rightarrow> bytes"

text \<open>What the documentation of the primitives promises: opening undoes sealing, a tag of
  sixteen bytes, public keys of thirty-two, and both sides compute one secret.\<close>

definition crypto_ok :: "crypto \<Rightarrow> bool" where
  "crypto_ok c \<longleftrightarrow> (\<forall>k n p a. aead_open c k n (aead_seal c k n p a) a = Some p)
     \<and> (\<forall>k n p a. length (aead_seal c k n p a) = length p + 16)
     \<and> (\<forall>s. length (public_of c s) = 32)
     \<and> (\<forall>s t. dh c s (public_of c t) = dh c t (public_of c s))"

definition NONCE_LEN :: nat where
  "NONCE_LEN = 24"

definition KEY_LEN :: nat where
  "KEY_LEN = 32"

definition TAG_LEN :: nat where
  "TAG_LEN = 16"

datatype envelope_error = Aead | Format

section \<open>Sealed bodies\<close>

record sealed =
  nonce :: bytes
  ciphertext :: bytes

definition sealed_to_bytes :: "sealed \<Rightarrow> bytes" where
  "sealed_to_bytes s = nonce s @ ciphertext s"

definition sealed_from_bytes :: "bytes \<Rightarrow> (envelope_error, sealed) result" where
  "sealed_from_bytes b =
     (if length b < NONCE_LEN + TAG_LEN then Err Format
      else Ok \<lparr>nonce = take NONCE_LEN b, ciphertext = drop NONCE_LEN b\<rparr>)"

definition key_seal :: "crypto \<Rightarrow> bytes \<Rightarrow> bytes \<Rightarrow> bytes \<Rightarrow> bytes \<Rightarrow> sealed" where
  "key_seal c key n plaintext aad = \<lparr>nonce = n, ciphertext = aead_seal c key n plaintext aad\<rparr>"

definition key_open :: "crypto \<Rightarrow> bytes \<Rightarrow> sealed \<Rightarrow> bytes \<Rightarrow> (envelope_error, bytes) result" where
  "key_open c key s aad =
     (case aead_open c key (nonce s) (ciphertext s) aad of None \<Rightarrow> Err Aead | Some p \<Rightarrow> Ok p)"

definition wf_sealed :: "sealed \<Rightarrow> bool" where
  "wf_sealed s \<longleftrightarrow> length (nonce s) = NONCE_LEN \<and> TAG_LEN \<le> length (ciphertext s)"

lemma sealed_roundtrip: "wf_sealed s \<Longrightarrow> sealed_from_bytes (sealed_to_bytes s) = Ok s"
  by (simp add: wf_sealed_def sealed_from_bytes_def sealed_to_bytes_def)

lemma wf_key_seal: "crypto_ok c \<Longrightarrow> length n = NONCE_LEN \<Longrightarrow> wf_sealed (key_seal c k n p a)"
  by (simp add: wf_sealed_def key_seal_def crypto_ok_def TAG_LEN_def)

lemma key_open_seal: "crypto_ok c \<Longrightarrow> key_open c k (key_seal c k n p a) a = Ok p"
  by (simp add: key_open_def key_seal_def crypto_ok_def)

section \<open>To a recipient\<close>

record wrapped =
  ephemeral_public :: bytes
  w_sealed :: sealed

definition ecies_bytes :: "wrapped \<Rightarrow> bytes" where
  "ecies_bytes w = ephemeral_public w @ sealed_to_bytes (w_sealed w)"

definition ecies_parse :: "bytes \<Rightarrow> (envelope_error, wrapped) result" where
  "ecies_parse b =
     (if length b < KEY_LEN then Err Format
      else bind_result (sealed_from_bytes (drop KEY_LEN b)) (\<lambda>s.
           Ok \<lparr>ephemeral_public = take KEY_LEN b, w_sealed = s\<rparr>))"

definition derive_box_key :: "crypto \<Rightarrow> bytes \<Rightarrow> bytes \<Rightarrow> bytes \<Rightarrow> string \<Rightarrow> bytes" where
  "derive_box_key c shared ephemeral recipient operation =
     hkdf c (ephemeral @ recipient) shared (version_label operation)"

definition ecies_seal :: "crypto \<Rightarrow> string \<Rightarrow> bytes \<Rightarrow> bytes \<Rightarrow> bytes \<Rightarrow> bytes \<Rightarrow> bytes \<Rightarrow> wrapped" where
  "ecies_seal c label recipient plaintext aad ephemeral_secret n =
     (let eph_public = public_of c ephemeral_secret;
          k = derive_box_key c (dh c ephemeral_secret recipient) eph_public recipient label in
      \<lparr>ephemeral_public = eph_public, w_sealed = \<lparr>nonce = n, ciphertext = aead_seal c k n plaintext aad\<rparr>\<rparr>)"

definition ecies_open :: "crypto \<Rightarrow> string \<Rightarrow> bytes \<Rightarrow> wrapped \<Rightarrow> bytes \<Rightarrow> (envelope_error, bytes) result" where
  "ecies_open c label secret w aad =
     (let k = derive_box_key c (dh c secret (ephemeral_public w)) (ephemeral_public w) (public_of c secret) label in
      case aead_open c k (nonce (w_sealed w)) (ciphertext (w_sealed w)) aad of
        None \<Rightarrow> Err Aead | Some p \<Rightarrow> Ok p)"

definition wrap_key :: "crypto \<Rightarrow> bytes \<Rightarrow> bytes \<Rightarrow> bytes \<Rightarrow> bytes \<Rightarrow> wrapped" where
  "wrap_key c recipient key ephemeral_secret n = ecies_seal c ''wrap'' recipient key [] ephemeral_secret n"

definition unwrap_key :: "crypto \<Rightarrow> bytes \<Rightarrow> wrapped \<Rightarrow> (envelope_error, bytes) result" where
  "unwrap_key c secret w =
     bind_result (ecies_open c ''wrap'' secret w []) (\<lambda>p.
     if length p = KEY_LEN then Ok p else Err Format)"

definition seal_to :: "crypto \<Rightarrow> bytes \<Rightarrow> bytes \<Rightarrow> bytes \<Rightarrow> bytes \<Rightarrow> bytes \<Rightarrow> wrapped" where
  "seal_to c recipient plaintext aad ephemeral_secret n =
     ecies_seal c ''box'' recipient plaintext aad ephemeral_secret n"

definition box_open :: "crypto \<Rightarrow> bytes \<Rightarrow> wrapped \<Rightarrow> bytes \<Rightarrow> (envelope_error, bytes) result" where
  "box_open c secret w aad = ecies_open c ''box'' secret w aad"

definition wf_wrapped :: "wrapped \<Rightarrow> bool" where
  "wf_wrapped w \<longleftrightarrow> length (ephemeral_public w) = KEY_LEN \<and> wf_sealed (w_sealed w)"

lemma ecies_roundtrip: "wf_wrapped w \<Longrightarrow> ecies_parse (ecies_bytes w) = Ok w"
  by (simp add: wf_wrapped_def ecies_parse_def ecies_bytes_def sealed_roundtrip)

lemma sealed_parse: "sealed_from_bytes b = Ok s \<Longrightarrow> wf_sealed s \<and> sealed_to_bytes s = b"
  by (auto simp: sealed_from_bytes_def wf_sealed_def sealed_to_bytes_def split: if_splits)

lemma ecies_parse_wf: "ecies_parse b = Ok w \<Longrightarrow> wf_wrapped w \<and> ecies_bytes w = b"
  by (auto simp: ecies_parse_def bind_result_eq_Ok wf_wrapped_def ecies_bytes_def
      dest!: sealed_parse split: if_splits)

lemma ecies_bytes_inj: "wf_wrapped w \<Longrightarrow> wf_wrapped v \<Longrightarrow> ecies_bytes w = ecies_bytes v \<longleftrightarrow> w = v"
  by (metis Inr_inject ecies_roundtrip)

lemma length_ecies_bytes: "wf_wrapped w \<Longrightarrow> length (ecies_bytes w) = 56 + length (ciphertext (w_sealed w))"
  by (simp add: wf_wrapped_def wf_sealed_def ecies_bytes_def sealed_to_bytes_def KEY_LEN_def NONCE_LEN_def)

lemma ecies_open_seal:
  assumes "crypto_ok c"
  shows "ecies_open c label secret (ecies_seal c label (public_of c secret) p aad eph n) aad = Ok p"
proof -
  have "dh c secret (public_of c eph) = dh c eph (public_of c secret)" using assms by (simp add: crypto_ok_def)
  then show ?thesis using assms by (simp add: ecies_open_def ecies_seal_def Let_def crypto_ok_def)
qed

lemma unwrap_wrap:
  "crypto_ok c \<Longrightarrow> length key = KEY_LEN \<Longrightarrow> unwrap_key c secret (wrap_key c (public_of c secret) key eph n) = Ok key"
  by (simp add: unwrap_key_def wrap_key_def ecies_open_seal)

lemma wf_wrap_key: "crypto_ok c \<Longrightarrow> length n = NONCE_LEN \<Longrightarrow> wf_wrapped (wrap_key c recipient key eph n)"
  by (simp add: wf_wrapped_def wf_sealed_def wrap_key_def ecies_seal_def Let_def crypto_ok_def KEY_LEN_def TAG_LEN_def)

text \<open>A concrete, insecure instance: no encryption and a tag of zeros.\<close>

definition toy_crypto :: crypto where
  "toy_crypto = \<lparr>aead_seal = (\<lambda>k n p a. p @ replicate 16 CHR 0x00),
     aead_open = (\<lambda>k n ct a. Some (take (length ct - 16) ct)),
     dh = (\<lambda>s p. []), public_of = (\<lambda>s. replicate 32 CHR 0x01), hkdf = (\<lambda>s i l. replicate 32 CHR 0x02)\<rparr>"

lemma toy_crypto_ok: "crypto_ok toy_crypto"
  by (simp add: crypto_ok_def toy_crypto_def)

end
