(* ===== verification/Keyring.thy ===== *)
theory Keyring
  imports Envelope Convergence
begin

text \<open>
  Channel keys as epochs, \<^verbatim>\<open>src/proto/src/keyring.rs\<close>: a ring's entries, its canonical
  order, merging by union, handing it on to another node, and its byte container. An epoch
  id is sixteen bytes, a wrapped key the record of \<^verbatim>\<open>src/proto/src/envelope.rs\<close>; the random
  bytes of a rotation and of a re-wrapping are arguments.
\<close>

section \<open>Rings\<close>

definition EPOCH_ID_LEN :: nat where
  "EPOCH_ID_LEN = 16"

definition GENESIS_EPOCH_ID :: bytes where
  "GENESIS_EPOCH_ID = replicate EPOCH_ID_LEN CHR 0x00"

record ring_entry =
  e_id :: bytes
  e_created_at :: int
  e_wrapped :: wrapped

type_synonym keyring = "ring_entry list"

definition is_genesis :: "ring_entry \<Rightarrow> bool" where
  "is_genesis e \<longleftrightarrow> e_id e = GENESIS_EPOCH_ID"

text \<open>The separator is outside the characters of a channel name.\<close>

definition channel_aad :: "string \<Rightarrow> bytes \<Rightarrow> bytes" where
  "channel_aad channel epoch = channel @ [CHR 0x1F] @ epoch"

definition genesis :: "crypto \<Rightarrow> bytes \<Rightarrow> bytes \<Rightarrow> bytes \<Rightarrow> bytes \<Rightarrow> keyring" where
  "genesis c recipient key ephemeral_secret n =
     [\<lparr>e_id = GENESIS_EPOCH_ID, e_created_at = 0, e_wrapped = wrap_key c recipient key ephemeral_secret n\<rparr>]"

definition entry_key :: "ring_entry \<Rightarrow> int \<times> bytes" where
  "entry_key e = (e_created_at e, e_id e)"

definition entries :: "keyring \<Rightarrow> ring_entry list" where
  "entries ring = sort_key entry_key ring"

text \<open>\<open>max_by\<close> keeps the later of two equal elements; an empty ring makes \<open>expect\<close> panic.\<close>

fun newest :: "keyring \<Rightarrow> ring_entry option" where
  "newest [] = None"
| "newest (e # es) = Some (foldl (\<lambda>m x. if entry_key m \<le> entry_key x then x else m) e es)"

definition entry_of :: "keyring \<Rightarrow> bytes \<Rightarrow> ring_entry option" where
  "entry_of ring i = find (\<lambda>e. e_id e = i) ring"

definition key_for :: "crypto \<Rightarrow> bytes \<Rightarrow> ring_entry \<Rightarrow> (envelope_error, bytes) result" where
  "key_for c secret e = unwrap_key c secret (e_wrapped e)"

definition with_epoch :: "keyring \<Rightarrow> bytes \<Rightarrow> int \<Rightarrow> wrapped \<Rightarrow> keyring" where
  "with_epoch ring i created_at w = ring @ [\<lparr>e_id = i, e_created_at = created_at, e_wrapped = w\<rparr>]"

definition rotate_ring :: "crypto \<Rightarrow> keyring \<Rightarrow> bytes \<Rightarrow> bytes \<Rightarrow> bytes \<Rightarrow> int \<Rightarrow> bytes \<Rightarrow> bytes \<Rightarrow> keyring" where
  "rotate_ring c ring recipient key i created_at ephemeral_secret n =
     with_epoch ring i created_at (wrap_key c recipient key ephemeral_secret n)"

section \<open>Merging\<close>

fun merge_step :: "keyring \<Rightarrow> ring_entry \<Rightarrow> keyring" where
  "merge_step [] e = [e]"
| "merge_step (m # ms) e =
     (if e_id m = e_id e
      then (if ecies_bytes (e_wrapped e) > ecies_bytes (e_wrapped m) then e else m) # ms
      else m # merge_step ms e)"

definition merge_rings :: "keyring \<Rightarrow> keyring \<Rightarrow> keyring" where
  "merge_rings a b = foldl merge_step [] (a @ b)"

section \<open>Handing a ring on\<close>

fun rewrap_all :: "crypto \<Rightarrow> bytes \<Rightarrow> bytes \<Rightarrow> (bytes \<times> bytes) list \<Rightarrow> ring_entry list
    \<Rightarrow> (envelope_error, keyring) result" where
  "rewrap_all c secret grantee rnd [] = Ok []"
| "rewrap_all c secret grantee rnd (e # es) =
     bind_result (unwrap_key c secret (e_wrapped e)) (\<lambda>key.
     bind_result (rewrap_all c secret grantee (tl rnd) es) (\<lambda>rest.
     Ok (e\<lparr>e_wrapped := wrap_key c grantee key (fst (hd rnd)) (snd (hd rnd))\<rparr> # rest)))"

definition wrap_for :: "crypto \<Rightarrow> keyring \<Rightarrow> bytes \<Rightarrow> bytes \<Rightarrow> (bytes \<times> bytes) list \<Rightarrow> (envelope_error, keyring) result" where
  "wrap_for c ring secret grantee rnd = rewrap_all c secret grantee rnd (entries ring)"

section \<open>The container\<close>

datatype keyring_error = RingFormat

definition ring_magic :: bytes where
  "ring_magic = ''trkr''"

definition ring_format :: char where
  "ring_format = CHR 0x01"

definition entry_bytes :: "ring_entry \<Rightarrow> bytes" where
  "entry_bytes e =
     (let w = ecies_bytes (e_wrapped e) in e_id e @ be_i64 (e_created_at e) @ be32 (length w) @ w)"

definition ring_to_bytes :: "keyring \<Rightarrow> bytes" where
  "ring_to_bytes ring =
     (let ordered = entries ring in
      ring_magic @ [ring_format] @ be32 (length ordered) @ concat (map entry_bytes ordered))"

definition ring_take :: "nat \<Rightarrow> bytes \<Rightarrow> (keyring_error, bytes \<times> bytes) result" where
  "ring_take n cur = (case split_take n cur of None \<Rightarrow> Err RingFormat | Some x \<Rightarrow> Ok x)"

definition read_entry :: "bytes \<Rightarrow> (keyring_error, ring_entry \<times> bytes) result" where
  "read_entry cur =
     bind_result (ring_take EPOCH_ID_LEN cur) (\<lambda>(i, cur).
     bind_result (ring_take 8 cur) (\<lambda>(t, cur).
     bind_result (ring_take 4 cur) (\<lambda>(n, cur).
     bind_result (ring_take (of_be n) cur) (\<lambda>(w, cur).
     case ecies_parse w of
       Err _ \<Rightarrow> Err RingFormat
     | Ok wk \<Rightarrow> Ok (\<lparr>e_id = i, e_created_at = of_be_i64 t, e_wrapped = wk\<rparr>, cur)))))"

fun read_entries :: "nat \<Rightarrow> bytes \<Rightarrow> (keyring_error, ring_entry list \<times> bytes) result" where
  "read_entries 0 cur = Ok ([], cur)"
| "read_entries (Suc k) cur =
     bind_result (read_entry cur) (\<lambda>(e, cur).
     bind_result (read_entries k cur) (\<lambda>(es, cur). Ok (e # es, cur)))"

definition ring_from_bytes :: "bytes \<Rightarrow> (keyring_error, keyring) result" where
  "ring_from_bytes b =
     (if length b < 4 \<or> take 4 b \<noteq> ring_magic then Err RingFormat
      else bind_result (ring_take 1 (drop 4 b)) (\<lambda>(f, cur).
           if f \<noteq> [ring_format] then Err RingFormat
           else bind_result (ring_take 4 cur) (\<lambda>(n, cur).
                bind_result (read_entries (of_be n) cur) (\<lambda>(es, cur).
                if cur \<noteq> [] \<or> es = [] then Err RingFormat else Ok es))))"

section \<open>The container round trip\<close>

definition wf_entry :: "ring_entry \<Rightarrow> bool" where
  "wf_entry e \<longleftrightarrow> length (e_id e) = EPOCH_ID_LEN \<and> is_i64 (e_created_at e) \<and> wf_wrapped (e_wrapped e)
     \<and> length (ecies_bytes (e_wrapped e)) < 2 ^ 32"

lemma ring_take_append [simp]: "length a = n \<Longrightarrow> ring_take n (a @ r) = Ok (a, r)"
  by (simp add: ring_take_def)

lemma ring_take_one [simp]: "ring_take (Suc 0) (c # r) = Ok ([c], r)"
  by (simp add: ring_take_def split_take_def)

lemma ring_take_Ok: "ring_take n cur = Ok (a, r) \<longleftrightarrow> cur = a @ r \<and> length a = n"
  by (auto simp: ring_take_def split_take_Some split: option.splits)

lemma parsed_Ok:
  "(case x of Err _ \<Rightarrow> Err RingFormat | Ok k \<Rightarrow> Ok (f k)) = Ok y \<longleftrightarrow> (\<exists>k. x = Ok k \<and> f k = y)"
  by (cases x) auto

lemma read_entry_bytes:
  assumes "wf_entry e" shows "read_entry (entry_bytes e @ r) = Ok (e, r)"
proof -
  let ?w = "ecies_bytes (e_wrapped e)"
  have 1: "ring_take EPOCH_ID_LEN (e_id e @ s) = Ok (e_id e, s)" for s
    using assms by (simp add: wf_entry_def)
  have 2: "of_be (be32 (length ?w)) = length ?w" using assms by (intro of_be32) (simp add: wf_entry_def)
  have 3: "of_be_i64 (be_i64 (e_created_at e)) = e_created_at e"
    using assms by (intro of_be_i64_be) (simp add: wf_entry_def)
  have 4: "ecies_parse ?w = Ok (e_wrapped e)" using assms by (intro ecies_roundtrip) (simp add: wf_entry_def)
  show ?thesis by (simp add: read_entry_def entry_bytes_def Let_def 1 2 3 4)
qed

lemma read_entries_bytes:
  "list_all wf_entry es \<Longrightarrow> read_entries (length es) (concat (map entry_bytes es) @ r) = Ok (es, r)"
  by (induction es) (simp_all add: read_entry_bytes)

lemma read_entry_Ok:
  assumes "read_entry cur = Ok (e, r)"
  shows "wf_entry e \<and> cur = entry_bytes e @ r"
proof -
  obtain i c1 t c2 n c3 w where parts: "ring_take EPOCH_ID_LEN cur = Ok (i, c1)"
    "ring_take 8 c1 = Ok (t, c2)" "ring_take 4 c2 = Ok (n, c3)" "ring_take (of_be n) c3 = Ok (w, r)"
    and w: "ecies_parse w = Ok (e_wrapped e)" and i: "e_id e = i" and t: "e_created_at e = of_be_i64 t"
    using assms unfolding read_entry_def by (auto simp: bind_result_eq_Ok parsed_Ok)
  note parts = parts [unfolded ring_take_Ok]
  have n: "be32 (length w) = n" using parts by (simp add: be32_def be_of_be)
  have lt: "of_be t < 2 ^ 64" using of_be_bound [of t] parts by simp
  have "be_i64 (of_be_i64 t) = t"
  proof (cases "of_be t < 2 ^ 63")
    case True
    then have "nat (of_be_i64 t mod 2 ^ 64) = of_be t" using lt by (simp add: of_be_i64_def)
    then show ?thesis using parts by (simp add: be_i64_def be_of_be)
  next
    case False
    have "(int (of_be t) - 2 ^ 64) mod 2 ^ 64 = int (of_be t) mod 2 ^ 64"
      by (metis minus_mod_self2)
    then have "nat (of_be_i64 t mod 2 ^ 64) = of_be t" using lt False by (simp add: of_be_i64_def)
    then show ?thesis using parts by (simp add: be_i64_def be_of_be)
  qed
  moreover have "is_i64 (of_be_i64 t)" using lt by (auto simp: is_i64_def of_be_i64_def i64_min_def i64_max_def)
  moreover have "length w < 2 ^ 32" using of_be_bound [of n] parts by simp
  ultimately show ?thesis using parts n ecies_parse_wf [OF w] i t
    by (auto simp: wf_entry_def entry_bytes_def Let_def)
qed

lemma read_entries_Ok:
  "read_entries k cur = Ok (es, r) \<Longrightarrow>
     list_all wf_entry es \<and> length es = k \<and> cur = concat (map entry_bytes es) @ r"
proof (induction k arbitrary: cur es)
  case (Suc k)
  then obtain e c1 es1 where "read_entry cur = Ok (e, c1)" "read_entries k c1 = Ok (es1, r)" "es = e # es1"
    by (auto simp: bind_result_eq_Ok)
  with Suc.IH [of c1 es1] read_entry_Ok [of cur e c1] show ?case by simp
qed simp

text \<open>
  A ring survives its container. Reading back what was written gives the entries in
  canonical order; and whatever bytes are accepted are exactly the container of the ring
  they were read as: nothing is skipped, padded or left over.
\<close>

theorem keyring_container_roundtrip:
  assumes "list_all wf_entry ring" and "ring \<noteq> []" and "length ring < 2 ^ 32"
  shows "ring_from_bytes (ring_to_bytes ring) = Ok (entries ring)
    \<and> (\<forall>b r. ring_from_bytes b = Ok r \<longrightarrow>
         b = ring_magic @ [ring_format] @ be32 (length r) @ concat (map entry_bytes r) \<and> list_all wf_entry r)"
proof -
  have len: "length (entries ring) = length ring" and wf: "list_all wf_entry (entries ring)"
    and ne: "entries ring \<noteq> []"
    using assms by (simp_all add: entries_def list_all_iff) (metis length_0_conv length_sort)
  have "of_be (be32 (length (entries ring))) = length (entries ring)" using assms(3) len by (intro of_be32) simp
  then have 1: "ring_from_bytes (ring_to_bytes ring) = Ok (entries ring)"
    using read_entries_bytes [OF wf, of "[]"] ne
    by (simp add: ring_from_bytes_def ring_to_bytes_def Let_def ring_magic_def)
  have 2: "b = ring_magic @ [ring_format] @ be32 (length r) @ concat (map entry_bytes r) \<and> list_all wf_entry r"
    if ok: "ring_from_bytes b = Ok r" for b r
  proof -
    obtain c1 n c2 where m: "take 4 b = ring_magic" "\<not> length b < 4"
      and f: "ring_take 1 (drop 4 b) = Ok ([ring_format], c1)" and n: "ring_take 4 c1 = Ok (n, c2)"
      and es: "read_entries (of_be n) c2 = Ok (r, [])"
      using ok by (auto simp: ring_from_bytes_def bind_result_eq_Ok split: if_splits)
    from read_entries_Ok [OF es] n have "n = be32 (length r)"
      by (auto simp: ring_take_Ok be32_def be_of_be)
    moreover have "b = ring_magic @ drop 4 b" using m by (metis append_take_drop_id)
    ultimately show ?thesis using f n read_entries_Ok [OF es] by (auto simp: ring_take_Ok)
  qed
  from 1 2 show ?thesis by blast
qed

definition sample_entry :: ring_entry where
  "sample_entry = \<lparr>e_id = GENESIS_EPOCH_ID, e_created_at = 0,
     e_wrapped = wrap_key toy_crypto [] (replicate 32 CHR 0x07) [] (replicate 24 CHR 0x03)\<rparr>"

lemma sample_entry_wf: "wf_entry sample_entry"
proof -
  have "wf_wrapped (e_wrapped sample_entry)"
    by (simp add: sample_entry_def wf_wrap_key toy_crypto_ok NONCE_LEN_def)
  moreover have "length (ciphertext (w_sealed (e_wrapped sample_entry))) = 48"
    by (simp add: sample_entry_def wrap_key_def ecies_seal_def toy_crypto_def Let_def)
  ultimately show ?thesis
    by (simp add: wf_entry_def length_ecies_bytes) (simp add: sample_entry_def GENESIS_EPOCH_ID_def is_i64_def i64_min_def i64_max_def)
qed

theorem keyring_container_roundtrip_witness:
  "ring_from_bytes (ring_to_bytes [sample_entry]) = Ok [sample_entry]"
  using keyring_container_roundtrip [of "[sample_entry]"] sample_entry_wf by (simp add: entries_def)

section \<open>Merging converges\<close>

definition ring_update :: "(bytes \<Rightarrow> ring_entry option) \<Rightarrow> ring_entry \<Rightarrow> (bytes \<Rightarrow> ring_entry option)" where
  "ring_update m e = (case m (e_id e) of
     None \<Rightarrow> m(e_id e \<mapsto> e)
   | Some o' \<Rightarrow> if ecies_bytes (e_wrapped e) > ecies_bytes (e_wrapped o') then m(e_id e \<mapsto> e) else m)"

text \<open>Two entries of one epoch whose wrapped keys are the same bytes are one entry.\<close>

definition same_epoch_agrees :: "ring_entry \<Rightarrow> ring_entry \<Rightarrow> bool" where
  "same_epoch_agrees a b \<longleftrightarrow> a = b \<or> e_id a \<noteq> e_id b
     \<or> ecies_bytes (e_wrapped a) \<noteq> ecies_bytes (e_wrapped b)"

lemma ring_update_at:
  "ring_update m e x = (if x = e_id e \<and> (case m x of None \<Rightarrow> True
      | Some o' \<Rightarrow> ecies_bytes (e_wrapped e) > ecies_bytes (e_wrapped o')) then Some e else m x)"
  by (auto simp: ring_update_def split: option.splits)

lemma ring_update_commute:
  assumes "same_epoch_agrees a b"
  shows "ring_update (ring_update m a) b = ring_update (ring_update m b) a"
proof (cases "a = b")
  case False
  define wa wb where "wa = ecies_bytes (e_wrapped a)" and "wb = ecies_bytes (e_wrapped b)"
  have "ring_update (ring_update m a) b x = ring_update (ring_update m b) a x" for x
  proof (cases "x = e_id a \<and> x = e_id b")
    case True
    with False assms have "wa < wb \<or> wb < wa" by (auto simp: same_epoch_agrees_def wa_def wb_def)
    then show ?thesis
      using True by (cases "m x") (auto simp: ring_update_at wa_def [symmetric] wb_def [symmetric])
  next
    case False
    then show ?thesis by (auto simp: ring_update_at)
  qed
  then show ?thesis by blast
qed simp

lemma ring_update_absorb: "ring_update (ring_update m a) a = ring_update m a"
  by (intro ext) (auto simp: ring_update_at split: option.splits)

interpretation rings: idempotent_updates ring_update same_epoch_agrees
  by unfold_locales (fact ring_update_commute, fact ring_update_absorb)

text \<open>The list a merge builds is the map the updates build, each epoch once.\<close>

lemma merge_step_ids:
  "set (map e_id (merge_step ms e)) = insert (e_id e) (set (map e_id ms))"
  "distinct (map e_id ms) \<Longrightarrow> distinct (map e_id (merge_step ms e))"
proof -
  show 1: "set (map e_id (merge_step ms e)) = insert (e_id e) (set (map e_id ms))" for ms
    by (induction ms) auto
  show "distinct (map e_id ms) \<Longrightarrow> distinct (map e_id (merge_step ms e))"
  proof (induction ms)
    case (Cons m ms)
    with 1 [of ms] show ?case by auto
  qed simp
qed

lemma entry_of_merge_step: "entry_of (merge_step ms e) = ring_update (entry_of ms) e"
proof (induction ms)
  case Nil
  show ?case by (auto simp: entry_of_def ring_update_def)
next
  case (Cons m ms)
  show ?case
  proof (cases "e_id m = e_id e")
    case True
    then show ?thesis by (intro ext) (auto simp: entry_of_def ring_update_at)
  next
    case False
    show ?thesis
    proof
      fix x
      have "entry_of (merge_step ms e) x = ring_update (entry_of ms) e x" by (simp only: Cons.IH)
      with False show "entry_of (merge_step (m # ms) e) x = ring_update (entry_of (m # ms)) e x"
        by (cases "x = e_id m") (auto simp: entry_of_def ring_update_at)
    qed
  qed
qed

lemma foldl_merge_step:
  "entry_of (foldl merge_step ms es) = foldl ring_update (entry_of ms) es
   \<and> (distinct (map e_id ms) \<longrightarrow> distinct (map e_id (foldl merge_step ms es)))"
  by (induction es arbitrary: ms) (auto simp: entry_of_merge_step merge_step_ids)

lemma entry_of_Nil [simp]: "entry_of [] = (\<lambda>_. None)"
  by (simp add: entry_of_def fun_eq_iff)

lemma merge_rings_map:
  "entry_of (merge_rings a b) = foldl ring_update (\<lambda>_. None) (a @ b)"
  "distinct (map e_id (merge_rings a b))"
  using foldl_merge_step [of "[]" "a @ b"] by (simp_all add: merge_rings_def)

lemma entry_of_distinct:
  "distinct (map e_id r) \<Longrightarrow> entry_of r x = Some e \<longleftrightarrow> e \<in> set r \<and> e_id e = x"
  by (induction r) (auto simp: entry_of_def)

lemma entries_eqI:
  assumes "distinct (map e_id r)" and "distinct (map e_id s)" and "entry_of r = entry_of s"
  shows "entries r = entries s"
proof -
  have set: "set r = set s"
    using assms entry_of_distinct by (metis subsetI subset_antisym)
  have inj: "inj_on entry_key (set r)"
    using assms(1) by (auto simp: distinct_map inj_on_def entry_key_def)
  have "mset r = mset s" using set assms(1,2) by (metis distinct_map set_eq_iff_mset_eq_distinct)
  show ?thesis unfolding entries_def
  proof (rule map_sorted_distinct_set_unique [where f = entry_key])
    show "distinct (map entry_key (sort_key entry_key r))" "distinct (map entry_key (sort_key entry_key s))"
      using assms(1,2) inj set by (auto simp: distinct_map)
  qed (use inj set in simp_all)
qed

text \<open>What the merged ring holds comes from the two rings.\<close>

lemma merge_step_subset: "set (merge_step ms e) \<subseteq> insert e (set ms)"
  by (induction ms) auto

lemma foldl_merge_subset: "set (foldl merge_step ms es) \<subseteq> set ms \<union> set es"
proof (induction es arbitrary: ms)
  case (Cons e es)
  from Cons [of "merge_step ms e"] merge_step_subset [of ms e] show ?case by auto
qed simp

lemma merge_step_new: "e_id e \<notin> e_id ` set ms \<Longrightarrow> merge_step ms e = ms @ [e]"
  by (induction ms) auto

lemma foldl_merge_distinct:
  "distinct (map e_id (ms @ es)) \<Longrightarrow> foldl merge_step ms es = ms @ es"
proof (induction es arbitrary: ms)
  case (Cons e es)
  then have "merge_step ms e = ms @ [e]" by (intro merge_step_new) auto
  with Cons.IH [of "ms @ [e]"] Cons.prems show ?case by simp
qed simp

lemma ring_map_distinct: "distinct (map e_id r) \<Longrightarrow> foldl ring_update (\<lambda>_. None) r = entry_of r"
  using foldl_merge_step [of "[]" r] foldl_merge_distinct [of "[]" r] by simp

lemma ring_perm:
  assumes "\<forall>x \<in> U. \<forall>y \<in> U. same_epoch_agrees x y" and "set es \<subseteq> U" and "mset es = mset fs"
  shows "foldl ring_update m es = foldl ring_update m fs"
  using rings.foldl_perm [OF assms(3)] assms(1,2) by (auto simp: rings.coherent_def)

text \<open>
  Merging rings is union. For rings in which two entries of one epoch with the same
  wrapped bytes are the same entry, merging in either order, in any grouping and any number
  of times gives the same ring in canonical order, with exactly the epochs of the parts.
\<close>

theorem keyring_merge_is_union:
  assumes "\<forall>x \<in> set (a @ b @ c). \<forall>y \<in> set (a @ b @ c). same_epoch_agrees x y"
  shows "entries (merge_rings a b) = entries (merge_rings b a)
    \<and> entries (merge_rings (merge_rings a b) c) = entries (merge_rings a (merge_rings b c))
    \<and> entries (merge_rings (merge_rings a b) b) = entries (merge_rings a b)
    \<and> e_id ` set (merge_rings a b) = e_id ` (set a \<union> set b)"
proof -
  let ?U = "set (a @ b @ c)" and ?f = "foldl ring_update (\<lambda>_. None)"
  note perm = ring_perm [OF assms]
  note eqI = entries_eqI [OF merge_rings_map(2) merge_rings_map(2)]
  have nested: "entry_of (merge_rings (merge_rings r s) u) = ?f (r @ s @ u)" for r s u
    by (simp add: merge_rings_map(1) ring_map_distinct [OF merge_rings_map(2)])
  have 1: "entries (merge_rings a b) = entries (merge_rings b a)"
    by (rule eqI) (simp only: merge_rings_map(1), rule perm, auto)
  have "entry_of (merge_rings a (merge_rings b c)) = ?f (merge_rings b c @ a)"
    unfolding merge_rings_map(1)
    by (rule perm) (use foldl_merge_subset [of "[]" "b @ c"] in \<open>auto simp: merge_rings_def\<close>)
  also have "\<dots> = ?f ((b @ c) @ a)"
    by (simp add: ring_map_distinct [OF merge_rings_map(2)] merge_rings_map(1))
  also have "\<dots> = ?f (a @ b @ c)" by (rule perm) auto
  finally have 2: "entries (merge_rings (merge_rings a b) c) = entries (merge_rings a (merge_rings b c))"
    by (intro eqI) (simp add: nested)
  have "?f (a @ b @ b) = ?f (a @ b)"
    by (rule rings.foldl_set) (use assms in \<open>auto simp: rings.coherent_def\<close>)
  then have 3: "entries (merge_rings (merge_rings a b) b) = entries (merge_rings a b)"
    by (intro eqI) (simp only: nested, simp only: merge_rings_map(1))
  have "set (map e_id (foldl merge_step ms es)) = set (map e_id ms) \<union> set (map e_id es)" for ms es
    by (induction es arbitrary: ms) (auto simp: merge_step_ids(1) simp del: set_map)
  from this [of "[]" "a @ b"] have 4: "e_id ` set (merge_rings a b) = e_id ` (set a \<union> set b)"
    by (simp add: merge_rings_def image_Un)
  from 1 2 3 4 show ?thesis by blast
qed

theorem keyring_merge_is_union_witness:
  "entries (merge_rings [sample_entry] [sample_entry\<lparr>e_id := ''x''\<rparr>])
   = entries (merge_rings [sample_entry\<lparr>e_id := ''x''\<rparr>] [sample_entry])"
  using keyring_merge_is_union [of "[sample_entry]" "[sample_entry\<lparr>e_id := ''x''\<rparr>]" "[]"]
  by (simp add: same_epoch_agrees_def sample_entry_def GENESIS_EPOCH_ID_def EPOCH_ID_LEN_def)

section \<open>Handing on keeps every key\<close>

lemma rewrap_all_keys:
  assumes "crypto_ok c" and "rewrap_all c secret (public_of c s') rnd es = Ok ring'"
  shows "list_all2 (\<lambda>e e'. e_id e' = e_id e \<and> e_created_at e' = e_created_at e
    \<and> is_ok (key_for c secret e) \<and> key_for c s' e' = key_for c secret e) es ring'"
  using assms(2)
proof (induction es arbitrary: rnd ring')
  case (Cons e es)
  then obtain key rest where k: "unwrap_key c secret (e_wrapped e) = Ok key"
    and r: "rewrap_all c secret (public_of c s') (tl rnd) es = Ok rest"
    and ring': "ring' = e\<lparr>e_wrapped := wrap_key c (public_of c s') key (fst (hd rnd)) (snd (hd rnd))\<rparr> # rest"
    by (auto simp: bind_result_eq_Ok)
  have "length key = KEY_LEN" using k by (auto simp: unwrap_key_def bind_result_eq_Ok split: if_splits)
  from unwrap_wrap [OF assms(1) this] Cons.IH [OF r] k show ?case by (simp add: ring' key_for_def)
qed simp

lemma rewrap_all_Ok:
  "list_all (\<lambda>e. is_ok (key_for c secret e)) es \<Longrightarrow> is_ok (rewrap_all c secret g rnd es)"
proof (induction es arbitrary: rnd)
  case (Cons e es)
  from Cons.prems obtain key where "unwrap_key c secret (e_wrapped e) = Ok key"
    by (auto simp: key_for_def is_ok_iff)
  moreover from Cons.IH [of "tl rnd"] Cons.prems obtain rest where
    "rewrap_all c secret g (tl rnd) es = Ok rest" by (auto simp: is_ok_iff)
  ultimately show ?case by simp
qed simp

text \<open>
  Handing a ring on keeps every epoch. If the owner can open every entry of its ring,
  the ring it wraps for another node has the same epochs with the same ids and times, in
  canonical order, and the other node opens each of them to the same key.
\<close>

theorem handed_on_ring_opens:
  assumes "crypto_ok c" and "list_all (\<lambda>e. is_ok (key_for c secret e)) ring"
  shows "\<exists>ring'. wrap_for c ring secret (public_of c grantee) rnd = Ok ring'
    \<and> map (\<lambda>e. (e_id e, e_created_at e)) ring' = map (\<lambda>e. (e_id e, e_created_at e)) (entries ring)
    \<and> map (key_for c grantee) ring' = map (key_for c secret) (entries ring)"
proof -
  have "list_all (\<lambda>e. is_ok (key_for c secret e)) (entries ring)" using assms(2) by (simp add: entries_def list_all_iff)
  from rewrap_all_Ok [OF this] obtain ring' where r: "rewrap_all c secret (public_of c grantee) rnd (entries ring) = Ok ring'"
    unfolding is_ok_iff by blast
  from rewrap_all_keys [OF assms(1) r] have "map (\<lambda>e. (e_id e, e_created_at e)) ring' = map (\<lambda>e. (e_id e, e_created_at e)) (entries ring)
    \<and> map (key_for c grantee) ring' = map (key_for c secret) (entries ring)"
    by (induction rule: list_all2_induct) auto
  with r show ?thesis by (auto simp: wrap_for_def)
qed

theorem handed_on_ring_opens_witness:
  "\<exists>ring'. wrap_for toy_crypto [sample_entry] [] (public_of toy_crypto []) [] = Ok ring'
    \<and> map (key_for toy_crypto []) ring' = [Ok (replicate 32 CHR 0x07)]"
proof -
  have k: "key_for toy_crypto [] sample_entry = Ok (replicate 32 CHR 0x07)"
    by (simp add: key_for_def sample_entry_def unwrap_key_def wrap_key_def ecies_open_def ecies_seal_def
        toy_crypto_def KEY_LEN_def Let_def)
  from handed_on_ring_opens [OF toy_crypto_ok, of "[]" "[sample_entry]" "[]" "[]"] k
  show ?thesis by (auto simp: entries_def)
qed

end
