(* ===== verification/Path_Text.thy ===== *)
theory Path_Text
  imports Text_Prims
begin

text \<open>
  Paths as \<open>std::path\<close> reads them on Unix, by components, with \<open>expand_home\<close> and
  \<open>repo_path_matches\<close> of \<^verbatim>\<open>src/node/src/config.rs\<close>.
\<close>

text \<open>\<open>Path::components\<close> on Unix: a leading slash is the root, empty pieces and dots inside
  are passed over, a dot in front is kept.\<close>

datatype component = RootDir | CurDir | ParentDir | Normal string

definition piece_component :: "string \<Rightarrow> component" where
  "piece_component p = (if p = ''..'' then ParentDir else Normal p)"

definition components :: "string \<Rightarrow> component list" where
  "components path =
     (let ps = split_on (CHR ''/'') path;
          rest = map piece_component (filter (\<lambda>p. p \<noteq> [] \<and> p \<noteq> ''.'') ps) in
      if path \<noteq> [] \<and> hd path = CHR ''/'' then RootDir # rest
      else if hd ps = ''.'' then CurDir # rest else rest)"

text \<open>Two paths are equal when their components are, so a path that is joined, compared and
  matched by components is its component list; \<open>home\<close> is the variable \<open>HOME\<close>.\<close>

definition expand_home :: "string option \<Rightarrow> string \<Rightarrow> component list" where
  "expand_home home path =
     (case (components path, home) of
        (Normal p # rest, Some h) \<Rightarrow> if p = ''~'' then components h @ rest else components path
      | _ \<Rightarrow> components path)"

definition repo_path_matches :: "string option \<Rightarrow> string \<Rightarrow> string \<Rightarrow> bool" where
  "repo_path_matches home conf repo =
     (let want = expand_home home conf; have' = components repo in
      if want = [] then False
      else if hd want = RootDir then have' = want
      else length want \<le> length have' \<and> drop (length have' - length want) have' = want)"

end
