(* ===== verification/Snapshot.thy ===== *)
theory Snapshot
  imports Envelope Path_Text
begin

text \<open>
  The hub's sealed snapshots, \<^verbatim>\<open>src/hub/src/snapshot/format.rs\<close>: the archive of the data
  directory, the sealed container around it, and opening both again. The data directory is
  the bytes of its two files and the trees of its two directories. Opening yields the files
  it writes, in order, beside its result: a failing archive has already written the entries
  before the failure. Reading and writing the disk is left out.
\<close>

section \<open>The archive\<close>

datatype node = File bytes | Dir "(string \<times> node) list"

record data_dir =
  d_db :: "bytes option"
  d_seed :: "bytes option"
  d_members :: "node option"
  d_frames :: "node option"

definition DB_FILE :: string where
  "DB_FILE = ''hub.db''"

definition SEED_FILE :: string where
  "SEED_FILE = ''hub-identity.seed''"

definition slashes :: "string \<Rightarrow> string" where
  "slashes s = map (\<lambda>c. if c = CHR 0x5C then CHR ''/'' else c) s"

definition archive_entry :: "string \<times> bytes \<Rightarrow> bytes" where
  "archive_entry pb = (case pb of (path, b) \<Rightarrow> be32 (length path) @ path @ be64 (length b) @ b)"

text \<open>Entries are visited by file name; \<open>rel\<close> is the path below the walked directory.\<close>

primrec walk :: "string \<Rightarrow> string \<Rightarrow> node \<Rightarrow> (string \<times> bytes) list" where
  "walk pre rel (File b) = [(pre @ ''/'' @ slashes rel, b)]"
| "walk pre rel (Dir es) =
     concat (map snd (sort_key fst (map (\<lambda>(n, w). (n, w (if rel = [] then n else rel @ ''/'' @ n)))
       (map (map_prod id (\<lambda>nd r. walk pre r nd)) es))))"

fun walk_root :: "string \<Rightarrow> node option \<Rightarrow> (string \<times> bytes) list" where
  "walk_root pre (Some (Dir es)) = walk pre [] (Dir es)"
| "walk_root pre _ = []"

definition archive_files :: "data_dir \<Rightarrow> (string \<times> bytes) list" where
  "archive_files d =
     (case d_db d of None \<Rightarrow> [] | Some b \<Rightarrow> [(DB_FILE, b)])
     @ (case d_seed d of None \<Rightarrow> [] | Some b \<Rightarrow> [(SEED_FILE, b)])
     @ walk_root ''members'' (d_members d) @ walk_root ''frames'' (d_frames d)"

definition archive :: "data_dir \<Rightarrow> bytes" where
  "archive d = concat (map archive_entry (archive_files d))"

section \<open>Sealing\<close>

definition snap_magic :: bytes where
  "snap_magic = ''TRSNAP'' @ [CHR 0x00]"

definition snap_version :: char where
  "snap_version = CHR 0x01"

definition CHUNK :: nat where
  "CHUNK = 2 ^ 20"

definition snap_aad :: "nat \<Rightarrow> bytes" where
  "snap_aad i = ''tracon/snapshot'' @ [CHR 0x00] @ be64 i"

function chunks_of :: "nat \<Rightarrow> bytes \<Rightarrow> bytes list" where
  "chunks_of n s = (if s = [] \<or> n = 0 then [] else take n s # chunks_of n (drop n s))"
  by auto
termination
  by (relation "measure (\<lambda>(n, s). length s)") auto

declare chunks_of.simps [simp del]

text \<open>\<open>nonces i\<close> is the random nonce of chunk \<open>i\<close>.\<close>

fun seal_chunks :: "crypto \<Rightarrow> bytes \<Rightarrow> (nat \<Rightarrow> bytes) \<Rightarrow> nat \<Rightarrow> bytes list \<Rightarrow> bytes" where
  "seal_chunks c key nonces i [] = be32 0"
| "seal_chunks c key nonces i (ch # chs) =
     (let s = sealed_to_bytes (key_seal c key (nonces i) ch (snap_aad i)) in
      be32 (length s) @ s @ seal_chunks c key nonces (i + 1) chs)"

definition pack_archive :: "crypto \<Rightarrow> bytes \<Rightarrow> bytes \<Rightarrow> bytes \<Rightarrow> bytes \<Rightarrow> (nat \<Rightarrow> bytes) \<Rightarrow> bytes \<Rightarrow> bytes" where
  "pack_archive c recipient key ephemeral_secret n nonces plain =
     (let w = ecies_bytes (wrap_key c recipient key ephemeral_secret n) in
      snap_magic @ [snap_version] @ be32 (length w) @ w @ seal_chunks c key nonces 0 (chunks_of CHUNK plain))"

definition pack :: "crypto \<Rightarrow> data_dir \<Rightarrow> bytes \<Rightarrow> bytes \<Rightarrow> bytes \<Rightarrow> bytes \<Rightarrow> (nat \<Rightarrow> bytes) \<Rightarrow> bytes" where
  "pack c d recipient key ephemeral_secret n nonces =
     pack_archive c recipient key ephemeral_secret n nonces (archive d)"

section \<open>Opening\<close>

datatype snap_error = UnexpectedEof | Bad string

definition read_exact :: "nat \<Rightarrow> bytes \<Rightarrow> (snap_error, bytes \<times> bytes) result" where
  "read_exact n r = (case split_take n r of None \<Rightarrow> Err UnexpectedEof | Some x \<Rightarrow> Ok x)"

definition read_u32 :: "bytes \<Rightarrow> (snap_error, nat \<times> bytes) result" where
  "read_u32 r = bind_result (read_exact 4 r) (\<lambda>(b, r). Ok (of_be b, r))"

definition read_u64 :: "bytes \<Rightarrow> (snap_error, nat \<times> bytes) result" where
  "read_u64 r = bind_result (read_exact 8 r) (\<lambda>(b, r). Ok (of_be b, r))"

lemma read_exact_Ok: "read_exact n r = Ok (a, s) \<longleftrightarrow> r = a @ s \<and> length a = n"
  by (auto simp: read_exact_def split_take_Some split: option.splits)

lemma read_u32_Ok: "read_u32 r = Ok (n, s) \<longleftrightarrow> (\<exists>a. r = a @ s \<and> length a = 4 \<and> n = of_be a)"
  by (auto simp: read_u32_def bind_result_eq_Ok read_exact_Ok)

lemma read_u64_Ok: "read_u64 r = Ok (n, s) \<longleftrightarrow> (\<exists>a. r = a @ s \<and> length a = 8 \<and> n = of_be a)"
  by (auto simp: read_u64_def bind_result_eq_Ok read_exact_Ok)

definition map_err :: "'f \<Rightarrow> ('e, 'a) result \<Rightarrow> ('f, 'a) result" where
  "map_err f r = (case r of Err _ \<Rightarrow> Err f | Ok x \<Rightarrow> Ok x)"

lemma map_err_Ok [simp]: "map_err f r = Ok x \<longleftrightarrow> r = Ok x"
  by (cases r) (auto simp: map_err_def)

text \<open>The plaintext of the chunks, and what follows the terminator.\<close>

function open_chunks :: "crypto \<Rightarrow> bytes \<Rightarrow> nat \<Rightarrow> bytes \<Rightarrow> (snap_error, bytes \<times> bytes) result" where
  "open_chunks c key i r =
     (case read_u32 r of
        Err e \<Rightarrow> Err e
      | Ok (len, r1) \<Rightarrow>
          if len = 0 then Ok ([], r1)
          else (case read_exact len r1 of
              Err e \<Rightarrow> Err e
            | Ok (b, r2) \<Rightarrow>
                bind_result (map_err (Bad ''malformed chunk'') (sealed_from_bytes b)) (\<lambda>s.
                bind_result (map_err (Bad ''a chunk failed to authenticate'') (key_open c key s (snap_aad i))) (\<lambda>p.
                bind_result (open_chunks c key (i + 1) r2) (\<lambda>(ps, rest). Ok (p @ ps, rest))))))"
  by auto
termination
  by (relation "measure (\<lambda>(c, key, i, r). length r)") (auto simp: read_u32_Ok read_exact_Ok)

declare open_chunks.simps [simp del]

text \<open>The container: its plaintext and the bytes after it, which are not looked at.\<close>

definition open_container :: "crypto \<Rightarrow> bytes \<Rightarrow> bytes \<Rightarrow> (snap_error, bytes \<times> bytes) result" where
  "open_container c secret b =
     bind_result (read_exact 7 b) (\<lambda>(magic, r).
     if magic \<noteq> snap_magic then Err (Bad ''not a tracon snapshot'')
     else bind_result (read_exact 1 r) (\<lambda>(v, r).
     if v \<noteq> [snap_version] then Err (Bad ''unknown snapshot version'')
     else bind_result (read_u32 r) (\<lambda>(wlen, r).
     bind_result (read_exact wlen r) (\<lambda>(w, r).
     bind_result (map_err (Bad ''malformed wrapped key'') (ecies_parse w)) (\<lambda>wk.
     bind_result (map_err (Bad ''this restore key does not open the snapshot'') (unwrap_key c secret wk)) (\<lambda>key.
     open_chunks c key 0 r))))))"

fun is_normal :: "component \<Rightarrow> bool" where
  "is_normal (Normal _) = True"
| "is_normal _ = False"

definition safe_path :: "string \<Rightarrow> bool" where
  "safe_path path \<longleftrightarrow> list_all is_normal (components path)"

text \<open>One entry read off the archive.\<close>

definition read_archive_entry :: "bytes \<Rightarrow> (snap_error, (string \<times> bytes) \<times> bytes) result" where
  "read_archive_entry r =
     bind_result (read_u32 r) (\<lambda>(plen, r).
     bind_result (read_exact plen r) (\<lambda>(path, r).
     if \<not> utf8_valid path then Err (Bad ''path is not utf-8'')
     else bind_result (read_u64 r) (\<lambda>(blen, r).
     bind_result (read_exact blen r) (\<lambda>(b, r).
     if \<not> safe_path path then Err (Bad (''refusing path '' @ path))
     else Ok ((path, b), r)))))"

lemma read_archive_entry_shorter:
  "read_archive_entry r = Ok (pb, s) \<Longrightarrow> length s < length r"
  by (auto simp: read_archive_entry_def bind_result_eq_Ok read_u32_Ok read_u64_Ok read_exact_Ok split: if_splits)

text \<open>The files written, and the error that stopped it, if any.\<close>

function unarchive :: "bytes \<Rightarrow> (string \<times> bytes) list \<times> snap_error option" where
  "unarchive r =
     (if r = [] then ([], None)
      else (case read_archive_entry r of
          Err e \<Rightarrow> ([], Some e)
        | Ok (pb, s) \<Rightarrow> (let (written, e) = unarchive s in (pb # written, e))))"
  by auto
termination
  by (relation "measure length") (auto simp: read_archive_entry_shorter)

declare unarchive.simps [simp del]

definition unpack :: "crypto \<Rightarrow> bytes \<Rightarrow> bytes \<Rightarrow> (string \<times> bytes) list \<times> snap_error option" where
  "unpack c secret b =
     (case open_container c secret b of Err e \<Rightarrow> ([], Some e) | Ok (plain, _) \<Rightarrow> unarchive plain)"

section \<open>The round trip\<close>

lemma read_exact_append: "length a = n \<Longrightarrow> read_exact n (a @ r) = Ok (a, r)"
  by (simp add: read_exact_Ok)

lemma read_u32_be32: "n < 2 ^ 32 \<Longrightarrow> read_u32 (be32 n @ r) = Ok (n, r)"
  by (auto simp: read_u32_Ok of_be32 intro: exI [of _ "be32 n"])

lemma read_u64_be64: "n < 2 ^ 64 \<Longrightarrow> read_u64 (be64 n @ r) = Ok (n, r)"
  by (auto simp: read_u64_Ok of_be64 intro: exI [of _ "be64 n"])

lemma concat_chunks: "0 < n \<Longrightarrow> concat (chunks_of n s) = s"
proof (induction n s rule: chunks_of.induct)
  case (1 n s)
  show ?case
  proof (cases "s = []")
    case True
    then show ?thesis by (simp add: chunks_of.simps)
  next
    case False
    with 1 show ?thesis by (subst chunks_of.simps) simp
  qed
qed

lemma chunks_short: "ch \<in> set (chunks_of n s) \<Longrightarrow> length ch \<le> n"
proof (induction n s rule: chunks_of.induct)
  case (1 n s)
  show ?case
  proof (cases "s = [] \<or> n = 0")
    case True
    with 1(2) show ?thesis by (simp add: chunks_of.simps)
  next
    case False
    with 1(2) have "ch = take n s \<or> ch \<in> set (chunks_of n (drop n s))" by (subst (asm) chunks_of.simps) simp
    with 1(1) [OF False] show ?thesis by auto
  qed
qed

lemma open_seal_chunks:
  assumes "crypto_ok c" and "\<forall>i. length (nonces i) = NONCE_LEN"
  shows "\<forall>ch \<in> set chs. length ch \<le> CHUNK \<Longrightarrow>
    open_chunks c key i (seal_chunks c key nonces i chs @ r) = Ok (concat chs, r)"
proof (induction chs arbitrary: i)
  case Nil
  show ?case by (subst open_chunks.simps) (simp add: read_u32_be32)
next
  case (Cons ch chs)
  let ?s = "key_seal c key (nonces i) ch (snap_aad i)"
  let ?b = "sealed_to_bytes ?s"
  have wf: "wf_sealed ?s" using assms by (intro wf_key_seal) auto
  have len: "length ?b = 24 + length ch + 16"
    using assms by (simp add: sealed_to_bytes_def key_seal_def crypto_ok_def NONCE_LEN_def)
  then have "length ?b < 2 ^ 32" using Cons.prems by (simp add: CHUNK_def)
  then have u: "read_u32 (be32 (length ?b) @ x) = Ok (length ?b, x)" for x by (rule read_u32_be32)
  have "length ?b \<noteq> 0" using len by simp
  then show ?case using Cons sealed_roundtrip [OF wf] key_open_seal [OF assms(1)]
    by (subst open_chunks.simps) (simp add: Let_def u read_exact_append map_err_def)
qed

lemma open_pack_archive:
  assumes "crypto_ok c" and "\<forall>i. length (nonces i) = NONCE_LEN" and "length n = NONCE_LEN" and "length key = KEY_LEN"
  shows "open_container c secret (pack_archive c (public_of c secret) key eph n nonces plain @ r) = Ok (plain, r)"
proof -
  let ?w = "wrap_key c (public_of c secret) key eph n"
  have wf: "wf_wrapped ?w" by (rule wf_wrap_key [OF assms(1,3)])
  have "length (ciphertext (w_sealed ?w)) = 48"
    using assms by (simp add: wrap_key_def ecies_seal_def Let_def crypto_ok_def KEY_LEN_def)
  then have "length (ecies_bytes ?w) = 104" using length_ecies_bytes [OF wf] by simp
  then have u: "read_u32 (be32 (length (ecies_bytes ?w)) @ x) = Ok (length (ecies_bytes ?w), x)" for x
    by (intro read_u32_be32) simp
  have ch: "open_chunks c key 0 (seal_chunks c key nonces 0 (chunks_of CHUNK plain) @ r) = Ok (plain, r)"
    using open_seal_chunks [OF assms(1,2), of "chunks_of CHUNK plain" key 0 r] chunks_short
      concat_chunks [of CHUNK plain] by (auto simp: CHUNK_def)
  have m: "read_exact 7 (snap_magic @ x) = Ok (snap_magic, x)" for x
    by (rule read_exact_append) (simp add: snap_magic_def)
  have v: "read_exact (Suc 0) (snap_version # x) = Ok ([snap_version], x)" for x
    by (simp add: read_exact_def split_take_def)
  show ?thesis using ecies_roundtrip [OF wf] unwrap_wrap [OF assms(1,4)]
    by (simp add: open_container_def pack_archive_def Let_def m v u read_exact_append map_err_def ch)
qed

definition storable :: "string \<times> bytes \<Rightarrow> bool" where
  "storable pb \<longleftrightarrow> utf8_valid (fst pb) \<and> safe_path (fst pb) \<and> length (fst pb) < 2 ^ 32 \<and> length (snd pb) < 2 ^ 64"

lemma read_archive_entry_append:
  "storable pb \<Longrightarrow> read_archive_entry (archive_entry pb @ r) = Ok (pb, r)"
  by (cases pb) (simp add: storable_def read_archive_entry_def archive_entry_def read_u32_be32 read_u64_be64 read_exact_append)

lemma unarchive_entries: "list_all storable fs \<Longrightarrow> unarchive (concat (map archive_entry fs)) = (fs, None)"
proof (induction fs)
  case Nil
  show ?case by (subst unarchive.simps) simp
next
  case (Cons f fs)
  let ?r = "concat (map archive_entry fs)"
  have "be32 n \<noteq> []" for n using length_be_simps(1) [of n] by (metis list.size(3) zero_neq_numeral)
  then have ne: "archive_entry f @ ?r \<noteq> []" by (cases f) (simp add: archive_entry_def)
  have e: "read_archive_entry (archive_entry f @ ?r) = Ok (f, ?r)"
    using Cons.prems by (intro read_archive_entry_append) simp
  have "unarchive (archive_entry f @ ?r) = (f # fs, None)"
    using Cons by (subst unarchive.simps) (simp add: ne e del: append_is_Nil_conv)
  then show ?case by simp
qed

section \<open>Reading is stable under more bytes\<close>

lemma read_exact_more: "read_exact n r = Ok (a, s) \<Longrightarrow> read_exact n (r @ x) = Ok (a, s @ x)"
  by (simp add: read_exact_Ok)

lemma read_u32_more: "read_u32 r = Ok (n, s) \<Longrightarrow> read_u32 (r @ x) = Ok (n, s @ x)"
  by (auto simp: read_u32_Ok)

lemma open_chunks_end: "read_u32 r = Ok (0, s) \<Longrightarrow> open_chunks c key i r = Ok ([], s)"
  by (subst open_chunks.simps) simp

lemma open_chunks_step:
  assumes "read_u32 r = Ok (len, r1)" and "len \<noteq> 0"
  shows "open_chunks c key i r = Ok (p, s) \<longleftrightarrow>
    (\<exists>b r2 sl pl ps. read_exact len r1 = Ok (b, r2) \<and> sealed_from_bytes b = Ok sl
      \<and> key_open c key sl (snap_aad i) = Ok pl \<and> open_chunks c key (i + 1) r2 = Ok (ps, s) \<and> p = pl @ ps)"
proof (cases "read_exact len r1")
  case (Inl e)
  with assms show ?thesis by (simp add: open_chunks.simps [of c key i r])
next
  case (Inr x)
  obtain b r2 where x: "x = (b, r2)" by (cases x)
  from assms show ?thesis unfolding Inr x
    by (subst open_chunks.simps) (simp add: Inr x bind_result_eq_Ok eq_commute [of p])
qed

lemma open_chunks_more:
  "open_chunks c key i r = Ok (p, s) \<Longrightarrow> open_chunks c key i (r @ x) = Ok (p, s @ x)"
proof (induction c key i r arbitrary: p rule: open_chunks.induct)
  case (1 c key i r)
  have "\<exists>y. read_u32 r = Ok y"
    using 1(2) by (cases "read_u32 r") (simp_all add: open_chunks.simps [of c key i r])
  then obtain len r1 where u: "read_u32 r = Ok (len, r1)" by auto
  note u' = read_u32_more [OF u, of x]
  show ?case
  proof (cases "len = 0")
    case True
    with u u' 1(2) show ?thesis by (simp add: open_chunks_end)
  next
    case False
    from 1(2) obtain b r2 sl pl ps where e: "read_exact len r1 = Ok (b, r2)"
      and sl: "sealed_from_bytes b = Ok sl" and pl: "key_open c key sl (snap_aad i) = Ok pl"
      and rec: "open_chunks c key (i + 1) r2 = Ok (ps, s)" and p: "p = pl @ ps"
      unfolding open_chunks_step [OF u False] by blast
    have "open_chunks c key (i + 1) (r2 @ x) = Ok (ps, s @ x)"
      by (rule 1(1) [OF u refl False e refl rec])
    with read_exact_more [OF e, of x] sl pl p show ?thesis
      unfolding open_chunks_step [OF u' False] by blast
  qed
qed

lemma open_container_more:
  assumes "open_container c secret b = Ok (p, s)"
  shows "open_container c secret (b @ x) = Ok (p, s @ x)"
proof -
  from assms obtain r1 r2 n r3 w r4 wk key where
    1: "read_exact 7 b = Ok (snap_magic, r1)" and 2: "read_exact 1 r1 = Ok ([snap_version], r2)"
    and 3: "read_u32 r2 = Ok (n, r3)" and 4: "read_exact n r3 = Ok (w, r4)"
    and 5: "ecies_parse w = Ok wk" and 6: "unwrap_key c secret wk = Ok key"
    and 7: "open_chunks c key 0 r4 = Ok (p, s)"
    by (auto simp: open_container_def bind_result_eq_Ok split: if_splits)
  show ?thesis
    using 5 6 read_exact_more [OF 1, of x] read_exact_more [OF 2, of x] read_u32_more [OF 3, of x]
      read_exact_more [OF 4, of x] open_chunks_more [OF 7, of x]
    by (simp add: open_container_def map_err_def)
qed

section \<open>The properties\<close>

text \<open>
  C28: A snapshot restores what was archived, and a truncated one restores nothing. Opening a
  packed data directory with the matching restore key writes exactly the archived files, in
  order and without error; opening any proper prefix of the snapshot fails before a single
  file is written.
\<close>

theorem snapshot_restores_or_refuses:
  assumes "crypto_ok c" and "\<forall>i. length (nonces i) = NONCE_LEN" and "length n = NONCE_LEN"
    and "length key = KEY_LEN" and "list_all storable (archive_files d)"
  shows "unpack c secret (pack c d (public_of c secret) key eph n nonces) = (archive_files d, None)
    \<and> (\<forall>k < length (pack c d (public_of c secret) key eph n nonces).
         \<exists>e. unpack c secret (take k (pack c d (public_of c secret) key eph n nonces)) = ([], Some e))"
proof -
  let ?p = "pack c d (public_of c secret) key eph n nonces"
  have full: "open_container c secret ?p = Ok (archive d, [])"
    using open_pack_archive [OF assms(1-4), of secret eph "archive d" "[]"] by (simp add: pack_def)
  then have 1: "unpack c secret ?p = (archive_files d, None)"
    using unarchive_entries [OF assms(5)] by (simp add: unpack_def archive_def)
  have 2: "\<exists>e. unpack c secret (take k ?p) = ([], Some e)" if k: "k < length ?p" for k
  proof (cases "open_container c secret (take k ?p)")
    case (Inl e)
    then show ?thesis by (simp add: unpack_def)
  next
    case (Inr ps)
    obtain p s where "ps = (p, s)" by (cases ps)
    with Inr have "open_container c secret (take k ?p @ drop k ?p) = Ok (p, s @ drop k ?p)"
      using open_container_more by blast
    with full have "drop k ?p = []" by simp
    with k show ?thesis by simp
  qed
  from 1 2 show ?thesis by blast
qed

theorem snapshot_restores_or_refuses_witness:
  "unpack toy_crypto [] (pack toy_crypto
     \<lparr>d_db = Some ''data'', d_seed = None, d_members = None, d_frames = None\<rparr>
     (public_of toy_crypto []) (replicate 32 CHR 0x07) [] (replicate 24 CHR 0x03) (\<lambda>_. replicate 24 CHR 0x04))
   = ([(''hub.db'', ''data'')], None)"
proof -
  let ?d = "\<lparr>d_db = Some ''data'', d_seed = None, d_members = None, d_frames = None\<rparr>"
  have f: "archive_files ?d = [(''hub.db'', ''data'')]" by (simp add: archive_files_def DB_FILE_def)
  have "storable (''hub.db'', ''data'')"
    by (simp add: storable_def safe_path_def components_def piece_component_def)
  with snapshot_restores_or_refuses [OF toy_crypto_ok, of "\<lambda>_. replicate 24 CHR 0x04" "replicate 24 CHR 0x03"
      "replicate 32 CHR 0x07" ?d "[]" "[]"] f
  show ?thesis by (simp add: NONCE_LEN_def KEY_LEN_def)
qed

lemma unarchive_safe: "(path, b) \<in> set (fst (unarchive r)) \<Longrightarrow> safe_path path"
proof (induction r rule: unarchive.induct)
  case (1 r)
  show ?case
  proof (cases "read_archive_entry r")
    case (Inl e)
    then have "fst (unarchive r) = []" by (subst unarchive.simps) simp
    with 1(2) show ?thesis by simp
  next
    case (Inr x)
    obtain pb s where x: "x = (pb, s)" by (cases x)
    with Inr have "safe_path (fst pb)"
      by (auto simp: read_archive_entry_def bind_result_eq_Ok split: if_splits)
    moreover have ne: "r \<noteq> []" using Inr by (auto simp: read_archive_entry_def read_u32_def read_exact_def split_take_def)
    have "fst (unarchive r) = pb # fst (unarchive s)"
      using ne Inr x by (subst unarchive.simps) (simp add: case_prod_unfold Let_def)
    with 1(2) have "(path, b) = pb \<or> (path, b) \<in> set (fst (unarchive s))" by simp
    ultimately show ?thesis using 1(1) [OF ne Inr x [symmetric]] by auto
  qed
qed

lemma safe_path_pieces:
  assumes "safe_path path"
  shows "''..'' \<notin> set (split_on (CHR ''/'') path)" and "take 1 path \<noteq> ''/''"
proof -
  have norm: "is_normal x" if "x \<in> set (components path)" for x
    using assms that by (simp add: safe_path_def list_all_iff)
  show "take 1 path \<noteq> ''/''"
  proof
    assume "take 1 path = ''/''"
    then have "RootDir \<in> set (components path)" by (cases path) (simp_all add: components_def Let_def)
    from norm [OF this] show False by simp
  qed
  show "''..'' \<notin> set (split_on (CHR ''/'') path)"
  proof
    assume "''..'' \<in> set (split_on (CHR ''/'') path)"
    then have "ParentDir \<in> piece_component ` set (filter (\<lambda>p. p \<noteq> [] \<and> p \<noteq> ''.'') (split_on (CHR ''/'') path))"
      by (intro image_eqI [of _ _ "''..''"]) (simp_all add: piece_component_def)
    then have "ParentDir \<in> set (components path)" by (simp only: components_def Let_def set_map split: if_splits) simp
    from norm [OF this] show False by simp
  qed
qed

text \<open>
  C30: A snapshot cannot write outside the directory it is restored into. Whatever bytes are
  opened with whatever key, no path written starts with a slash and none has a step to a
  parent directory in it, so that joined to the directory it stays below it.
\<close>

theorem snapshot_writes_stay_inside:
  "list_all (\<lambda>(path, _). take 1 path \<noteq> ''/'' \<and> ''..'' \<notin> set (split_on (CHR ''/'') path))
     (fst (unpack c secret b))"
proof -
  have "safe_path path" if "(path, x) \<in> set (fst (unpack c secret b))" for path x
    using that unarchive_safe by (auto simp: unpack_def split: sum.splits)
  then show ?thesis using safe_path_pieces by (auto simp: list_all_iff)
qed

end
