(* ===== verification/Sni.thy ===== *)
theory Sni
  imports Wire_Bytes
begin

text \<open>
  The server name of a TLS ClientHello, \<^verbatim>\<open>src/hub/src/sandbox_relay/sni.rs\<close>, which the hub's relay
  reads off the bytes of a connection as they arrive. The lemmas show that reading ends, that
  what the hub buffers is bounded, that a name once read does not change with the bytes that
  follow, and that it is a lowercase host name.
\<close>

definition MAX_HELLO :: nat where
  "MAX_HELLO = 64 * 1024"

definition MAX_RECORD :: nat where
  "MAX_RECORD = 2 ^ 14"

datatype hello = Incomplete | Server_Name string | Refused string

definition incomplete :: "nat \<Rightarrow> hello" where
  "incomplete len =
     (if MAX_HELLO + 5 * (MAX_HELLO div MAX_RECORD + 1) < len then Refused ''ClientHello too large'' else Incomplete)"

section \<open>Reading the body\<close>

definition take_u8 :: "bytes \<Rightarrow> (nat \<times> bytes) option" where
  "take_u8 c = Option.bind (split_take 1 c) (\<lambda>(b, r). Some (of_be b, r))"

definition take_u16 :: "bytes \<Rightarrow> (nat \<times> bytes) option" where
  "take_u16 c = Option.bind (split_take 2 c) (\<lambda>(b, r). Some (of_be b, r))"

definition vec8 :: "bytes \<Rightarrow> (bytes \<times> bytes) option" where
  "vec8 c = Option.bind (take_u8 c) (\<lambda>(n, r). split_take n r)"

definition vec16 :: "bytes \<Rightarrow> (bytes \<times> bytes) option" where
  "vec16 c = Option.bind (take_u16 c) (\<lambda>(n, r). split_take n r)"

lemma take_u8_length: "take_u8 c = Some (n, r) \<Longrightarrow> length r < length c"
  by (auto simp: take_u8_def bind_eq_Some_conv split_take_Some)

lemma take_u16_length: "take_u16 c = Some (n, r) \<Longrightarrow> length r < length c"
  by (auto simp: take_u16_def bind_eq_Some_conv split_take_Some)

lemma vec16_length: "vec16 c = Some (a, r) \<Longrightarrow> length r < length c"
  by (auto simp: vec16_def bind_eq_Some_conv split_take_Some dest!: take_u16_length)

text \<open>The first host name of a name list: \<^const>\<open>None\<close> when it is cut short.\<close>

function walk_names :: "bytes \<Rightarrow> bytes option option" where
  "walk_names list =
     (if list = [] then Some None
      else
        (case take_u8 list of
           None \<Rightarrow> None
         | Some (name_type, r) \<Rightarrow>
             (case vec16 r of
                None \<Rightarrow> None
              | Some (name, r') \<Rightarrow> if name_type = 0 then Some (Some name) else walk_names r')))"
  by auto
termination
  by (relation "measure length") (auto dest!: take_u8_length vec16_length)

declare walk_names.simps [simp del]

function walk_exts :: "bytes \<Rightarrow> bytes option option" where
  "walk_exts exts =
     (if exts = [] then Some None
      else
        (case take_u16 exts of
           None \<Rightarrow> None
         | Some (kind, r) \<Rightarrow>
             (case vec16 r of
                None \<Rightarrow> None
              | Some (data, r') \<Rightarrow>
                  if kind = 0 then Option.bind (vec16 data) (\<lambda>(names, _). walk_names names)
                  else walk_exts r')))"
  by auto
termination
  by (relation "measure length") (auto dest!: take_u16_length vec16_length)

declare walk_exts.simps [simp del]

definition walk_body :: "bytes \<Rightarrow> bytes option option" where
  "walk_body body =
     Option.bind (split_take (2 + 32) body) (\<lambda>(_, c).
     Option.bind (vec8 c) (\<lambda>(_, c).
     Option.bind (vec16 c) (\<lambda>(_, c).
     Option.bind (vec8 c) (\<lambda>(_, c).
     if c = [] then Some None
     else Option.bind (vec16 c) (\<lambda>(exts, _). walk_exts exts)))))"

definition is_label :: "string \<Rightarrow> bool" where
  "is_label label \<longleftrightarrow> label \<noteq> [] \<and> length label \<le> 63 \<and> list_all (\<lambda>b. is_alnum b \<or> b = CHR ''-'') label"

definition is_host :: "string \<Rightarrow> bool" where
  "is_host s \<longleftrightarrow> s \<noteq> [] \<and> length s \<le> 253 \<and> list_all is_label (split_on (CHR ''.'') s)"

definition host_name :: "bytes \<Rightarrow> string option" where
  "host_name raw =
     (if \<not> utf8_valid raw then None
      else
        (let s = (if ends_with raw ''.'' then butlast raw else raw) in
         if is_host s then Some (lowercase s) else None))"

definition parse_body :: "bytes \<Rightarrow> hello" where
  "parse_body body =
     (case walk_body body of
        None \<Rightarrow> Refused ''malformed ClientHello''
      | Some None \<Rightarrow> Refused ''no server name''
      | Some (Some name) \<Rightarrow>
          (case host_name name of
             Some h \<Rightarrow> Server_Name h
           | None \<Rightarrow> Refused ''server name is not a host name''))"

section \<open>Reading the records\<close>

definition record_length :: "bytes \<Rightarrow> nat" where
  "record_length r = of_be (take 2 (drop 3 r))"

definition hello_length :: "bytes \<Rightarrow> nat" where
  "hello_length hs = of_be (take 3 (drop 1 hs))"

text \<open>\<open>total_len\<close> is all that was read, \<open>hs\<close> the handshake so far, \<open>r\<close> what follows it.\<close>

function read_records :: "nat \<Rightarrow> bytes \<Rightarrow> bytes \<Rightarrow> hello" where
  "read_records total_len hs r =
     (if length r < 5 then incomplete total_len
      else if byte (r ! 0) \<noteq> (22 :: nat) then Refused ''not a TLS handshake''
      else if byte (r ! 1) \<noteq> (3 :: nat) then Refused ''not a TLS record version''
      else if record_length r = 0 \<or> MAX_RECORD < record_length r then Refused ''bad record length''
      else if length r < 5 + record_length r then incomplete total_len
      else
        (let hs = hs @ take (record_length r) (drop 5 r); r' = drop (5 + record_length r) r in
         if length hs < 4 then read_records total_len hs r'
         else if byte (hs ! 0) \<noteq> (1 :: nat) then Refused ''first handshake message is not a ClientHello''
         else if MAX_HELLO < 4 + hello_length hs then Refused ''ClientHello too large''
         else if 4 + hello_length hs \<le> length hs then parse_body (take (hello_length hs) (drop 4 hs))
         else read_records total_len hs r'))"
  by auto
termination
  by (relation "measure (\<lambda>(n, hs, r). length r)") auto

declare read_records.simps [simp del]

definition server_name :: "bytes \<Rightarrow> hello" where
  "server_name buf = read_records (length buf) [] buf"

section \<open>What the relay may rely on\<close>

lemma incomplete_bound: "incomplete n = Incomplete \<Longrightarrow> n \<le> MAX_HELLO + 25"
  by (simp add: incomplete_def MAX_HELLO_def MAX_RECORD_def split: if_splits)

lemma parse_body_decides: "parse_body body \<noteq> Incomplete"
  by (auto simp: parse_body_def split: option.splits)

lemma parse_body_host: "parse_body body = Server_Name h \<Longrightarrow> \<exists>s. h = lowercase s \<and> is_host s"
  by (auto simp: parse_body_def host_name_def Let_def split: option.splits if_splits)

text \<open>Bytes after a record do not change how it reads.\<close>

lemma record_length_append: "5 \<le> length r \<Longrightarrow> record_length (r @ x) = record_length r"
  by (simp add: record_length_def)

lemma read_records_bound: "read_records n hs r = Incomplete \<Longrightarrow> n \<le> MAX_HELLO + 25"
proof (induction n hs r rule: read_records.induct)
  case (1 n hs r)
  show ?case
    using 1(3) parse_body_decides 1(1,2)
    by (subst (asm) read_records.simps) (simp add: Let_def incomplete_bound split: if_splits)
qed

definition whole_record :: "bytes \<Rightarrow> bool" where
  "whole_record r \<longleftrightarrow> \<not> length r < 5 \<and> byte (r ! 0) = (22 :: nat) \<and> byte (r ! 1) = (3 :: nat)
     \<and> \<not> (record_length r = 0 \<or> MAX_RECORD < record_length r) \<and> \<not> length r < 5 + record_length r"

definition with_fragment :: "bytes \<Rightarrow> bytes \<Rightarrow> bytes" where
  "with_fragment hs r = hs @ take (record_length r) (drop 5 r)"

definition after_record :: "bytes \<Rightarrow> hello option" where
  "after_record hs =
     (if length hs < 4 then None
      else if byte (hs ! 0) \<noteq> (1 :: nat) then Some (Refused ''first handshake message is not a ClientHello'')
      else if MAX_HELLO < 4 + hello_length hs then Some (Refused ''ClientHello too large'')
      else if 4 + hello_length hs \<le> length hs then Some (parse_body (take (hello_length hs) (drop 4 hs)))
      else None)"

lemma read_records_step:
  assumes "whole_record r"
  shows "read_records n hs r =
    (case after_record (with_fragment hs r) of
       Some h \<Rightarrow> h
     | None \<Rightarrow> read_records n (with_fragment hs r) (drop (5 + record_length r) r))"
  using assms unfolding whole_record_def
  by (subst read_records.simps) (simp add: Let_def after_record_def with_fragment_def)

lemma read_records_stop:
  assumes "\<not> whole_record r"
  shows "read_records n hs r \<noteq> Server_Name h"
proof -
  have "incomplete n \<noteq> Server_Name h" by (simp add: incomplete_def)
  with assms show ?thesis unfolding whole_record_def
    by (cases "length r < 5"; cases "byte (r ! 0) = (22 :: nat)"; cases "byte (r ! 1) = (3 :: nat)";
        cases "record_length r = 0 \<or> MAX_RECORD < record_length r"; subst read_records.simps) simp_all
qed

lemma whole_record_append:
  assumes "whole_record r"
  shows "whole_record (r @ x)" and "record_length (r @ x) = record_length r"
    and "with_fragment hs (r @ x) = with_fragment hs r"
    and "drop (5 + record_length r) (r @ x) = drop (5 + record_length r) r @ x"
proof -
  from assms have 5: "5 \<le> length r" "5 + record_length r \<le> length r" by (simp_all add: whole_record_def)
  show k: "record_length (r @ x) = record_length r" by (rule record_length_append [OF 5(1)])
  from assms 5 show "whole_record (r @ x)" by (auto simp: whole_record_def k nth_append)
  from 5 show "with_fragment hs (r @ x) = with_fragment hs r" by (simp add: with_fragment_def k)
  from 5 show "drop (5 + record_length r) (r @ x) = drop (5 + record_length r) r @ x" by simp
qed

lemma read_records_name:
  "read_records n hs r = Server_Name h \<Longrightarrow>
     (\<exists>s. h = lowercase s \<and> is_host s) \<and> read_records m hs (r @ x) = Server_Name h"
proof (induction "length r" arbitrary: hs r rule: less_induct)
  case less
  have w: "whole_record r" using less.prems read_records_stop by blast
  note more = whole_record_append [OF w, where x = x]
  let ?hs = "with_fragment hs r" and ?r = "drop (5 + record_length r) r"
  show ?case
  proof (cases "after_record ?hs")
    case None
    have "0 < length r" using w by (auto simp: whole_record_def)
    then have "length ?r < length r" by simp
    moreover have "read_records n ?hs ?r = Server_Name h" using less.prems read_records_step [OF w] None by simp
    ultimately have "(\<exists>s. h = lowercase s \<and> is_host s) \<and> read_records m ?hs (?r @ x) = Server_Name h" by (rule less.hyps)
    then show ?thesis unfolding read_records_step [OF more(1), of m hs] more(2,3) more(4) None by simp
  next
    case (Some h')
    with less.prems read_records_step [OF w] have h': "h' = Server_Name h" by simp
    with Some have "\<exists>s. h = lowercase s \<and> is_host s"
      by (auto simp: after_record_def parse_body_host split: if_splits)
    then show ?thesis unfolding read_records_step [OF more(1), of m hs] more(2,3) Some h' by simp
  qed
qed

text \<open>
  The relay never waits with more than the largest hello and its record headers buffered,
  and a name it has read is a lowercase host name that no later byte changes.
\<close>

lemma server_name_bounded_and_stable:
  "(server_name buf = Incomplete \<longrightarrow> length buf \<le> MAX_HELLO + 25)
   \<and> (server_name buf = Server_Name h \<longrightarrow>
        (\<exists>s. h = lowercase s \<and> is_host s) \<and> server_name (buf @ more) = Server_Name h)"
  using read_records_bound [of "length buf" "[]" buf]
    read_records_name [of "length buf" "[]" buf h "length (buf @ more)" more]
  by (auto simp: server_name_def)

end
