(* ===== verification/Doc_Kinds.thy ===== *)
theory Doc_Kinds
  imports Json Text_Prims
begin

text \<open>
  How a document's slug is classified: \<open>kind_of\<close> and its neighbours in
  \<^verbatim>\<open>src/node/src/mcp/docs.rs\<close> and the configured kinds of \<^verbatim>\<open>src/node/src/config.rs\<close>. The
  lemmas show that in a configuration \<open>validate_doc_kinds\<close> accepts a slug carries at most one
  kind, so that the first kind found and any kind found are the same.
\<close>

record doc_kind =
  k_prefix :: string
  k_label :: string
  k_description :: string
  k_working_note :: bool

record reserved_kind =
  r_kind :: string
  r_label :: string
  r_description :: string

definition PLAN :: string where
  "PLAN = ''plan''"

definition SHOWN :: string where
  "SHOWN = ''shown''"

definition OTHER :: string where
  "OTHER = ''other''"

definition RESERVED :: "reserved_kind list" where
  "RESERVED =
     [\<lparr>r_kind = PLAN, r_label = ''Plan'',
       r_description = ''a plan; `plan-<item id>` written in a plan session is that item'' @ [CHR 0x27] @ ''s plan''\<rparr>,
      \<lparr>r_kind = SHOWN, r_label = ''Shown work'',
       r_description = ''work shown to the operator, which only `show_work` writes''\<rparr>]"

definition default_doc_kinds :: "doc_kind list" where
  "default_doc_kinds =
     [\<lparr>k_prefix = ''guide'', k_label = ''Guide'',
       k_description = ''how something is done here, for whoever does it next'', k_working_note = False\<rparr>,
      \<lparr>k_prefix = ''ref'', k_label = ''Reference'', k_description = ''facts to look up'', k_working_note = False\<rparr>,
      \<lparr>k_prefix = ''architecture'', k_label = ''Architecture'',
       k_description = ''how a system is put together, and why'', k_working_note = False\<rparr>,
      \<lparr>k_prefix = ''proposal'', k_label = ''Proposal'',
       k_description = ''a change put to the operator to decide'', k_working_note = False\<rparr>,
      \<lparr>k_prefix = ''repo'', k_label = ''Repository'',
       k_description = ''working notes on one repository'', k_working_note = True\<rparr>,
      \<lparr>k_prefix = ''note'', k_label = ''Note'', k_description = ''working notes'', k_working_note = True\<rparr>,
      \<lparr>k_prefix = ''meeting'', k_label = ''Meeting'', k_description = ''notes from a meeting'', k_working_note = True\<rparr>,
      \<lparr>k_prefix = ''inbox'', k_label = ''Inbox'', k_description = ''something to look at later'', k_working_note = True\<rparr>]"

definition has_prefix :: "string \<Rightarrow> string \<Rightarrow> bool" where
  "has_prefix slug p =
     (case strip_prefix p slug of None \<Rightarrow> False | Some rest \<Rightarrow> rest = [] \<or> starts_with rest ''-'')"

definition reserved :: "string \<Rightarrow> reserved_kind option" where
  "reserved kind = find (\<lambda>r. r_kind r = kind) RESERVED"

definition reserved_kind_of :: "string \<Rightarrow> string option" where
  "reserved_kind_of slug = map_option r_kind (find (\<lambda>r. has_prefix slug (r_kind r)) RESERVED)"

definition kind_of :: "doc_kind list \<Rightarrow> string \<Rightarrow> string" where
  "kind_of kinds slug =
     (case reserved_kind_of slug of
        Some k \<Rightarrow> k
      | None \<Rightarrow> (case find (\<lambda>k. has_prefix slug (k_prefix k)) kinds of Some k \<Rightarrow> k_prefix k | None \<Rightarrow> OTHER))"

definition is_working_note :: "doc_kind list \<Rightarrow> string \<Rightarrow> bool" where
  "is_working_note kinds slug \<longleftrightarrow>
     reserved_kind_of slug = None
     \<and> list_ex (\<lambda>k. k_working_note k \<and> has_prefix slug (k_prefix k)) kinds"

definition kind_json :: "string \<Rightarrow> string \<Rightarrow> string \<Rightarrow> bool \<Rightarrow> bool \<Rightarrow> json" where
  "kind_json kind label description working_note res =
     JObj [(''description'', JStr description), (''kind'', JStr kind), (''label'', JStr label),
           (''reserved'', JBool res), (''working_note'', JBool working_note)]"

definition kind_list :: "doc_kind list \<Rightarrow> json list" where
  "kind_list kinds =
     map (\<lambda>k. kind_json (k_prefix k) (if k_label k = [] then k_prefix k else k_label k)
            (k_description k) (k_working_note k) False) kinds
     @ map (\<lambda>r. kind_json (r_kind r) (r_label r) (r_description r) False True) RESERVED
     @ [kind_json OTHER ''Other'' (''a slug with no kind'' @ [CHR 0x27] @ ''s prefix'') False True]"

definition kind_admits :: "doc_kind list \<Rightarrow> string \<Rightarrow> string \<Rightarrow> bool" where
  "kind_admits kinds kind slug \<longleftrightarrow> kind_of kinds slug = kind"

text \<open>The reason given is left out of the refusal.\<close>

definition reserved_refusal :: "json \<Rightarrow> bool" where
  "reserved_refusal args =
     (let slug = trim (case Option.bind (jget args ''slug'') as_str of Some s \<Rightarrow> s | None \<Rightarrow> []) in
      case reserved_kind_of slug of Some k \<Rightarrow> k = SHOWN | None \<Rightarrow> False)"

datatype kind_error = Bad_Prefix string | Reserved_Prefix string | Given_Twice string

fun validate_kinds_from :: "string set \<Rightarrow> doc_kind list \<Rightarrow> (kind_error, unit) result" where
  "validate_kinds_from seen [] = Ok ()"
| "validate_kinds_from seen (k # ks) =
     (let p = k_prefix k in
      if p = [] \<or> \<not> list_all (\<lambda>b. is_lower b \<or> is_digit b) p then Err (Bad_Prefix p)
      else if reserved p \<noteq> None \<or> p = OTHER then Err (Reserved_Prefix p)
      else if p \<in> seen then Err (Given_Twice p)
      else validate_kinds_from (insert p seen) ks)"

definition validate_doc_kinds :: "doc_kind list \<Rightarrow> (kind_error, unit) result" where
  "validate_doc_kinds kinds = validate_kinds_from {} kinds"

section \<open>A slug carries one kind\<close>

lemma has_prefix_iff: "has_prefix slug p \<longleftrightarrow> slug = p \<or> (\<exists>r. slug = p @ ''-'' @ r)"
  by (auto simp: has_prefix_def strip_prefix_Some strip_prefix_None starts_with_iff split: option.splits)

text \<open>A prefix of letters and digits is what stands before the first hyphen.\<close>

lemma has_prefix_hd:
  assumes "CHR ''-'' \<notin> set p"
  shows "has_prefix slug p \<longleftrightarrow> takeWhile (\<lambda>c. c \<noteq> CHR ''-'') slug = p"
proof
  assume hp: "has_prefix slug p"
  have tw: "takeWhile (\<lambda>c. c \<noteq> CHR ''-'') (p @ r) = p @ takeWhile (\<lambda>c. c \<noteq> CHR ''-'') r" for r
    by (rule takeWhile_append2) (use assms in auto)
  from hp consider "slug = p @ []" | r where "slug = p @ ''-'' @ r" by (auto simp: has_prefix_iff)
  then show "takeWhile (\<lambda>c. c \<noteq> CHR ''-'') slug = p" by cases (simp_all only: tw, simp_all)
next
  assume p: "takeWhile (\<lambda>c. c \<noteq> CHR ''-'') slug = p"
  let ?d = "dropWhile (\<lambda>c. c \<noteq> CHR ''-'') slug"
  have slug: "slug = p @ ?d" using takeWhile_dropWhile_id [of "\<lambda>c. c \<noteq> CHR ''-''" slug] p by simp
  show "has_prefix slug p"
  proof (cases ?d)
    case Nil
    with slug show ?thesis by (simp add: has_prefix_iff)
  next
    case (Cons c r)
    then have "c = CHR ''-''" using hd_dropWhile [of "\<lambda>c. c \<noteq> CHR ''-''" slug] by simp
    with slug Cons have "slug = p @ ''-'' @ r" by simp
    then show ?thesis unfolding has_prefix_iff by blast
  qed
qed

lemma validated_kinds:
  assumes "validate_kinds_from seen kinds = Ok ()"
  shows "distinct (map k_prefix kinds)" and "\<forall>k \<in> set kinds. CHR ''-'' \<notin> set (k_prefix k)"
    and "\<forall>k \<in> set kinds. k_prefix k \<notin> seen" and "\<forall>k \<in> set kinds. k_prefix k \<noteq> OTHER"
  using assms
proof (induction kinds arbitrary: seen)
  case (Cons k ks)
  {
    case 1
    with Cons.IH(1,3) [of "insert (k_prefix k) seen"] show ?case by (auto simp: Let_def split: if_splits)
  next
    case 2
    have "\<not> is_lower CHR ''-'' \<and> \<not> is_digit CHR ''-''" by (simp add: is_lower_def is_digit_def)
    with 2 Cons.IH(2) [of "insert (k_prefix k) seen"] show ?case
      by (auto simp: Let_def list_all_iff split: if_splits)
  next
    case 3
    with Cons.IH(3) [of "insert (k_prefix k) seen"] show ?case by (auto simp: Let_def split: if_splits)
  next
    case 4
    with Cons.IH(4) [of "insert (k_prefix k) seen"] show ?case by (auto simp: Let_def split: if_splits)
  }
qed simp_all

lemma working_note_iff_kind:
  assumes "validate_doc_kinds kinds = Ok ()"
  shows "is_working_note kinds slug \<longleftrightarrow>
    reserved_kind_of slug = None \<and> (\<exists>k \<in> set kinds. k_working_note k \<and> k_prefix k = kind_of kinds slug)"
proof (cases "reserved_kind_of slug")
  case None
  note v = validated_kinds [OF assms [unfolded validate_doc_kinds_def]]
  let ?h = "takeWhile (\<lambda>c. c \<noteq> CHR ''-'') slug"
  have hp: "has_prefix slug (k_prefix k) \<longleftrightarrow> ?h = k_prefix k" if "k \<in> set kinds" for k
    using v(2) that by (intro has_prefix_hd) blast
  show ?thesis
  proof (cases "find (\<lambda>k. has_prefix slug (k_prefix k)) kinds")
    case none: None
    then have "\<not> has_prefix slug (k_prefix k)" if "k \<in> set kinds" for k
      using that by (simp add: find_None_iff)
    with none None v(4) show ?thesis by (auto simp: is_working_note_def list_ex_iff kind_of_def)
  next
    case (Some k)
    then have k: "k \<in> set kinds" "?h = k_prefix k" using hp by (auto simp: find_Some_iff)
    with Some None have "kind_of kinds slug = ?h" by (simp add: kind_of_def)
    with None hp show ?thesis by (auto simp: is_working_note_def list_ex_iff)
  qed
qed (simp add: is_working_note_def)

end
