(* ===== verification/Shell_Text.thy ===== *)
theory Shell_Text
  imports Text_Prims
begin

text \<open>
  The two readers of text in \<^verbatim>\<open>src/node/src/policy/mod.rs\<close>: \<open>simple_commands\<close>, which splits a
  shell line into the commands it chains, and \<open>glob\<close>. The first is shown to return commands
  in which the quoting rules of the shell leave no operator, redirection or expansion; the
  second to accept exactly what a pattern with \<open>*\<close> for any text stands for.

  The source scans \<open>char\<close>s and the model bytes: the bytes of a character beyond ASCII are no
  delimiter of either.
\<close>

section \<open>Simple commands\<close>

definition harmless_redirects :: "string list" where
  "harmless_redirects = ['' 2>/dev/null '', '' >/dev/null '', '' 2>&1 '', '' &>/dev/null '']"

function drop_all :: "string \<Rightarrow> string \<Rightarrow> string" where
  "drop_all n s = (if 1 < length n \<and> contains_str s n then drop_all n (replace_str n '' '' s) else s)"
  by auto
termination
  by (relation "measure (\<lambda>(n, s). length s)") (auto intro: replace_str_shorter)

declare drop_all.simps [simp del]

definition shell_specials :: string where
  "shell_specials = ''&><$`(){}'' @ [CHR 0x0A, CHR 0x0D]"

definition quote1 :: char where
  "quote1 = CHR 0x27"

definition backslash :: char where
  "backslash = CHR 0x5C"

fun scan_commands :: "bool \<Rightarrow> bool \<Rightarrow> string \<Rightarrow> string list \<Rightarrow> string \<Rightarrow> string list option" where
  "scan_commands single double current commands [] =
     (if single \<or> double then None else Some (commands @ [current]))"
| "scan_commands single double current commands (c # cs) =
     (if single then scan_commands (c \<noteq> quote1) double (current @ [c]) commands cs
      else if double then
        (if c = CHR 0x22 then scan_commands single False (current @ [c]) commands cs
         else if c = CHR ''$'' \<or> c = CHR ''`'' then None
         else if c = backslash then
           (case cs of [] \<Rightarrow> None | e # cs' \<Rightarrow> scan_commands single double (current @ [c, e]) commands cs')
         else scan_commands single double (current @ [c]) commands cs)
      else if c = quote1 then scan_commands True double (current @ [c]) commands cs
      else if c = CHR 0x22 then scan_commands single True (current @ [c]) commands cs
      else if c = backslash then
        (case cs of [] \<Rightarrow> None
         | e # cs' \<Rightarrow> if e = CHR 0x0A then None else scan_commands single double (current @ [c, e]) commands cs')
      else if c = CHR ''|'' \<or> c = CHR '';'' then
        scan_commands single double [] (commands @ [current])
          (if c = CHR ''|'' \<and> take 1 cs = ''|'' then drop 1 cs else cs)
      else if c = CHR ''&'' \<and> take 1 cs = ''&'' then
        scan_commands single double [] (commands @ [current]) (drop 1 cs)
      else if c \<in> set shell_specials then None
      else scan_commands single double (current @ [c]) commands cs)"

definition simple_commands :: "string \<Rightarrow> string list option" where
  "simple_commands line =
     (let text = fold drop_all harmless_redirects ('' '' @ trim line @ '' '') in
      case scan_commands False False [] [] (trim text) of
        None \<Rightarrow> None
      | Some commands \<Rightarrow> (let commands = map trim commands in if [] \<in> set commands then None else Some commands))"

text \<open>
  The quoting of the shell: what state a character leaves the reader in, \<^const>\<open>None\<close> when it is
  an operator, a redirection, an expansion, or a line that goes on.
\<close>

datatype quoting = Unquoted | Escaped | Single | Double | Double_Escaped

fun quote_step :: "quoting \<Rightarrow> char \<Rightarrow> quoting option" where
  "quote_step Unquoted c =
     (if c = quote1 then Some Single else if c = CHR 0x22 then Some Double
      else if c = backslash then Some Escaped
      else if c \<in> set (''|;'' @ shell_specials) then None else Some Unquoted)"
| "quote_step Escaped c = (if c = CHR 0x0A then None else Some Unquoted)"
| "quote_step Single c = Some (if c = quote1 then Unquoted else Single)"
| "quote_step Double c =
     (if c = CHR 0x22 then Some Unquoted else if c = backslash then Some Double_Escaped
      else if c = CHR ''$'' \<or> c = CHR ''`'' then None else Some Double)"
| "quote_step Double_Escaped c = Some Double"

primrec quote_run :: "quoting \<Rightarrow> string \<Rightarrow> quoting option" where
  "quote_run q [] = Some q"
| "quote_run q (c # s) = Option.bind (quote_step q c) (\<lambda>q'. quote_run q' s)"

lemma quote_run_append: "quote_run q (s @ t) = Option.bind (quote_run q s) (\<lambda>q'. quote_run q' t)"
  by (induction s arbitrary: q) (simp_all add: Option.bind_assoc)

lemma quote_run_prefix: "quote_run q (s @ t) \<noteq> None \<Longrightarrow> quote_run q s \<noteq> None"
  by (cases "quote_run q s") (simp_all add: quote_run_append)

definition reader :: "bool \<Rightarrow> bool \<Rightarrow> quoting" where
  "reader single double = (if single then Single else if double then Double else Unquoted)"

lemma shell_chars [simp]:
  "quote1 \<noteq> backslash" "backslash \<noteq> quote1" "quote1 \<noteq> CHR 0x22" "backslash \<noteq> CHR 0x22"
  "quote1 \<noteq> CHR ''$''" "quote1 \<noteq> CHR ''`''" "backslash \<noteq> CHR ''$''" "backslash \<noteq> CHR ''`''"
  by (simp_all add: quote1_def backslash_def)

definition quiet :: "bool \<Rightarrow> bool \<Rightarrow> string \<Rightarrow> string list \<Rightarrow> bool" where
  "quiet single double current commands \<longleftrightarrow>
     quote_run Unquoted current = Some (reader single double)
     \<and> (\<forall>c \<in> set commands. quote_run Unquoted c = Some Unquoted)"

lemma quiet_push:
  "quiet s d cur cmds \<Longrightarrow> quote_run (reader s d) x = Some (reader s' d') \<Longrightarrow> quiet s' d' (cur @ x) cmds"
  by (simp add: quiet_def quote_run_append)

lemma quiet_next: "quiet False False cur cmds \<Longrightarrow> quiet False False [] (cmds @ [cur])"
  by (auto simp: quiet_def reader_def)

text \<open>One turn of the loop leads from a quiet state to a quiet state.\<close>

lemma scan_step:
  assumes q: "quiet s d cur cmds" and sd: "\<not> (s \<and> d)"
    and run: "scan_commands s d cur cmds (c # cs) = Some out"
  shows "\<exists>s' d' cur' cmds' cs'. length cs' \<le> length cs \<and> quiet s' d' cur' cmds' \<and> \<not> (s' \<and> d')
    \<and> scan_commands s' d' cur' cmds' cs' = Some out"
    (is "\<exists>s' d' cur' cmds' cs'. ?P s' d' cur' cmds' cs'")
proof -
  have ok: "?thesis" if "?P s' d' cur' cmds' cs'" for s' d' cur' cmds' cs' using that by blast
  consider "s" "\<not> d" | "\<not> s" "d" | "\<not> s" "\<not> d" using sd by blast
  then show ?thesis
  proof cases
    case 1
    with run quiet_push [OF q, of "[c]" "c \<noteq> quote1" False] show ?thesis
      by (intro ok [of cs "c \<noteq> quote1" False "cur @ [c]" cmds]) (simp add: reader_def)
  next
    case 2
    note push = quiet_push [OF q, unfolded 2(1)]
    show ?thesis
    proof (cases "c = CHR 0x22")
      case True
      with 2 run push [of "[c]" False False] show ?thesis
        by (intro ok [of cs False False "cur @ [c]" cmds]) (simp add: reader_def)
    next
      case quote: False
      have ne: "\<not> (c = CHR ''$'' \<or> c = CHR ''`'')" using run 2 quote by (simp split: if_splits)
      show ?thesis
      proof (cases "c = backslash")
        case True
        with run 2 quote ne obtain e cs' where cs: "cs = e # cs'"
          and "scan_commands False True (cur @ [c, e]) cmds cs' = Some out" by (cases cs) auto
        with 2 True push [of "[c, e]" False True] show ?thesis
          by (intro ok [of cs' False True "cur @ [c, e]" cmds]) (simp add: reader_def)
      next
        case False
        with 2 run quote ne push [of "[c]" False True] show ?thesis
          by (intro ok [of cs False True "cur @ [c]" cmds]) (simp add: reader_def)
      qed
    qed
  next
    case 3
    note push = quiet_push [OF q, unfolded 3]
    have next_cmd: "quiet False False [] (cmds @ [cur])" using quiet_next q 3 by simp
    consider "c = quote1" | "c = CHR 0x22" | "c = backslash" | "c = CHR ''|'' \<or> c = CHR '';''"
      | "c = CHR ''&''" "take 1 cs = ''&''"
      | "c \<notin> {quote1, CHR 0x22, backslash, CHR ''|'', CHR '';''}" "\<not> (c = CHR ''&'' \<and> take 1 cs = ''&'')"
      by blast
    then show ?thesis
    proof cases
      case 1
      with 3 run push [of "[c]" True False] show ?thesis
        by (intro ok [of cs True False "cur @ [c]" cmds]) (simp add: reader_def)
    next
      case 2
      with 3 run push [of "[c]" False True] show ?thesis
        by (intro ok [of cs False True "cur @ [c]" cmds]) (simp add: reader_def quote1_def)
    next
      case esc: 3
      with run 3 obtain e cs' where cs: "cs = e # cs'" and ne: "e \<noteq> CHR 0x0A"
        and "scan_commands False False (cur @ [c, e]) cmds cs' = Some out"
        by (cases cs) (auto split: if_splits)
      with 3 esc push [of "[c, e]" False False] show ?thesis
        by (intro ok [of cs' False False "cur @ [c, e]" cmds]) (simp add: reader_def)
    next
      case 4
      let ?r = "if c = CHR ''|'' \<and> take 1 cs = ''|'' then drop 1 cs else cs"
      have "length ?r \<le> length cs" by simp
      with 3 4 run next_cmd show ?thesis
        by (intro ok [of ?r False False "[]" "cmds @ [cur]"]) (auto simp: quote1_def backslash_def)
    next
      case 5
      with 3 run next_cmd show ?thesis
        by (intro ok [of "drop 1 cs" False False "[]" "cmds @ [cur]"]) (simp add: quote1_def backslash_def)
    next
      case 6
      with run 3 have "c \<notin> set shell_specials" and rec: "scan_commands False False (cur @ [c]) cmds cs = Some out"
        by (auto split: if_splits)
      with 6 have "quote_run Unquoted [c] = Some Unquoted" by simp
      then have "quote_run (reader s d) [c] = Some (reader False False)" using 3 by (simp add: reader_def)
      then have "quiet False False (cur @ [c]) cmds" by (rule quiet_push [OF q])
      with rec show ?thesis by (intro ok [of cs False False "cur @ [c]" cmds]) simp
    qed
  qed
qed

lemma scan_commands_quiet:
  assumes "quiet s d cur cmds" and "\<not> (s \<and> d)" and "scan_commands s d cur cmds cs = Some out"
  shows "out \<noteq> [] \<and> (\<forall>c \<in> set out. quote_run Unquoted c = Some Unquoted)"
  using assms
proof (induction "length cs" arbitrary: s d cur cmds cs rule: less_induct)
  case less
  show ?case
  proof (cases cs)
    case Nil
    with less.prems show ?thesis by (auto simp: quiet_def reader_def split: if_splits)
  next
    case (Cons c cs0)
    from scan_step [OF less.prems(1,2) less.prems(3) [unfolded Cons]]
    obtain s' d' cur' cmds' cs' where "length cs' \<le> length cs0" and "quiet s' d' cur' cmds'" and "\<not> (s' \<and> d')"
      and "scan_commands s' d' cur' cmds' cs' = Some out" by blast
    with less.hyps [of cs' s' d' cur' cmds'] Cons show ?thesis by simp
  qed
qed

text \<open>Whitespace leaves the reader where it is, unless it is refused.\<close>

lemma quote_step_ws:
  assumes "w \<in> set ws_seqs" and "c \<in> set w"
  shows "quote_step Unquoted c = Some Unquoted \<or> quote_step Unquoted c = None"
proof -
  have "list_all (list_all (\<lambda>c. c \<noteq> quote1 \<and> c \<noteq> CHR 0x22 \<and> c \<noteq> backslash)) ws_seqs"
    by (simp add: ws_seqs_chars quote1_def backslash_def)
  with assms have "c \<notin> {quote1, CHR 0x22, backslash}" by (auto simp: list_all_iff)
  then show ?thesis by simp
qed

lemma quote_run_ws:
  "\<forall>c \<in> set s. quote_step Unquoted c = Some Unquoted \<or> quote_step Unquoted c = None \<Longrightarrow>
    quote_run Unquoted (s @ t) = Some q \<Longrightarrow> quote_run Unquoted t = Some q"
  by (induction s) (auto simp del: quote_step.simps)

lemma quote_run_trim:
  assumes "quote_run Unquoted s = Some q"
  shows "quote_run Unquoted (trim s) \<noteq> None"
proof -
  obtain w x where s: "s = concat w @ trim s @ x" "set w \<subseteq> set ws_seqs" using trim_parts by blast
  have ws: "\<forall>c \<in> set (concat w). quote_step Unquoted c = Some Unquoted \<or> quote_step Unquoted c = None"
  proof
    fix c
    assume "c \<in> set (concat w)"
    then obtain v where "v \<in> set w" and c: "c \<in> set v" by auto
    with s(2) have "v \<in> set ws_seqs" by (simp add: subset_iff)
    then show "quote_step Unquoted c = Some Unquoted \<or> quote_step Unquoted c = None" using c by (rule quote_step_ws)
  qed
  from quote_run_ws [OF ws] assms s(1) have "quote_run Unquoted (trim s @ x) = Some q" by metis
  then show ?thesis using quote_run_prefix by (metis option.discI)
qed

lemma simple_commands_sound:
  assumes "simple_commands line = Some cs"
  shows "cs \<noteq> [] \<and> (\<forall>c \<in> set cs. c \<noteq> [] \<and> quote_run Unquoted c \<noteq> None)"
proof -
  from assms obtain out where out: "scan_commands False False [] []
      (trim (fold drop_all harmless_redirects ('' '' @ trim line @ '' ''))) = Some out"
    and cs: "cs = map trim out" "[] \<notin> set cs"
    by (auto simp: simple_commands_def Let_def split: option.splits if_splits)
  have "out \<noteq> [] \<and> (\<forall>c \<in> set out. quote_run Unquoted c = Some Unquoted)"
    by (rule scan_commands_quiet [OF _ _ out]) (simp_all add: quiet_def reader_def)
  with cs show ?thesis using quote_run_trim by fastforce
qed

lemma simple_commands_nonempty: "simple_commands line = Some cs \<Longrightarrow> cs \<noteq> []"
  using simple_commands_sound by blast

text \<open>
  What \<open>simple_commands\<close> returns are simple commands. There is at least one, none is empty,
  and reading any of them with the quoting rules of the shell meets no operator, redirection,
  expansion or grouping, so that judging each command on its own judges the whole line.
\<close>

theorem simple_commands_are_simple:
  assumes "simple_commands line = Some cs"
  shows "cs \<noteq> [] \<and> (\<forall>c \<in> set cs. c \<noteq> [] \<and> quote_run Unquoted c \<noteq> None)"
  using assms by (rule simple_commands_sound)

theorem simple_commands_are_simple_witness:
  "simple_commands ''ls | cat'' = Some [''ls'', ''cat''] \<and> quote_run Unquoted ''cat'' \<noteq> None"
proof -
  have "simple_commands ''ls | cat'' = Some [''ls'', ''cat'']" by code_simp
  with simple_commands_are_simple [OF this] show ?thesis by simp
qed

section \<open>Globs\<close>

fun glob_middles :: "string list \<Rightarrow> string \<Rightarrow> bool" where
  "glob_middles [] rest = True"
| "glob_middles (m # ms) rest =
     (case split_once m rest of None \<Rightarrow> False | Some (_, r) \<Rightarrow> glob_middles ms r)"

definition glob :: "string \<Rightarrow> string \<Rightarrow> bool" where
  "glob pattern v =
     (case split_on (CHR ''*'') pattern of
        first # p # ps \<Rightarrow>
          (let l = last (p # ps) in
           case strip_prefix first v of
             None \<Rightarrow> False
           | Some v' \<Rightarrow> ends_with v' l \<and> glob_middles (butlast (p # ps)) (take (length v' - length l) v'))
      | _ \<Rightarrow> pattern = v)"

text \<open>What a pattern stands for: a star any text, any other character itself.\<close>

inductive glob_matches :: "string \<Rightarrow> string \<Rightarrow> bool" where
  empty: "glob_matches [] []"
| star: "glob_matches p v \<Longrightarrow> glob_matches (CHR ''*'' # p) (s @ v)"
| char: "c \<noteq> CHR ''*'' \<Longrightarrow> glob_matches p v \<Longrightarrow> glob_matches (c # p) (c # v)"

inductive_simps glob_matches_Nil [simp]: "glob_matches [] v"
inductive_simps glob_matches_Cons: "glob_matches (c # p) v"

fun parts_ok :: "string list \<Rightarrow> string \<Rightarrow> bool" where
  "parts_ok [] v \<longleftrightarrow> False"
| "parts_ok [p] v \<longleftrightarrow> v = p"
| "parts_ok (p # q # ps) v \<longleftrightarrow> (\<exists>x y. v = p @ x @ y \<and> parts_ok (q # ps) y)"

lemma parts_ok_char: "parts_ok ((c # q) # qs) v \<longleftrightarrow> (\<exists>v'. v = c # v' \<and> parts_ok (q # qs) v')"
  by (cases qs) auto

lemma glob_matches_parts: "glob_matches p v \<longleftrightarrow> parts_ok (split_on (CHR ''*'') p) v"
proof (induction p arbitrary: v)
  case Nil
  show ?case by auto
next
  case (Cons c p)
  obtain q qs where qs: "split_on (CHR ''*'') p = q # qs" by (metis list.exhaust split_on_nonempty)
  show ?case
  proof (cases "c = CHR ''*''")
    case True
    with Cons qs show ?thesis by (auto simp: glob_matches_Cons)
  next
    case False
    with Cons qs show ?thesis by (auto simp: glob_matches_Cons parts_ok_char)
  qed
qed

fun mids_ok :: "string list \<Rightarrow> string \<Rightarrow> bool" where
  "mids_ok [] w \<longleftrightarrow> True"
| "mids_ok (m # ms) w \<longleftrightarrow> (\<exists>x y. w = x @ m @ y \<and> mids_ok ms y)"

lemma mids_ok_longer: "mids_ok ms w \<Longrightarrow> mids_ok ms (u @ w)"
  by (cases ms) (auto, metis append.assoc)

lemma parts_ok_mids: "parts_ok (f # ms @ [l]) v \<longleftrightarrow> (\<exists>w. v = f @ w @ l \<and> mids_ok ms w)"
proof (induction ms arbitrary: f v)
  case (Cons m ms)
  have "parts_ok (f # (m # ms) @ [l]) v \<longleftrightarrow> (\<exists>x y. v = f @ x @ y \<and> (\<exists>w. y = m @ w @ l \<and> mids_ok ms w))"
    using Cons [of m] by (cases "ms @ [l]") simp_all
  also have "\<dots> \<longleftrightarrow> (\<exists>x w. v = f @ (x @ m @ w) @ l \<and> mids_ok ms w)" by auto
  also have "\<dots> \<longleftrightarrow> (\<exists>w. v = f @ w @ l \<and> mids_ok (m # ms) w)" unfolding mids_ok.simps by blast
  finally show ?case .
qed simp

lemma longer_suffix:
  assumes "x @ y = a @ b" and "length y \<le> length b"
  shows "\<exists>u. b = u @ y"
proof -
  from assms(1) consider u where "x = a @ u" "u @ y = b" | u where "x @ u = a" "y = u @ b"
    by (auto simp: append_eq_append_conv2)
  then show ?thesis using assms(2) by cases auto
qed

lemma glob_middles_mids: "glob_middles ms w \<longleftrightarrow> mids_ok ms w"
proof (induction ms arbitrary: w)
  case (Cons m ms)
  show ?case
  proof
    assume "glob_middles (m # ms) w"
    then obtain a b where "split_once m w = Some (a, b)" "glob_middles ms b" by (auto split: option.splits)
    moreover from this(1) have "w = a @ m @ b" by (rule split_once_Some)
    ultimately show "mids_ok (m # ms) w" using Cons by auto
  next
    assume "mids_ok (m # ms) w"
    then obtain x y where w: "w = x @ m @ y" and y: "mids_ok ms y" by auto
    from split_once_first [OF w] obtain a b where ab: "split_once m w = Some (a, b)" and le: "length y \<le> length b"
      by blast
    from split_once_Some [OF ab] w have "(x @ m) @ y = (a @ m) @ b" by simp
    then obtain u where "b = u @ y" using longer_suffix le by blast
    with y have "mids_ok ms b" by (simp add: mids_ok_longer)
    with ab Cons show "glob_middles (m # ms) w" by simp
  qed
qed simp

text \<open>
  \<open>glob\<close> accepts exactly the values its pattern stands for, where a star stands for any
  text, also an empty one, and every other character for itself. Taking the first place at
  which a middle piece occurs never misses a match.
\<close>

theorem glob_is_pattern_match: "glob pattern v \<longleftrightarrow> glob_matches pattern v"
proof (cases "split_on (CHR ''*'') pattern")
  case Nil
  then show ?thesis by simp
next
  case (Cons f ps)
  show ?thesis
  proof (cases ps)
    case Nil
    with Cons join_split [of "CHR ''*''" pattern] have "pattern = f" by simp
    with Cons Nil show ?thesis by (auto simp: glob_def glob_matches_parts)
  next
    case (Cons q qs)
    let ?l = "last ps" and ?ms = "butlast ps"
    have ps: "ps = ?ms @ [?l]" using Cons by simp
    have "glob pattern v \<longleftrightarrow> (\<exists>v'. v = f @ v' \<and> ends_with v' ?l \<and> mids_ok ?ms (take (length v' - length ?l) v'))"
      using \<open>split_on (CHR ''*'') pattern = f # ps\<close> Cons
      by (auto simp: glob_def glob_middles_mids strip_prefix_Some strip_prefix_None Let_def split: option.splits)
    also have "\<dots> \<longleftrightarrow> (\<exists>w. v = f @ w @ ?l \<and> mids_ok ?ms w)" by (auto simp: ends_with_iff)
    also have "\<dots> \<longleftrightarrow> parts_ok (f # ps) v" using parts_ok_mids [of f ?ms ?l v] ps by simp
    finally show ?thesis using \<open>split_on (CHR ''*'') pattern = f # ps\<close> by (simp add: glob_matches_parts)
  qed
qed

end
