(* ===== verification/Policy.thy ===== *)
theory Policy
  imports Doc_Kinds Shell_Text
begin

text \<open>
  The policy a node decides requests by, \<^verbatim>\<open>src/node/src/policy/mod.rs\<close>: rules, requests, the
  verdict on a request, the chain of commands allowed one by one, the explanation of a
  verdict, and the grant an operator may give for a session. The text of a JSON value, which
  denials search, is serde_json's: the parameter \<open>jt\<close>.
\<close>

section \<open>Rules and requests\<close>

datatype verdict = Allow | Deny | Ask

datatype arg_match = Globs "string list" | Flag bool

record policy_rule =
  rl_id :: string
  rl_verdict :: verdict
  rl_reason :: string
  rl_kinds :: "string list"
  rl_matches :: "string list"
  rl_args :: "(string \<times> arg_match) list"
  rl_channels :: "string list"

record request =
  rq_channel :: string
  rq_action :: string
  rq_kind :: "string option"
  rq_resource :: "string option"
  rq_command :: "string option"
  rq_arguments :: "json option"
  rq_doc_kinds :: "doc_kind list option"

record decision =
  dc_verdict :: verdict
  dc_rule_id :: "string option"
  dc_reason :: "string option"

record policy =
  pl_version :: nat
  pl_rules :: "policy_rule list"
  pl_trusted :: bool

definition TOOL_KIND :: string where
  "TOOL_KIND = ''tool''"

definition SLUG_WORKING_NOTE :: string where
  "SLUG_WORKING_NOTE = ''slug_working_note''"

definition eq_ignore_case :: "string \<Rightarrow> string \<Rightarrow> bool" where
  "eq_ignore_case a b \<longleftrightarrow> lowercase a = lowercase b"

definition arg_value :: "request \<Rightarrow> string \<Rightarrow> string option" where
  "arg_value req name = Option.bind (Option.bind (rq_arguments req) (\<lambda>a. jget a name)) as_str"

fun admits :: "arg_match \<Rightarrow> string \<Rightarrow> request \<Rightarrow> bool" where
  "admits (Flag want) key req =
     (if key = SLUG_WORKING_NOTE then
        (case (arg_value req ''slug'', rq_doc_kinds req) of
           (Some slug, Some kinds) \<Rightarrow> is_working_note kinds (trim slug) = want
         | _ \<Rightarrow> False)
      else False)"
| "admits (Globs globs) key req =
     (if key = SLUG_WORKING_NOTE then False
      else (case arg_value req key of None \<Rightarrow> False | Some v \<Rightarrow> list_ex (\<lambda>g. glob g v) globs))"

fun described :: "arg_match \<Rightarrow> string \<Rightarrow> doc_kind list option \<Rightarrow> string \<times> string list" where
  "described (Flag flag) key kinds =
     (if key = SLUG_WORKING_NOTE \<and> flag then
        (''slug'', map (\<lambda>k. k_prefix k @ ''-*'')
           (filter k_working_note (case kinds of None \<Rightarrow> [] | Some ks \<Rightarrow> ks)))
      else (key, [if flag then ''true'' else ''false'']))"
| "described (Globs globs) key kinds = (key, globs)"

section \<open>The text a denial searches\<close>

definition prose_fields :: "string \<Rightarrow> string list" where
  "prose_fields action =
     (if action = ''submit_review'' then
        [''title'', ''body'', ''forge.description.title'', ''forge.description.body'', ''forge.comment'']
      else if action = ''submit_report'' then [''title'', ''body'']
      else if action \<in> {''work_discover'', ''work_update''} then [''title'', ''body'']
      else if action = ''issue_update'' then [''summary'', ''description'']
      else if action = ''issue_create'' then
        [''summary'', ''description'', ''issues.summary'', ''issues.description'']
      else if action \<in> {''issue_comment'', ''pr_comment'', ''github_issue_comment'', ''pr_reply'',
                         ''mr_comment'', ''mr_reply'', ''doc_write''} then [''body'']
      else if action = ''doc_edit'' then [''edits'']
      else [])"

function strip_field :: "string \<Rightarrow> json \<Rightarrow> json" where
  "strip_field path (JArr items) = JArr (map (strip_field path) items)"
| "strip_field path (JObj kvs) =
     (case split_once ''.'' path of
        None \<Rightarrow> JObj (filter (\<lambda>(k, v). k \<noteq> path) kvs)
      | Some (h, rest) \<Rightarrow> JObj (map (\<lambda>(k, v). (k, if k = h then strip_field rest v else v)) kvs))"
| "strip_field path JNull = JNull"
| "strip_field path (JBool b) = JBool b"
| "strip_field path (JInt i) = JInt i"
| "strip_field path (JFloat f) = JFloat f"
| "strip_field path (JStr s) = JStr s"
  by pat_completeness auto
termination
  by (relation "measure (\<lambda>(path, v). size v)") (auto dest: size_item size_entry)

definition scalar_field :: "(json \<Rightarrow> string) \<Rightarrow> string \<times> json \<Rightarrow> string" where
  "scalar_field jt kv =
     (case kv of (k, v) \<Rightarrow>
       (case v of
          JStr s \<Rightarrow> '' '' @ k @ ''='' @ s
        | JInt i \<Rightarrow> '' '' @ k @ ''='' @ jt v
        | JFloat f \<Rightarrow> '' '' @ k @ ''='' @ jt v
        | JBool b \<Rightarrow> '' '' @ k @ ''='' @ (if b then ''true'' else ''false'')
        | _ \<Rightarrow> []))"

definition haystack :: "(json \<Rightarrow> string) \<Rightarrow> request \<Rightarrow> string" where
  "haystack jt req =
     (let matched = map_option (fold strip_field (prose_fields (rq_action req))) (rq_arguments req);
          arguments = (case matched of None \<Rightarrow> [] | Some v \<Rightarrow> jt v)
            @ (case Option.bind matched as_object of None \<Rightarrow> []
               | Some kvs \<Rightarrow> concat (map (scalar_field jt) kvs)) in
      lowercase (rq_action req @ '' '' @ (case rq_resource req of None \<Rightarrow> [] | Some r \<Rightarrow> r) @ '' ''
        @ (case rq_command req of None \<Rightarrow> [] | Some c \<Rightarrow> c) @ '' '' @ arguments))"

section \<open>Matching a rule\<close>

definition in_scope :: "policy_rule \<Rightarrow> request \<Rightarrow> bool" where
  "in_scope rule req \<longleftrightarrow>
     (rl_channels rule = [] \<or> rq_channel req \<in> set (rl_channels rule))
     \<and> (rl_kinds rule = [] \<or> list_ex (\<lambda>k. Some k = rq_kind req) (rl_kinds rule))"

definition leads :: "policy_rule \<Rightarrow> string \<Rightarrow> bool" where
  "leads rule c =
     (let cmd = lowercase (trim c) in
      list_ex (\<lambda>pat. let pat = lowercase (trim pat) in pat \<noteq> [] \<and> (cmd = pat \<or> starts_with cmd (pat @ '' '')))
        (rl_matches rule))"

definition names_action :: "policy_rule \<Rightarrow> request \<Rightarrow> bool" where
  "names_action rule req \<longleftrightarrow>
     rl_matches rule = [] \<or> list_ex (\<lambda>pat. eq_ignore_case (trim pat) (trim (rq_action req))) (rl_matches rule)"

definition allow_specials :: string where
  "allow_specials = ''&|;`><$'' @ [CHR 0x0A, CHR 0x0D]"

definition covers_path :: "policy_rule \<Rightarrow> string \<Rightarrow> bool" where
  "covers_path rule path \<longleftrightarrow>
     ''..'' \<notin> set (split_on (CHR ''/'') path)
     \<and> list_ex (\<lambda>pat. let pat = trim pat in
          pat \<noteq> [] \<and> (if ends_with pat ''/'' then starts_with path pat else path = pat)) (rl_matches rule)"

definition allows :: "policy_rule \<Rightarrow> request \<Rightarrow> bool" where
  "allows rule req =
     (if rq_kind req = Some TOOL_KIND \<or> rq_kind req = Some ''authority'' then
        names_action rule req \<and> list_all (\<lambda>(key, want). admits want key req) (rl_args rule)
      else
        (case rq_command req of
           None \<Rightarrow> (case rq_resource req of None \<Rightarrow> False | Some path \<Rightarrow> covers_path rule path)
         | Some command \<Rightarrow>
             (let cmd = lowercase (trim command) in
              if list_ex (\<lambda>c. c \<in> set allow_specials) cmd then False else leads rule cmd)))"

definition applies :: "(json \<Rightarrow> string) \<Rightarrow> policy_rule \<Rightarrow> request \<Rightarrow> bool" where
  "applies jt rule req =
     (if rl_channels rule \<noteq> [] \<and> rq_channel req \<notin> set (rl_channels rule) then False
      else if rl_kinds rule \<noteq> [] \<and> \<not> list_ex (\<lambda>k. Some k = rq_kind req) (rl_kinds rule) then False
      else if rl_matches rule = [] \<and> rl_args rule = [] then True
      else (case rl_verdict rule of
          Allow \<Rightarrow> allows rule req
        | _ \<Rightarrow> list_ex (\<lambda>m. contains_str (haystack jt req) (lowercase m)) (rl_matches rule)))"

definition names_rule :: "policy_rule \<Rightarrow> request \<Rightarrow> bool" where
  "names_rule rule req =
     (if rl_channels rule \<noteq> [] \<and> rq_channel req \<notin> set (rl_channels rule) then False
      else if rl_kinds rule \<noteq> [] \<and> \<not> list_ex (\<lambda>k. Some k = rq_kind req) (rl_kinds rule) then False
      else names_action rule req)"

section \<open>Deciding\<close>

definition ask_decision :: decision where
  "ask_decision = \<lparr>dc_verdict = Ask, dc_rule_id = None, dc_reason = None\<rparr>"

definition chain_rule :: "request \<Rightarrow> string \<Rightarrow> policy_rule \<Rightarrow> bool" where
  "chain_rule req command rule \<longleftrightarrow>
     rl_verdict rule = Allow \<and> rl_args rule = [] \<and> rl_matches rule \<noteq> [] \<and> in_scope rule req \<and> leads rule command"

fun chain_ids :: "policy_rule list \<Rightarrow> request \<Rightarrow> string list \<Rightarrow> string list \<Rightarrow> string list option" where
  "chain_ids rules req ids [] = Some ids"
| "chain_ids rules req ids (c # cs) =
     (case find (chain_rule req c) rules of
        None \<Rightarrow> None
      | Some rule \<Rightarrow> chain_ids rules req (if rl_id rule \<in> set ids then ids else ids @ [rl_id rule]) cs)"

definition decide_chain :: "policy \<Rightarrow> request \<Rightarrow> decision option" where
  "decide_chain p req =
     Option.bind (rq_command req) (\<lambda>command.
     Option.bind (simple_commands command) (\<lambda>commands.
     Option.bind (chain_ids (pl_rules p) req [] commands) (\<lambda>ids.
     Some \<lparr>dc_verdict = Allow, dc_rule_id = Some (join_with ''+'' ids),
       dc_reason = Some ''Every command in the chain is one the policy allows on its own.''\<rparr>)))"

definition decided_by :: "verdict \<Rightarrow> policy_rule \<Rightarrow> decision" where
  "decided_by v rule = \<lparr>dc_verdict = v, dc_rule_id = Some (rl_id rule), dc_reason = Some (rl_reason rule)\<rparr>"

text \<open>The loop over the rules: the denial it returns at, or the first rule that allows.\<close>

fun decide_loop :: "(json \<Rightarrow> string) \<Rightarrow> request \<Rightarrow> policy_rule list \<Rightarrow> policy_rule option
    \<Rightarrow> policy_rule + policy_rule option" where
  "decide_loop jt req [] allow = Inr allow"
| "decide_loop jt req (rule # rules) allow =
     (if \<not> applies jt rule req then decide_loop jt req rules allow
      else (case rl_verdict rule of
          Deny \<Rightarrow> Inl rule
        | Allow \<Rightarrow> decide_loop jt req rules (case allow of None \<Rightarrow> Some rule | Some _ \<Rightarrow> allow)
        | Ask \<Rightarrow> decide_loop jt req rules allow))"

definition decide :: "(json \<Rightarrow> string) \<Rightarrow> policy \<Rightarrow> request \<Rightarrow> decision" where
  "decide jt p req =
     (case decide_loop jt req (pl_rules p) None of
        Inl rule \<Rightarrow> decided_by Deny rule
      | Inr (Some rule) \<Rightarrow> decided_by Allow rule
      | Inr None \<Rightarrow> (case decide_chain p req of Some d \<Rightarrow> d | None \<Rightarrow> ask_decision))"

section \<open>Explaining\<close>

record scoped_allow =
  sa_rule_id :: string
  sa_reason :: string
  sa_args :: "string \<rightharpoonup> string list"

record standing =
  sd_verdict :: verdict
  sd_rule_id :: "string option"
  sd_reason :: "string option"
  sd_scoped :: "scoped_allow list"

record unattended =
  un_rule_id :: string
  un_reason :: string
  un_commands :: "string list"
  un_any :: bool

definition explain :: "(json \<Rightarrow> string) \<Rightarrow> policy \<Rightarrow> request \<Rightarrow> standing" where
  "explain jt p req =
     (let d = decide jt p req;
          scoped = (if dc_verdict d = Ask then
            map (\<lambda>rule. \<lparr>sa_rule_id = rl_id rule, sa_reason = rl_reason rule,
                   sa_args = map_of (rev (map (\<lambda>(key, want). described want key (rq_doc_kinds req)) (rl_args rule)))\<rparr>)
              (filter (\<lambda>rule. names_rule rule req)
                (filter (\<lambda>rule. rl_verdict rule = Allow \<and> rl_args rule \<noteq> []) (pl_rules p)))
            else []) in
      \<lparr>sd_verdict = dc_verdict d, sd_rule_id = dc_rule_id d, sd_reason = dc_reason d, sd_scoped = scoped\<rparr>)"

definition unattended_commands :: "policy \<Rightarrow> string \<Rightarrow> unattended list" where
  "unattended_commands p channel =
     map (\<lambda>rule. \<lparr>un_rule_id = rl_id rule, un_reason = rl_reason rule, un_commands = rl_matches rule,
            un_any = (rl_matches rule = [])\<rparr>)
       (filter (\<lambda>rule. rl_channels rule = [] \<or> channel \<in> set (rl_channels rule))
         (filter (\<lambda>rule. ''execute'' \<in> set (rl_kinds rule))
           (filter (\<lambda>rule. rl_verdict rule = Allow \<and> rl_args rule = []) (pl_rules p))))"

section \<open>Session grants\<close>

record grant =
  sg_key :: string
  sg_label :: string

definition is_word :: "string \<Rightarrow> bool" where
  "is_word w \<longleftrightarrow> w \<noteq> [] \<and> (is_lower (hd w) \<or> is_upper (hd w))
     \<and> list_all (\<lambda>c. is_alnum c \<or> c \<in> set ''-_:.'') w"

definition is_plain :: "string \<Rightarrow> bool" where
  "is_plain command \<longleftrightarrow>
     list_all (\<lambda>c. 32 \<le> byte c \<and> byte c \<le> 126 \<and> c \<notin> set (''|;&<>$`()'' @ [quote1, CHR 0x22, backslash])) command"

text \<open>A plain line has no whitespace but the space.\<close>

definition plain_words :: "string \<Rightarrow> string list" where
  "plain_words command = filter (\<lambda>w. w \<noteq> []) (split_on (CHR '' '') command)"

definition session_grant :: "request \<Rightarrow> grant option" where
  "session_grant req =
     (case rq_command req of
        Some command \<Rightarrow>
          (let command = trim command;
               exact = Some \<lparr>sg_key = ''exact:'' @ command, sg_label = ''Allow this exact command for this session''\<rparr> in
           if command = [] then None
           else if is_plain command then
             (case plain_words command of
                first # second # _ \<Rightarrow>
                  if is_word first \<and> is_word second then
                    (let pre = lowercase (first @ '' '' @ second) in
                     Some \<lparr>sg_key = ''command:'' @ pre,
                       sg_label = ''Allow `'' @ pre @ '' '' @ [CHR 0xE2, CHR 0x80, CHR 0xA6] @ ''` for this session''\<rparr>)
                  else exact
              | _ \<Rightarrow> exact)
           else exact)
      | None \<Rightarrow>
          if rq_kind req = Some TOOL_KIND then
            Some \<lparr>sg_key = ''tool:'' @ rq_action req, sg_label = ''Allow `'' @ rq_action req @ ''` for this session''\<rparr>
          else
            Option.bind (rq_kind req) (\<lambda>kind.
            Option.bind (rq_resource req) (\<lambda>resource.
            Some \<lparr>sg_key = kind @ '':'' @ rq_action req @ '':'' @ resource, sg_label = ''Allow this for this session''\<rparr>)))"

section \<open>Deciding is a function of the set of rules\<close>

text \<open>
  What a policy promises: a denial that applies wins; otherwise an allow that applies, or
  allows for every command of a chain, answer; anything else is asked.
\<close>

definition chain_allowed :: "policy_rule set \<Rightarrow> request \<Rightarrow> bool" where
  "chain_allowed R req \<longleftrightarrow>
     (\<exists>line cs. rq_command req = Some line \<and> simple_commands line = Some cs
        \<and> (\<forall>c \<in> set cs. \<exists>rule \<in> R. chain_rule req c rule))"

definition rule_set_verdict :: "(json \<Rightarrow> string) \<Rightarrow> policy_rule set \<Rightarrow> request \<Rightarrow> verdict" where
  "rule_set_verdict jt R req =
     (if \<exists>rule \<in> R. rl_verdict rule = Deny \<and> applies jt rule req then Deny
      else if (\<exists>rule \<in> R. rl_verdict rule = Allow \<and> applies jt rule req) \<or> chain_allowed R req then Allow
      else Ask)"

lemma decide_loop_Inl:
  "decide_loop jt req rules allow = Inl rule \<Longrightarrow>
     rule \<in> set rules \<and> rl_verdict rule = Deny \<and> applies jt rule req"
  by (induction rules arbitrary: allow) (auto split: if_splits verdict.splits)

lemma decide_loop_Inr:
  "decide_loop jt req rules allow = Inr found \<Longrightarrow>
     (\<forall>rule \<in> set rules. \<not> (rl_verdict rule = Deny \<and> applies jt rule req))
     \<and> (found = None \<longleftrightarrow> allow = None \<and> (\<forall>rule \<in> set rules. \<not> (rl_verdict rule = Allow \<and> applies jt rule req)))"
proof (induction rules arbitrary: allow)
  case (Cons r rules)
  show ?case
  proof (cases "applies jt r req")
    case False
    with Cons.prems Cons.IH [of allow] show ?thesis by simp
  next
    case True
    show ?thesis
    proof (cases "rl_verdict r")
      case Allow
      with True Cons.prems Cons.IH [of "case allow of None \<Rightarrow> Some r | Some _ \<Rightarrow> allow"] show ?thesis
        by (cases allow) simp_all
    next
      case Deny
      with True Cons.prems show ?thesis by simp
    next
      case Ask
      with True Cons.prems Cons.IH [of allow] show ?thesis by simp
    qed
  qed
qed simp

lemma chain_ids_None:
  "chain_ids rules req ids cs = None \<longleftrightarrow> \<not> (\<forall>c \<in> set cs. \<exists>rule \<in> set rules. chain_rule req c rule)"
proof (induction cs arbitrary: ids)
  case (Cons c cs)
  show ?case
  proof (cases "find (chain_rule req c) rules")
    case None
    then have "\<not> (\<exists>rule \<in> set rules. chain_rule req c rule)" by (auto simp: find_None_iff)
    with None show ?thesis by simp
  next
    case (Some rule)
    then have "\<exists>rule \<in> set rules. chain_rule req c rule" by (auto simp: find_Some_iff)
    with Some Cons show ?thesis by simp
  qed
qed simp

lemma decide_chain_None: "decide_chain p req = None \<longleftrightarrow> \<not> chain_allowed (set (pl_rules p)) req"
proof (cases "rq_command req")
  case (Some line)
  show ?thesis
  proof (cases "simple_commands line")
    case cs: (Some cs)
    show ?thesis
      using chain_ids_None [of "pl_rules p" req "[]" cs]
      by (cases "chain_ids (pl_rules p) req [] cs") (simp_all add: decide_chain_def chain_allowed_def Some cs)
  qed (simp add: decide_chain_def chain_allowed_def Some)
qed (simp add: decide_chain_def chain_allowed_def)

lemma decide_chain_verdict: "decide_chain p req = Some d \<Longrightarrow> dc_verdict d = Allow"
  by (auto simp: decide_chain_def bind_eq_Some_conv)

lemma decide_verdict:
  "dc_verdict (decide jt p req) = rule_set_verdict jt (set (pl_rules p)) req"
proof (cases "decide_loop jt req (pl_rules p) None")
  case (Inl rule)
  with decide_loop_Inl [OF Inl] show ?thesis by (auto simp: decide_def rule_set_verdict_def decided_by_def)
next
  case (Inr found)
  note l = decide_loop_Inr [OF Inr]
  show ?thesis
  proof (cases found)
    case None
    then have "rule_set_verdict jt (set (pl_rules p)) req = (if chain_allowed (set (pl_rules p)) req then Allow else Ask)"
      using l by (auto simp: rule_set_verdict_def)
    with Inr None decide_chain_None [of p req] decide_chain_verdict [of p req] show ?thesis
      by (cases "decide_chain p req") (simp_all add: decide_def ask_decision_def)
  next
    case (Some rule)
    then have "rule_set_verdict jt (set (pl_rules p)) req = Allow"
      using l by (auto simp: rule_set_verdict_def)
    with Inr Some show ?thesis by (simp add: decide_def decided_by_def)
  qed
qed

text \<open>
  C2: The verdict on a request depends on the set of rules alone. Wherever in the bundle it
  stands, a denial that applies decides; without one an allow decides, whether a single rule
  or one for each command of the chain; a request nothing speaks to is asked. The order of
  the rules can change which rule is named, never the verdict.
\<close>

theorem decide_is_order_independent:
  "dc_verdict (decide jt p req) = rule_set_verdict jt (set (pl_rules p)) req"
  by (rule decide_verdict)

section \<open>The shipped bundle\<close>

text \<open>The rules of \<^verbatim>\<open>src/node/src/policy/working-agreements.toml\<close>, in its order.\<close>

definition rule_harness_settings :: policy_rule where
  "rule_harness_settings =
     \<lparr>rl_id = ''harness-settings'', rl_verdict = Deny,
      rl_reason = ''The harness'' @ [CHR 0x27] @ ''s settings are the node'' @ [CHR 0x27] @ ''s, not the session'' @ [CHR 0x27] @ ''s: a settings file could allow tools without asking. Change the work, not the harness.'',
      rl_kinds = [],
      rl_matches =
        [''.claude/settings''],
      rl_args = [], rl_channels = []\<rparr>"

definition rule_git_internals :: policy_rule where
  "rule_git_internals =
     \<lparr>rl_id = ''git-internals'', rl_verdict = Deny,
      rl_reason = ''Git'' @ [CHR 0x27] @ ''s internals are not the work: a hook or config written there runs on whoever commits next. Change tracked files and commit them.'',
      rl_kinds = [''write''],
      rl_matches =
        [''.git/''],
      rl_args = [], rl_channels = []\<rparr>"

definition rule_review_before_publish :: policy_rule where
  "rule_review_before_publish =
     \<lparr>rl_id = ''review-before-publish'', rl_verdict = Deny,
      rl_reason = ''Publishing goes through review. Commit, then call submit_review; the node publishes what a human approves.'',
      rl_kinds = [],
      rl_matches =
        [''gh pr create'', ''glab mr create'', ''git push'', ''gh release create''],
      rl_args = [], rl_channels = []\<rparr>"

definition rule_reads_and_thoughts :: policy_rule where
  "rule_reads_and_thoughts =
     \<lparr>rl_id = ''reads-and-thoughts'', rl_verdict = Allow,
      rl_reason = ''Reading a file or updating the plan changes nothing outside the session.'',
      rl_kinds = [''read'', ''think''],
      rl_matches = [],
      rl_args = [], rl_channels = []\<rparr>"

definition rule_boundary_shell :: policy_rule where
  "rule_boundary_shell =
     \<lparr>rl_id = ''boundary-shell'', rl_verdict = Allow,
      rl_reason = ''A command runs inside the session'' @ [CHR 0x27] @ ''s boundary: no route out but its granted egress, no credentials, and nothing it makes is published until the operator approves it at review.'',
      rl_kinds = [''execute''],
      rl_matches = [],
      rl_args = [], rl_channels = []\<rparr>"

definition rule_boundary_writes :: policy_rule where
  "rule_boundary_writes =
     \<lparr>rl_id = ''boundary-writes'', rl_verdict = Allow,
      rl_reason = ''An edit inside the session'' @ [CHR 0x27] @ ''s boundary reaches nothing until the operator approves the diff at review.'',
      rl_kinds = [''write''],
      rl_matches = [],
      rl_args = [], rl_channels = []\<rparr>"

definition rule_brokered_reads :: policy_rule where
  "rule_brokered_reads =
     \<lparr>rl_id = ''brokered-reads'', rl_verdict = Allow,
      rl_reason = ''A read-only query or lookup, a search, a pipeline or check read, or a report/review submission or verdict that only enters the operator queue changes nothing the operator has not agreed to.'',
      rl_kinds = [''tool''],
      rl_matches =
        [''query'', ''describe'', ''submit_review'', ''review_status'', ''submit_report'',
         ''report_status'', ''review_verdict'', ''mr_status'', ''mr_discussions'',
         ''mr_for_branch'', ''pipeline_status'', ''pipeline_wait'', ''pipeline_list_by_sha'',
         ''job_trace'', ''pr_status'', ''pr_threads'', ''pr_for_branch'', ''run_status'',
         ''run_logs'', ''run_wait'', ''issue'', ''issue_search'', ''issue_transitions''],
      rl_args = [], rl_channels = []\<rparr>"

definition rule_corpus_and_ledger :: policy_rule where
  "rule_corpus_and_ledger =
     \<lparr>rl_id = ''corpus-and-ledger'', rl_verdict = Allow,
      rl_reason = ''Recalling what is known, reading a document or the ledger, retaining a fact, or recording and closing work changes nothing the operator has not agreed to.'',
      rl_kinds = [''tool''],
      rl_matches =
        [''recall'', ''retain'', ''doc_read'', ''doc_search'', ''work_ready'', ''work_list'',
         ''work_show'', ''work_discover'', ''work_close''],
      rl_args = [], rl_channels = []\<rparr>"

definition rule_unattended_notes :: policy_rule where
  "rule_unattended_notes =
     \<lparr>rl_id = ''unattended-notes'', rl_verdict = Allow,
      rl_reason = ''Keeping working notes current changes nothing the operator has not agreed to; plans, guides and references are asked.'',
      rl_kinds = [''tool''],
      rl_matches =
        [''doc_write'', ''doc_edit''],
      rl_args = [(''slug_working_note'', Flag True)], rl_channels = []\<rparr>"

definition rule_unattended_browser :: policy_rule where
  "rule_unattended_browser =
     \<lparr>rl_id = ''unattended-browser'', rl_verdict = Allow,
      rl_reason = ''A headless browser beside the session reaches only what the session already can.'',
      rl_kinds = [''tool''],
      rl_matches =
        [''service_start''],
      rl_args = [(''name'', Globs [''browser''])], rl_channels = []\<rparr>"

definition rule_service_status :: policy_rule where
  "rule_service_status =
     \<lparr>rl_id = ''service-status'', rl_verdict = Allow,
      rl_reason = ''Reading whether a service is ready changes nothing.'',
      rl_kinds = [''tool''],
      rl_matches =
        [''service_status''],
      rl_args = [], rl_channels = []\<rparr>"

definition WORKING_AGREEMENTS :: policy where
  "WORKING_AGREEMENTS =
     \<lparr>pl_version = 23,
      pl_rules = [rule_harness_settings, rule_git_internals, rule_review_before_publish,
        rule_reads_and_thoughts, rule_boundary_shell, rule_boundary_writes, rule_brokered_reads,
        rule_corpus_and_ledger, rule_unattended_notes, rule_unattended_browser, rule_service_status],
      pl_trusted = False\<rparr>"

definition shipped :: policy where
  "shipped = WORKING_AGREEMENTS\<lparr>pl_trusted := True\<rparr>"

definition shipped_version :: nat where
  "shipped_version = pl_version shipped"

section \<open>What is allowed without asking\<close>

text \<open>
  C13: A command line is allowed without asking only by a rule that allows everything in its scope, or
  command by command. For a request with a command line, of a kind other than a brokered tool or an
  authority: if it is allowed, then an allow rule whose channels and kinds take in the request sets no
  conditions at all (the shipped \<open>boundary-shell\<close> rule is one), or the line has no shell operator in it and
  leads with a command that an allow rule in scope names, or it splits into simple commands each of which
  leads with one; and no denial in scope names any part of the request.
\<close>

theorem allowed_line_is_allowed_commands:
  assumes "dc_verdict (decide jt p req) = Allow" and "rq_command req = Some line"
    and "rq_kind req = Some kind" and "kind \<notin> {TOOL_KIND, ''authority''}"
  shows "((\<exists>rule \<in> set (pl_rules p). rl_verdict rule = Allow \<and> in_scope rule req \<and> rl_matches rule = [] \<and> rl_args rule = [])
      \<or> (\<exists>cs. cs \<noteq> [] \<and> (simple_commands line = Some cs \<or>
        cs = [lowercase (trim line)] \<and> set (lowercase (trim line)) \<inter> set allow_specials = {})
      \<and> (\<forall>c \<in> set cs. \<exists>rule \<in> set (pl_rules p). rl_verdict rule = Allow \<and> in_scope rule req \<and> leads rule c)))
    \<and> (\<forall>rule \<in> set (pl_rules p). rl_verdict rule = Deny \<longrightarrow> in_scope rule req \<longrightarrow>
        (\<forall>m \<in> set (rl_matches rule). \<not> contains_str (haystack jt req) (lowercase m)))"
proof -
  let ?R = "set (pl_rules p)"
  note v = assms(1) [unfolded decide_verdict rule_set_verdict_def]
  have no_deny: "\<not> applies jt rule req" if "rule \<in> ?R" "rl_verdict rule = Deny" for rule
    using v that by (auto split: if_splits)
  have "\<forall>m \<in> set (rl_matches rule). \<not> contains_str (haystack jt req) (lowercase m)"
    if "rule \<in> ?R" "rl_verdict rule = Deny" "in_scope rule req" for rule
    using no_deny [OF that(1,2)] that(2,3) by (auto simp: applies_def in_scope_def list_ex_iff split: if_splits)
  moreover from v consider rule where "rule \<in> ?R" "rl_verdict rule = Allow" "applies jt rule req"
    | "chain_allowed ?R req" by (auto split: if_splits)
  then have "(\<exists>rule \<in> ?R. rl_verdict rule = Allow \<and> in_scope rule req \<and> rl_matches rule = [] \<and> rl_args rule = [])
      \<or> (\<exists>cs. cs \<noteq> [] \<and> (simple_commands line = Some cs \<or>
        cs = [lowercase (trim line)] \<and> set (lowercase (trim line)) \<inter> set allow_specials = {})
      \<and> (\<forall>c \<in> set cs. \<exists>rule \<in> ?R. rl_verdict rule = Allow \<and> in_scope rule req \<and> leads rule c))"
  proof cases
    case 1
    then have "in_scope rule req" and open_or: "rl_matches rule = [] \<and> rl_args rule = [] \<or> allows rule req"
      by (auto simp: applies_def in_scope_def split: if_splits)
    show ?thesis
    proof (cases "rl_matches rule = [] \<and> rl_args rule = []")
      case True
      with 1 \<open>in_scope rule req\<close> show ?thesis by blast
    next
      case False
      then have "allows rule req" using open_or by blast
      then have "set (lowercase (trim line)) \<inter> set allow_specials = {}" "leads rule (lowercase (trim line))"
        using assms(2-4) by (auto simp: allows_def Let_def list_ex_iff split: if_splits)
      with 1 \<open>in_scope rule req\<close> show ?thesis by (intro disjI2 exI [of _ "[lowercase (trim line)]"]) auto
    qed
  next
    case 2
    then obtain cs where cs: "simple_commands line = Some cs" "\<forall>c \<in> set cs. \<exists>rule \<in> ?R. chain_rule req c rule"
      using assms(2) by (auto simp: chain_allowed_def)
    moreover have "cs \<noteq> []" using cs(1) simple_commands_nonempty by blast
    ultimately show ?thesis by (intro disjI2 exI [of _ cs]) (auto simp: chain_rule_def)
  qed
  ultimately show ?thesis by blast
qed

definition narrow_policy :: policy where
  "narrow_policy =
     \<lparr>pl_version = 1,
      pl_rules = [\<lparr>rl_id = ''no-push'', rl_verdict = Deny, rl_reason = ''review'', rl_kinds = [],
           rl_matches = [''git push''], rl_args = [], rl_channels = []\<rparr>,
         \<lparr>rl_id = ''read-only-shell'', rl_verdict = Allow, rl_reason = ''reading'', rl_kinds = [''execute''],
           rl_matches = [''ls'', ''cat''], rl_args = [], rl_channels = []\<rparr>],
      pl_trusted = True\<rparr>"

definition command_request :: "string \<Rightarrow> request" where
  "command_request line = \<lparr>rq_channel = ''c'', rq_action = ''bash'', rq_kind = Some ''execute'', rq_resource = None,
     rq_command = Some line, rq_arguments = None, rq_doc_kinds = None\<rparr>"

theorem allowed_line_is_allowed_commands_witness:
  "\<exists>cs. cs \<noteq> [] \<and> (\<forall>c \<in> set cs. \<exists>rule \<in> set (pl_rules narrow_policy). rl_verdict rule = Allow \<and> leads rule c)"
proof -
  have "dc_verdict (decide (\<lambda>_. []) narrow_policy (command_request ''ls | cat'')) = Allow" by code_simp
  from allowed_line_is_allowed_commands [OF this, of "''ls | cat''" "''execute''"] show ?thesis
    by (auto simp: command_request_def TOOL_KIND_def narrow_policy_def)
qed

text \<open>The names the shipped bundle allows a brokered tool by, as they are compared.\<close>

definition unattended_tools :: "string list" where
  "unattended_tools = rl_matches rule_brokered_reads @ rl_matches rule_corpus_and_ledger @ rl_matches rule_service_status"

lemma shipped_patterns:
  "map (lowercase \<circ> trim) unattended_tools = unattended_tools"
  "map (lowercase \<circ> trim) [''doc_write'', ''doc_edit'', ''service_start''] = [''doc_write'', ''doc_edit'', ''service_start'']"
  by code_simp+

lemmas shipped_rules = rule_harness_settings_def rule_git_internals_def rule_review_before_publish_def
  rule_reads_and_thoughts_def rule_boundary_shell_def rule_boundary_writes_def rule_brokered_reads_def
  rule_corpus_and_ledger_def rule_unattended_notes_def rule_unattended_browser_def rule_service_status_def

lemma pl_rules_shipped:
  "pl_rules shipped = [rule_harness_settings, rule_git_internals, rule_review_before_publish,
     rule_reads_and_thoughts, rule_boundary_shell, rule_boundary_writes, rule_brokered_reads,
     rule_corpus_and_ledger, rule_unattended_notes, rule_unattended_browser, rule_service_status]"
  by (simp add: shipped_def WORKING_AGREEMENTS_def)

lemma names_action_patterns:
  assumes "map (lowercase \<circ> trim) (rl_matches rule) = rl_matches rule" and "rl_matches rule \<noteq> []"
  shows "names_action rule req \<longleftrightarrow> lowercase (trim (rq_action req)) \<in> set (rl_matches rule)"
proof -
  have "names_action rule req \<longleftrightarrow> lowercase (trim (rq_action req)) \<in> set (map (lowercase \<circ> trim) (rl_matches rule))"
    using assms(2)
    by (simp add: names_action_def list_ex_iff eq_ignore_case_def image_iff eq_commute [of "lowercase (trim (rq_action req))"])
  then show ?thesis by (simp only: assms(1))
qed

lemma shipped_names:
  "names_action rule_brokered_reads req \<or> names_action rule_corpus_and_ledger req \<or> names_action rule_service_status req
     \<longleftrightarrow> lowercase (trim (rq_action req)) \<in> set unattended_tools"
  "names_action rule_unattended_notes req \<longleftrightarrow> lowercase (trim (rq_action req)) \<in> {''doc_write'', ''doc_edit''}"
  "names_action rule_unattended_browser req \<longleftrightarrow> lowercase (trim (rq_action req)) = ''service_start''"
proof -
  have split: "map (lowercase \<circ> trim) (rl_matches rule) = rl_matches rule"
    if "rule \<in> {rule_brokered_reads, rule_corpus_and_ledger, rule_service_status}" for rule
    using that shipped_patterns(1) by (auto simp: unattended_tools_def)
  have ne: "rl_matches rule_brokered_reads \<noteq> []" "rl_matches rule_corpus_and_ledger \<noteq> []" "rl_matches rule_service_status \<noteq> []"
    by (simp_all add: shipped_rules)
  show "names_action rule_brokered_reads req \<or> names_action rule_corpus_and_ledger req \<or> names_action rule_service_status req
     \<longleftrightarrow> lowercase (trim (rq_action req)) \<in> set unattended_tools"
    using split ne by (simp add: names_action_patterns unattended_tools_def)
  have m: "rl_matches rule_unattended_notes = [''doc_write'', ''doc_edit'']"
    "rl_matches rule_unattended_browser = [''service_start'']" by (simp_all add: shipped_rules)
  show "names_action rule_unattended_notes req \<longleftrightarrow> lowercase (trim (rq_action req)) \<in> {''doc_write'', ''doc_edit''}"
    using shipped_patterns(2) m(1) by (subst names_action_patterns) simp_all
  show "names_action rule_unattended_browser req \<longleftrightarrow> lowercase (trim (rq_action req)) = ''service_start''"
    using shipped_patterns(2) m(2) by (subst names_action_patterns) simp_all
qed

definition tool_allows :: "policy_rule \<Rightarrow> request \<Rightarrow> bool" where
  "tool_allows rule req \<longleftrightarrow> names_action rule req \<and> list_all (\<lambda>(key, want). admits want key req) (rl_args rule)"

lemma shipped_tool_allow:
  assumes "rq_kind req = Some TOOL_KIND" and "rule \<in> set (pl_rules shipped)"
    and "rl_verdict rule = Allow" and "applies jt rule req"
  shows "rule \<in> {rule_brokered_reads, rule_corpus_and_ledger, rule_unattended_notes, rule_unattended_browser, rule_service_status}"
    and "tool_allows rule req"
proof -
  have k: "rl_kinds rule \<noteq> [] \<Longrightarrow> ''tool'' \<in> set (rl_kinds rule)"
    using assms(1,4) by (simp add: applies_def TOOL_KIND_def list_ex_iff split: if_splits)
  have d: "rl_verdict rule_harness_settings = Deny" "rl_verdict rule_git_internals = Deny"
    "rl_verdict rule_review_before_publish = Deny" "rl_kinds rule_reads_and_thoughts = [''read'', ''think'']"
    "rl_kinds rule_boundary_shell = [''execute'']" "rl_kinds rule_boundary_writes = [''write'']"
    by (simp_all add: shipped_rules)
  show r: "rule \<in> {rule_brokered_reads, rule_corpus_and_ledger, rule_unattended_notes, rule_unattended_browser, rule_service_status}"
    using assms(2,3) k d unfolding pl_rules_shipped by auto
  have "rl_matches rule_brokered_reads \<noteq> []" "rl_matches rule_corpus_and_ledger \<noteq> []" "rl_matches rule_service_status \<noteq> []"
    "rl_matches rule_unattended_notes \<noteq> []" "rl_matches rule_unattended_browser \<noteq> []"
    by (simp_all add: shipped_rules)
  with r have "rl_matches rule \<noteq> []" by auto
  with assms show "tool_allows rule req" by (auto simp: applies_def allows_def tool_allows_def split: if_splits)
qed

lemma shipped_tool_cases:
  assumes a: "rq_kind req = Some TOOL_KIND \<and> rq_command req = None \<and> dc_verdict (decide jt shipped req) = Allow"
  shows "lowercase (trim (rq_action req)) \<in> set unattended_tools
      \<or> lowercase (trim (rq_action req)) \<in> {''doc_write'', ''doc_edit''}
        \<and> (\<exists>slug kinds. arg_value req ''slug'' = Some slug \<and> rq_doc_kinds req = Some kinds
             \<and> is_working_note kinds (trim slug))
      \<or> lowercase (trim (rq_action req)) = ''service_start'' \<and> arg_value req ''name'' = Some ''browser''"
proof -
  from a obtain rule where rule: "rule \<in> set (pl_rules shipped)" "rl_verdict rule = Allow" "applies jt rule req"
    by (auto simp: decide_verdict rule_set_verdict_def chain_allowed_def split: if_splits)
  note s = shipped_tool_allow [OF _ rule]
  from a s have ta: "tool_allows rule req"
    and "rule \<in> {rule_brokered_reads, rule_corpus_and_ledger, rule_unattended_notes, rule_unattended_browser, rule_service_status}"
    by blast+
  then consider "names_action rule_brokered_reads req \<or> names_action rule_corpus_and_ledger req \<or> names_action rule_service_status req"
    | "tool_allows rule_unattended_notes req" | "tool_allows rule_unattended_browser req"
    by (auto simp: tool_allows_def)
  then show ?thesis
  proof cases
    case 1
    then show ?thesis unfolding shipped_names(1) by blast
  next
    case 2
    then have "names_action rule_unattended_notes req" and ad: "admits (Flag True) SLUG_WORKING_NOTE req"
      by (simp_all add: tool_allows_def rule_unattended_notes_def SLUG_WORKING_NOTE_def del: admits.simps)
    moreover from ad obtain slug kinds where "arg_value req ''slug'' = Some slug" "rq_doc_kinds req = Some kinds"
      "is_working_note kinds (trim slug)" by (auto split: option.splits)
    ultimately show ?thesis unfolding shipped_names(2) by blast
  next
    case 3
    then have n: "names_action rule_unattended_browser req" and ad: "admits (Globs [''browser'']) ''name'' req"
      by (simp_all add: tool_allows_def rule_unattended_browser_def del: admits.simps)
    from ad have "arg_value req ''name'' = Some ''browser''"
      by (auto simp: SLUG_WORKING_NOTE_def glob_def split: option.splits)
    with n show ?thesis unfolding shipped_names(3) by blast
  qed
qed

text \<open>
  What the shipped bundle answers by itself. A request that mentions publishing in any
  part a denial reads is denied. A brokered tool is allowed without asking only when it is one
  of the named reads and records, or it writes a document whose kind the configuration marks a
  working note, or it starts the browser; every other tool is put to the operator.
\<close>

theorem shipped_bundle_gates:
  "(list_ex (contains_str (haystack jt req)) [''gh pr create'', ''glab mr create'', ''git push'', ''gh release create'']
      \<longrightarrow> dc_verdict (decide jt shipped req) = Deny)
   \<and> (rq_kind req = Some TOOL_KIND \<and> rq_command req = None \<and> dc_verdict (decide jt shipped req) = Allow \<longrightarrow>
      lowercase (trim (rq_action req)) \<in> set unattended_tools
      \<or> lowercase (trim (rq_action req)) \<in> {''doc_write'', ''doc_edit''}
        \<and> (\<exists>slug kinds. arg_value req ''slug'' = Some slug \<and> rq_doc_kinds req = Some kinds
             \<and> is_working_note kinds (trim slug))
      \<or> lowercase (trim (rq_action req)) = ''service_start'' \<and> arg_value req ''name'' = Some ''browser'')"
proof (intro conjI impI)
  assume m: "list_ex (contains_str (haystack jt req)) [''gh pr create'', ''glab mr create'', ''git push'', ''gh release create'']"
  have "map lowercase [''gh pr create'', ''glab mr create'', ''git push'', ''gh release create'']
      = [''gh pr create'', ''glab mr create'', ''git push'', ''gh release create'']" by code_simp
  then have "list_ex (\<lambda>m. contains_str (haystack jt req) (lowercase m)) (rl_matches rule_review_before_publish)"
    using m by (simp add: rule_review_before_publish_def)
  moreover have "rl_verdict rule_review_before_publish = Deny" "rl_kinds rule_review_before_publish = []"
    "rl_channels rule_review_before_publish = []" "rl_matches rule_review_before_publish \<noteq> []"
    by (simp_all add: rule_review_before_publish_def)
  ultimately have "applies jt rule_review_before_publish req" by (simp add: applies_def)
  with \<open>rl_verdict rule_review_before_publish = Deny\<close> show "dc_verdict (decide jt shipped req) = Deny"
    by (auto simp: decide_verdict rule_set_verdict_def pl_rules_shipped)
qed (rule shipped_tool_cases)

theorem shipped_bundle_gates_witness:
  "dc_verdict (decide (\<lambda>_. []) shipped (command_request ''cd x && git push'')) = Deny"
proof -
  have "list_ex (contains_str (haystack (\<lambda>_. []) (command_request ''cd x && git push'')))
      [''gh pr create'', ''glab mr create'', ''git push'', ''gh release create'']" by code_simp
  then show ?thesis using shipped_bundle_gates [of "\<lambda>_. []" "command_request ''cd x && git push''"] by blast
qed

end
