(* ===== verification/Policy_Bundle.thy ===== *)
theory Policy_Bundle
  imports Policy Wire_Bytes
begin

text \<open>
  Signed policy bundles, \<^verbatim>\<open>src/node/src/policy/bundle.rs\<close>: the files a node keeps them in,
  loading, previewing, initializing, judging an offered bundle and installing it, with the
  delivery from the mesh of \<^verbatim>\<open>src/node/src/mesh/client.rs\<close> and the rules in force of
  \<^verbatim>\<open>src/node/src/http/mod.rs\<close>. The four files are their text; a file that is missing is the
  only failure of reading one, and writing does not fail but may be cut short between two
  renames. Ed25519, SHA-256 and the TOML parser are a parameter.
\<close>

section \<open>Files and libraries\<close>

record policy_files =
  pf_bundle :: "string option"
  pf_sig :: "string option"
  pf_pub :: "string option"
  pf_key :: "string option"

record bundle_libs =
  valid_key :: "bytes \<Rightarrow> bool"
  public_half :: "bytes \<Rightarrow> bytes"
  ed_sign :: "bytes \<Rightarrow> string \<Rightarrow> bytes"
  ed_verify :: "bytes \<Rightarrow> string \<Rightarrow> bytes \<Rightarrow> bool"
  sha256_of :: "string \<Rightarrow> bytes"
  toml_policy :: "string \<Rightarrow> policy option"

text \<open>What the code relies on: what a key signs its public half verifies, and the sizes.\<close>

definition bundle_libs_ok :: "bundle_libs \<Rightarrow> bool" where
  "bundle_libs_ok l \<longleftrightarrow>
     (\<forall>k m. length k = 32 \<longrightarrow> length (public_half l k) = 32 \<and> valid_key l (public_half l k)
        \<and> length (ed_sign l k m) = 64 \<and> ed_verify l (public_half l k) m (ed_sign l k m))"

datatype bundle_error = Io_NotFound | Parse | NoSignature | BadSignature | NoKey | BadKey | KeyMismatch
  | Untrusted | AlreadyConfigured

record signed_bundle =
  sb_toml :: string
  sb_sig_hex :: string
  sb_pubkey_hex :: string
  sb_sha256 :: string
  sb_policy :: policy

definition bundle_sha256 :: "bundle_libs \<Rightarrow> string \<Rightarrow> string" where
  "bundle_sha256 l bundle = hex_encode (sha256_of l bundle)"

definition read_file :: "string option \<Rightarrow> (bundle_error, string) result" where
  "read_file f = (case f of None \<Rightarrow> Err Io_NotFound | Some s \<Rightarrow> Ok s)"

definition read_hex_key :: "string option \<Rightarrow> (bundle_error, bytes) result" where
  "read_hex_key f =
     bind_result (read_file f) (\<lambda>text.
     case hex_decode (trim text) of
       None \<Rightarrow> Err BadKey
     | Some b \<Rightarrow> if length b = 32 then Ok b else Err BadKey)"

definition io_no_key :: "(bundle_error, 'a) result \<Rightarrow> (bundle_error, 'a) result" where
  "io_no_key r = (case r of Err e \<Rightarrow> Err (if e = Io_NotFound then NoKey else e) | Ok x \<Rightarrow> Ok x)"

section \<open>Signing and verifying\<close>

definition verify_bundle :: "bundle_libs \<Rightarrow> string \<Rightarrow> string \<Rightarrow> bytes \<Rightarrow> (bundle_error, unit) result" where
  "verify_bundle l bundle signature_hex public_key =
     (if \<not> valid_key l public_key then Err BadKey
      else (case hex_decode signature_hex of
          None \<Rightarrow> Err BadSignature
        | Some raw \<Rightarrow>
            if length raw = 64 \<and> ed_verify l public_key bundle raw then Ok () else Err BadSignature))"

definition parse_bundle :: "bundle_libs \<Rightarrow> string \<Rightarrow> (bundle_error, policy) result" where
  "parse_bundle l bundle =
     (case toml_policy l bundle of None \<Rightarrow> Err Parse | Some p \<Rightarrow> Ok (p\<lparr>pl_trusted := True\<rparr>))"

definition write_key :: "bundle_libs \<Rightarrow> bytes \<Rightarrow> policy_files \<Rightarrow> policy_files" where
  "write_key l signing fs = fs\<lparr>pf_key := Some (hex_encode signing), pf_pub := Some (hex_encode (public_half l signing))\<rparr>"

definition sign_bundle :: "bundle_libs \<Rightarrow> policy_files \<Rightarrow> string \<Rightarrow> (bundle_error, string) result" where
  "sign_bundle l fs bundle = bind_result (read_hex_key (pf_key fs)) (\<lambda>k. Ok (hex_encode (ed_sign l k bundle)))"

definition public_identity :: "policy_files \<Rightarrow> (bundle_error, string) result" where
  "public_identity fs = bind_result (read_hex_key (pf_pub fs)) (\<lambda>k. Ok (hex_encode k))"

definition preview :: "bundle_libs \<Rightarrow> policy_files \<Rightarrow> string \<Rightarrow> (bundle_error, signed_bundle) result" where
  "preview l fs bundle =
     bind_result (parse_bundle l bundle) (\<lambda>p.
     bind_result (io_no_key (read_hex_key (pf_pub fs))) (\<lambda>pub.
     bind_result (io_no_key (read_hex_key (pf_key fs))) (\<lambda>signing.
     if public_half l signing \<noteq> pub then Err KeyMismatch
     else Ok \<lparr>sb_toml = bundle, sb_sig_hex = hex_encode (ed_sign l signing bundle),
            sb_pubkey_hex = hex_encode pub, sb_sha256 = bundle_sha256 l bundle, sb_policy = p\<rparr>)))"

definition configured :: "policy_files \<Rightarrow> bool" where
  "configured fs \<longleftrightarrow> pf_bundle fs \<noteq> None \<or> pf_sig fs \<noteq> None \<or> pf_pub fs \<noteq> None \<or> pf_key fs \<noteq> None"

text \<open>\<open>locked\<close> is the reservation file: setup that fails after taking it leaves it behind.\<close>

definition initialize_shipped :: "bundle_libs \<Rightarrow> string \<Rightarrow> bytes \<Rightarrow> bool \<Rightarrow> policy_files
    \<Rightarrow> bool \<times> policy_files \<times> (bundle_error, signed_bundle) result" where
  "initialize_shipped l agreements key locked fs =
     (if configured fs then (locked, fs, Err AlreadyConfigured)
      else if locked then (locked, fs, Err AlreadyConfigured)
      else
        (let fs1 = write_key l key fs in
         case preview l fs1 agreements of
           Err e \<Rightarrow> (True, fs1, Err e)
         | Ok b \<Rightarrow> (False, fs1\<lparr>pf_sig := Some (sb_sig_hex b), pf_bundle := Some (sb_toml b)\<rparr>, Ok b)))"

section \<open>Loading\<close>

definition current_bundle :: "bundle_libs \<Rightarrow> policy_files \<Rightarrow> (bundle_error, signed_bundle) result" where
  "current_bundle l fs =
     bind_result (read_file (pf_bundle fs)) (\<lambda>toml.
     case pf_sig fs of None \<Rightarrow> Err NoSignature | Some sig \<Rightarrow>
     bind_result (io_no_key (read_hex_key (pf_pub fs))) (\<lambda>pub.
     bind_result (verify_bundle l toml (trim sig) pub) (\<lambda>_.
     bind_result (parse_bundle l toml) (\<lambda>p.
     Ok \<lparr>sb_toml = toml, sb_sig_hex = trim sig, sb_pubkey_hex = hex_encode pub,
          sb_sha256 = bundle_sha256 l toml, sb_policy = p\<rparr>))))"

definition load_bundle :: "bundle_libs \<Rightarrow> policy_files \<Rightarrow> (bundle_error, policy) result" where
  "load_bundle l fs =
     bind_result (read_file (pf_bundle fs)) (\<lambda>text.
     case pf_sig fs of None \<Rightarrow> Err NoSignature | Some sig \<Rightarrow>
     bind_result (io_no_key (read_hex_key (pf_pub fs))) (\<lambda>pub.
     bind_result (verify_bundle l text (trim sig) pub) (\<lambda>_.
     parse_bundle l text)))"

definition no_policy :: policy where
  "no_policy = \<lparr>pl_version = 0, pl_rules = [], pl_trusted = False\<rparr>"

definition policy_in_force :: "bundle_libs \<Rightarrow> policy_files \<Rightarrow> policy" where
  "policy_in_force l fs = (case load_bundle l fs of Ok p \<Rightarrow> p | Err _ \<Rightarrow> no_policy)"

definition export_bundle :: "policy_files \<Rightarrow> (string \<times> string \<times> string) option" where
  "export_bundle fs =
     (case (pf_bundle fs, pf_sig fs, pf_pub fs) of
        (Some toml, Some sig, Some key) \<Rightarrow> Some (toml, trim sig, trim key)
      | _ \<Rightarrow> None)"

section \<open>Installing\<close>

datatype rename_step = Write_Pub string | Write_Sig string | Write_Bundle string

fun do_write :: "rename_step \<Rightarrow> policy_files \<Rightarrow> policy_files" where
  "do_write (Write_Pub s) fs = fs\<lparr>pf_pub := Some s\<rparr>"
| "do_write (Write_Sig s) fs = fs\<lparr>pf_sig := Some s\<rparr>"
| "do_write (Write_Bundle s) fs = fs\<lparr>pf_bundle := Some s\<rparr>"

definition key_trusted :: "policy_files \<Rightarrow> bool \<Rightarrow> bytes \<Rightarrow> (bundle_error, unit) result" where
  "key_trusted fs trust_new_key offered =
     (case read_hex_key (pf_pub fs) of
        Ok installed \<Rightarrow> if installed \<noteq> offered then Err KeyMismatch else Ok ()
      | Err e \<Rightarrow>
          if e = Io_NotFound then (if \<not> trust_new_key then Err Untrusted else Ok ())
          else Err e)"

text \<open>The policy and the renames that install it, in order.\<close>

definition install_bundle :: "bundle_libs \<Rightarrow> policy_files \<Rightarrow> string \<Rightarrow> string \<Rightarrow> string \<Rightarrow> bool
    \<Rightarrow> (bundle_error, policy \<times> rename_step list) result" where
  "install_bundle l fs bundle signature_hex public_key_hex trust_new_key =
     (case hex_decode (trim public_key_hex) of
        None \<Rightarrow> Err BadKey
      | Some offered \<Rightarrow>
          if length offered \<noteq> 32 then Err BadKey
          else
            bind_result (key_trusted fs trust_new_key offered) (\<lambda>_.
            bind_result (verify_bundle l bundle (trim signature_hex) offered) (\<lambda>_.
            bind_result (parse_bundle l bundle) (\<lambda>p.
            Ok (p, [Write_Pub (hex_encode offered), Write_Sig (trim signature_hex), Write_Bundle bundle])))))"

section \<open>Offers\<close>

datatype offer = Install | AlreadyInstalled | Refuse_Key | Refuse_Older nat | Refuse_Conflict nat

definition judge_offer :: "(nat \<times> string \<times> string) option \<Rightarrow> nat \<Rightarrow> string \<Rightarrow> string \<Rightarrow> offer" where
  "judge_offer installed version sha key =
     (case installed of
        None \<Rightarrow> Install
      | Some (cur, hash, trusted) \<Rightarrow>
          if \<not> eq_ignore_case (trim trusted) (trim key) then Refuse_Key
          else if version < cur then Refuse_Older cur
          else if version = cur \<and> hash = sha then AlreadyInstalled
          else if version = cur then Refuse_Conflict cur
          else Install)"

definition offer_bundle :: "bundle_libs \<Rightarrow> policy_files \<Rightarrow> string \<Rightarrow> string \<Rightarrow> offer" where
  "offer_bundle l fs bundle public_key_hex =
     (case toml_policy l bundle of
        None \<Rightarrow> Install
      | Some offered \<Rightarrow>
          judge_offer
            (case current_bundle l fs of
               Err _ \<Rightarrow> None
             | Ok b \<Rightarrow> Some (pl_version (sb_policy b), sb_sha256 b, sb_pubkey_hex b))
            (pl_version offered) (bundle_sha256 l bundle) public_key_hex)"

text \<open>A bundle the mesh delivers, with the files and the rules the node decides by.\<close>

record delivery =
  dv_toml :: string
  dv_sig_hex :: string
  dv_pubkey_hex :: string

definition receive_policy :: "bundle_libs \<Rightarrow> delivery \<Rightarrow> policy_files \<times> policy \<Rightarrow> policy_files \<times> policy" where
  "receive_policy l d st =
     (case st of (fs, cached) \<Rightarrow>
       (case offer_bundle l fs (dv_toml d) (dv_pubkey_hex d) of
          Install \<Rightarrow>
            (case install_bundle l fs (dv_toml d) (dv_sig_hex d) (dv_pubkey_hex d) False of
               Ok (p, ws) \<Rightarrow> (fold do_write ws fs, p)
             | Err _ \<Rightarrow> (fs, cached))
        | _ \<Rightarrow> (fs, cached)))"

section \<open>The bundle on disk\<close>

lemma read_hex_key_encode [simp]: "length k = 32 \<Longrightarrow> read_hex_key (Some (hex_encode k)) = Ok k"
  by (simp add: read_hex_key_def read_file_def)

lemma current_Ok:
  "current_bundle l fs = Ok b \<longleftrightarrow>
     (\<exists>toml sig pub p. pf_bundle fs = Some toml \<and> pf_sig fs = Some sig \<and> read_hex_key (pf_pub fs) = Ok pub
        \<and> verify_bundle l toml (trim sig) pub = Ok () \<and> parse_bundle l toml = Ok p
        \<and> b = \<lparr>sb_toml = toml, sb_sig_hex = trim sig, sb_pubkey_hex = hex_encode pub,
                sb_sha256 = bundle_sha256 l toml, sb_policy = p\<rparr>)"
  by (cases "pf_bundle fs"; cases "pf_sig fs"; cases "read_hex_key (pf_pub fs)")
     (auto simp: current_bundle_def read_file_def bind_result_eq_Ok io_no_key_def)

lemma load_current: "load_bundle l fs = (case current_bundle l fs of Err e \<Rightarrow> Err e | Ok b \<Rightarrow> Ok (sb_policy b))"
  by (simp add: load_bundle_def current_bundle_def bind_result_def split: sum.split option.split)

lemma install_Ok:
  "install_bundle l fs bundle sig pk t = Ok (p, ws) \<longleftrightarrow>
     (\<exists>offered. hex_decode (trim pk) = Some offered \<and> length offered = 32 \<and> key_trusted fs t offered = Ok ()
        \<and> verify_bundle l bundle (trim sig) offered = Ok () \<and> parse_bundle l bundle = Ok p
        \<and> ws = [Write_Pub (hex_encode offered), Write_Sig (trim sig), Write_Bundle bundle])"
  by (cases "hex_decode (trim pk)") (auto simp: install_bundle_def bind_result_eq_Ok)

lemma current_installed:
  assumes "install_bundle l fs bundle sig pk t = Ok (p, ws)"
  shows "\<exists>b. current_bundle l (fold do_write ws fs) = Ok b \<and> sb_policy b = p \<and> sb_toml b = bundle
    \<and> (\<exists>offered. hex_decode (trim pk) = Some offered \<and> sb_pubkey_hex b = hex_encode offered)"
  using assms by (auto simp: install_Ok current_Ok)

lemma read_hex_key_length: "read_hex_key f = Ok k \<Longrightarrow> length k = 32"
  by (auto simp: read_hex_key_def bind_result_eq_Ok split: option.splits if_splits)

lemma key_trusted_installed: "read_hex_key (pf_pub fs) = Ok k \<Longrightarrow> key_trusted fs t offered = Ok () \<longleftrightarrow> offered = k"
  by (auto simp: key_trusted_def)

text \<open>One delivery: the key stays, the version does not go down, the rules follow the files.\<close>

lemma receive_step:
  assumes "current_bundle l fs = Ok b" and "cached = sb_policy b"
  shows "\<exists>b'. current_bundle l (fst (receive_policy l d (fs, cached))) = Ok b'
    \<and> snd (receive_policy l d (fs, cached)) = sb_policy b'
    \<and> sb_pubkey_hex b' = sb_pubkey_hex b
    \<and> (b' = b \<or> pl_version (sb_policy b) < pl_version (sb_policy b'))"
proof -
  let ?o = "offer_bundle l fs (dv_toml d) (dv_pubkey_hex d)"
  let ?i = "install_bundle l fs (dv_toml d) (dv_sig_hex d) (dv_pubkey_hex d) False"
  show ?thesis
  proof (cases "?o = Install \<and> is_ok ?i")
    case False
    then have "receive_policy l d (fs, cached) = (fs, cached)"
      by (cases ?i; cases ?o) (auto simp: receive_policy_def)
    with assms show ?thesis by simp
  next
    case True
    then obtain p ws where i: "?i = Ok (p, ws)" by (auto simp: is_ok_iff)
    with True have r: "receive_policy l d (fs, cached) = (fold do_write ws fs, p)" by (simp add: receive_policy_def)
    from current_installed [OF i] obtain b' offered where b': "current_bundle l (fold do_write ws fs) = Ok b'" "sb_policy b' = p"
      "hex_decode (trim (dv_pubkey_hex d)) = Some offered" "sb_pubkey_hex b' = hex_encode offered" by blast
    from assms(1) obtain pub where pub: "read_hex_key (pf_pub fs) = Ok pub" "sb_pubkey_hex b = hex_encode pub"
      by (auto simp: current_Ok)
    from i b'(3) have "key_trusted fs False offered = Ok ()" by (auto simp: install_Ok)
    with pub have key: "sb_pubkey_hex b' = sb_pubkey_hex b" using b'(4) key_trusted_installed by simp
    from i obtain q where q: "toml_policy l (dv_toml d) = Some q" "p = q\<lparr>pl_trusted := True\<rparr>"
      by (auto simp: install_Ok parse_bundle_def split: option.splits)
    with True assms(1) have "pl_version (sb_policy b) < pl_version q"
      by (auto simp: offer_bundle_def judge_offer_def split: if_splits)
    with r b' key q show ?thesis by simp
  qed
qed

text \<open>
  C14: The mesh cannot roll a node's policy back. From a verified bundle, whatever bundles peers
  deliver and in whatever order, the node keeps a bundle that verifies under the key it
  trusted before, its version never goes down, a bundle of the same version is never
  exchanged for another, and the rules it decides by are those of the bundle on disk.
\<close>

theorem mesh_policy_never_regresses:
  assumes "current_bundle l fs = Ok b" and "cached = sb_policy b"
  shows "\<exists>b'. current_bundle l (fst (fold (receive_policy l) ds (fs, cached))) = Ok b'
    \<and> snd (fold (receive_policy l) ds (fs, cached)) = sb_policy b'
    \<and> policy_in_force l (fst (fold (receive_policy l) ds (fs, cached))) = sb_policy b'
    \<and> sb_pubkey_hex b' = sb_pubkey_hex b
    \<and> (b' = b \<or> pl_version (sb_policy b) < pl_version (sb_policy b'))"
  using assms
proof (induction ds arbitrary: fs cached b)
  case Nil
  then show ?case by (simp add: policy_in_force_def load_current)
next
  case (Cons d ds)
  from receive_step [OF Cons.prems, of d] obtain b1 where b1: "current_bundle l (fst (receive_policy l d (fs, cached))) = Ok b1"
    "snd (receive_policy l d (fs, cached)) = sb_policy b1" "sb_pubkey_hex b1 = sb_pubkey_hex b"
    "b1 = b \<or> pl_version (sb_policy b) < pl_version (sb_policy b1)" by blast
  from Cons.IH [OF b1(1,2)] b1(3,4) show ?case by (fastforce simp: prod.collapse)
qed

text \<open>A node that initializes itself decides by the shipped rules.\<close>

lemma initialize_current:
  assumes "bundle_libs_ok l" and "length key = 32" and "\<not> configured fs" and "toml_policy l agreements = Some p"
  shows "\<exists>b. initialize_shipped l agreements key False fs
      = (False, (write_key l key fs)\<lparr>pf_sig := Some (sb_sig_hex b), pf_bundle := Some agreements\<rparr>, Ok b)
    \<and> current_bundle l ((write_key l key fs)\<lparr>pf_sig := Some (sb_sig_hex b), pf_bundle := Some agreements\<rparr>) = Ok b
    \<and> sb_policy b = p\<lparr>pl_trusted := True\<rparr> \<and> sb_pubkey_hex b = hex_encode (public_half l key)"
proof -
  have ok: "length (public_half l key) = 32" "valid_key l (public_half l key)" "length (ed_sign l key agreements) = 64"
    "ed_verify l (public_half l key) agreements (ed_sign l key agreements)"
    using assms(1,2) by (auto simp: bundle_libs_ok_def)
  let ?b = "\<lparr>sb_toml = agreements, sb_sig_hex = hex_encode (ed_sign l key agreements),
      sb_pubkey_hex = hex_encode (public_half l key), sb_sha256 = bundle_sha256 l agreements, sb_policy = p\<lparr>pl_trusted := True\<rparr>\<rparr>"
  have "preview l (write_key l key fs) agreements = Ok ?b"
    using ok assms(2,4) by (simp add: preview_def write_key_def parse_bundle_def io_no_key_def)
  then show ?thesis using ok assms
    by (intro exI [of _ ?b]) (simp add: initialize_shipped_def current_Ok Let_def write_key_def verify_bundle_def parse_bundle_def)
qed

definition toy_libs :: bundle_libs where
  "toy_libs =
     \<lparr>valid_key = \<lambda>_. True, public_half = \<lambda>k. k, ed_sign = \<lambda>k m. take 64 (k @ m @ replicate 64 CHR 0x00),
      ed_verify = \<lambda>k m s. s = take 64 (k @ m @ replicate 64 CHR 0x00), sha256_of = \<lambda>m. m,
      toml_policy = \<lambda>s. if s = ''one'' then Some narrow_policy
        else if s = ''two'' then Some (narrow_policy\<lparr>pl_version := 2\<rparr>) else None\<rparr>"

lemma toy_libs_ok: "bundle_libs_ok toy_libs"
  by (auto simp: bundle_libs_ok_def toy_libs_def)

definition toy_key :: bytes where
  "toy_key = replicate 32 CHR 0x05"

definition no_files :: policy_files where
  "no_files = \<lparr>pf_bundle = None, pf_sig = None, pf_pub = None, pf_key = None\<rparr>"

definition toy_delivery :: "string \<Rightarrow> delivery" where
  "toy_delivery toml = \<lparr>dv_toml = toml, dv_sig_hex = hex_encode (ed_sign toy_libs toy_key toml),
     dv_pubkey_hex = hex_encode toy_key\<rparr>"

lemma toy_initialized:
  "\<exists>b fs. current_bundle toy_libs fs = Ok b \<and> sb_policy b = narrow_policy \<and> sb_pubkey_hex b = hex_encode toy_key
     \<and> read_hex_key (pf_pub fs) = Ok toy_key"
proof -
  have "\<not> configured no_files" "length toy_key = 32" "toml_policy toy_libs ''one'' = Some narrow_policy"
    by (simp_all add: configured_def no_files_def toy_key_def toy_libs_def)
  from initialize_current [OF toy_libs_ok this(2,1,3)] obtain b fs where "current_bundle toy_libs fs = Ok b"
    "sb_policy b = narrow_policy\<lparr>pl_trusted := True\<rparr>" "sb_pubkey_hex b = hex_encode (public_half toy_libs toy_key)"
    "pf_pub fs = Some (hex_encode toy_key)"
    by (fastforce simp: write_key_def toy_libs_def)
  moreover have "narrow_policy\<lparr>pl_trusted := True\<rparr> = narrow_policy" by (simp add: narrow_policy_def)
  moreover have "public_half toy_libs toy_key = toy_key" by (simp add: toy_libs_def)
  ultimately show ?thesis using \<open>length toy_key = 32\<close> by (metis read_hex_key_encode)
qed

theorem mesh_policy_never_regresses_witness:
  "\<exists>fs b b'. current_bundle toy_libs fs = Ok b
    \<and> policy_in_force toy_libs (fst (fold (receive_policy toy_libs) [toy_delivery ''two'', toy_delivery ''one''] (fs, sb_policy b)))
      = sb_policy b'
    \<and> sb_pubkey_hex b' = sb_pubkey_hex b
    \<and> (b' = b \<or> pl_version (sb_policy b) < pl_version (sb_policy b'))"
proof -
  obtain b fs where "current_bundle toy_libs fs = Ok b" using toy_initialized by blast
  with mesh_policy_never_regresses [OF this refl, of "[toy_delivery ''two'', toy_delivery ''one'']"] show ?thesis by blast
qed

section \<open>A crash while installing\<close>

lemma decide_no_policy: "dc_verdict (decide jt no_policy req) = Ask"
proof -
  have "cs \<noteq> []" if "simple_commands line = Some cs" for line cs using that by (rule simple_commands_nonempty)
  then show ?thesis by (auto simp: decide_verdict rule_set_verdict_def chain_allowed_def no_policy_def)
qed

text \<open>
  C38: What a crash while a bundle is installed leaves, for a node with a verified bundle. The install writes
  the key, the signature and the bundle, each whole or not at all. Before the signature is written the old
  rules stand; after the bundle is written the new ones do. Between the two the old bundle stands under the
  new signature: unless that signature verifies the old bundle too (as it does when the same bundle is
  installed again), the node then has no rules, and with no rules every request is asked.
\<close>

theorem install_crash_fails_closed:
  assumes "current_bundle l fs = Ok b" and "install_bundle l fs bundle sig pk t = Ok (p, ws)"
  shows "policy_in_force l (fold do_write (take k ws) fs) =
      (if k \<le> 1 then sb_policy b
       else if k = 2 then
         (if verify_bundle l (sb_toml b) (trim sig) (the (hex_decode (trim pk))) = Ok () then sb_policy b else no_policy)
       else p)
    \<and> dc_verdict (decide jt no_policy req) = Ask"
proof (rule conjI)
  from assms(1) obtain old oldsig pub where old: "pf_bundle fs = Some old" "pf_sig fs = Some oldsig" "read_hex_key (pf_pub fs) = Ok pub"
    "verify_bundle l old (trim oldsig) pub = Ok ()" "parse_bundle l old = Ok (sb_policy b)" "sb_toml b = old"
    by (auto simp: current_Ok)
  from assms(2) obtain offered where new: "hex_decode (trim pk) = Some offered" "length offered = 32" "key_trusted fs t offered = Ok ()"
    "verify_bundle l bundle (trim sig) offered = Ok ()" "parse_bundle l bundle = Ok p"
    "ws = [Write_Pub (hex_encode offered), Write_Sig (trim sig), Write_Bundle bundle]" by (auto simp: install_Ok)
  have same: "offered = pub" using old(3) new(3) by (auto simp: key_trusted_def split: if_splits)
  note eval = policy_in_force_def load_bundle_def read_file_def io_no_key_def
  consider "k = 0" | "k = 1" | "k = 2" | "k = Suc (Suc (Suc (k - 3)))" by linarith
  then show "policy_in_force l (fold do_write (take k ws) fs) =
      (if k \<le> 1 then sb_policy b
       else if k = 2 then
         (if verify_bundle l (sb_toml b) (trim sig) (the (hex_decode (trim pk))) = Ok () then sb_policy b else no_policy)
       else p)"
  proof cases
    case 1
    with old show ?thesis by (simp add: eval)
  next
    case 2
    with old new same show ?thesis by (simp add: eval)
  next
    case 3
    with old new same show ?thesis
      by (cases "verify_bundle l old (trim sig) offered") (simp_all add: eval)
  next
    case 4
    then have "take k ws = ws" using new(6) by simp
    with 4 new show ?thesis by (simp add: eval)
  qed
  show "dc_verdict (decide jt no_policy req) = Ask" by (rule decide_no_policy)
qed

lemma toy_toml:
  assumes "current_bundle toy_libs fs = Ok b" and "sb_policy b = narrow_policy"
  shows "sb_toml b = ''one''"
proof -
  have "parse_bundle toy_libs (sb_toml b) = Ok narrow_policy" using assms by (auto simp: current_Ok)
  then show ?thesis by (auto simp: parse_bundle_def toy_libs_def narrow_policy_def split: option.splits if_splits)
qed

lemma toy_foreign_signature: "verify_bundle toy_libs ''one'' (trim (dv_sig_hex (toy_delivery ''two''))) toy_key \<noteq> Ok ()"
  by (simp add: verify_bundle_def toy_delivery_def toy_libs_def toy_key_def)

text \<open>The second bundle is installed over the first and the node dies between its signature and its bundle.\<close>

theorem install_crash_fails_closed_witness:
  "\<exists>fs ws. policy_in_force toy_libs fs = narrow_policy
     \<and> policy_in_force toy_libs (fold do_write (take 2 ws) fs) = no_policy
     \<and> policy_in_force toy_libs (fold do_write (take 3 ws) fs) = narrow_policy\<lparr>pl_version := 2\<rparr>"
proof -
  obtain b fs where b: "current_bundle toy_libs fs = Ok b" "sb_policy b = narrow_policy" "read_hex_key (pf_pub fs) = Ok toy_key"
    using toy_initialized by blast
  let ?d = "toy_delivery ''two''"
  have "\<exists>ws. install_bundle toy_libs fs (dv_toml ?d) (dv_sig_hex ?d) (dv_pubkey_hex ?d) False
      = Ok (narrow_policy\<lparr>pl_version := 2\<rparr>, ws)"
    using b(3) by (simp add: install_Ok toy_delivery_def key_trusted_def verify_bundle_def parse_bundle_def toy_libs_def
        toy_key_def narrow_policy_def)
  then obtain ws where ws: "install_bundle toy_libs fs (dv_toml ?d) (dv_sig_hex ?d) (dv_pubkey_hex ?d) False
      = Ok (narrow_policy\<lparr>pl_version := 2\<rparr>, ws)" ..
  have k: "the (hex_decode (trim (dv_pubkey_hex ?d))) = toy_key" by (simp add: toy_delivery_def)
  have "verify_bundle toy_libs (sb_toml b) (trim (dv_sig_hex ?d)) (the (hex_decode (trim (dv_pubkey_hex ?d)))) \<noteq> Ok ()"
    using toy_foreign_signature unfolding k toy_toml [OF b(1,2)] .
  with install_crash_fails_closed [OF b(1) ws, of 0] install_crash_fails_closed [OF b(1) ws, of 2]
    install_crash_fails_closed [OF b(1) ws, of 3] b(2)
  show ?thesis by (intro exI [of _ fs] exI [of _ ws]) simp
qed

end
