(* ===== verification/Utf8_Text.thy ===== *)
theory Utf8_Text
  imports Text_Prims
begin

text \<open>
  \<open>String::from_utf8_lossy\<close>, characters and lines of a text, as the agent's tools and the
  stream decoders use them.
\<close>

section \<open>Lossy decoding\<close>

text \<open>How long the sequence is that a byte starts, and the range of its second byte.\<close>

definition lead :: "nat \<Rightarrow> (nat \<times> nat \<times> nat) option" where
  "lead a =
     (if 194 \<le> a \<and> a \<le> 223 then Some (2, 128, 191)
      else if a = 224 then Some (3, 160, 191)
      else if 225 \<le> a \<and> a \<le> 236 \<or> 238 \<le> a \<and> a \<le> 239 then Some (3, 128, 191)
      else if a = 237 then Some (3, 128, 159)
      else if a = 240 then Some (4, 144, 191)
      else if 241 \<le> a \<and> a \<le> 243 then Some (4, 128, 191)
      else if a = 244 then Some (4, 128, 143)
      else None)"

fun conts :: "nat \<Rightarrow> string \<Rightarrow> nat" where
  "conts 0 s = 0"
| "conts (Suc n) [] = 0"
| "conts (Suc n) (c # s) = (if cont c then Suc (conts n s) else 0)"

text \<open>The bytes the next step takes, and whether they are a character or the longest part of
  one that cannot be completed.\<close>

fun next_char :: "string \<Rightarrow> nat \<times> bool" where
  "next_char [] = (0, True)"
| "next_char (a # s) =
     (if byte a < 128 then (1, True)
      else (case lead (byte a) of
          None \<Rightarrow> (1, False)
        | Some (n, lo, hi) \<Rightarrow>
            (case s of
               [] \<Rightarrow> (1, False)
             | b # s' \<Rightarrow>
                 if lo \<le> byte b \<and> byte b \<le> hi then
                   (let k = conts (n - 2) s' in (2 + k, k = n - 2))
                 else (1, False))))"

lemma next_char_pos: "s \<noteq> [] \<Longrightarrow> 0 < fst (next_char s)"
  by (cases s) (auto simp: Let_def split: option.splits list.splits)

definition replacement :: string where
  "replacement = [CHR 0xEF, CHR 0xBF, CHR 0xBD]"

function from_utf8_lossy :: "string \<Rightarrow> string" where
  "from_utf8_lossy s =
     (if s = [] then []
      else (let (n, ok) = next_char s in
        (if ok then take n s else replacement) @ from_utf8_lossy (drop n s)))"
  by auto
termination
proof (relation "measure length", goal_cases)
  case (2 s x n ok)
  then have "0 < n" using next_char_pos [of s] by (metis fst_conv)
  with 2 show ?case by simp
qed simp

declare from_utf8_lossy.simps [simp del]

lemma next_char_valid: "utf8_valid s \<Longrightarrow> snd (next_char s) \<and> utf8_valid (drop (fst (next_char s)) s)"
proof (cases s)
  case (Cons a r)
  assume v: "utf8_valid s"
  consider "byte a < 128" | "128 \<le> byte a" "194 \<le> byte a \<and> byte a \<le> 223" | "224 \<le> byte a \<and> byte a \<le> 239"
    | "128 \<le> byte a" "\<not> (194 \<le> byte a \<and> byte a \<le> 239)" by linarith
  then show ?thesis
  proof cases
    case 1
    with v Cons show ?thesis by simp
  next
    case 2
    with v Cons obtain b r' where r: "r = b # r'" "cont b" "utf8_valid r'" by (auto split: list.splits)
    have "lead (byte a) = Some (2, 128, 191)" using 2 by (simp add: lead_def)
    with 2 r Cons show ?thesis by (simp add: cont_def)
  next
    case 3
    with v Cons obtain b c r' where r: "r = b # c # r'" "cont b" "cont c" "byte a = 224 \<longrightarrow> 160 \<le> byte b"
      "byte a = 237 \<longrightarrow> byte b \<le> 159" "utf8_valid r'" by (auto split: list.splits)
    then have "\<exists>lo hi. lead (byte a) = Some (3, lo, hi) \<and> lo \<le> byte b \<and> byte b \<le> hi"
      using 3 by (auto simp: lead_def cont_def)
    with 3 r Cons show ?thesis by (auto simp: Let_def)
  next
    case 4
    with v Cons obtain b c d r' where r: "r = b # c # d # r'" "240 \<le> byte a" "byte a \<le> 244" "cont b" "cont c" "cont d"
      "byte a = 240 \<longrightarrow> 144 \<le> byte b" "byte a = 244 \<longrightarrow> byte b \<le> 143" "utf8_valid r'"
      by (auto split: list.splits if_splits)
    then have "\<exists>lo hi. lead (byte a) = Some (4, lo, hi) \<and> lo \<le> byte b \<and> byte b \<le> hi"
      by (auto simp: lead_def cont_def)
    with 4 r Cons show ?thesis by (auto simp: Let_def numeral_2_eq_2)
  qed
qed simp

lemma utf8_valid_append: "utf8_valid t \<Longrightarrow> utf8_valid s \<Longrightarrow> utf8_valid (s @ t)"
proof (induction "length s" arbitrary: s rule: less_induct)
  case (less s)
  show ?case
  proof (cases s)
    case (Cons a r)
    have IH: "utf8_valid x \<Longrightarrow> length x < length s \<Longrightarrow> utf8_valid (x @ t)" for x using less by blast
    consider "byte a < 128" | "128 \<le> byte a" "194 \<le> byte a \<and> byte a \<le> 223" | "224 \<le> byte a \<and> byte a \<le> 239"
      | "128 \<le> byte a" "\<not> (194 \<le> byte a \<and> byte a \<le> 239)" by linarith
    then show ?thesis
    proof cases
      case 1
      with Cons IH [of r] less(3) show ?thesis by simp
    next
      case 2
      with Cons less(3) obtain b r' where r: "r = b # r'" "cont b" "utf8_valid r'" by (auto split: list.splits)
      with 2 Cons IH [of r'] show ?thesis by simp
    next
      case 3
      with Cons less(3) obtain b c r' where r: "r = b # c # r'" "cont b" "cont c" "byte a = 224 \<longrightarrow> 160 \<le> byte b"
        "byte a = 237 \<longrightarrow> byte b \<le> 159" "utf8_valid r'" by (auto split: list.splits)
      with 3 Cons IH [of r'] show ?thesis by simp
    next
      case 4
      with Cons less(3) obtain b c d r' where r: "r = b # c # d # r'" "240 \<le> byte a" "byte a \<le> 244" "cont b" "cont c" "cont d"
        "byte a = 240 \<longrightarrow> 144 \<le> byte b" "byte a = 244 \<longrightarrow> byte b \<le> 143" "utf8_valid r'"
        by (auto split: list.splits if_splits)
      with 4 Cons IH [of r'] show ?thesis by simp
    qed
  qed (use less in simp)
qed

lemma from_utf8_lossy_valid: "utf8_valid s \<Longrightarrow> from_utf8_lossy s = s"
proof (induction s rule: from_utf8_lossy.induct)
  case (1 s)
  show ?case
  proof (cases "s = []")
    case True
    then show ?thesis by (subst from_utf8_lossy.simps) simp
  next
    case False
    obtain n ok where n: "next_char s = (n, ok)" by (cases "next_char s")
    with next_char_valid [OF 1(2)] have "ok" "utf8_valid (drop n s)" by simp_all
    with 1(1) [OF False n [symmetric] refl] False n show ?thesis by (subst from_utf8_lossy.simps) simp
  qed
qed

section \<open>Characters and lines\<close>

definition char_count :: "string \<Rightarrow> nat" where
  "char_count s = length (filter (\<lambda>c. \<not> cont c) s)"

fun take_chars :: "nat \<Rightarrow> string \<Rightarrow> string" where
  "take_chars n [] = []"
| "take_chars n (c # s) =
     (if cont c then c # take_chars n s else (case n of 0 \<Rightarrow> [] | Suc m \<Rightarrow> c # take_chars m s))"

abbreviation LF :: char where
  "LF \<equiv> CHR 0x0A"

abbreviation CR :: char where
  "CR \<equiv> CHR 0x0D"

text \<open>\<open>str::lines\<close>: the line that nothing ends is kept as it is.\<close>

definition strip_cr :: "string \<Rightarrow> string" where
  "strip_cr s = (if s \<noteq> [] \<and> last s = CR then butlast s else s)"

definition str_lines :: "string \<Rightarrow> string list" where
  "str_lines s =
     (let ps = split_on LF s in
      map strip_cr (butlast ps) @ (if last ps = [] then [] else [last ps]))"

end
