(* ===== verification/Doc_Edits.thy ===== *)
theory Doc_Edits
  imports Doc_Kinds Utf8_Text
begin

text \<open>
  What the document tools decide by themselves, \<^verbatim>\<open>src/node/src/mcp/docs.rs\<close>: the format and slug of
  a call, what is refused before the operator is asked, the edits of \<open>doc_edit\<close> and what they
  make of a document, and the hash a held call is pinned to. A document is the part of its row
  these read; \<open>lookup\<close> is the store's document at a slug of the call's channel. The text of a
  JSON value is the parameter \<open>jt\<close>.
\<close>

section \<open>Calls\<close>

record document =
  dc_slug :: string
  dc_title :: string
  dc_body :: string
  dc_hash :: string
  dc_format :: string
  dc_entry_path :: "string option"
  dc_source_name :: "string option"
  dc_updated_ms :: int

datatype doc_format = Markdown | Html

datatype edit_error = Shape | Item nat | Matches nat nat

datatype doc_refusal = Reserved_Slug | Bad_Slug string | Bad_Format string | Html_Too_Large string
  | Bad_Edits edit_error | Needs_Hash | Html_Not_Edited string | Doc_Conflict string | No_Document string

definition arg_slug :: "json \<Rightarrow> string" where
  "arg_slug args = trim (case as_str (jindex args ''slug'') of Some s \<Rightarrow> s | None \<Rightarrow> [])"

definition parse_format :: "string option \<Rightarrow> (doc_refusal, doc_format) result" where
  "parse_format format =
     (case map_option trim format of
        None \<Rightarrow> Ok Markdown
      | Some f \<Rightarrow> if f = ''markdown'' then Ok Markdown else if f = ''html'' then Ok Html else Err (Bad_Format f))"

definition format_of_args :: "(json \<Rightarrow> string) \<Rightarrow> json \<Rightarrow> (doc_refusal, doc_format) result" where
  "format_of_args jt args =
     (case jindex args ''format'' of
        JNull \<Rightarrow> parse_format None
      | JStr f \<Rightarrow> parse_format (Some f)
      | other \<Rightarrow> Err (Bad_Format (jt other)))"

definition valid_slug :: "string \<Rightarrow> bool" where
  "valid_slug slug \<longleftrightarrow> slug \<noteq> [] \<and> length slug \<le> 120
     \<and> list_all (\<lambda>b. is_lower b \<or> is_digit b \<or> b \<in> set ''-._'') slug \<and> hd slug \<noteq> CHR ''.''"

definition html_entry :: "string \<Rightarrow> document option \<Rightarrow> string" where
  "html_entry slug existing =
     (case existing of
        Some d \<Rightarrow>
          (if dc_format d = ''html'' then (case dc_entry_path d of Some p \<Rightarrow> p | None \<Rightarrow> slug @ ''.html'')
           else slug @ ''.html'')
      | None \<Rightarrow> slug @ ''.html'')"

definition html_source_name :: "string \<Rightarrow> document option \<Rightarrow> string" where
  "html_source_name slug existing =
     (case existing of
        Some d \<Rightarrow>
          (if dc_format d = ''html'' then (case dc_source_name d of Some p \<Rightarrow> p | None \<Rightarrow> slug @ ''.html'')
           else slug @ ''.html'')
      | None \<Rightarrow> slug @ ''.html'')"

definition title_of :: "doc_kind list \<Rightarrow> string \<Rightarrow> string \<Rightarrow> string" where
  "title_of kinds slug body =
     (let heading = (case filter (\<lambda>l. starts_with l ''# '') (str_lines body) of
            l # _ \<Rightarrow> Some (trim (drop 2 l)) | [] \<Rightarrow> None) in
      case heading of
        Some t \<Rightarrow>
          if t \<noteq> [] then t
          else map (\<lambda>c. if c = CHR ''-'' then CHR '' '' else c)
            (case strip_prefix (kind_of kinds slug @ ''-'') slug of Some r \<Rightarrow> r | None \<Rightarrow> slug)
      | None \<Rightarrow> map (\<lambda>c. if c = CHR ''-'' then CHR '' '' else c)
            (case strip_prefix (kind_of kinds slug @ ''-'') slug of Some r \<Rightarrow> r | None \<Rightarrow> slug))"

section \<open>Edits\<close>

definition MAX_EDITS :: nat where
  "MAX_EDITS = 64"

record doc_edit =
  e_old_str :: string
  e_new_str :: string

fun edit_items :: "nat \<Rightarrow> json list \<Rightarrow> (edit_error, doc_edit list) result" where
  "edit_items i [] = Ok []"
| "edit_items i (item # items) =
     (case (as_str (jindex item ''old_str''), as_str (jindex item ''new_str'')) of
        (Some old, Some new) \<Rightarrow>
          if old \<noteq> [] then
            bind_result (edit_items (i + 1) items) (\<lambda>es. Ok (\<lparr>e_old_str = old, e_new_str = new\<rparr> # es))
          else Err (Item i)
      | _ \<Rightarrow> Err (Item i))"

definition edits_of :: "json \<Rightarrow> (edit_error, doc_edit list) result" where
  "edits_of args =
     (case jindex args ''edits'' of
        JArr items \<Rightarrow> if 1 \<le> length items \<and> length items \<le> MAX_EDITS then edit_items 0 items else Err Shape
      | _ \<Rightarrow> Err Shape)"

text \<open>The places \<open>old\<close> is found at, each search starting one character after the last find.\<close>

function occurrences :: "string \<Rightarrow> nat \<Rightarrow> string \<Rightarrow> nat list" where
  "occurrences old pos s =
     (if old = [] then []
      else
        (case split_once old s of
           None \<Rightarrow> []
         | Some (a, b) \<Rightarrow>
             (let k = length a + fst (next_char (drop (length a) s)) in
              (pos + length a) # occurrences old (pos + k) (drop k s))))"
  by pat_completeness auto
termination
proof (relation "measure (\<lambda>(old, pos, s). length s)", goal_cases)
  case (2 old pos s x a b k)
  then have s: "s = a @ old @ b" by (auto dest: split_once_Some)
  then have "drop (length a) s \<noteq> []" using 2 by simp
  then have "0 < k" "0 < length s" using next_char_pos 2(4) by auto
  then show ?case by (simp only: in_measure case_prod_conv length_drop diff_less)
qed simp

declare occurrences.simps [simp del]

fun apply_edits_from :: "nat \<Rightarrow> string \<Rightarrow> doc_edit list \<Rightarrow> (edit_error, string) result" where
  "apply_edits_from index out [] = Ok out"
| "apply_edits_from index out (e # es) =
     (case occurrences (e_old_str e) 0 out of
        [i] \<Rightarrow> apply_edits_from (index + 1) (take i out @ e_new_str e @ drop (i + length (e_old_str e)) out) es
      | ms \<Rightarrow> Err (Matches index (length ms)))"

definition apply_edits :: "string \<Rightarrow> doc_edit list \<Rightarrow> (edit_error, string) result" where
  "apply_edits body es = apply_edits_from 0 body es"

definition edit_document :: "document \<Rightarrow> json \<Rightarrow> (doc_refusal, string \<times> nat) result" where
  "edit_document d args =
     (if dc_format d = ''html'' then Err (Html_Not_Edited (dc_slug d))
      else if as_str (jindex args ''if_hash'') \<noteq> Some (dc_hash d) then Err (Doc_Conflict (dc_hash d))
      else
        (case edits_of args of
           Err e \<Rightarrow> Err (Bad_Edits e)
         | Ok es \<Rightarrow>
             (case apply_edits (dc_body d) es of Err e \<Rightarrow> Err (Bad_Edits e) | Ok body \<Rightarrow> Ok (body, length es))))"

definition edit_refusal :: "(string \<Rightarrow> document option) \<Rightarrow> json \<Rightarrow> doc_refusal option" where
  "edit_refusal lookup args =
     (case lookup (arg_slug args) of
        None \<Rightarrow> Some (No_Document (arg_slug args))
      | Some d \<Rightarrow> (case edit_document d args of Err e \<Rightarrow> Some e | Ok _ \<Rightarrow> None))"

definition MAX_FILE_BYTES :: nat where
  "MAX_FILE_BYTES = 16 * 1024 * 1024"

definition refusal_before_asking :: "(json \<Rightarrow> string) \<Rightarrow> string \<Rightarrow> json \<Rightarrow> doc_refusal option" where
  "refusal_before_asking jt name args =
     (if name \<notin> {''doc_write'', ''doc_edit'', ''doc_delete''} then None
      else if reserved_refusal args then Some Reserved_Slug
      else if \<not> valid_slug (arg_slug args) then Some (Bad_Slug (arg_slug args))
      else if name = ''doc_write'' then
        (case format_of_args jt args of
           Err e \<Rightarrow> Some e
         | Ok format \<Rightarrow>
             if format = Html \<and> MAX_FILE_BYTES < length (case as_str (jindex args ''body'') of Some b \<Rightarrow> b | None \<Rightarrow> []) then
               Some (Html_Too_Large (html_entry (arg_slug args) None))
             else None)
      else if name = ''doc_edit'' then
        (case edits_of args of
           Err e \<Rightarrow> Some (Bad_Edits e)
         | Ok _ \<Rightarrow>
             (case as_str (jindex args ''if_hash'') of
                Some h \<Rightarrow> if h = [] then Some Needs_Hash else None
              | None \<Rightarrow> Some Needs_Hash))
      else None)"

text \<open>A key of an object is replaced where it stands, a new one goes to its place in order.\<close>

fun obj_insert :: "string \<Rightarrow> json \<Rightarrow> (string \<times> json) list \<Rightarrow> (string \<times> json) list" where
  "obj_insert k v [] = [(k, v)]"
| "obj_insert k v ((k', v') # kvs) =
     (if k = k' then (k, v) # kvs else if k < k' then (k, v) # (k', v') # kvs else (k', v') # obj_insert k v kvs)"

definition pinned_args :: "(string \<Rightarrow> document option) \<Rightarrow> json \<Rightarrow> json option" where
  "pinned_args lookup args =
     (if (case as_str (jindex args ''if_hash'') of Some h \<Rightarrow> h \<noteq> [] | None \<Rightarrow> False) then None
      else
        Option.bind (as_str (jindex args ''slug'')) (\<lambda>slug.
        Option.bind (lookup (trim slug)) (\<lambda>d.
        Option.bind (as_object args) (\<lambda>kvs. Some (JObj (obj_insert ''if_hash'' (JStr (dc_hash d)) kvs))))))"

section \<open>An edit replaces the one place its text stands\<close>

definition found_at :: "string \<Rightarrow> string \<Rightarrow> nat \<Rightarrow> bool" where
  "found_at old s i \<longleftrightarrow> (\<exists>r. drop i s = old @ r)"

lemma found_at_drop: "found_at old (drop k s) i \<longleftrightarrow> found_at old s (k + i)"
  by (simp add: found_at_def add.commute)

text \<open>The bytes of a character but the first are continuation bytes, and no text starts with one.\<close>

lemma conts_cont: "j < conts n s \<Longrightarrow> cont (s ! j)"
  by (induction n s arbitrary: j rule: conts.induct) (auto simp: nth_Cons split: nat.splits if_splits)

lemma next_char_cont:
  assumes "0 < j" and "j < fst (next_char s)" and "s \<noteq> []"
  shows "cont (s ! j)"
proof (cases s)
  case Nil
  with assms(3) show ?thesis by simp
next
  case (Cons a r)
  with assms obtain n lo hi b r' where l: "\<not> byte a < 128" "lead (byte a) = Some (n, lo, hi)" "r = b # r'"
    "lo \<le> byte b" "byte b \<le> hi" "j < 2 + conts (n - 2) r'"
    by (auto simp: Let_def split: if_splits option.splits list.splits)
  then have "128 \<le> lo" "hi \<le> 191" by (auto simp: lead_def split: if_splits)
  with l have "cont b" by (simp add: cont_def)
  with Cons l assms(1) conts_cont [of "j - 2" "n - 2" r'] show ?thesis
    by (cases j; cases "j - 1") auto
qed

lemma not_found_inside:
  assumes "old \<noteq> []" and "\<not> cont (hd old)" and "s \<noteq> []" and "0 < j" and "j < fst (next_char s)"
  shows "\<not> found_at old s j"
proof
  assume "found_at old s j"
  then obtain r where r: "drop j s = old @ r" by (auto simp: found_at_def)
  have "j < length s"
  proof (rule ccontr)
    assume "\<not> j < length s"
    with r assms(1) show False by simp
  qed
  then have "s ! j = hd old" using r assms(1) by (metis hd_append2 hd_drop_conv_nth)
  with next_char_cont [OF assms(4,5,3)] assms(2) show False by simp
qed

lemma split_once_None: "split_once old s = None \<longleftrightarrow> (\<forall>i. \<not> found_at old s i)"
proof
  assume n: "split_once old s = None"
  show "\<forall>i. \<not> found_at old s i"
  proof (intro allI notI)
    fix i
    assume "found_at old s i"
    then obtain r where "drop i s = old @ r" by (auto simp: found_at_def)
    then have "s = take i s @ old @ r" by (metis append_take_drop_id)
    with n split_once_first show False by (metis option.discI)
  qed
next
  assume a: "\<forall>i. \<not> found_at old s i"
  show "split_once old s = None"
  proof (rule ccontr)
    assume "split_once old s \<noteq> None"
    then obtain x y where "split_once old s = Some (x, y)" by auto
    then have "found_at old s (length x)" by (auto simp: found_at_def dest: split_once_Some)
    with a show False by blast
  qed
qed

lemma occurrences_all:
  assumes "old \<noteq> []" and "\<not> cont (hd old)"
  shows "set (occurrences old pos s) = {pos + i | i. found_at old s i}"
  using assms
proof (induction "length s" arbitrary: pos s rule: less_induct)
  case less
  show ?case
  proof (cases "split_once old s")
    case None
    with less.prems have "occurrences old pos s = []" by (subst occurrences.simps) simp
    with None split_once_None show ?thesis by auto
  next
    case (Some ab)
    obtain a b where ab: "split_once old s = Some (a, b)" using Some by (cases ab) auto
    from split_once_Some [OF ab] have s: "s = a @ old @ b" .
    let ?t = "drop (length a) s" and ?k = "length a + fst (next_char (drop (length a) s))"
    have t: "?t \<noteq> []" using s less.prems by simp
    then have k: "length a < ?k" using next_char_pos by simp
    have first: "length a \<le> i" if "found_at old s i" for i
    proof -
      obtain r where "drop i s = old @ r" using \<open>found_at old s i\<close> by (auto simp: found_at_def)
      then have r: "s = take i s @ old @ r" by (metis append_take_drop_id)
      from split_once_first [OF r] ab have "length r \<le> length b" by auto
      moreover have "length s = length (take i s) + length old + length r" using r by (metis length_append add.assoc)
      moreover have "length s = length a + length old + length b" using s by simp
      ultimately show ?thesis by simp
    qed
    have gap: "\<not> found_at old s i" if "length a < i" "i < ?k" for i
      using not_found_inside [OF less.prems t, of "i - length a"] that by (simp add: found_at_drop)
    have here: "found_at old s (length a)" using s by (simp add: found_at_def)
    have split: "found_at old s i \<longleftrightarrow> i = length a \<or> (\<exists>j. i = ?k + j \<and> found_at old s (?k + j))" for i
    proof
      assume f: "found_at old s i"
      with first gap have "i = length a \<or> ?k \<le> i" by (metis linorder_not_less order_le_less)
      with f show "i = length a \<or> (\<exists>j. i = ?k + j \<and> found_at old s (?k + j))" by (metis le_add_diff_inverse)
    qed (use here in auto)
    have "0 < ?k" "0 < length s" using k t by auto
    then have "length (drop ?k s) < length s" by (simp only: length_drop diff_less)
    from less.hyps [OF this less.prems, of "pos + ?k"]
    have "set (occurrences old (pos + ?k) (drop ?k s)) = {pos + ?k + j | j. found_at old s (?k + j)}"
      by (simp add: found_at_drop)
    moreover have "occurrences old pos s = (pos + length a) # occurrences old (pos + ?k) (drop ?k s)"
      using ab less.prems(1) by (subst occurrences.simps) (simp add: Let_def)
    ultimately have "set (occurrences old pos s) = insert (pos + length a) {pos + ?k + j | j. found_at old s (?k + j)}" by simp
    also have "\<dots> = {pos + i | i. i = length a \<or> (\<exists>j. i = ?k + j \<and> found_at old s (?k + j))}"
      by (auto simp: add.assoc)
    also have "\<dots> = {pos + i | i. found_at old s i}" using split by blast
    finally show ?thesis .
  qed
qed

text \<open>
  An edit is applied exactly when its text stands in the document at one place, and it
  replaces that place and nothing else. The text is one that starts with a character.
\<close>

lemma edit_replaces_one_place:
  assumes "old \<noteq> []" and "\<not> cont (hd old)"
  shows "apply_edits body [\<lparr>e_old_str = old, e_new_str = new\<rparr>] = Ok out \<Longrightarrow>
    \<exists>a b. body = a @ old @ b \<and> out = a @ new @ b \<and> (\<forall>i. found_at old body i \<longleftrightarrow> i = length a)"
proof -
  assume "apply_edits body [\<lparr>e_old_str = old, e_new_str = new\<rparr>] = Ok out"
  then obtain i where i: "occurrences old 0 body = [i]" and out: "out = take i body @ new @ drop (i + length old) body"
    by (auto simp: apply_edits_def split: list.splits)
  from occurrences_all [OF assms, of 0 body] i have f: "found_at old body j \<longleftrightarrow> j = i" for j by auto
  then obtain r where r: "drop i body = old @ r" by (auto simp: found_at_def)
  then have "i \<le> length body" using assms(1) by (metis append_is_Nil_conv drop_all nle_le)
  moreover from r have "drop (i + length old) body = r" by (metis append_eq_conv_conj drop_drop add.commute)
  ultimately have "body = take i body @ old @ r" "length (take i body) = i" using r by (simp_all) (metis append_take_drop_id)
  with f out r \<open>drop (i + length old) body = r\<close> show ?thesis by metis
qed

end
