(* ===== verification/Placement.thy ===== *)
theory Placement
  imports Path_Text
begin

text \<open>
  Where a session runs: what a provider promises
  (\<^verbatim>\<open>src/node/src/provider/capabilities.rs\<close>), what a channel and a repository require
  (\<^verbatim>\<open>src/node/src/provider/requirements.rs\<close>), and the decision over both
  (\<^verbatim>\<open>src/node/src/provider/placement.rs\<close>).
\<close>

section \<open>Capabilities\<close>

datatype tier = Container | Microvm
datatype route = NodeOnly | Unverified
datatype dns = DnsNone | DnsNode | ProviderOpen
datatype privilege = Unprivileged | RootInVm
datatype runtime_socket = Absent | Present
datatype image_identity = Exact | Derived

record capabilities =
  cp_tier :: tier
  cp_route :: route
  cp_dns :: dns
  cp_privilege :: privilege
  cp_runtime_socket :: runtime_socket
  cp_image_identity :: image_identity

fun tier_str :: "tier \<Rightarrow> string" where
  "tier_str Container = ''container''"
| "tier_str Microvm = ''microvm''"

fun route_str :: "route \<Rightarrow> string" where
  "route_str NodeOnly = ''node-only''"
| "route_str Unverified = ''unverified''"

fun dns_str :: "dns \<Rightarrow> string" where
  "dns_str DnsNone = ''none''"
| "dns_str DnsNode = ''node''"
| "dns_str ProviderOpen = ''provider-open''"

fun privilege_str :: "privilege \<Rightarrow> string" where
  "privilege_str Unprivileged = ''unprivileged''"
| "privilege_str RootInVm = ''root-in-vm''"

fun runtime_socket_str :: "runtime_socket \<Rightarrow> string" where
  "runtime_socket_str Absent = ''absent''"
| "runtime_socket_str Present = ''present''"

fun image_identity_str :: "image_identity \<Rightarrow> string" where
  "image_identity_str Exact = ''exact''"
| "image_identity_str Derived = ''derived''"

datatype provider_kind = Podman | Apple | Kubernetes | DigitalOcean

fun provider_str :: "provider_kind \<Rightarrow> string" where
  "provider_str Podman = ''podman''"
| "provider_str Apple = ''apple''"
| "provider_str Kubernetes = ''kubernetes''"
| "provider_str DigitalOcean = ''digitalocean''"

definition is_elastic :: "provider_kind \<Rightarrow> bool" where
  "is_elastic k \<longleftrightarrow> k = DigitalOcean"

record capacity =
  cy_running :: nat
  cy_limit :: "nat option"

definition is_full :: "capacity \<Rightarrow> bool" where
  "is_full c = (case cy_limit c of None \<Rightarrow> False | Some limit \<Rightarrow> limit \<le> cy_running c)"

definition capacity_str :: "capacity \<Rightarrow> string" where
  "capacity_str c =
     (case cy_limit c of
        Some limit \<Rightarrow> dec (cy_running c) @ '' of '' @ dec limit
      | None \<Rightarrow> dec (cy_running c) @ '' running'')"

section \<open>Reading the boundary checks\<close>

datatype check_id = Runtime | HarnessUnprivileged | NoRuntimeSocket | NetworkIsolated | Egress

record check_result =
  ck_id :: check_id
  ck_ok :: bool
  ck_detail :: string

type_synonym boundary_report = "check_result list"

definition report_passed :: "boundary_report \<Rightarrow> bool" where
  "report_passed report \<longleftrightarrow> list_all ck_ok report"

record capability_line =
  cl_capability :: string
  cl_value :: "string option"
  cl_check :: "check_id option"
  cl_detail :: string

record capability_report =
  cr_provider :: provider_kind
  cr_verified :: bool
  cr_lines :: "capability_line list"
  cr_capabilities :: "capabilities option"
  cr_enforced :: bool

definition find_check :: "boundary_report \<Rightarrow> check_id \<Rightarrow> check_result option" where
  "find_check report i = find (\<lambda>c. ck_id c = i) report"

definition check_passed :: "boundary_report \<Rightarrow> check_id \<Rightarrow> bool" where
  "check_passed report i = (case find_check report i of None \<Rightarrow> False | Some c \<Rightarrow> ck_ok c)"

definition check_why :: "boundary_report \<Rightarrow> check_id \<Rightarrow> string" where
  "check_why report i = (case find_check report i of None \<Rightarrow> ''the check did not run'' | Some c \<Rightarrow> ck_detail c)"

definition kind_line :: "provider_kind \<Rightarrow> boundary_report \<Rightarrow> string \<Rightarrow> string \<Rightarrow> string \<Rightarrow> capability_line" where
  "kind_line provider report capability v what =
     \<lparr>cl_capability = capability, cl_value = (if check_passed report Runtime then Some v else None),
      cl_check = Some Runtime,
      cl_detail = (if check_passed report Runtime then provider_str provider @ '' '' @ what else check_why report Runtime)\<rparr>"

definition held_line :: "boundary_report \<Rightarrow> string \<Rightarrow> check_id \<Rightarrow> string \<Rightarrow> capability_line" where
  "held_line report capability i v =
     \<lparr>cl_capability = capability, cl_value = (if check_passed report i then Some v else None),
      cl_check = Some i, cl_detail = check_why report i\<rparr>"

definition route_ok :: "boundary_report \<Rightarrow> bool" where
  "route_ok report \<longleftrightarrow> check_passed report NetworkIsolated
     \<and> (case find_check report Egress of None \<Rightarrow> True | Some c \<Rightarrow> ck_ok c)"

definition route_line :: "boundary_report \<Rightarrow> capability_line" where
  "route_line report =
     (let egress = find_check report Egress;
          route_check = (case egress of Some c \<Rightarrow> if \<not> ck_ok c then Egress else NetworkIsolated | None \<Rightarrow> NetworkIsolated) in
      \<lparr>cl_capability = ''route'',
       cl_value = Some (route_str (if route_ok report then NodeOnly else Unverified)),
       cl_check = Some route_check,
       cl_detail = (case egress of
           Some c \<Rightarrow> if ck_ok c \<and> route_ok report then check_why report NetworkIsolated @ ''; '' @ ck_detail c
                      else check_why report route_check
         | None \<Rightarrow> check_why report route_check)\<rparr>)"

definition from_checks :: "provider_kind \<Rightarrow> boundary_report \<Rightarrow> capability_report" where
  "from_checks provider report =
     (let (tier, tier_what, privilege) =
            (if provider = Apple then (Microvm, ''runs each harness in a VM of its own'', RootInVm)
             else (Container, ''runs each harness as a container'', Unprivileged));
          lines = [kind_line provider report ''tier'' (tier_str tier) tier_what,
            route_line report,
            held_line report ''dns'' NetworkIsolated (dns_str DnsNone),
            held_line report ''privilege'' HarnessUnprivileged (privilege_str privilege),
            held_line report ''runtime_socket'' NoRuntimeSocket (runtime_socket_str Absent),
            kind_line provider report ''image_identity'' (image_identity_str Exact) ''runs the image the node pinned by digest''] in
      \<lparr>cr_provider = provider, cr_verified = report_passed report, cr_lines = lines,
       cr_capabilities =
         (if list_all (\<lambda>l. cl_value l \<noteq> None) lines then
            Some \<lparr>cp_tier = tier, cp_route = (if route_ok report then NodeOnly else Unverified), cp_dns = DnsNone,
              cp_privilege = privilege, cp_runtime_socket = Absent, cp_image_identity = Exact\<rparr>
          else None),
       cr_enforced = False\<rparr>)"

section \<open>Requirements\<close>

datatype do_mode = Off | Overflow | Prefer

record requirements =
  rq_tier :: "tier list option"
  rq_route :: "route list option"
  rq_dns :: "dns list option"
  rq_privilege :: "privilege list option"
  rq_runtime_socket :: "runtime_socket list option"
  rq_image_identity :: "image_identity list option"

record channel_placement =
  cn_client :: bool
  cn_forbid_digitalocean :: bool
  cn_require :: requirements

record repo_placement =
  rp_path :: string
  rp_client :: bool
  rp_forbid_digitalocean :: bool
  rp_require :: requirements

record placement_table =
  pt_digitalocean :: do_mode
  pt_local_limit :: "nat option"
  pt_channel :: "(string \<times> channel_placement) list"
  pt_repo :: "repo_placement list"

record resolved =
  rs_requirements :: requirements
  rs_client :: bool
  rs_forbid_digitalocean :: bool

definition meet :: "'a list option \<Rightarrow> 'a list option \<Rightarrow> 'a list option" where
  "meet a b =
     (case (a, b) of
        (None, None) \<Rightarrow> None
      | (Some x, None) \<Rightarrow> Some x
      | (None, Some x) \<Rightarrow> Some x
      | (Some x, Some y) \<Rightarrow> Some (filter (\<lambda>v. v \<in> set y) x))"

definition accepts :: "'a list option \<Rightarrow> 'a \<Rightarrow> bool" where
  "accepts accepted v = (case accepted of None \<Rightarrow> True | Some vs \<Rightarrow> v \<in> set vs)"

definition spelled :: "'a list \<Rightarrow> ('a \<Rightarrow> string) \<Rightarrow> string" where
  "spelled vs as_str = (if vs = [] then ''nothing'' else join_with '' or '' (map as_str vs))"

definition any_requirements :: requirements where
  "any_requirements = \<lparr>rq_tier = None, rq_route = None, rq_dns = None, rq_privilege = None,
     rq_runtime_socket = None, rq_image_identity = None\<rparr>"

definition client_work :: requirements where
  "client_work = any_requirements\<lparr>rq_route := Some [NodeOnly], rq_dns := Some [DnsNone, DnsNode]\<rparr>"

definition and_requirements :: "requirements \<Rightarrow> requirements \<Rightarrow> requirements" where
  "and_requirements a b =
     \<lparr>rq_tier = meet (rq_tier a) (rq_tier b), rq_route = meet (rq_route a) (rq_route b),
      rq_dns = meet (rq_dns a) (rq_dns b), rq_privilege = meet (rq_privilege a) (rq_privilege b),
      rq_runtime_socket = meet (rq_runtime_socket a) (rq_runtime_socket b),
      rq_image_identity = meet (rq_image_identity a) (rq_image_identity b)\<rparr>"

definition miss :: "string \<Rightarrow> bool \<Rightarrow> 'a list option \<Rightarrow> 'a \<Rightarrow> ('a \<Rightarrow> string) \<Rightarrow> string list" where
  "miss name skip accepted v as_str =
     (if \<not> skip \<and> \<not> accepts accepted v then
        [name @ '' is '' @ as_str v @ '', and ''
         @ spelled (case accepted of None \<Rightarrow> [] | Some vs \<Rightarrow> vs) as_str @ '' is required'']
      else [])"

definition check_requirements :: "requirements \<Rightarrow> capabilities \<Rightarrow> (string, unit) result" where
  "check_requirements r caps =
     (let misses = miss ''tier'' False (rq_tier r) (cp_tier caps) tier_str
        @ miss ''route'' False (rq_route r) (cp_route caps) route_str
        @ miss ''dns'' False (rq_dns r) (cp_dns caps) dns_str
        @ miss ''privilege'' (cp_tier caps \<noteq> Container) (rq_privilege r) (cp_privilege caps) privilege_str
        @ miss ''runtime_socket'' False (rq_runtime_socket r) (cp_runtime_socket caps) runtime_socket_str
        @ miss ''image_identity'' False (rq_image_identity r) (cp_image_identity caps) image_identity_str in
      if misses = [] then Ok () else Err (join_with ''; '' misses))"

definition empty_list :: "requirements \<Rightarrow> string option" where
  "empty_list r =
     (if rq_tier r = Some [] then Some ''tier'' else if rq_route r = Some [] then Some ''route''
      else if rq_dns r = Some [] then Some ''dns'' else if rq_privilege r = Some [] then Some ''privilege''
      else if rq_runtime_socket r = Some [] then Some ''runtime_socket''
      else if rq_image_identity r = Some [] then Some ''image_identity'' else None)"

definition resolve :: "string option \<Rightarrow> placement_table \<Rightarrow> string \<Rightarrow> string option \<Rightarrow> resolved" where
  "resolve home p channel repo =
     (let on_channel = map_of (pt_channel p) channel;
          on_repo = Option.bind repo (\<lambda>repo. find (\<lambda>e. repo_path_matches home (rp_path e) repo) (pt_repo p));
          client = ((case on_channel of None \<Rightarrow> False | Some c \<Rightarrow> cn_client c)
            \<or> (case on_repo of None \<Rightarrow> False | Some r \<Rightarrow> rp_client r));
          r0 = (if client then client_work else any_requirements);
          r1 = (case on_channel of None \<Rightarrow> r0 | Some c \<Rightarrow> and_requirements r0 (cn_require c));
          r2 = (case on_repo of None \<Rightarrow> r1 | Some r \<Rightarrow> and_requirements r1 (rp_require r)) in
      \<lparr>rs_requirements = r2, rs_client = client,
       rs_forbid_digitalocean = ((case on_channel of None \<Rightarrow> False | Some c \<Rightarrow> cn_forbid_digitalocean c)
         \<or> (case on_repo of None \<Rightarrow> False | Some r \<Rightarrow> rp_forbid_digitalocean r))\<rparr>)"

datatype placement_error = Accepts_Nothing string string | Client_Nothing string string | No_Path | Named_Twice string

definition held_to :: "string \<Rightarrow> bool \<Rightarrow> requirements \<Rightarrow> (placement_error, unit) result" where
  "held_to what client require =
     (case empty_list require of
        Some field \<Rightarrow> Err (Accepts_Nothing what field)
      | None \<Rightarrow>
          (case empty_list (if client then and_requirements client_work require else require) of
             Some field \<Rightarrow> Err (Client_Nothing what field)
           | None \<Rightarrow> Ok ()))"

fun validate_channels :: "(string \<times> channel_placement) list \<Rightarrow> (placement_error, unit) result" where
  "validate_channels [] = Ok ()"
| "validate_channels ((name, e) # es) =
     bind_result (held_to (''channel '' @ name) (cn_client e) (cn_require e)) (\<lambda>_. validate_channels es)"

fun validate_repos :: "string option \<Rightarrow> component list list \<Rightarrow> repo_placement list \<Rightarrow> (placement_error, unit) result" where
  "validate_repos home seen [] = Ok ()"
| "validate_repos home seen (e # es) =
     (if rp_path e = [] then Err No_Path
      else bind_result (held_to (''repo '' @ rp_path e) (rp_client e) (rp_require e)) (\<lambda>_.
        let path = expand_home home (rp_path e) in
        if path \<in> set seen then Err (Named_Twice (rp_path e)) else validate_repos home (seen @ [path]) es))"

definition validate_placement :: "string option \<Rightarrow> placement_table \<Rightarrow> (placement_error, unit) result" where
  "validate_placement home p =
     bind_result (validate_channels (pt_channel p)) (\<lambda>_. validate_repos home [] (pt_repo p))"

section \<open>The decision\<close>

record candidate =
  ca_kind :: provider_kind
  ca_capabilities :: capabilities
  ca_capacity :: capacity
  ca_health :: "(string, unit) result"

datatype placement = Place provider_kind | Ask_Operator string provider_kind | Refuse string

datatype local_fit = Free candidate | Full candidate | Unhealthy candidate string | Unsuitable candidate string

definition local_state :: "candidate \<Rightarrow> requirements \<Rightarrow> local_fit" where
  "local_state c r =
     (case check_requirements r (ca_capabilities c) of
        Err why \<Rightarrow> Unsuitable c why
      | Ok _ \<Rightarrow>
          (case ca_health c of
             Err why \<Rightarrow> Unhealthy c why
           | Ok _ \<Rightarrow> if is_full (ca_capacity c) then Full c else Free c))"

definition elastic :: "candidate list \<Rightarrow> requirements \<Rightarrow> do_mode \<Rightarrow> bool \<Rightarrow> (string, candidate) result" where
  "elastic providers r mode forbid =
     (if mode = Off then Err ''DigitalOcean is off on this node''
      else if forbid then Err ''DigitalOcean is forbidden here''
      else (case find (\<lambda>c. is_elastic (ca_kind c)) providers of
          None \<Rightarrow> Err ''DigitalOcean is not set up on this node''
        | Some c \<Rightarrow>
            (case check_requirements r (ca_capabilities c) of
               Err why \<Rightarrow> Err (''DigitalOcean does not meet the requirements: '' @ why)
             | Ok _ \<Rightarrow>
                 (case ca_health c of
                    Err why \<Rightarrow> Err (''DigitalOcean is not verified: '' @ why)
                  | Ok _ \<Rightarrow>
                      if is_full (ca_capacity c) then
                        Err (''DigitalOcean is at its limit ('' @ capacity_str (ca_capacity c) @ '')'')
                      else Ok c))))"

fun free_of :: "local_fit \<Rightarrow> candidate list" where
  "free_of (Free c) = [c]"
| "free_of _ = []"

fun full_of :: "local_fit \<Rightarrow> string list" where
  "full_of (Full c) = [provider_str (ca_kind c) @ '' is full ('' @ capacity_str (ca_capacity c) @ '')'']"
| "full_of _ = []"

fun unhealthy_of :: "local_fit \<Rightarrow> string list" where
  "unhealthy_of (Unhealthy c why) = [provider_str (ca_kind c) @ [CHR 0x27] @ ''s boundary is not verified: '' @ why]"
| "unhealthy_of _ = []"

fun unsuitable_of :: "local_fit \<Rightarrow> string list" where
  "unsuitable_of (Unsuitable c why) = [provider_str (ca_kind c) @ '': '' @ why]"
| "unsuitable_of _ = []"

definition locals_of :: "candidate list \<Rightarrow> requirements \<Rightarrow> local_fit list" where
  "locals_of providers r = map (\<lambda>c. local_state c r) (filter (\<lambda>c. \<not> is_elastic (ca_kind c)) providers)"

definition place_local :: "local_fit list \<Rightarrow> (string, candidate) result \<Rightarrow> placement" where
  "place_local locals el =
     (let full = concat (map full_of locals); unhealthy = concat (map unhealthy_of locals);
          unsuitable = concat (map unsuitable_of locals);
          reason = (if unhealthy \<noteq> [] then join_with ''; '' unhealthy
            else if unsuitable \<noteq> [] then
              ''no local provider meets the requirements ('' @ join_with ''; '' unsuitable @ '')''
            else ''no local provider is enabled'') in
      case concat (map free_of locals) of
        c # _ \<Rightarrow> Place (ca_kind c)
      | [] \<Rightarrow>
          if full \<noteq> [] then
            (case el of Ok c \<Rightarrow> Place (ca_kind c) | Err why \<Rightarrow> Refuse (join_with ''; '' full @ ''; '' @ why))
          else
            (case el of Ok c \<Rightarrow> Ask_Operator reason (ca_kind c) | Err why \<Rightarrow> Refuse (reason @ ''; '' @ why)))"

definition place :: "candidate list \<Rightarrow> requirements \<Rightarrow> do_mode \<Rightarrow> bool \<Rightarrow> placement" where
  "place providers r mode forbid =
     (let el = elastic providers r mode forbid in
      case el of
        Ok c \<Rightarrow> if mode = Prefer then Place (ca_kind c) else place_local (locals_of providers r) el
      | Err _ \<Rightarrow> place_local (locals_of providers r) el)"

section \<open>The stricter requirement wins\<close>

definition satisfies :: "capabilities \<Rightarrow> requirements \<Rightarrow> bool" where
  "satisfies caps r \<longleftrightarrow> is_ok (check_requirements r caps)"

lemma satisfies_iff:
  "satisfies caps r \<longleftrightarrow> accepts (rq_tier r) (cp_tier caps) \<and> accepts (rq_route r) (cp_route caps)
     \<and> accepts (rq_dns r) (cp_dns caps)
     \<and> (cp_tier caps = Container \<longrightarrow> accepts (rq_privilege r) (cp_privilege caps))
     \<and> accepts (rq_runtime_socket r) (cp_runtime_socket caps)
     \<and> accepts (rq_image_identity r) (cp_image_identity caps)"
  by (simp add: satisfies_def check_requirements_def miss_def Let_def)

lemma accepts_meet [simp]: "accepts (meet a b) v \<longleftrightarrow> accepts a v \<and> accepts b v"
  by (auto simp: accepts_def meet_def split: option.splits)

lemma satisfies_and [simp]: "satisfies caps (and_requirements a b) \<longleftrightarrow> satisfies caps a \<and> satisfies caps b"
  by (auto simp: satisfies_iff and_requirements_def)

lemma satisfies_any [simp]: "satisfies caps any_requirements"
  by (simp add: satisfies_iff any_requirements_def accepts_def)

definition repo_entry :: "string option \<Rightarrow> placement_table \<Rightarrow> string option \<Rightarrow> repo_placement option" where
  "repo_entry home p repo = Option.bind repo (\<lambda>repo. find (\<lambda>e. repo_path_matches home (rp_path e) repo) (pt_repo p))"

text \<open>
  Nothing a repository says loosens what its channel or client work requires. A provider
  satisfies what a session is held to exactly when it satisfies its channel's requirements
  and its repository's, where there are any, and, where either is client work, reaches only
  the node and resolves no name through the provider; and either may forbid DigitalOcean.
\<close>

theorem stricter_requirement_wins:
  "(satisfies caps (rs_requirements (resolve home p channel repo)) \<longleftrightarrow>
     (\<forall>c. map_of (pt_channel p) channel = Some c \<longrightarrow> satisfies caps (cn_require c))
     \<and> (\<forall>r. repo_entry home p repo = Some r \<longrightarrow> satisfies caps (rp_require r))
     \<and> (rs_client (resolve home p channel repo) \<longrightarrow> cp_route caps = NodeOnly \<and> cp_dns caps \<in> {DnsNone, DnsNode}))
     \<and> (rs_forbid_digitalocean (resolve home p channel repo) \<longleftrightarrow>
          (\<exists>c. map_of (pt_channel p) channel = Some c \<and> cn_forbid_digitalocean c)
          \<or> (\<exists>r. repo_entry home p repo = Some r \<and> rp_forbid_digitalocean r))
     \<and> (rs_client (resolve home p channel repo) \<longleftrightarrow>
          (\<exists>c. map_of (pt_channel p) channel = Some c \<and> cn_client c)
          \<or> (\<exists>r. repo_entry home p repo = Some r \<and> rp_client r))"
proof -
  have c: "satisfies caps client_work \<longleftrightarrow> cp_route caps = NodeOnly \<and> cp_dns caps \<in> {DnsNone, DnsNode}"
    by (simp add: satisfies_iff client_work_def any_requirements_def accepts_def)
  show ?thesis unfolding resolve_def repo_entry_def [symmetric] Let_def
    by (cases "map_of (pt_channel p) channel"; cases "repo_entry home p repo") (auto simp: c)
qed

theorem stricter_requirement_wins_witness:
  "\<not> satisfies \<lparr>cp_tier = Microvm, cp_route = NodeOnly, cp_dns = ProviderOpen, cp_privilege = RootInVm,
      cp_runtime_socket = Absent, cp_image_identity = Derived\<rparr>
    (rs_requirements (resolve None \<lparr>pt_digitalocean = Overflow, pt_local_limit = None,
      pt_channel = [(''acme'', \<lparr>cn_client = True, cn_forbid_digitalocean = False, cn_require = any_requirements\<rparr>)],
      pt_repo = []\<rparr> ''acme'' None))"
  (is "\<not> satisfies ?caps (rs_requirements (resolve None ?p ''acme'' None))")
  using stricter_requirement_wins [of ?caps None ?p "''acme''" None] by (simp add: resolve_def repo_entry_def)

section \<open>Placement\<close>

definition usable :: "requirements \<Rightarrow> candidate \<Rightarrow> bool" where
  "usable r c \<longleftrightarrow> satisfies (ca_capabilities c) r \<and> is_ok (ca_health c) \<and> \<not> is_full (ca_capacity c)"

definition only_full :: "requirements \<Rightarrow> candidate \<Rightarrow> bool" where
  "only_full r c \<longleftrightarrow> satisfies (ca_capabilities c) r \<and> is_ok (ca_health c) \<and> is_full (ca_capacity c)"

definition local_ones :: "candidate list \<Rightarrow> candidate list" where
  "local_ones providers = filter (\<lambda>c. \<not> is_elastic (ca_kind c)) providers"

lemma local_state_cases:
  "local_state c r = Free c \<longleftrightarrow> usable r c"
  "local_state c r = Full c \<longleftrightarrow> only_full r c"
  by (cases "check_requirements r (ca_capabilities c)"; cases "ca_health c";
      simp add: local_state_def usable_def only_full_def satisfies_def)+

lemma free_of_local: "free_of (local_state c r) = (if usable r c then [c] else [])"
  by (cases "check_requirements r (ca_capabilities c)"; cases "ca_health c")
     (simp_all add: local_state_def usable_def satisfies_def)

lemma full_of_local: "full_of (local_state c r) \<noteq> [] \<longleftrightarrow> only_full r c"
  by (cases "check_requirements r (ca_capabilities c)"; cases "ca_health c")
     (simp_all add: local_state_def only_full_def satisfies_def)

lemma free_locals: "concat (map free_of (locals_of providers r)) = filter (usable r) (local_ones providers)"
  by (induction providers) (simp_all add: locals_of_def local_ones_def free_of_local)

lemma full_locals: "concat (map full_of (locals_of providers r)) \<noteq> [] \<longleftrightarrow> list_ex (only_full r) (local_ones providers)"
  by (auto simp: locals_of_def local_ones_def list_ex_iff full_of_local)

lemma elastic_Ok:
  assumes "elastic providers r mode forbid = Ok c"
  shows "c \<in> set providers" "ca_kind c = DigitalOcean" "usable r c" "mode \<noteq> Off" "\<not> forbid"
  using assms
  by (auto simp: elastic_def usable_def satisfies_def is_elastic_def find_Some_iff split: if_splits option.splits sum.splits)

lemma place_local_cases:
  "place_local (locals_of providers r) el =
     (case filter (usable r) (local_ones providers) of
        c # _ \<Rightarrow> Place (ca_kind c)
      | [] \<Rightarrow> (case el of
          Ok c \<Rightarrow> if list_ex (only_full r) (local_ones providers) then Place (ca_kind c)
                   else place_local (locals_of providers r) el
        | Err _ \<Rightarrow> place_local (locals_of providers r) el))"
  using full_locals [of providers r] free_locals [of providers r]
  by (simp add: place_local_def Let_def split: list.split sum.split)

lemma place_elastic:
  assumes "elastic providers r mode forbid = Ok c" and "mode \<noteq> Prefer" and "filter (usable r) (local_ones providers) = []"
  shows "\<exists>why. place providers r mode forbid =
    (if list_ex (only_full r) (local_ones providers) then Place (ca_kind c) else Ask_Operator why (ca_kind c))"
proof (cases "list_ex (only_full r) (local_ones providers)")
  case True
  with assms show ?thesis by (simp add: place_def place_local_cases)
next
  case False
  then have full: "concat (map full_of (locals_of providers r)) = []" using full_locals by blast
  have "concat (map free_of (locals_of providers r)) = []" using assms(3) by (simp only: free_locals)
  with assms(1,2) False full show ?thesis
    by (simp add: place_def place_local_def Let_def del: concat_eq_Nil_conv cong: if_cong)
qed

lemma place_refused:
  assumes "elastic providers r mode forbid = Err e" and "filter (usable r) (local_ones providers) = []"
  shows "\<exists>why. place providers r mode forbid = Refuse why"
proof -
  have "concat (map free_of (locals_of providers r)) = []" using assms(2) by (simp only: free_locals)
  with assms(1) show ?thesis
    by (cases "concat (map full_of (locals_of providers r)) = []")
       (simp_all add: place_def place_local_def Let_def del: concat_eq_Nil_conv)
qed

text \<open>
  C15: A session is placed only where it may run. The provider chosen is enabled, meets every
  requirement, has its isolation verified and has room. DigitalOcean is chosen only when it
  is neither off nor forbidden, and unless it is preferred only while every local provider
  that would take the session is full; when the locals are not merely full the operator is
  asked first. A session is never asked about or refused while a local provider could run it.
\<close>

theorem placed_only_where_allowed:
  "case place providers r mode forbid of
     Place k \<Rightarrow>
       (\<exists>c \<in> set providers. ca_kind c = k \<and> usable r c)
       \<and> (k = DigitalOcean \<longrightarrow> mode \<noteq> Off \<and> \<not> forbid
            \<and> (mode = Prefer \<or> \<not> list_ex (usable r) (local_ones providers) \<and> list_ex (only_full r) (local_ones providers)))
   | Ask_Operator why k \<Rightarrow>
       k = DigitalOcean \<and> mode = Overflow \<and> \<not> forbid \<and> (\<exists>c \<in> set providers. ca_kind c = k \<and> usable r c)
       \<and> \<not> list_ex (usable r) (local_ones providers) \<and> \<not> list_ex (only_full r) (local_ones providers)
   | Refuse why \<Rightarrow>
       \<not> list_ex (usable r) (local_ones providers) \<and> \<not> is_ok (elastic providers r mode forbid)"
proof -
  let ?el = "elastic providers r mode forbid" and ?free = "filter (usable r) (local_ones providers)"
  consider c where "?el = Ok c" "mode = Prefer" | c0 cs where "?free = c0 # cs" "\<not> (is_ok ?el \<and> mode = Prefer)"
    | c where "?el = Ok c" "mode \<noteq> Prefer" "?free = []" | e where "?el = Err e" "?free = []"
    by (cases ?el; cases ?free) auto
  then show ?thesis
  proof cases
    case 1
    then have "place providers r mode forbid = Place (ca_kind c)" by (simp add: place_def)
    with 1 elastic_Ok [OF 1(1)] show ?thesis by auto
  next
    case 2
    then have "place providers r mode forbid = Place (ca_kind c0)"
      by (cases ?el) (auto simp: place_def place_local_cases)
    moreover have "c0 \<in> set ?free" using 2(1) by simp
    then have "c0 \<in> set providers" "usable r c0" "ca_kind c0 \<noteq> DigitalOcean" by (auto simp: local_ones_def is_elastic_def)
    ultimately show ?thesis by auto
  next
    case 3
    then have free: "\<not> list_ex (usable r) (local_ones providers)" by (simp add: filter_empty_conv list_ex_iff)
    from 3 elastic_Ok [OF 3(1)] have m: "mode = Overflow" by (cases mode) auto
    from place_elastic [OF 3] elastic_Ok [OF 3(1)] m free show ?thesis by (auto split: if_splits)
  next
    case 4
    then have free: "\<not> list_ex (usable r) (local_ones providers)" by (simp add: filter_empty_conv list_ex_iff)
    from place_refused [OF 4] 4 free show ?thesis by auto
  qed
qed

definition podman_full :: candidate where
  "podman_full = \<lparr>ca_kind = Podman,
     ca_capabilities = \<lparr>cp_tier = Container, cp_route = NodeOnly, cp_dns = DnsNone, cp_privilege = Unprivileged,
       cp_runtime_socket = Absent, cp_image_identity = Exact\<rparr>,
     ca_capacity = \<lparr>cy_running = 4, cy_limit = Some 4\<rparr>, ca_health = Ok ()\<rparr>"

definition droplet :: candidate where
  "droplet = \<lparr>ca_kind = DigitalOcean,
     ca_capabilities = \<lparr>cp_tier = Microvm, cp_route = NodeOnly, cp_dns = ProviderOpen, cp_privilege = RootInVm,
       cp_runtime_socket = Absent, cp_image_identity = Derived\<rparr>,
     ca_capacity = \<lparr>cy_running = 1, cy_limit = None\<rparr>, ca_health = Ok ()\<rparr>"

theorem placed_only_where_allowed_witness:
  "place [podman_full, droplet] any_requirements Overflow False = Place DigitalOcean
   \<and> list_ex (only_full any_requirements) (local_ones [podman_full, droplet])"
proof -
  have p: "place [podman_full, droplet] any_requirements Overflow False = Place DigitalOcean" by code_simp
  with placed_only_where_allowed [of "[podman_full, droplet]" any_requirements Overflow False] show ?thesis by simp
qed

end
