(* ===== verification/Hashline.thy ===== *)
theory Hashline
  imports Utf8_Text Wire_Bytes
begin

text \<open>
  Lines named by number and hash, \<^verbatim>\<open>src/agent/src/hashline.rs\<close>, how \<open>read\<close> shows them
  (\<^verbatim>\<open>src/agent/src/tools/read.rs\<close>), and the \<open>edit\<close> tool that changes them
  (\<^verbatim>\<open>src/agent/src/tools/edit.rs\<close>). SHA-256 is the parameter \<open>sha\<close>. Messages to the model
  are values that carry what the text is made of; resolving the path and the write itself
  are left out.
\<close>

section \<open>Anchors\<close>

definition line_hash :: "(string \<Rightarrow> bytes) \<Rightarrow> string \<Rightarrow> string" where
  "line_hash sha line = hex_encode (take 2 (sha line))"

definition anchor_text :: "(string \<Rightarrow> bytes) \<Rightarrow> nat \<Rightarrow> string \<Rightarrow> string" where
  "anchor_text sha n line = dec n @ '':'' @ line_hash sha line"

definition format_line :: "(string \<Rightarrow> bytes) \<Rightarrow> nat \<Rightarrow> string \<Rightarrow> string" where
  "format_line sha n line = anchor_text sha n line @ ''|'' @ line"

record anchor =
  a_line :: nat
  a_hash :: string

datatype anchor_error = Not_An_Anchor string | Bad_Hash string

definition is_hex :: "char \<Rightarrow> bool" where
  "is_hex c \<longleftrightarrow> is_digit c \<or> 97 \<le> byte c \<and> byte c \<le> 102 \<or> 65 \<le> byte c \<and> byte c \<le> 70"

definition rsplit_once :: "char \<Rightarrow> string \<Rightarrow> (string \<times> string) option" where
  "rsplit_once c s = (case split_once [c] (rev s) of None \<Rightarrow> None | Some (a, b) \<Rightarrow> Some (rev b, rev a))"

definition parse_anchor :: "string \<Rightarrow> (anchor_error, anchor) result" where
  "parse_anchor text =
     (case rsplit_once (CHR '':'') (trim (hd (split_on (CHR ''|'') text))) of
        None \<Rightarrow> Err (Not_An_Anchor text)
      | Some (rest, hash) \<Rightarrow>
          (let number = trim (last (split_on (CHR '':'') rest));
               number = (case strip_prefix ''L'' number of Some r \<Rightarrow> r | None \<Rightarrow> number) in
           case parse_u64 number of
             None \<Rightarrow> Err (Not_An_Anchor text)
           | Some n \<Rightarrow>
               if n = 0 then Err (Not_An_Anchor text)
               else
                 (let hash = lowercase (trim hash) in
                  if length hash \<noteq> 4 \<or> \<not> list_all is_hex hash then Err (Bad_Hash text)
                  else Ok \<lparr>a_line = n, a_hash = hash\<rparr>)))"

section \<open>Texts\<close>

record text_file =
  t_lines :: "string list"
  t_crlf :: bool
  t_trailing_newline :: bool

definition parse_text :: "string \<Rightarrow> text_file" where
  "parse_text content =
     \<lparr>t_lines = str_lines content, t_crlf = contains_str content [CR, LF],
      t_trailing_newline = ends_with content [LF]\<rparr>"

definition render_text :: "text_file \<Rightarrow> string" where
  "render_text t =
     (let eol = (if t_crlf t then [CR, LF] else [LF]) in
      join_with eol (t_lines t) @ (if t_trailing_newline t \<and> t_lines t \<noteq> [] then eol else []))"

datatype stale = No_Line nat nat | Mixes_Lines nat string string nat string | Line_Changed nat string

definition check_anchor :: "(string \<Rightarrow> bytes) \<Rightarrow> text_file \<Rightarrow> anchor \<Rightarrow> stale option" where
  "check_anchor sha t a =
     (if length (t_lines t) \<le> a_line a - 1 then Some (No_Line (a_line a) (length (t_lines t)))
      else
        (let line = t_lines t ! (a_line a - 1) in
         if line_hash sha line \<noteq> a_hash a then
           Some (case filter (\<lambda>i. line_hash sha (t_lines t ! i) = a_hash a) [0..<length (t_lines t)] of
               [only] \<Rightarrow> Mixes_Lines (a_line a) (a_hash a) line (only + 1) (t_lines t ! only)
             | _ \<Rightarrow> Line_Changed (a_line a) line)
         else None))"

section \<open>Reading\<close>

definition DEFAULT_LIMIT :: nat where
  "DEFAULT_LIMIT = 400"

definition MAX_LINE :: nat where
  "MAX_LINE = 1000"

definition ellipsis :: string where
  "ellipsis = [CHR 0xE2, CHR 0x80, CHR 0xA6]"

definition shown_line :: "(string \<Rightarrow> bytes) \<Rightarrow> nat \<Rightarrow> string \<Rightarrow> string" where
  "shown_line sha n line =
     anchor_text sha n line @ ''|''
     @ (if MAX_LINE < char_count line then take_chars MAX_LINE line @ ellipsis @ '' [line truncated]'' else line) @ [LF]"

definition read_lines :: "(string \<Rightarrow> bytes) \<Rightarrow> text_file \<Rightarrow> nat \<Rightarrow> nat \<Rightarrow> string" where
  "read_lines sha t start stop =
     concat (map (\<lambda>i. shown_line sha (i + 1) (t_lines t ! i)) [start - 1..<stop])"

definition render_window :: "(string \<Rightarrow> bytes) \<Rightarrow> text_file \<Rightarrow> nat \<Rightarrow> nat \<Rightarrow> nat \<Rightarrow> string" where
  "render_window sha t start stop total_lines =
     read_lines sha t start stop
     @ (if 1 < start \<or> stop < total_lines then
          ''[lines '' @ dec start @ ''-'' @ dec stop @ '' of '' @ dec total_lines @ ''; use offset to read more]'' @ [LF]
        else [])"

definition is_binary :: "bytes \<Rightarrow> bool" where
  "is_binary b \<longleftrightarrow> CHR 0x00 \<in> set (take 8192 b)"

datatype read_output = Read_Ok string | Read_Binary | Read_Empty | Past_End nat nat | Read_Panic

text \<open>
  The end of the window is computed in \<open>usize\<close>. Where the sum does not fit, a checked build
  panics on it and a wrapping one on the slice, whose end then lies before its start.
\<close>

definition read_file_text :: "(string \<Rightarrow> bytes) \<Rightarrow> bytes \<Rightarrow> nat option \<Rightarrow> nat option \<Rightarrow> read_output" where
  "read_file_text sha b offset limit =
     (if is_binary b then Read_Binary
      else
        (let t = parse_text (from_utf8_lossy b); total_lines = length (t_lines t);
             start = max 1 (case offset of Some o' \<Rightarrow> o' | None \<Rightarrow> 1) in
         if total_lines = 0 then Read_Empty
         else if total_lines < start then Past_End start total_lines
         else
           (let sum = start - 1 + max 1 (case limit of Some l \<Rightarrow> l | None \<Rightarrow> DEFAULT_LIMIT) in
            if u64_max < sum then Read_Panic
            else Read_Ok (render_window sha t start (min sum total_lines) total_lines))))"

section \<open>Planning an edit\<close>

datatype op_kind = Replace | InsertAfter | InsertBefore | DeleteLines

record edit_op =
  o_op :: op_kind
  o_start :: string
  o_end :: "string option"
  o_text :: string

record splice =
  s_at :: nat
  s_remove :: nat
  s_lines :: "string list"

datatype problem = Anchor_Problem nat string anchor_error | Stale_Problem nat string stale
  | End_Before_Start nat nat nat | Replace_Without_End nat nat nat

datatype plan_error = Problems "problem list" | Overlap nat

definition plan_anchor :: "(string \<Rightarrow> bytes) \<Rightarrow> text_file \<Rightarrow> nat \<Rightarrow> string \<Rightarrow> string \<Rightarrow> (problem, nat) result" where
  "plan_anchor sha t n label s =
     (case parse_anchor s of
        Err e \<Rightarrow> Err (Anchor_Problem n label e)
      | Ok a \<Rightarrow> (case check_anchor sha t a of None \<Rightarrow> Ok (a_line a) | Some why \<Rightarrow> Err (Stale_Problem n label why)))"

definition names_end :: "edit_op \<Rightarrow> string option" where
  "names_end op = (if o_op op \<in> {Replace, DeleteLines} then o_end op else None)"

fun make_splice :: "edit_op \<Rightarrow> nat \<Rightarrow> nat \<Rightarrow> splice" where
  "make_splice op start stop =
     (case o_op op of
        Replace \<Rightarrow> \<lparr>s_at = start - 1, s_remove = stop - start + 1, s_lines = str_lines (o_text op)\<rparr>
      | DeleteLines \<Rightarrow> \<lparr>s_at = start - 1, s_remove = stop - start + 1, s_lines = []\<rparr>
      | InsertAfter \<Rightarrow> \<lparr>s_at = start, s_remove = 0, s_lines = str_lines (o_text op)\<rparr>
      | InsertBefore \<Rightarrow> \<lparr>s_at = start - 1, s_remove = 0, s_lines = str_lines (o_text op)\<rparr>)"

text \<open>One op: its problems, or its splice.\<close>

definition plan_op :: "(string \<Rightarrow> bytes) \<Rightarrow> text_file \<Rightarrow> nat \<Rightarrow> edit_op \<Rightarrow> (problem list, splice) result" where
  "plan_op sha t n op =
     (let start = plan_anchor sha t n ''start'' (o_start op);
          stop = (case names_end op of Some e \<Rightarrow> plan_anchor sha t n ''end'' e | None \<Rightarrow> start);
          problems = (case start of Err p \<Rightarrow> [p] | Ok _ \<Rightarrow> [])
            @ (case names_end op of Some _ \<Rightarrow> (case stop of Err p \<Rightarrow> [p] | Ok _ \<Rightarrow> []) | None \<Rightarrow> []) in
      case (start, stop) of
        (Ok start, Ok stop) \<Rightarrow>
          if stop < start then Err [End_Before_Start n stop start]
          else if o_op op = Replace \<and> o_end op = None \<and> 1 < length (str_lines (o_text op)) then
            Err [Replace_Without_End n start (length (str_lines (o_text op)))]
          else Ok (make_splice op start stop)
      | _ \<Rightarrow> Err problems)"

fun plan_ops :: "(string \<Rightarrow> bytes) \<Rightarrow> text_file \<Rightarrow> nat \<Rightarrow> edit_op list \<Rightarrow> problem list \<times> splice list" where
  "plan_ops sha t n [] = ([], [])"
| "plan_ops sha t n (op # ops) =
     (let (ps, ss) = plan_ops sha t (n + 1) ops in
      case plan_op sha t n op of Err p \<Rightarrow> (p @ ps, ss) | Ok s \<Rightarrow> (ps, s # ss))"

fun overlap :: "splice list \<Rightarrow> nat option" where
  "overlap (a # b # ss) = (if s_at b < s_at a + s_remove a then Some (s_at b + 1) else overlap (b # ss))"
| "overlap _ = None"

definition plan :: "(string \<Rightarrow> bytes) \<Rightarrow> text_file \<Rightarrow> edit_op list \<Rightarrow> (plan_error, splice list) result" where
  "plan sha t ops =
     (let (problems, splices) = plan_ops sha t 1 ops in
      if problems \<noteq> [] then Err (Problems problems)
      else
        (let splices = sort_key (\<lambda>s. (s_at s, 0 < s_remove s)) splices in
         case overlap splices of Some n \<Rightarrow> Err (Overlap n) | None \<Rightarrow> Ok splices))"

section \<open>Applying an edit\<close>

text \<open>\<open>Vec::splice\<close> panics when its range leaves the vector.\<close>

definition splice_lines :: "splice \<Rightarrow> string list option \<Rightarrow> string list option" where
  "splice_lines s ls =
     (case ls of
        None \<Rightarrow> None
      | Some ls \<Rightarrow>
          if s_at s + s_remove s \<le> length ls then
            Some (take (s_at s) ls @ s_lines s @ drop (s_at s + s_remove s) ls)
          else None)"

fun regions_from :: "int \<Rightarrow> splice list \<Rightarrow> (nat \<times> nat) list" where
  "regions_from shift [] = []"
| "regions_from shift (s # ss) =
     (nat (int (s_at s) + shift), length (s_lines s))
     # regions_from (shift + int (length (s_lines s)) - int (s_remove s)) ss"

definition apply_splices :: "text_file \<Rightarrow> splice list \<Rightarrow> (text_file \<times> (nat \<times> nat) list) option" where
  "apply_splices t ss =
     map_option (\<lambda>ls. (t\<lparr>t_lines := ls\<rparr>, regions_from 0 ss)) (fold splice_lines (rev ss) (Some (t_lines t)))"

definition EDIT_CONTEXT :: nat where
  "EDIT_CONTEXT = 2"

fun merge_windows :: "nat \<Rightarrow> (nat \<times> nat) list \<Rightarrow> (nat \<times> nat) list \<Rightarrow> (nat \<times> nat) list" where
  "merge_windows total_lines ws [] = ws"
| "merge_windows total_lines ws ((at, len) # rs) =
     (let lo = at - EDIT_CONTEXT; hi = min (at + max len 1 + EDIT_CONTEXT) total_lines in
      merge_windows total_lines
        (if ws \<noteq> [] \<and> lo \<le> snd (last ws) then butlast ws @ [(fst (last ws), max (snd (last ws)) hi)]
         else ws @ [(lo, hi)]) rs)"

definition summary :: "(string \<Rightarrow> bytes) \<Rightarrow> string \<Rightarrow> text_file \<Rightarrow> (nat \<times> nat) list \<Rightarrow> nat \<Rightarrow> string" where
  "summary sha path t regions count =
     (let total_lines = length (t_lines t);
          out = ''Edited '' @ path @ '': '' @ dec count @ '' edit'' @ (if count = 1 then [] else ''s'')
            @ '', now '' @ dec total_lines @ '' lines.'' in
      if total_lines = 0 then out
      else out @ '' Current anchors around the change:'' @ [LF]
        @ concat (map (\<lambda>(lo, hi). if hi \<le> lo then [] else read_lines sha t (lo + 1) hi @ ellipsis @ [LF])
            (merge_windows total_lines [] regions)))"

datatype edit_output = No_Edits | Edit_Binary | Not_Written plan_error | Panicked | Written bytes string

definition edit_file :: "(string \<Rightarrow> bytes) \<Rightarrow> string \<Rightarrow> bytes \<Rightarrow> edit_op list \<Rightarrow> edit_output" where
  "edit_file sha path b ops =
     (if ops = [] then No_Edits
      else if is_binary b then Edit_Binary
      else
        (let t = parse_text (from_utf8_lossy b) in
         case plan sha t ops of
           Err e \<Rightarrow> Not_Written e
         | Ok ss \<Rightarrow>
             (case apply_splices t ss of
                None \<Rightarrow> Panicked
              | Some (t', regions) \<Rightarrow> Written (render_text t') (summary sha path t' regions (length ops)))))"

section \<open>A planned edit is current and in range\<close>












section \<open>Applying it replaces exactly the planned ranges\<close>











section \<open>Putting a text back together\<close>

lemma join_with_snoc: "xs \<noteq> [] \<Longrightarrow> join_with d (xs @ [x]) = join_with d xs @ d @ x"
  by (induction d xs rule: join_with.induct) auto

lemma join_with_inner: "p \<in> set (butlast ps) \<Longrightarrow> \<exists>a b. join_with d ps = a @ p @ d @ b"
proof (induction d ps rule: join_with.induct)
  case (3 d p0 q ps)
  then consider "p = p0" | "p \<in> set (butlast (q # ps))" by auto
  then show ?case
  proof cases
    case 1
    have "join_with d (p0 # q # ps) = [] @ p @ d @ join_with d (q # ps)" using 1 by simp
    then show ?thesis by blast
  next
    case 2
    with 3 obtain a b where "join_with d (q # ps) = a @ p @ d @ b" by blast
    then have "join_with d (p0 # q # ps) = (p0 @ d @ a) @ p @ d @ b" by simp
    then show ?thesis by blast
  qed
qed simp_all

definition every_line_crlf :: "string \<Rightarrow> bool" where
  "every_line_crlf s \<longleftrightarrow> list_all (\<lambda>p. p \<noteq> [] \<and> last p = CR) (butlast (split_on LF s))"

lemma join_crlf: "join_with [CR, LF] (qs @ [l]) = join_with [LF] (map (\<lambda>q. q @ [CR]) qs @ [l])"
  by (induction qs) (simp_all add: join_with_Cons)

lemma split_pieces:
  obtains ps l where "split_on LF s = ps @ [l]" "s = join_with [LF] (ps @ [l])" "LF \<notin> set l"
proof -
  have "split_on LF s = butlast (split_on LF s) @ [last (split_on LF s)]" by simp
  moreover from this have "s = join_with [LF] (butlast (split_on LF s) @ [last (split_on LF s)])"
    using join_split [of LF s] by simp
  moreover have "LF \<notin> set (last (split_on LF s))" by (rule split_on_pieces [of _ LF s]) simp
  ultimately show ?thesis by (rule that)
qed

text \<open>The text is its lines joined by the end of line, with the last one where it stands.\<close>

lemma render_pieces:
  assumes "LF \<notin> set l" and "eol \<noteq> []" and "last eol = LF" and "s = join_with eol (qs @ [l])"
  shows "join_with eol (qs @ (if l = [] then [] else [l]))
     @ (if ends_with s [LF] \<and> qs @ (if l = [] then [] else [l]) \<noteq> [] then eol else []) = s"
proof (cases "l = []")
  case True
  show ?thesis
  proof (cases "qs = []")
    case True
    with \<open>l = []\<close> assms(4) show ?thesis by (simp add: ends_with_iff)
  next
    case False
    with True assms(4) have s: "s = join_with eol qs @ eol" by (simp add: join_with_snoc)
    have "eol = butlast eol @ [LF]" using assms(2,3) by (metis append_butlast_last_id)
    then have "s = (join_with eol qs @ butlast eol) @ [LF]" using s by simp
    then have "ends_with s [LF]" unfolding ends_with_iff by blast
    with False True s show ?thesis by simp
  qed
next
  case False
  have "\<exists>x. s = x @ l"
    using assms(4) by (cases "qs = []") (auto simp: join_with_snoc)
  then obtain x where x: "s = x @ l" ..
  have "\<not> ends_with s [LF]"
  proof
    assume "ends_with s [LF]"
    then have "last s = LF" by (auto simp: ends_with_iff)
    with x False have "last l = LF" by simp
    with False assms(1) show False using last_in_set [OF False] by simp
  qed
  with False assms(4) show ?thesis by simp
qed

lemma render_parse_text:
  assumes "\<not> contains_str s [CR, LF] \<or> every_line_crlf s"
  shows "render_text (parse_text s) = s"
proof -
  obtain ps l where ps: "split_on LF s = ps @ [l]" "s = join_with [LF] (ps @ [l])" "LF \<notin> set l" by (rule split_pieces)
  have lines: "str_lines s = map strip_cr ps @ (if l = [] then [] else [l])" by (simp add: str_lines_def ps(1))
  show ?thesis
  proof (cases "contains_str s [CR, LF]")
    case False
    have "strip_cr p = p" if "p \<in> set ps" for p
    proof -
      from that have "p \<in> set (butlast (ps @ [l]))" by simp
      from join_with_inner [OF this, of "[LF]"] obtain a b where ab: "s = a @ p @ [LF] @ b" using ps(2) by auto
      have "\<not> (p \<noteq> [] \<and> last p = CR)"
      proof
        assume "p \<noteq> [] \<and> last p = CR"
        then have "p = butlast p @ [CR]" by (metis append_butlast_last_id)
        with ab have "s = (a @ butlast p) @ [CR, LF] @ b" by (metis append.assoc append_Cons append_Nil)
        with False show False unfolding contains_str_iff by blast
      qed
      then show ?thesis by (auto simp: strip_cr_def)
    qed
    then have "map strip_cr ps = ps" by (simp add: map_idI)
    with render_pieces [OF ps(3) _ _ ps(2)] False lines show ?thesis
      by (simp add: render_text_def parse_text_def Let_def)
  next
    case True
    with assms have cr: "\<forall>p \<in> set ps. p \<noteq> [] \<and> last p = CR" by (simp add: every_line_crlf_def ps(1) list_all_iff)
    have "\<forall>p \<in> set ps. strip_cr p @ [CR] = p"
      using cr append_butlast_last_id by (fastforce simp: strip_cr_def)
    then have "map (\<lambda>q. q @ [CR]) (map strip_cr ps) = ps" by (simp add: map_idI)
    then have "s = join_with [CR, LF] (map strip_cr ps @ [l])" using ps(2) by (simp add: join_crlf del: map_map)
    from render_pieces [OF ps(3) _ _ this] True lines show ?thesis
      by (simp add: render_text_def parse_text_def Let_def)
  qed
qed

text \<open>One line that ends in CRLF changes the ends of all the others.\<close>

lemma mixed_line_endings_rewritten:
  "render_text (parse_text [CHR ''a'', CR, LF, CHR ''b'', LF]) = [CHR ''a'', CR, LF, CHR ''b'', CR, LF]"
  by code_simp

text \<open>A limit of the largest integer, asked for from the second line on.\<close>

lemma read_limit_overflow_panics:
  assumes "\<not> is_binary b" and "2 \<le> length (t_lines (parse_text (from_utf8_lossy b)))"
  shows "read_file_text sha b (Some 2) (Some u64_max) = Read_Panic"
  using assms by (auto simp: read_file_text_def Let_def u64_max_def)

end
