(* ===== verification/Sse.thy ===== *)
theory Sse
  imports Utf8_Text
begin

text \<open>
  The decoder of server-sent events, \<^verbatim>\<open>src/agent/src/sse.rs\<close>, and that the frames it returns do
  not depend on how the stream is cut into chunks.
\<close>

datatype frame = Data string | Done

record decoder =
  d_buffer :: string
  d_pending :: "string option"

definition trim_eol :: "string \<Rightarrow> string" where
  "trim_eol s = rev (dropWhile (\<lambda>c. c = CR \<or> c = LF) (rev s))"

text \<open>One line, with its end: what is pending after it, and the frame it completes.\<close>

definition decode_line :: "string option \<Rightarrow> string \<Rightarrow> string option \<times> frame list" where
  "decode_line pending raw =
     (let line = trim_eol (from_utf8_lossy raw) in
      case strip_prefix ''data:'' line of
        Some data \<Rightarrow>
          (let data = (case strip_prefix '' '' data of Some r \<Rightarrow> r | None \<Rightarrow> data) in
           (Some (case pending of Some p \<Rightarrow> p @ [LF] @ data | None \<Rightarrow> data), []))
      | None \<Rightarrow>
          if line = [] then
            (case pending of
               Some data \<Rightarrow> (None, [if data = ''[DONE]'' then Done else Data data])
             | None \<Rightarrow> (None, []))
          else (pending, []))"

function drain :: "string \<Rightarrow> string option \<Rightarrow> frame list \<times> decoder" where
  "drain buffer pending =
     (case dropWhile (\<lambda>c. c \<noteq> LF) buffer of
        [] \<Rightarrow> ([], \<lparr>d_buffer = buffer, d_pending = pending\<rparr>)
      | _ # rest \<Rightarrow>
          (let (pending', frames) = decode_line pending (takeWhile (\<lambda>c. c \<noteq> LF) buffer @ [LF]);
               (frames', d) = drain rest pending' in
           (frames @ frames', d)))"
  by pat_completeness auto
termination
proof (relation "measure (\<lambda>(buffer, pending). length buffer)", goal_cases)
  case (2 buffer pending c rest)
  then have "length (c # rest) \<le> length buffer" by (metis length_dropWhile_le)
  then show ?case by simp
qed simp

declare drain.simps [simp del]

definition push :: "decoder \<Rightarrow> string \<Rightarrow> frame list \<times> decoder" where
  "push d chunk = drain (d_buffer d @ chunk) (d_pending d)"

definition push_all :: "decoder \<Rightarrow> string list \<Rightarrow> frame list \<times> decoder" where
  "push_all d chunks = fold (\<lambda>c (fs, d). apfst ((@) fs) (push d c)) chunks ([], d)"

definition new_decoder :: decoder where
  "new_decoder = \<lparr>d_buffer = [], d_pending = None\<rparr>"

section \<open>Chunks do not matter\<close>

lemma drain_none: "LF \<notin> set b \<Longrightarrow> drain b p = ([], \<lparr>d_buffer = b, d_pending = p\<rparr>)"
proof -
  assume "LF \<notin> set b"
  then have "dropWhile (\<lambda>c. c \<noteq> LF) b = []" by (auto simp: dropWhile_eq_Nil_conv)
  then show ?thesis by (subst drain.simps) (simp del: dropWhile_eq_Nil_conv)
qed

lemma drain_line:
  assumes "LF \<notin> set a"
  shows "drain (a @ LF # b) p = (let (p', fs) = decode_line p (a @ [LF]) in apfst ((@) fs) (drain b p'))"
proof -
  have "dropWhile (\<lambda>c. c \<noteq> LF) (a @ LF # b) = LF # b" "takeWhile (\<lambda>c. c \<noteq> LF) (a @ LF # b) = a"
    using assms by (induction a) auto
  then show ?thesis by (subst drain.simps) (simp add: Let_def case_prod_unfold apfst_def map_prod_def)
qed

lemma drain_append:
  "drain (b @ c) p = apfst ((@) (fst (drain b p))) (push (snd (drain b p)) c)"
proof (induction "length b" arbitrary: b p rule: less_induct)
  case less
  show ?case
  proof (cases "LF \<in> set b")
    case False
    then show ?thesis by (simp add: drain_none push_def apfst_def map_prod_def case_prod_unfold)
  next
    case True
    then obtain a b' where b: "b = a @ LF # b'" "LF \<notin> set a" by (meson split_list_first)
    obtain p' fs where d: "decode_line p (a @ [LF]) = (p', fs)" by (cases "decode_line p (a @ [LF])")
    from less [of b' p'] b(1) have "drain (b' @ c) p' = apfst ((@) (fst (drain b' p'))) (push (snd (drain b' p')) c)" by simp
    with b d show ?thesis by (simp add: drain_line apfst_def map_prod_def case_prod_unfold)
  qed
qed

lemma push_append: "push d (a @ b) = apfst ((@) (fst (push d a))) (push (snd (push d a)) b)"
  using drain_append [of "d_buffer d @ a" b "d_pending d"] by (simp add: push_def [of d])

lemma push_Nil: "LF \<notin> set (d_buffer d) \<Longrightarrow> push d [] = ([], d)"
  by (simp add: push_def drain_none)

lemma push_all_push: "fold (\<lambda>c (fs, d). apfst ((@) fs) (push d c)) chunks (fs, d)
    = apfst ((@) fs) (push_all d chunks)"
proof (induction chunks arbitrary: fs d)
  case (Cons c chunks)
  have 1: "fold (\<lambda>c (fs, d). apfst ((@) fs) (push d c)) (c # chunks) (fs, d)
      = apfst ((@) (fs @ fst (push d c))) (push_all (snd (push d c)) chunks)" for fs
    using Cons [of "fs @ fst (push d c)" "snd (push d c)"] by (simp add: apfst_def map_prod_def case_prod_unfold)
  show ?case unfolding push_all_def [of d] 1 by (simp add: apfst_def map_prod_def case_prod_unfold)
qed (simp add: push_all_def)

lemma push_all_Cons: "push_all d (c # cs) = apfst ((@) (fst (push d c))) (push_all (snd (push d c)) cs)"
  using push_all_push [of cs "fst (push d c)" "snd (push d c)"]
  by (simp add: push_all_def [of d] apfst_def map_prod_def case_prod_unfold)

lemma drain_rest: "LF \<notin> set (d_buffer (snd (drain b p)))"
proof (induction "length b" arbitrary: b p rule: less_induct)
  case less
  show ?case
  proof (cases "LF \<in> set b")
    case False
    then show ?thesis by (simp add: drain_none)
  next
    case True
    then obtain a b' where b: "b = a @ LF # b'" "LF \<notin> set a" by (meson split_list_first)
    with less [of b'] show ?thesis by (simp add: drain_line Let_def case_prod_unfold apfst_def map_prod_def)
  qed
qed

text \<open>
  However the bytes of a stream are cut into chunks, in the middle of a line or of a
  character, the decoder returns the same frames and ends in the same state.
\<close>

lemma chunking_does_not_matter:
  assumes "LF \<notin> set (d_buffer d)"
  shows "push_all d chunks = push d (concat chunks)"
  using assms
proof (induction chunks arbitrary: d)
  case Nil
  then show ?case by (simp add: push_all_def push_Nil)
next
  case (Cons c cs)
  have "LF \<notin> set (d_buffer (snd (push d c)))" by (simp add: push_def drain_rest)
  with Cons.IH have "push_all (snd (push d c)) cs = push (snd (push d c)) (concat cs)" by blast
  then show ?case by (simp add: push_all_Cons push_append)
qed

section \<open>What a stream of events decodes to\<close>

text \<open>An event as the providers write it: a line of data, a line end, and an empty line.\<close>

definition sse_event :: "string \<Rightarrow> string \<Rightarrow> string" where
  "sse_event eol data = ''data: '' @ data @ eol @ eol"

definition event_data :: "string \<Rightarrow> bool" where
  "event_data data \<longleftrightarrow> utf8_valid data \<and> LF \<notin> set data \<and> CR \<notin> set data"

definition frame_of :: "string \<Rightarrow> frame" where
  "frame_of data = (if data = ''[DONE]'' then Done else Data data)"

lemma trim_eol_end: "s \<noteq> [] \<Longrightarrow> last s \<notin> {CR, LF} \<Longrightarrow> set eol \<subseteq> {CR, LF} \<Longrightarrow> trim_eol (s @ eol) = s"
proof -
  assume s: "s \<noteq> []" "last s \<notin> {CR, LF}" and "set eol \<subseteq> {CR, LF}"
  then have "dropWhile (\<lambda>c. c = CR \<or> c = LF) (rev eol @ rev s) = dropWhile (\<lambda>c. c = CR \<or> c = LF) (rev s)"
    by (intro dropWhile_append2) auto
  also have "\<dots> = rev s" using s by (cases s rule: rev_cases) auto
  finally show ?thesis by (simp add: trim_eol_def)
qed

lemma decode_data_line:
  assumes "event_data data" and "eol = [LF] \<or> eol = [CR, LF]"
  shows "decode_line None (''data: '' @ data @ eol) = (Some data, [])"
proof -
  have "utf8_valid ''data: ''" and "utf8_valid eol" using assms(2) by (code_simp, auto)
  then have v: "utf8_valid (''data: '' @ data @ eol)"
    using assms(1) by (intro utf8_valid_append) (simp_all add: event_data_def)
  have "last (''data: '' @ data) \<notin> {CR, LF}" using assms(1) by (cases data rule: rev_cases) (auto simp: event_data_def)
  then have "trim_eol ((''data: '' @ data) @ eol) = ''data: '' @ data" using assms(2) by (intro trim_eol_end) auto
  then have "trim_eol (from_utf8_lossy (''data: '' @ data @ eol)) = ''data: '' @ data" by (simp only: from_utf8_lossy_valid [OF v] append_assoc)
  then show ?thesis unfolding decode_line_def Let_def by (simp only:) simp
qed

lemma decode_empty_line:
  assumes "eol = [LF] \<or> eol = [CR, LF]"
  shows "decode_line (Some data) eol = (None, [frame_of data])"
proof -
  have "utf8_valid eol" using assms by auto
  moreover have "trim_eol eol = []" using assms by (auto simp: trim_eol_def)
  ultimately show ?thesis
    by (simp add: decode_line_def from_utf8_lossy_valid frame_of_def)
qed

lemma drain_event:
  assumes "event_data data" and "eol = [LF] \<or> eol = [CR, LF]"
  shows "drain (sse_event eol data @ rest) None = apfst ((#) (frame_of data)) (drain rest None)"
proof -
  obtain cr where eol: "eol = cr @ [LF]" "LF \<notin> set cr" using assms(2) by auto
  have "LF \<notin> set (''data: '' @ data @ cr)" using assms(1) eol(2) by (auto simp: event_data_def)
  then have "drain ((''data: '' @ data @ cr) @ LF # (eol @ rest)) None = drain (eol @ rest) (Some data)"
    using decode_data_line [OF assms] by (subst drain_line) (simp_all add: eol(1) apfst_def map_prod_def)
  moreover have "drain (eol @ rest) (Some data) = apfst ((@) [frame_of data]) (drain rest None)"
    using drain_line [OF eol(2), of rest "Some data"] decode_empty_line [OF assms(2), of data] by (simp add: eol(1))
  ultimately show ?thesis by (simp add: sse_event_def eol(1) apfst_def map_prod_def)
qed

lemma push_events:
  assumes "\<forall>data \<in> set events. event_data data" and "eol = [LF] \<or> eol = [CR, LF]"
  shows "fst (push new_decoder (concat (map (sse_event eol) events) @ rest)) = map frame_of events @ fst (push new_decoder rest)"
  using assms(1)
  by (induction events) (simp_all add: push_def new_decoder_def drain_event [OF _ assms(2)] apfst_def map_prod_def case_prod_unfold)

end
