(* ===== verification/Chunks.thy ===== *)
theory Chunks
  imports Prelude
begin

text \<open>
  The buffer that joins streamed chunks into messages, \<^verbatim>\<open>src/node/src/session/chunks.rs\<close>, and that
  what it persists is the stream with neighbouring chunks of one message joined.
\<close>

type_synonym message_key = "string \<times> string option"

record open_message =
  om_key :: message_key
  om_text :: string

definition take_open :: "open_message option \<Rightarrow> (message_key \<times> string) option" where
  "take_open b = (case b of None \<Rightarrow> None | Some m \<Rightarrow> if om_text m = [] then None else Some (om_key m, om_text m))"

definition push_chunk :: "open_message option \<Rightarrow> string \<Rightarrow> string option \<Rightarrow> string
    \<Rightarrow> open_message option \<times> (message_key \<times> string) option" where
  "push_chunk b kind message_id chunk =
     (case b of
        Some m \<Rightarrow>
          if om_key m = (kind, message_id) then (Some (m\<lparr>om_text := om_text m @ chunk\<rparr>), None)
          else (Some \<lparr>om_key = (kind, message_id), om_text = chunk\<rparr>, take_open b)
      | None \<Rightarrow> (Some \<lparr>om_key = (kind, message_id), om_text = chunk\<rparr>, take_open b))"

definition flush_all :: "open_message option \<Rightarrow> open_message option \<times> (message_key \<times> string) list" where
  "flush_all b = (None, case take_open b of Some x \<Rightarrow> [x] | None \<Rightarrow> [])"

text \<open>Everything persisted while chunks arrive and at the final flush.\<close>

fun persisted :: "open_message option \<Rightarrow> (message_key \<times> string) list \<Rightarrow> (message_key \<times> string) list" where
  "persisted b [] = snd (flush_all b)"
| "persisted b (((kind, i), chunk) # cs) =
     (let (b', done) = push_chunk b kind i chunk in
      (case done of Some x \<Rightarrow> [x] | None \<Rightarrow> []) @ persisted b' cs)"

fun coalesce :: "('k \<times> 'a list) list \<Rightarrow> ('k \<times> 'a list) list" where
  "coalesce ((k, s) # (k', s') # r) =
     (if k = k' then coalesce ((k, s @ s') # r) else (k, s) # coalesce ((k', s') # r))"
| "coalesce r = r"

lemma persisted_open:
  "persisted (Some \<lparr>om_key = k, om_text = s\<rparr>) cs = filter (\<lambda>m. snd m \<noteq> []) (coalesce ((k, s) # cs))"
proof (induction cs arbitrary: k s)
  case Nil
  show ?case by (simp add: flush_all_def take_open_def)
next
  case (Cons c cs)
  obtain k' t where "c = (k', t)" by (cases c)
  with Cons show ?case by (cases k') (auto simp: push_chunk_def take_open_def Let_def)
qed

lemma persisted_is_coalesced: "persisted None cs = filter (\<lambda>m. snd m \<noteq> []) (coalesce cs)"
proof (cases cs)
  case Nil
  then show ?thesis by (simp add: flush_all_def take_open_def)
next
  case (Cons c cs')
  obtain kind i t where "c = ((kind, i), t)" by (cases c) auto
  with Cons persisted_open [of "(kind, i)" t cs'] show ?thesis
    by (simp add: push_chunk_def take_open_def Let_def)
qed

end
