(* ===== verification/Batch.thy ===== *)
theory Batch
  imports Sync_Laws
begin

text \<open>
  The nightly promotion batch: the plans of \<^verbatim>\<open>src/sync/src/batch.rs\<close> over the replicated tables,
  and how \<^verbatim>\<open>src/node/src/corpus/promote.rs\<close> writes them. Candidate memories are put before the
  operator as one \<open>promotion\<close> row; a verdict promotes or rejects them, and a promoted
  correction retires the memory it replaces.

  The readers of a typed column (rusqlite), the comparison of a real with an integer and the
  order of a query's rows (SQLite), and serde's reader of a list of items are what the code
  takes from its libraries; \<open>batch_libs\<close> holds those that are not determined by the types.
  A call of \<open>now_ms\<close> is a reading of the clock, the \<open>k\<close>-th of an operation being \<open>now k\<close>.
\<close>

section \<open>Data\<close>

record item =
  i_memory_id :: string
  i_kind :: string
  i_scope :: string
  i_scope_ref :: "string option"
  i_body :: string
  i_confidence :: f64
  i_source_session :: "string option"
  i_source_node :: "string option"
  i_created_ms :: int
  i_supersedes :: "string option"

record plan =
  p_promotion_id :: string
  p_channel :: string
  p_items :: "item list"

record batch_libs =
  b_libs :: libs
  real_le_int :: "f64 \<Rightarrow> int \<Rightarrow> bool"
  order_by_created :: "(string \<times> rrow) list \<Rightarrow> (string \<times> rrow) list"
  items_parse :: "string \<Rightarrow> item list option"

section \<open>JSON of a plan\<close>

definition json_opt :: "string option \<Rightarrow> json" where
  "json_opt v = (case v of None \<Rightarrow> JNull | Some s \<Rightarrow> JStr s)"

text \<open>A double that is not finite is written as \<open>null\<close>.\<close>

definition json_f64 :: "f64 \<Rightarrow> json" where
  "json_f64 f = (if int f div 2 ^ 52 mod 2 ^ 11 = 2047 then JNull else JFloat f)"

text \<open>The derived writer of an item, its fields in the order of the struct.\<close>

definition item_json :: "item \<Rightarrow> json" where
  "item_json i = JObj
     ([(''memory_id'', JStr (i_memory_id i)), (''kind'', JStr (i_kind i)),
       (''scope'', JStr (i_scope i)), (''scope_ref'', json_opt (i_scope_ref i)),
       (''body'', JStr (i_body i)), (''confidence'', json_f64 (i_confidence i)),
       (''source_session'', json_opt (i_source_session i)),
       (''source_node'', json_opt (i_source_node i)), (''created_ms'', JInt (i_created_ms i))]
      @ (case i_supersedes i of None \<Rightarrow> [] | Some s \<Rightarrow> [(''supersedes'', JStr s)]))"

definition promotion_row :: "libs \<Rightarrow> plan \<Rightarrow> int \<Rightarrow> json" where
  "promotion_row l p now_ms = JObj
     [(''channel'', JStr (p_channel p)),
      (''created_ms'', JInt now_ms),
      (''decided_by'', JNull), (''decided_ms'', JNull),
      (''items_json'', JStr (json_text l (JArr (map item_json (p_items p))))),
      (''state'', JStr ''open''), (''verdicts_json'', JNull)]"

section \<open>Reading a row\<close>

fun get_string :: "sqlval \<Rightarrow> (sync_error, string) result" where
  "get_string (SText s) = Ok s"
| "get_string _ = Err Sqlite"

fun get_opt_string :: "sqlval \<Rightarrow> (sync_error, string option) result" where
  "get_opt_string SNull = Ok None"
| "get_opt_string (SText s) = Ok (Some s)"
| "get_opt_string _ = Err Sqlite"

fun get_i64 :: "sqlval \<Rightarrow> (sync_error, int) result" where
  "get_i64 (SInt i) = Ok i"
| "get_i64 _ = Err Sqlite"

fun get_f64 :: "libs \<Rightarrow> sqlval \<Rightarrow> (sync_error, f64) result" where
  "get_f64 l (SReal f) = Ok f"
| "get_f64 l (SInt i) = Ok (f64_of_int l i)"
| "get_f64 l _ = Err Sqlite"

definition read_item :: "libs \<Rightarrow> string \<times> rrow \<Rightarrow> (sync_error, item) result" where
  "read_item l ir = (let v = r_vals (snd ir) in
     bind_result (get_string (v ''kind'')) (\<lambda>k.
     bind_result (get_string (v ''scope'')) (\<lambda>sc.
     bind_result (get_opt_string (v ''scope_ref'')) (\<lambda>sr.
     bind_result (get_string (v ''body'')) (\<lambda>b.
     bind_result (get_f64 l (v ''confidence'')) (\<lambda>cf.
     bind_result (get_opt_string (v ''source_session'')) (\<lambda>ss.
     bind_result (get_opt_string (v ''source_node'')) (\<lambda>sn.
     bind_result (get_i64 (v ''created_ms'')) (\<lambda>cr.
     bind_result (get_opt_string (v ''supersedes'')) (\<lambda>su.
     Ok \<lparr>i_memory_id = fst ir, i_kind = k, i_scope = sc, i_scope_ref = sr, i_body = b,
         i_confidence = cf, i_source_session = ss, i_source_node = sn, i_created_ms = cr,
         i_supersedes = su\<rparr>))))))))))"

fun collect_ok :: "('e, 'a) result list \<Rightarrow> ('e, 'a list) result" where
  "collect_ok [] = Ok []"
| "collect_ok (r # rs) = bind_result r (\<lambda>x. bind_result (collect_ok rs) (\<lambda>xs. Ok (x # xs)))"

section \<open>Planning a batch\<close>

text \<open>\<open>created_ms <= ?\<close>: SQLite orders numbers before text and finds nothing true of \<open>NULL\<close>.\<close>

fun created_le :: "(f64 \<Rightarrow> int \<Rightarrow> bool) \<Rightarrow> sqlval \<Rightarrow> int \<Rightarrow> bool" where
  "created_le rl (SInt i) x = (i \<le> x)"
| "created_le rl (SReal f) x = rl f x"
| "created_le rl _ x = False"

definition candidate_rows :: "batch_libs \<Rightarrow> db \<Rightarrow> string \<Rightarrow> int \<Rightarrow> (string \<times> rrow) list" where
  "candidate_rows bl d channel before =
     filter (\<lambda>(i, r). r_channel r = channel \<and> \<not> r_deleted r
                \<and> r_vals r ''state'' = SText ''candidate''
                \<and> created_le (real_le_int bl) (r_vals r ''created_ms'') before) (recs d ''memory'')"

definition plan_promotion :: "batch_libs \<Rightarrow> db \<Rightarrow> string \<Rightarrow> string \<Rightarrow> int \<Rightarrow> int
    \<Rightarrow> (sync_error, plan option) result" where
  "plan_promotion bl d channel promotion_id now_ms min_age_ms =
     bind_result (collect_ok (map (read_item (b_libs bl))
        (take 200 (order_by_created bl (candidate_rows bl d channel (now_ms - min_age_ms)))))) (\<lambda>items.
     Ok (if items = [] then None
         else Some \<lparr>p_promotion_id = promotion_id, p_channel = channel, p_items = items\<rparr>))"

section \<open>A memory's row in a new state\<close>

text \<open>A row that cannot be read is no row.\<close>

definition memory_row_with_state :: "libs \<Rightarrow> db \<Rightarrow> string \<Rightarrow> string \<Rightarrow> string option \<Rightarrow> int \<Rightarrow> json option" where
  "memory_row_with_state l d memory_id st body_override now_ms =
     (case lookup d ''memory'' memory_id of
        None \<Rightarrow> None
      | Some r \<Rightarrow>
          if r_deleted r then None
          else (case read_item l (memory_id, r) of
            Err e \<Rightarrow> None
          | Ok i \<Rightarrow> Some (JObj
              [(''body'', JStr (case body_override of Some b \<Rightarrow> b | None \<Rightarrow> i_body i)),
               (''channel'', JStr (r_channel r)),
               (''confidence'', json_f64 (i_confidence i)),
               (''created_ms'', JInt (i_created_ms i)),
               (''kind'', JStr (i_kind i)),
               (''scope'', JStr (i_scope i)), (''scope_ref'', json_opt (i_scope_ref i)),
               (''source_node'', json_opt (i_source_node i)),
               (''source_session'', json_opt (i_source_session i)),
               (''state'', JStr st), (''supersedes'', json_opt (i_supersedes i)),
               (''updated_ms'', JInt now_ms)])))"

section \<open>Planning a verdict\<close>

definition superseded :: "db \<Rightarrow> string \<Rightarrow> string \<Rightarrow> string option" where
  "superseded d candidate channel =
     (case lookup d ''memory'' candidate of
        None \<Rightarrow> None
      | Some new \<Rightarrow>
          (case r_vals new ''supersedes'' of
             SText old_id \<Rightarrow>
               (case lookup d ''memory'' old_id of
                  None \<Rightarrow> None
                | Some old \<Rightarrow>
                    if r_channel old = channel \<and> \<not> r_deleted old
                       \<and> r_vals old ''kind'' \<noteq> SNull \<and> r_vals old ''kind'' \<noteq> SText ''directive''
                       \<and> r_vals old ''state'' \<in> {SText ''active'', SText ''promoted''}
                    then Some old_id else None)
           | _ \<Rightarrow> None))"

text \<open>A verdict as it was sent: the bare word, or an object that may carry an edited body.\<close>

definition verdict_words :: "json \<Rightarrow> (string \<times> string option) option" where
  "verdict_words v =
     (case v of
        JStr s \<Rightarrow> Some (s, None)
      | JObj kvs \<Rightarrow>
          Some (case Option.bind (map_of kvs ''verdict'') as_str of Some s \<Rightarrow> s | None \<Rightarrow> [],
                Option.bind (map_of kvs ''body'') as_str)
      | _ \<Rightarrow> None)"

definition verdict_state :: "string \<Rightarrow> string option" where
  "verdict_state w = (if w = ''promote'' then Some ''promoted''
                      else if w = ''reject'' then Some ''rejected'' else None)"

text \<open>What is decided of one memory: its id, its new state, and the edited body.\<close>

type_synonym decision_row = "string \<times> string \<times> string option"

text \<open>The loop over the verdicts: all verdicts so far, the memories decided, those retired.\<close>

fun take_verdicts :: "db \<Rightarrow> string \<Rightarrow> item list \<Rightarrow> (string \<times> json) list
    \<Rightarrow> (string \<times> json) list \<Rightarrow> decision_row list \<Rightarrow> decision_row list
    \<Rightarrow> (string \<times> json) list \<times> decision_row list \<times> decision_row list" where
  "take_verdicts d channel items [] all ms ret = (all, ms, ret)"
| "take_verdicts d channel items ((i, v) # vs) all ms ret =
     (if \<not> list_ex (\<lambda>it. i_memory_id it = i) items then take_verdicts d channel items vs all ms ret
      else (case verdict_words v of
        None \<Rightarrow> take_verdicts d channel items vs all ms ret
      | Some (w, edited) \<Rightarrow>
          (case verdict_state w of
             None \<Rightarrow> take_verdicts d channel items vs all ms ret
           | Some st \<Rightarrow>
               take_verdicts d channel items vs (jput i v all)
                 (ms @ [(i, st, if st = ''promoted'' then edited else None)])
                 (if st = ''promoted''
                  then (case superseded d i channel of
                          Some old \<Rightarrow> ret @ [(old, ''retired'', None)] | None \<Rightarrow> ret)
                  else ret))))"

definition promotion_complete :: "item list \<Rightarrow> (string \<times> json) list \<Rightarrow> bool" where
  "promotion_complete items all = list_all (\<lambda>i. map_of all (i_memory_id i) \<noteq> None) items"

definition decided_row :: "libs \<Rightarrow> string \<Rightarrow> string \<Rightarrow> bool \<Rightarrow> (string \<times> json) list \<Rightarrow> string \<Rightarrow> int \<Rightarrow> int \<Rightarrow> json" where
  "decided_row l channel items_json all_decided all decided_by now_ms created_ms = JObj
     [(''channel'', JStr channel), (''created_ms'', JInt created_ms),
      (''decided_by'', if all_decided then JStr decided_by else JNull),
      (''decided_ms'', if all_decided then JInt now_ms else JNull),
      (''items_json'', JStr items_json),
      (''state'', JStr (if all_decided then ''decided'' else ''open'')),
      (''verdicts_json'', JStr (json_text l (JObj all)))]"

text \<open>The columns a verdict reads of its batch: the items, the state, the verdicts so far.\<close>

definition read_promotion :: "rrow \<Rightarrow> (string \<times> string \<times> string option) option" where
  "read_promotion r =
     (case (get_string (r_vals r ''items_json''), get_string (r_vals r ''state''),
            get_opt_string (r_vals r ''verdicts_json'')) of
        (Ok ij, Ok st, Ok ex) \<Rightarrow> Some (ij, st, ex)
      | _ \<Rightarrow> None)"

definition plan_verdict :: "batch_libs \<Rightarrow> db \<Rightarrow> string \<Rightarrow> (string \<times> json) list \<Rightarrow> string \<Rightarrow> int
    \<Rightarrow> (json \<times> decision_row list) option" where
  "plan_verdict bl d promotion_id verdicts decided_by now_ms =
     (case lookup d ''promotion'' promotion_id of
        None \<Rightarrow> None
      | Some r \<Rightarrow>
          if r_deleted r then None
          else (case read_promotion r of
            None \<Rightarrow> None
          | Some (ij, st, existing) \<Rightarrow>
              if st \<noteq> ''open'' then None
              else
                let items = (case items_parse bl ij of Some its \<Rightarrow> its | None \<Rightarrow> []);
                    all0 = (case Option.bind (Option.bind existing (json_parse (b_libs bl))) as_object of
                              Some m \<Rightarrow> m | None \<Rightarrow> []);
                    (all, ms, ret) = take_verdicts d (r_channel r) items verdicts all0 [] [];
                    created = (case get_i64 (r_vals r ''created_ms'') of Ok c \<Rightarrow> c | Err e \<Rightarrow> now_ms)
                in Some (decided_row (b_libs bl) (r_channel r) ij (promotion_complete items all) all
                           decided_by now_ms created,
                         ms @ ret)))"

section \<open>Writing the plans\<close>

text \<open>
  The memories of a verdict, one write each. The first write that fails stops the decision;
  what was written before it stays.
\<close>

fun write_memories :: "libs \<Rightarrow> string \<Rightarrow> string \<Rightarrow> (nat \<Rightarrow> int) \<Rightarrow> nat \<Rightarrow> db \<Rightarrow> decision_row list
    \<Rightarrow> db \<times> (sync_error, nat) result" where
  "write_memories l s channel now k d [] = (d, Ok k)"
| "write_memories l s channel now k d ((i, st, ov) # ms) =
     (case memory_row_with_state l d i st ov (now k) of
        None \<Rightarrow> write_memories l s channel now (k + 1) d ms
      | Some mrow \<Rightarrow>
          (case write_change l d s channel ''memory'' Upsert i mrow (now (k + 1)) of
             Err e \<Rightarrow> (d, Err e)
           | Ok (d', c) \<Rightarrow> write_memories l s channel now (k + 2) d' ms))"

text \<open>A decision returns the tables as they then are, and whether there was anything to decide.\<close>

definition promote_decide :: "batch_libs \<Rightarrow> string \<Rightarrow> string \<Rightarrow> (string \<times> json) list \<Rightarrow> (nat \<Rightarrow> int) \<Rightarrow> db
    \<Rightarrow> db \<times> (sync_error, bool) result" where
  "promote_decide bl s promotion_id verdicts now d =
     (case plan_verdict bl d promotion_id verdicts s (now 0) of
        None \<Rightarrow> (d, Ok False)
      | Some (prow, ms) \<Rightarrow>
          let channel = (case Option.bind (jget prow ''channel'') as_str of Some c \<Rightarrow> c | None \<Rightarrow> []) in
          (case write_memories (b_libs bl) s channel now 1 d ms of
             (d1, Err e) \<Rightarrow> (d1, Err e)
           | (d1, Ok k) \<Rightarrow>
               (case write_change (b_libs bl) d1 s channel ''promotion'' Upsert promotion_id prow (now k) of
                  Err e \<Rightarrow> (d1, Err e)
                | Ok (d2, c) \<Rightarrow> (d2, Ok True))))"

text \<open>Putting the candidates of one channel in a batch. A memory whose write fails is passed over.\<close>

fun propose_items :: "libs \<Rightarrow> string \<Rightarrow> string \<Rightarrow> (nat \<Rightarrow> int) \<Rightarrow> nat \<Rightarrow> db \<Rightarrow> item list \<Rightarrow> db" where
  "propose_items l s channel now k d [] = d"
| "propose_items l s channel now k d (it # its) =
     (case memory_row_with_state l d (i_memory_id it) ''proposed'' None (now k) of
        None \<Rightarrow> propose_items l s channel now (k + 1) d its
      | Some mrow \<Rightarrow>
          (case write_change l d s channel ''memory'' Upsert (i_memory_id it) mrow (now (k + 1)) of
             Err e \<Rightarrow> propose_items l s channel now (k + 2) d its
           | Ok (d', c) \<Rightarrow> propose_items l s channel now (k + 2) d' its))"

definition batch_channel :: "batch_libs \<Rightarrow> string \<Rightarrow> string \<Rightarrow> string \<Rightarrow> int \<Rightarrow> (nat \<Rightarrow> int) \<Rightarrow> db
    \<Rightarrow> db \<times> string list" where
  "batch_channel bl s channel new_id min_age_ms now d =
     (case plan_promotion bl d channel new_id (now 0) min_age_ms of
        Ok (Some p) \<Rightarrow>
          (case write_change (b_libs bl) d s channel ''promotion'' Upsert new_id
                  (promotion_row (b_libs bl) p (now 1)) (now 2) of
             Err e \<Rightarrow> (d, [])
           | Ok (d1, c) \<Rightarrow> (propose_items (b_libs bl) s channel now 3 d1 (p_items p), [new_id]))
      | _ \<Rightarrow> (d, []))"

text \<open>Every channel this node batches: those it lists, less the reserved ones, or, when it lists none, the
  labels its memories carry. A channel bound to the hub is the hub's to batch.\<close>

definition batches_here :: "(string \<Rightarrow> json option) \<Rightarrow> string option \<Rightarrow> bool" where
  "batches_here parse bindings_json =
     (case Option.bind bindings_json parse of
        None \<Rightarrow> True
      | Some b \<Rightarrow> Option.bind (jget b ''processing'') as_str \<noteq> Some ''hub'')"

definition batch_channels :: "string list \<Rightarrow> string list \<Rightarrow> string list" where
  "batch_channels listed labels =
     (let cs = filter (\<lambda>c. \<not> (c \<noteq> [] \<and> hd c = CHR ''@'')) listed in if cs = [] then labels else cs)"

fun batch_each :: "batch_libs \<Rightarrow> string \<Rightarrow> (string \<Rightarrow> string option) \<Rightarrow> int \<Rightarrow> (nat \<Rightarrow> string) \<Rightarrow> (nat \<Rightarrow> nat \<Rightarrow> int) \<Rightarrow> nat
    \<Rightarrow> string list \<Rightarrow> db \<Rightarrow> db \<times> string list" where
  "batch_each bl s bindings min_age_ms new_id now k [] d = (d, [])"
| "batch_each bl s bindings min_age_ms new_id now k (channel # channels) d =
     (if \<not> batches_here (json_parse (b_libs bl)) (bindings channel)
      then batch_each bl s bindings min_age_ms new_id now k channels d
      else
        let (d1, made) = batch_channel bl s channel (new_id k) min_age_ms (now k) d;
            (d2, more) = batch_each bl s bindings min_age_ms new_id now (k + 1) channels d1
        in (d2, made @ more))"

definition batch_now :: "batch_libs \<Rightarrow> string \<Rightarrow> (string \<Rightarrow> string option) \<Rightarrow> int \<Rightarrow> (nat \<Rightarrow> string) \<Rightarrow> (nat \<Rightarrow> nat \<Rightarrow> int)
    \<Rightarrow> string list \<Rightarrow> string list \<Rightarrow> db \<Rightarrow> db \<times> string list" where
  "batch_now bl s bindings min_age_ms new_id now listed labels d =
     batch_each bl s bindings min_age_ms new_id now 0 (batch_channels listed labels) d"

definition MIN_AGE_MS :: int where
  "MIN_AGE_MS = 6 * 3600 * 1000"

section \<open>What a verdict decides\<close>

text \<open>What the verdict on one memory comes to, if it is one of the batch and a known word.\<close>

definition decides :: "item list \<Rightarrow> string \<times> json \<Rightarrow> (string \<times> string option) option" where
  "decides items iv =
     (if \<not> list_ex (\<lambda>it. i_memory_id it = fst iv) items then None
      else Option.bind (verdict_words (snd iv)) (\<lambda>(w, edited).
           map_option (\<lambda>st. (st, if st = ''promoted'' then edited else None)) (verdict_state w)))"

definition verdict_entry :: "item list \<Rightarrow> string \<times> json \<Rightarrow> decision_row list" where
  "verdict_entry items iv = (case decides items iv of None \<Rightarrow> [] | Some x \<Rightarrow> [(fst iv, x)])"

definition retire_entry :: "db \<Rightarrow> string \<Rightarrow> item list \<Rightarrow> string \<times> json \<Rightarrow> decision_row list" where
  "retire_entry d channel items iv =
     (case decides items iv of
        Some (st, ov) \<Rightarrow>
          if st = ''promoted''
          then (case superseded d (fst iv) channel of Some old \<Rightarrow> [(old, ''retired'', None)] | None \<Rightarrow> [])
          else []
      | None \<Rightarrow> [])"

lemma take_verdicts_eq:
  "take_verdicts d channel items vs all ms ret =
     (foldl (\<lambda>m (i, v). jput i v m) all (filter (\<lambda>iv. decides items iv \<noteq> None) vs),
      ms @ concat (map (verdict_entry items) vs),
      ret @ concat (map (retire_entry d channel items) vs))"
proof (induction vs arbitrary: all ms ret)
  case Nil
  show ?case by simp
next
  case (Cons iv vs)
  obtain i v where iv: "iv = (i, v)" by (cases iv)
  consider (out) "\<not> list_ex (\<lambda>it. i_memory_id it = i) items"
    | (form) "list_ex (\<lambda>it. i_memory_id it = i) items" "verdict_words v = None"
    | (word) w e where "list_ex (\<lambda>it. i_memory_id it = i) items" "verdict_words v = Some (w, e)"
        "verdict_state w = None"
    | (dec) w e st where "list_ex (\<lambda>it. i_memory_id it = i) items" "verdict_words v = Some (w, e)"
        "verdict_state w = Some st"
    by (metis not_None_eq surj_pair)
  then show ?case
  proof cases
    case (dec w e st)
    then show ?thesis
      by (cases "st = ''promoted''"; cases "superseded d i channel")
         (simp_all add: iv Cons.IH decides_def verdict_entry_def retire_entry_def)
  qed (simp_all add: iv Cons.IH decides_def verdict_entry_def retire_entry_def)
qed

lemma superseded_Some:
  "superseded d i channel = Some old \<longleftrightarrow>
     (\<exists>new r. lookup d ''memory'' i = Some new \<and> r_vals new ''supersedes'' = SText old
        \<and> lookup d ''memory'' old = Some r \<and> r_channel r = channel \<and> \<not> r_deleted r
        \<and> r_vals r ''kind'' \<noteq> SNull \<and> r_vals r ''kind'' \<noteq> SText ''directive''
        \<and> r_vals r ''state'' \<in> {SText ''active'', SText ''promoted''})"
  by (auto simp: superseded_def split: option.splits sqlval.splits if_splits)

lemma decides_state: "decides items iv = Some (st, ov) \<Longrightarrow> st = ''promoted'' \<or> st = ''rejected'' \<and> ov = None"
  by (auto simp: decides_def verdict_state_def split: if_splits bind_splits)

text \<open>The items a batch holds, as a verdict reads them.\<close>

definition batch_items :: "batch_libs \<Rightarrow> rrow \<Rightarrow> item list" where
  "batch_items bl r = (case read_promotion r of
      Some (ij, st, ex) \<Rightarrow> (case items_parse bl ij of Some its \<Rightarrow> its | None \<Rightarrow> [])
    | None \<Rightarrow> [])"

definition open_batch :: "db \<Rightarrow> string \<Rightarrow> rrow option" where
  "open_batch d pid = (case lookup d ''promotion'' pid of
      Some r \<Rightarrow> if \<not> r_deleted r \<and> (case read_promotion r of Some (ij, st, ex) \<Rightarrow> st = ''open'' | None \<Rightarrow> False)
                then Some r else None
    | None \<Rightarrow> None)"

definition known_verdicts :: "batch_libs \<Rightarrow> rrow \<Rightarrow> (string \<times> json) list" where
  "known_verdicts bl r = (case get_opt_string (r_vals r ''verdicts_json'') of
      Ok ex \<Rightarrow> (case Option.bind (Option.bind ex (json_parse (b_libs bl))) as_object of
                  Some m \<Rightarrow> m | None \<Rightarrow> [])
    | Err e \<Rightarrow> [])"

definition all_verdicts :: "batch_libs \<Rightarrow> rrow \<Rightarrow> (string \<times> json) list \<Rightarrow> (string \<times> json) list" where
  "all_verdicts bl r vs = foldl (\<lambda>m (i, v). jput i v m) (known_verdicts bl r)
     (filter (\<lambda>iv. decides (batch_items bl r) iv \<noteq> None) vs)"

lemma plan_verdict_eq:
  "plan_verdict bl d pid vs who now_ms = map_option (\<lambda>r.
     (decided_row (b_libs bl) (r_channel r) (case get_string (r_vals r ''items_json'') of Ok s \<Rightarrow> s | Err e \<Rightarrow> [])
        (promotion_complete (batch_items bl r) (all_verdicts bl r vs)) (all_verdicts bl r vs) who now_ms
        (case get_i64 (r_vals r ''created_ms'') of Ok c \<Rightarrow> c | Err e \<Rightarrow> now_ms),
      concat (map (verdict_entry (batch_items bl r)) vs)
        @ concat (map (retire_entry d (r_channel r) (batch_items bl r)) vs)))
     (open_batch d pid)"
proof (cases "lookup d ''promotion'' pid")
  case None
  then show ?thesis by (simp add: plan_verdict_def open_batch_def)
next
  case (Some r)
  show ?thesis
  proof (cases "read_promotion r")
    case None
    with Some show ?thesis by (simp add: plan_verdict_def open_batch_def)
  next
    case rp: (Some x)
    obtain ij st ex where x: "x = (ij, st, ex)" by (metis prod_cases3)
    have "get_string (r_vals r ''items_json'') = Ok ij" "get_opt_string (r_vals r ''verdicts_json'') = Ok ex"
      using rp x by (auto simp: read_promotion_def split: sum.splits)
    with Some rp x show ?thesis
      by (simp add: plan_verdict_def open_batch_def take_verdicts_eq batch_items_def all_verdicts_def
            known_verdicts_def Let_def)
  qed
qed

section \<open>What a decision writes\<close>

text \<open>SQLite keeps a value that already has its column's type.\<close>

definition affinity_ok :: "libs \<Rightarrow> bool" where
  "affinity_ok l \<longleftrightarrow> (\<forall>s. affinity l TEXT (SText s) = SText s) \<and> (\<forall>t. affinity l t SNull = SNull)
     \<and> (\<forall>i. affinity l INTEGER (SInt i) = SInt i) \<and> (\<forall>f. affinity l REAL (SReal f) = SReal f)"

lemma map_of_given_values:
  "map_of (given_values l cols obj) n =
     (if n \<in> set cols \<and> n \<noteq> ''channel'' then map_option (json_to_sql l) (map_of obj n) else None)"
proof (induction cols)
  case Nil
  show ?case by (simp add: given_values_def)
next
  case (Cons c cols)
  have "given_values l (c # cols) obj = (if c = ''channel'' then [] else
      case map_of obj c of None \<Rightarrow> [] | Some v \<Rightarrow> [(c, json_to_sql l v)]) @ given_values l cols obj"
    by (simp add: given_values_def)
  with Cons.IH show ?case by (auto simp: map_add_def split: option.splits)
qed

lemma given_names: "n \<in> fst ` set (given_values l cols obj) \<longleftrightarrow> map_of (given_values l cols obj) n \<noteq> None"
  by (simp add: map_of_eq_None_iff)

text \<open>A local upsert writes one row; each value it gives is the column's.\<close>

lemma write_upsert:
  assumes "write_change l d s channel t Upsert i (JObj obj) now = Ok (d', c)"
  obtains r where "lookup d' t i = Some r" and "\<not> r_deleted r" and "r_channel r = channel"
    and "\<And>n v cols. columns_of t = Some cols \<Longrightarrow> n \<in> set cols \<Longrightarrow> n \<noteq> ''channel'' \<Longrightarrow> map_of obj n = Some v
          \<Longrightarrow> r_vals r n = affinity l (col_type t n) (json_to_sql l v)"
    and "\<And>cols. columns_of t = Some cols \<Longrightarrow> not_null_ok t (given_values l cols obj)"
    and "\<And>t' j. (t', j) \<noteq> (t, i) \<Longrightarrow> lookup d' t' j = lookup d t' j"
  using assms
proof (cases rule: write_changeE)
  case (1 h ms ctr d1)
  let ?c = "\<lparr>table = t, op = Upsert, rec_id = i, site = s, site_seq = next_site_seq d s,
              hlc_ms = ms, hlc_ctr = ctr, row = JObj obj\<rparr>"
  have c: "c = ?c" using 1(2) by simp
  from put_row_Ok [OF 1(5)] obtain r where r: "d1 = store_row d t i r" "r_channel r = channel" "\<not> r_deleted r"
    by (auto simp: c)
  have v: "r_vals r n = affinity l (col_type t n) (json_to_sql l v)"
    if "columns_of t = Some cols" "n \<in> set cols" "n \<noteq> ''channel''" "map_of obj n = Some v" for n v cols
  proof -
    have g: "map_of (given_values l cols obj) n = Some (json_to_sql l v)"
      using that by (simp add: map_of_given_values)
    then have "n \<in> fst ` set (given_values l cols obj)" by (simp add: given_names)
    from put_upsert_values [OF 1(5) _ _ _ this] that(1) g r(1) show ?thesis
      by (simp add: c inserted_def)
  qed
  have nn: "not_null_ok t (given_values l cols obj)" if "columns_of t = Some cols" for cols
    using 1(5) that by (simp add: c put_row_def put_upsert_def Let_def split: if_splits)
  show ?thesis
    by (rule that [of r]) (use r v nn 1(7) in \<open>auto\<close>)
qed

lemma memory_columns:
  "columns_of ''memory'' = Some [''channel'', ''scope'', ''scope_ref'', ''kind'', ''body'', ''source_session'',
       ''source_node'', ''confidence'', ''state'', ''supersedes'', ''created_ms'', ''updated_ms'']"
  "columns_of ''promotion'' = Some [''channel'', ''items_json'', ''state'', ''verdicts_json'', ''decided_by'',
       ''decided_ms'', ''created_ms'']"
  by (simp_all add: columns_of_def TABLES_def)

lemma batch_column_types:
  "col_type ''memory'' ''state'' = TEXT" "col_type ''memory'' ''body'' = TEXT"
  "col_type ''memory'' ''kind'' = TEXT" "col_type ''memory'' ''scope'' = TEXT"
  "col_type ''memory'' ''scope_ref'' = TEXT" "col_type ''memory'' ''source_session'' = TEXT"
  "col_type ''memory'' ''source_node'' = TEXT" "col_type ''memory'' ''supersedes'' = TEXT"
  "col_type ''memory'' ''confidence'' = REAL" "col_type ''memory'' ''created_ms'' = INTEGER"
  "col_type ''promotion'' ''state'' = TEXT" "col_type ''promotion'' ''items_json'' = TEXT"
  "col_type ''promotion'' ''verdicts_json'' = TEXT"
  by (simp_all add: col_type_def schema_of_def installed_tables column_defs)

text \<open>A memory a decision can rewrite: it is there, and its columns are of the types read.\<close>

definition readable :: "libs \<Rightarrow> db \<Rightarrow> string \<Rightarrow> bool" where
  "readable l d i \<longleftrightarrow> (case lookup d ''memory'' i of
      Some r \<Rightarrow> \<not> r_deleted r \<and> (case read_item l (i, r) of Ok it \<Rightarrow> is_i64 (i_created_ms it) | Err e \<Rightarrow> False)
    | None \<Rightarrow> False)"

lemma readable_row: "readable l d i \<Longrightarrow> memory_row_with_state l d i st ov t \<noteq> None"
  by (auto simp: readable_def memory_row_with_state_def split: option.splits sum.splits)

lemma read_item_Ok:
  "read_item l (i, r) = Ok it \<longleftrightarrow>
     r_vals r ''kind'' = SText (i_kind it) \<and> r_vals r ''scope'' = SText (i_scope it)
   \<and> get_opt_string (r_vals r ''scope_ref'') = Ok (i_scope_ref it) \<and> r_vals r ''body'' = SText (i_body it)
   \<and> get_f64 l (r_vals r ''confidence'') = Ok (i_confidence it)
   \<and> get_opt_string (r_vals r ''source_session'') = Ok (i_source_session it)
   \<and> get_opt_string (r_vals r ''source_node'') = Ok (i_source_node it)
   \<and> r_vals r ''created_ms'' = SInt (i_created_ms it)
   \<and> get_opt_string (r_vals r ''supersedes'') = Ok (i_supersedes it) \<and> i_memory_id it = i"
proof -
  have st: "get_string v = Ok x \<longleftrightarrow> v = SText x" for v x by (cases v) auto
  have it: "get_i64 v = Ok x \<longleftrightarrow> v = SInt x" for v x by (cases v) auto
  show ?thesis
    by (cases it) (auto simp: read_item_def Let_def bind_result_eq_Ok st it)
qed

lemma get_opt_written:
  "affinity_ok l \<Longrightarrow> get_opt_string (affinity l TEXT (json_to_sql l (json_opt v))) = Ok v"
  by (cases v) (simp_all add: affinity_ok_def json_opt_def)

lemma memory_write:
  assumes l: "affinity_ok l" and m: "memory_row_with_state l d i st ov t = Some mrow"
    and w: "write_change l d s channel ''memory'' Upsert i mrow t' = Ok (d', c)"
  obtains r it r' b where "lookup d ''memory'' i = Some r" and "read_item l (i, r) = Ok it"
    and "lookup d' ''memory'' i = Some r'" and "\<not> r_deleted r'" and "r_vals r' ''state'' = SText st"
    and "r_channel r' = channel"
    and "is_i64 (i_created_ms it) \<Longrightarrow> read_item l (i, r') = Ok (it\<lparr>i_body := b\<rparr>)"
    and "\<And>tb j. (tb, j) \<noteq> (''memory'', i) \<Longrightarrow> lookup d' tb j = lookup d tb j"
proof -
  from m obtain r it where r: "lookup d ''memory'' i = Some r" "\<not> r_deleted r" "read_item l (i, r) = Ok it"
    by (auto simp: memory_row_with_state_def split: option.splits if_splits sum.splits)
  let ?b = "case ov of Some b \<Rightarrow> b | None \<Rightarrow> i_body it"
  let ?obj = "[(''body'', JStr ?b), (''channel'', JStr (r_channel r)),
               (''confidence'', json_f64 (i_confidence it)), (''created_ms'', JInt (i_created_ms it)),
               (''kind'', JStr (i_kind it)), (''scope'', JStr (i_scope it)),
               (''scope_ref'', json_opt (i_scope_ref it)), (''source_node'', json_opt (i_source_node it)),
               (''source_session'', json_opt (i_source_session it)), (''state'', JStr st),
               (''supersedes'', json_opt (i_supersedes it)), (''updated_ms'', JInt t)]"
  have mrow: "mrow = JObj ?obj" using m r by (simp add: memory_row_with_state_def)
  from w [unfolded mrow] show ?thesis
  proof (rule write_upsert)
    fix r'
    assume r': "lookup d' ''memory'' i = Some r'" "\<not> r_deleted r'" "r_channel r' = channel"
      and v: "\<And>n v cols. columns_of ''memory'' = Some cols \<Longrightarrow> n \<in> set cols \<Longrightarrow> n \<noteq> ''channel'' \<Longrightarrow>
        map_of ?obj n = Some v \<Longrightarrow> r_vals r' n = affinity l (col_type ''memory'' n) (json_to_sql l v)"
      and nn: "\<And>cols. columns_of ''memory'' = Some cols \<Longrightarrow> not_null_ok ''memory'' (given_values l cols ?obj)"
      and fr: "\<And>tb j. (tb, j) \<noteq> (''memory'', i) \<Longrightarrow> lookup d' tb j = lookup d tb j"
    note v' = v [OF memory_columns(1)]
    have st: "r_vals r' ''state'' = SText st"
      using v' [of "''state''" "JStr st"] l by (simp add: batch_column_types affinity_ok_def)
    have conf: "json_f64 (i_confidence it) = JFloat (i_confidence it)"
      using nn [OF memory_columns(1)]
      by (auto simp: json_f64_def not_null_ok_def value_columns_def schema_of_def installed_tables
            column_defs bound_def map_of_given_values stamp_names_def split: if_splits)
    have "read_item l (i, r') = Ok (it\<lparr>i_body := ?b\<rparr>)" if fit: "is_i64 (i_created_ms it)"
        unfolding read_item_Ok
        using l r(3) fit conf
          v' [of "''kind''" "JStr (i_kind it)"] v' [of "''scope''" "JStr (i_scope it)"]
          v' [of "''scope_ref''" "json_opt (i_scope_ref it)"] v' [of "''body''" "JStr ?b"]
          v' [of "''confidence''" "JFloat (i_confidence it)"]
          v' [of "''source_session''" "json_opt (i_source_session it)"]
          v' [of "''source_node''" "json_opt (i_source_node it)"]
          v' [of "''created_ms''" "JInt (i_created_ms it)"]
          v' [of "''supersedes''" "json_opt (i_supersedes it)"]
        by (simp add: batch_column_types get_opt_written read_item_Ok) (simp add: affinity_ok_def)
    with that r r' st fr show ?thesis by blast
  qed
qed

lemma memory_write_readable:
  assumes "affinity_ok l" and "memory_row_with_state l d i st ov t = Some mrow"
    and "write_change l d s channel ''memory'' Upsert i mrow t' = Ok (d', c)" and "readable l d j"
  shows "readable l d' j"
  using assms(1-3)
proof (cases rule: memory_write)
  case (1 r it r' b)
  then show ?thesis using assms(4) 1(8) [of "''memory''" j]
    by (cases "j = i") (auto simp: readable_def split: option.splits sum.splits)
qed

text \<open>The last of a list of decisions on a memory is its state once all are written.\<close>

definition last_word :: "libs \<Rightarrow> db \<Rightarrow> decision_row list \<Rightarrow> db \<Rightarrow> string \<Rightarrow> bool" where
  "last_word l d ms d' i \<longleftrightarrow> (case map_of (rev ms) i of
          None \<Rightarrow> lookup d' ''memory'' i = lookup d ''memory'' i
        | Some (st, ov) \<Rightarrow> readable l d i \<longrightarrow>
            (\<exists>r. lookup d' ''memory'' i = Some r \<and> \<not> r_deleted r \<and> r_vals r ''state'' = SText st))"

lemma write_memories_promotions:
  "lookup (fst (write_memories l s channel now k d ms)) ''promotion'' = lookup d ''promotion''"
proof (induction ms arbitrary: d k)
  case (Cons m ms)
  obtain i st ov where m: "m = (i, st, ov)" by (metis prod_cases3)
  have "lookup d' ''promotion'' = lookup d ''promotion''"
    if "memory_row_with_state l d i st ov (now k) = Some mrow"
      "write_change l d s channel ''memory'' Upsert i mrow (now (k + 1)) = Ok (d', c)" for mrow d' c
  proof -
    from that(1) obtain obj where "mrow = JObj obj"
      by (auto simp: memory_row_with_state_def split: option.splits if_splits sum.splits)
    with that(2) show ?thesis by (auto elim!: write_upsert)
  qed
  with Cons.IH m show ?case by (auto split: option.splits sum.splits)
qed simp

lemma write_memories_last_word:
  assumes "affinity_ok l" and "write_memories l s channel now k d ms = (d', Ok k')"
  shows "last_word l d ms d' i"
  using assms(2)
proof (induction ms arbitrary: d k)
  case Nil
  then show ?case by (simp add: last_word_def)
next
  case (Cons m ms)
  obtain i0 st0 ov0 where m: "m = (i0, st0, ov0)" by (metis prod_cases3)
  show ?case
  proof (cases "memory_row_with_state l d i0 st0 ov0 (now k)")
    case None
    then have nr: "\<not> readable l d i0" using readable_row by blast
    from None Cons.prems m have "write_memories l s channel now (k + 1) d ms = (d', Ok k')" by simp
    from Cons.IH [OF this] nr m show ?thesis
      by (auto simp: last_word_def map_add_def split: option.splits)
  next
    case (Some mrow)
    with Cons.prems m obtain d1 c where w: "write_change l d s channel ''memory'' Upsert i0 mrow (now (k + 1)) = Ok (d1, c)"
      and rest: "write_memories l s channel now (k + 2) d1 ms = (d', Ok k')"
      by (auto split: sum.splits)
    from assms(1) Some w obtain r' where
      r': "lookup d1 ''memory'' i0 = Some r'" "\<not> r_deleted r'" "r_vals r' ''state'' = SText st0"
      and fr: "\<And>tb j. (tb, j) \<noteq> (''memory'', i0) \<Longrightarrow> lookup d1 tb j = lookup d tb j" by (rule memory_write) blast
    have rd: "readable l d i \<Longrightarrow> readable l d1 i" by (rule memory_write_readable [OF assms(1) Some w])
    show ?thesis
    proof (cases "map_of (rev ms) i")
      case None
      then have "lookup d' ''memory'' i = lookup d1 ''memory'' i" using Cons.IH [OF rest] by (simp add: last_word_def)
      with None m r' fr [of "''memory''" i] show ?thesis
        by (cases "i = i0") (simp_all add: map_add_def last_word_def)
    next
      case (Some a)
      with Cons.IH [OF rest] m rd show ?thesis by (cases a) (simp add: map_add_def last_word_def)
    qed
  qed
qed

section \<open>The decision as a whole\<close>

definition retires :: "db \<Rightarrow> string \<Rightarrow> item list \<Rightarrow> (string \<times> json) list \<Rightarrow> string \<Rightarrow> bool" where
  "retires d channel items vs i \<longleftrightarrow>
     (\<exists>iv \<in> set vs. map_option fst (decides items iv) = Some ''promoted'' \<and> superseded d (fst iv) channel = Some i)"

text \<open>The state the operator's verdicts give a memory, if they say anything of it.\<close>

definition new_state :: "db \<Rightarrow> string \<Rightarrow> item list \<Rightarrow> (string \<times> json) list \<Rightarrow> string \<Rightarrow> string option" where
  "new_state d channel items vs i =
     (if retires d channel items vs i then Some ''retired''
      else Option.bind (map_of vs i) (\<lambda>v. map_option fst (decides items (i, v))))"

lemma map_of_verdict_entries:
  assumes "distinct (map fst vs)"
  shows "map_of (rev (concat (map (verdict_entry items) vs))) i = Option.bind (map_of vs i) (\<lambda>v. decides items (i, v))"
  using assms
proof (induction vs)
  case (Cons iv vs)
  obtain j v where iv: "iv = (j, v)" by (cases iv)
  have "map_of vs j = None" using Cons.prems by (simp add: iv map_of_eq_None_iff)
  with Cons iv show ?case
    by (cases "j = i"; cases "decides items iv") (simp_all add: verdict_entry_def map_add_def split: option.split)
qed simp

lemma retire_entry_set:
  "x \<in> set (retire_entry d channel items iv) \<longleftrightarrow> snd x = (''retired'', None)
      \<and> map_option fst (decides items iv) = Some ''promoted'' \<and> superseded d (fst iv) channel = Some (fst x)"
proof (cases "decides items iv")
  case None
  then show ?thesis by (simp add: retire_entry_def)
next
  case (Some y)
  obtain st ov where y: "y = (st, ov)" by (cases y)
  show ?thesis
  proof (cases "st = ''promoted''")
    case True
    with Some y show ?thesis
      by (cases x; cases "superseded d (fst iv) channel") (simp_all add: retire_entry_def eq_commute conj_commute)
  next
    case False
    with Some y show ?thesis by (simp add: retire_entry_def)
  qed
qed

lemma retire_entries_set:
  "x \<in> set (concat (map (retire_entry d channel items) vs)) \<longleftrightarrow>
     snd x = (''retired'', None) \<and> retires d channel items vs (fst x)"
  unfolding retires_def set_concat set_map UN_iff bex_simps retire_entry_set by blast

lemma map_of_retire_entries:
  "map_of (rev (concat (map (retire_entry d channel items) vs))) i =
     (if retires d channel items vs i then Some (''retired'', None) else None)"
proof -
  let ?xs = "rev (concat (map (retire_entry d channel items) vs))"
  have mem: "x \<in> set ?xs \<longleftrightarrow> snd x = (''retired'', None) \<and> retires d channel items vs (fst x)" for x
    using retire_entries_set [of x d channel items vs] by simp
  show ?thesis
  proof (cases "map_of ?xs i")
    case None
    then have "i \<notin> fst ` set ?xs" by (rule map_of_eq_None_iff [THEN iffD1])
    then have "(i, ''retired'', None) \<notin> set ?xs" by (metis fst_conv image_eqI)
    with mem [of "(i, ''retired'', None)"] have "\<not> retires d channel items vs i"
      unfolding fst_conv snd_conv by blast
    with None show ?thesis by simp
  next
    case (Some y)
    then have "(i, y) \<in> set ?xs" by (rule map_of_SomeD)
    then have "y = (''retired'', None) \<and> retires d channel items vs i" by (simp only: mem fst_conv snd_conv)
    with Some show ?thesis by simp
  qed
qed

lemma map_of_decisions:
  assumes "distinct (map fst vs)"
  shows "map_option fst (map_of (rev (concat (map (verdict_entry items) vs)
      @ concat (map (retire_entry d channel items) vs))) i) = new_state d channel items vs i"
  by (cases "retires d channel items vs i"; cases "map_of vs i")
     (simp_all add: map_add_def map_of_retire_entries map_of_verdict_entries [OF assms] new_state_def
        del: rev_concat)

lemma decided_row_channel [simp]:
  "Option.bind (jget (decided_row l channel ij dn al who now_ms created) ''channel'') as_str = Some channel"
  by (simp add: decided_row_def)

text \<open>A decision on an open batch: the memories, then the batch's own row.\<close>

lemma promote_decideE:
  assumes "promote_decide bl s pid vs now d = (d', Ok b)" and "open_batch d pid = Some r"
  obtains d1 k c prow where "b"
    and "write_memories (b_libs bl) s (r_channel r) now 1 d
           (concat (map (verdict_entry (batch_items bl r)) vs)
            @ concat (map (retire_entry d (r_channel r) (batch_items bl r)) vs)) = (d1, Ok k)"
    and "prow = decided_row (b_libs bl) (r_channel r)
           (case get_string (r_vals r ''items_json'') of Ok s \<Rightarrow> s | Err e \<Rightarrow> [])
           (promotion_complete (batch_items bl r) (all_verdicts bl r vs)) (all_verdicts bl r vs) s (now 0)
           (case get_i64 (r_vals r ''created_ms'') of Ok c \<Rightarrow> c | Err e \<Rightarrow> now 0)"
    and "write_change (b_libs bl) d1 s (r_channel r) ''promotion'' Upsert pid prow (now k) = Ok (d', c)"
  using assms
  by (auto simp: promote_decide_def plan_verdict_eq Let_def split: prod.splits sum.splits)

lemma promotion_write:
  assumes "affinity_ok l"
    and "write_change l d s channel ''promotion'' Upsert pid (decided_row l channel ij dn al who nw cr) t = Ok (d', c)"
  obtains r where "lookup d' ''promotion'' pid = Some r" and "\<not> r_deleted r"
    and "r_vals r ''state'' = SText (if dn then ''decided'' else ''open'')"
    and "\<And>tb j. (tb, j) \<noteq> (''promotion'', pid) \<Longrightarrow> lookup d' tb j = lookup d tb j"
  using assms(2) unfolding decided_row_def
proof (rule write_upsert)
  fix r
  assume r: "lookup d' ''promotion'' pid = Some r" "\<not> r_deleted r"
    and v: "\<And>n v cols. columns_of ''promotion'' = Some cols \<Longrightarrow> n \<in> set cols \<Longrightarrow> n \<noteq> ''channel'' \<Longrightarrow>
        map_of [(''channel'', JStr channel), (''created_ms'', JInt cr),
          (''decided_by'', if dn then JStr who else JNull), (''decided_ms'', if dn then JInt nw else JNull),
          (''items_json'', JStr ij), (''state'', JStr (if dn then ''decided'' else ''open'')),
          (''verdicts_json'', JStr (json_text l (JObj al)))] n = Some v
        \<Longrightarrow> r_vals r n = affinity l (col_type ''promotion'' n) (json_to_sql l v)"
    and fr: "\<And>tb j. (tb, j) \<noteq> (''promotion'', pid) \<Longrightarrow> lookup d' tb j = lookup d tb j"
  have "r_vals r ''state'' = SText (if dn then ''decided'' else ''open'')"
    using v [OF memory_columns(2), of "''state''" "JStr (if dn then ''decided'' else ''open'')"] assms(1)
    by (simp add: batch_column_types affinity_ok_def)
  with that r fr show ?thesis by blast
qed

section \<open>The life of a batch\<close>

definition batch_state :: "db \<Rightarrow> string \<Rightarrow> sqlval option" where
  "batch_state d pid = map_option (\<lambda>r. r_vals r ''state'') (lookup d ''promotion'' pid)"

text \<open>What the node does to its batches: decisions, also failing ones, and new batches under new ids.\<close>

inductive batch_step :: "batch_libs \<Rightarrow> db \<Rightarrow> db \<Rightarrow> bool" for bl where
  decided: "promote_decide bl s pid vs now d = (d', res) \<Longrightarrow> batch_step bl d d'"
| batched: "batch_channel bl s channel new_id min_age now d = (d', out) \<Longrightarrow>
    lookup d ''promotion'' new_id = None \<Longrightarrow> batch_step bl d d'"

lemma closed_batch_undecidable:
  assumes "batch_state d pid = Some (SText st)" and "st \<noteq> ''open''"
  shows "promote_decide bl s pid vs now d = (d, Ok False)"
proof -
  from assms(1) obtain r where r: "lookup d ''promotion'' pid = Some r" "r_vals r ''state'' = SText st"
    by (auto simp: batch_state_def)
  have "open_batch d pid = None"
    using r assms(2) by (auto simp: open_batch_def read_promotion_def split: option.splits sum.splits)
  then show ?thesis by (simp add: promote_decide_def plan_verdict_eq)
qed

lemma memory_row_object: "memory_row_with_state l d i st ov t = Some mrow \<Longrightarrow> \<exists>obj. mrow = JObj obj"
  by (auto simp: memory_row_with_state_def split: option.splits if_splits sum.splits)

lemma write_upsert_frame:
  assumes "write_change l d s channel t Upsert i (JObj obj) now = Ok (d', c)" and "(t', j) \<noteq> (t, i)"
  shows "lookup d' t' j = lookup d t' j"
  by (rule write_upsert [OF assms(1)]) (use assms(2) in blast)

lemma propose_items_promotions:
  "lookup (propose_items l s channel now k d its) ''promotion'' pid = lookup d ''promotion'' pid"
proof (induction its arbitrary: d k)
  case (Cons it its)
  have "lookup d' ''promotion'' pid = lookup d ''promotion'' pid"
    if "memory_row_with_state l d (i_memory_id it) ''proposed'' None (now k) = Some mrow"
      "write_change l d s channel ''memory'' Upsert (i_memory_id it) mrow (now (k + 1)) = Ok (d', c)" for mrow d' c
    using memory_row_object [OF that(1)] that(2) write_upsert_frame by fastforce
  with Cons.IH show ?case by (auto split: option.splits sum.splits)
qed simp

lemma promote_decide_frame:
  assumes "promote_decide bl s pid' vs now d = (d', res)" and "pid \<noteq> pid'"
  shows "lookup d' ''promotion'' pid = lookup d ''promotion'' pid"
proof (cases "plan_verdict bl d pid' vs s (now 0)")
  case None
  with assms(1) show ?thesis by (simp add: promote_decide_def)
next
  case (Some x)
  obtain prow ms where x: "x = (prow, ms)" by (cases x)
  obtain obj where prow: "prow = JObj obj"
    using Some x by (auto simp: plan_verdict_eq decided_row_def)
  let ?ch = "case Option.bind (jget prow ''channel'') as_str of Some c \<Rightarrow> c | None \<Rightarrow> []"
  obtain d1 k where wm: "write_memories (b_libs bl) s ?ch now 1 d ms = (d1, k)" by (metis surj_pair)
  have d1: "lookup d1 ''promotion'' pid = lookup d ''promotion'' pid"
    using write_memories_promotions [of "b_libs bl" s ?ch now 1 d ms] wm by simp
  have "lookup d2 ''promotion'' pid = lookup d1 ''promotion'' pid"
    if "write_change (b_libs bl) d1 s ?ch ''promotion'' Upsert pid' prow t = Ok (d2, c)" for d2 c t
    by (rule write_upsert_frame [OF that [unfolded prow]]) (use assms(2) in simp)
  with assms(1) Some x wm d1 show ?thesis
    by (auto simp: promote_decide_def Let_def split: sum.splits)
qed

lemma batch_step_keeps_closed:
  assumes "batch_step bl d d'" and "batch_state d pid = Some (SText st)" and "st \<noteq> ''open''"
  shows "batch_state d' pid = Some (SText st)"
  using assms(1)
proof cases
  case (decided s pid' vs now res)
  show ?thesis
  proof (cases "pid' = pid")
    case True
    with decided closed_batch_undecidable [OF assms(2,3)] assms(2) show ?thesis by simp
  next
    case False
    with promote_decide_frame [OF decided] assms(2) show ?thesis by (simp add: batch_state_def)
  qed
next
  case (batched s channel new_id min_age now out)
  have ne: "pid \<noteq> new_id" using batched(2) assms(2) by (auto simp: batch_state_def)
  have "lookup d1 ''promotion'' pid = lookup d ''promotion'' pid"
    if "write_change (b_libs bl) d s channel ''promotion'' Upsert new_id (promotion_row (b_libs bl) p t) t' = Ok (d1, c)" for d1 c p t t'
    by (rule write_upsert_frame [OF that [unfolded promotion_row_def]]) (use ne in simp)
  with batched(1) assms(2) show ?thesis
    by (auto simp: batch_channel_def batch_state_def propose_items_promotions split: sum.splits option.splits)
qed

text \<open>The state of a batch that is no longer open.\<close>

definition closed_state :: "db \<Rightarrow> string \<Rightarrow> string option" where
  "closed_state d pid = (case batch_state d pid of
      Some (SText st) \<Rightarrow> if st \<noteq> ''open'' then Some st else None | _ \<Rightarrow> None)"

lemma closed_state_Some: "closed_state d pid = Some st \<longleftrightarrow> batch_state d pid = Some (SText st) \<and> st \<noteq> ''open''"
  by (auto simp: closed_state_def split: option.splits sqlval.splits)

interpretation closed: kept_entries "batch_step bl" closed_state "(=)" for bl
  by unfold_locales (simp_all add: closed_state_Some batch_step_keeps_closed)

section \<open>What a plan holds\<close>

lemma collect_ok_Ok: "collect_ok rs = Ok xs \<longleftrightarrow> rs = map Inr xs"
  by (induction rs arbitrary: xs) (auto simp: bind_result_eq_Ok)

text \<open>A batch is never empty, holds at most 200 memories, and only live candidates of its channel
  that are old enough.\<close>

lemma plan_promotion_items:
  assumes "plan_promotion bl d channel pid now_ms age = Ok (Some p)"
    and "\<And>rs. set (order_by_created bl rs) \<subseteq> set rs"
  shows "p_items p \<noteq> [] \<and> length (p_items p) \<le> 200 \<and> p_channel p = channel
    \<and> (\<forall>it \<in> set (p_items p). \<exists>r. (i_memory_id it, r) \<in> set (candidate_rows bl d channel (now_ms - age)))"
proof -
  let ?rs = "take 200 (order_by_created bl (candidate_rows bl d channel (now_ms - age)))"
  obtain items where c: "map (read_item (b_libs bl)) ?rs = map Inr items" and ne: "items \<noteq> []"
    and p: "p = \<lparr>p_promotion_id = pid, p_channel = channel, p_items = items\<rparr>"
    using assms(1) by (auto simp: plan_promotion_def bind_result_eq_Ok collect_ok_Ok split: if_splits)
  have "\<exists>r. (i_memory_id it, r) \<in> set (candidate_rows bl d channel (now_ms - age))" if "it \<in> set items" for it
  proof -
    from that have "Inr it \<in> set (map (read_item (b_libs bl)) ?rs)" by (simp add: c)
    then obtain i r where ir: "(i, r) \<in> set ?rs" "read_item (b_libs bl) (i, r) = Ok it" by (auto simp del: set_take_subset)
    then have "i_memory_id it = i" by (simp add: read_item_Ok)
    moreover have "(i, r) \<in> set (candidate_rows bl d channel (now_ms - age))"
      using ir(1) assms(2) by (meson in_set_takeD subsetD)
    ultimately show ?thesis by blast
  qed
  moreover have "length items \<le> 200" using arg_cong [OF c, of length] by simp
  ultimately show ?thesis using p ne by simp
qed

section \<open>A decision goes through\<close>

lemma max_seq_next: "max_seq (es @ [e]) = (if es = [] then l_seq e else max (max_seq es) (l_seq e))"
  by (simp add: max_seq_def max.commute)

lemma logged_le: "logged d s q \<Longrightarrow> q < next_site_seq d s"
  by (auto simp: logged_def list_ex_iff next_site_seq_def max_seq_def filter_empty_conv intro!: zle_add1_eq_le [THEN iffD2] Max_ge)

lemma next_site_seq_logged:
  "l_site e = s \<Longrightarrow> l_seq e = next_site_seq d s \<Longrightarrow> change_log d' = change_log d @ [e]
    \<Longrightarrow> next_site_seq d' s = next_site_seq d s + 1"
  unfolding next_site_seq_def by (cases "filter (\<lambda>e. l_site e = s) (change_log d) = []")
    (simp add: max_seq_next max_seq_def, simp add: max_seq_next)

text \<open>A local upsert succeeds while the clock moves on, the site has numbers left, the record is
  the channel's and no required column is empty.\<close>

lemma write_upsert_Ok:
  assumes "last_ms (clock d) < now" and "next_site_seq d s \<le> i64_max" and "columns_of t = Some cols"
    and "map_of obj ''channel'' = Some (JStr channel)"
    and "\<And>r. lookup d t i = Some r \<Longrightarrow> r_channel r = channel"
    and "not_null_ok t (given_values l cols obj)"
  shows "\<exists>d' c. write_change l d s channel t Upsert i (JObj obj) now = Ok (d', c)
    \<and> last_ms (clock d') = now \<and> next_site_seq d' s = next_site_seq d s + 1"
proof -
  let ?h = "set_stamp (hlc_load d) (now, 0)"
  have tk: "tick (hlc_load d) now = (?h, Some (now, 0))"
    using assms(1) by (simp add: tick_def hlc_load_def commit_def)
  let ?c = "\<lparr>table = t, op = Upsert, rec_id = i, site = s, site_seq = next_site_seq d s,
              hlc_ms = now, hlc_ctr = 0, row = JObj obj\<rparr>"
  have vc: "validate_channel d channel ?c = Ok ()"
    using assms(3-5) by (simp add: validate_channel_def split: option.split)
  obtain d1 where d1: "put_row l d channel ?c = Ok d1"
    using assms(3,6) by (simp add: put_row_def put_upsert_def Let_def)
  have log: "change_log d1 = change_log d" by (rule put_row_Ok [OF d1]) simp
  then have nl: "\<not> logged d1 s (next_site_seq d s)"
    using logged_le [of d s "next_site_seq d s"] by (auto simp: logged_def)
  let ?d' = "hlc_store ?h (d1\<lparr>change_log := change_log d1 @ [log_entry l channel ?c True now]\<rparr>)"
  have w: "write_change l d s channel t Upsert i (JObj obj) now = Ok (?d', ?c)"
    using assms(2,3) nl by (simp add: write_change_def tk Let_def vc d1 log_change_def)
  have "next_site_seq ?d' s = next_site_seq d s + 1"
    by (rule next_site_seq_logged [of "log_entry l channel ?c True now"]) (simp_all add: log)
  with w show ?thesis by (intro exI [of _ ?d'] exI [of _ ?c]) (simp add: set_stamp_def)
qed

lemma memory_not_null:
  "not_null_ok ''memory'' g \<longleftrightarrow> (\<forall>n \<in> {''scope'', ''kind'', ''body'', ''confidence'', ''state'', ''created_ms'', ''updated_ms''}.
     map_of g n \<noteq> Some SNull) \<and> (\<forall>n \<in> {''kind'', ''created_ms'', ''updated_ms''}. map_of g n \<noteq> None)"
  by (simp add: not_null_ok_def value_columns_def schema_of_def installed_tables column_defs bound_def stamp_names_def
        f64_one_def split: option.split)

lemma promotion_not_null:
  "not_null_ok ''promotion'' g \<longleftrightarrow> (\<forall>n \<in> {''items_json'', ''state'', ''created_ms''}.
     map_of g n \<noteq> Some SNull) \<and> map_of g ''created_ms'' \<noteq> None"
  by (simp add: not_null_ok_def value_columns_def schema_of_def installed_tables column_defs bound_def stamp_names_def
        split: option.split)

text \<open>A memory a decision on the channel can write: on the channel, with values that are kept.\<close>

definition sound_memory :: "libs \<Rightarrow> db \<Rightarrow> string \<Rightarrow> string \<Rightarrow> bool" where
  "sound_memory l d channel i \<longleftrightarrow> (case lookup d ''memory'' i of
      Some r \<Rightarrow> r_deleted r \<or> r_channel r = channel \<and> (case read_item l (i, r) of
         Ok it \<Rightarrow> is_i64 (i_created_ms it) \<and> json_f64 (i_confidence it) \<noteq> JNull | Err e \<Rightarrow> True)
    | None \<Rightarrow> True)"

lemma memory_write_Ok:
  assumes "memory_row_with_state l d i st ov t = Some mrow" and "sound_memory l d channel i"
    and "last_ms (clock d) < t'" and "next_site_seq d s \<le> i64_max"
  shows "\<exists>d' c. write_change l d s channel ''memory'' Upsert i mrow t' = Ok (d', c)
    \<and> last_ms (clock d') = t' \<and> next_site_seq d' s = next_site_seq d s + 1"
proof -
  from assms(1) obtain r it where r: "lookup d ''memory'' i = Some r" "\<not> r_deleted r" "read_item l (i, r) = Ok it"
    and mrow: "mrow = JObj [(''body'', JStr (case ov of Some b \<Rightarrow> b | None \<Rightarrow> i_body it)), (''channel'', JStr (r_channel r)),
               (''confidence'', json_f64 (i_confidence it)), (''created_ms'', JInt (i_created_ms it)),
               (''kind'', JStr (i_kind it)), (''scope'', JStr (i_scope it)),
               (''scope_ref'', json_opt (i_scope_ref it)), (''source_node'', json_opt (i_source_node it)),
               (''source_session'', json_opt (i_source_session it)), (''state'', JStr st),
               (''supersedes'', json_opt (i_supersedes it)), (''updated_ms'', JInt t)]"
    by (auto simp: memory_row_with_state_def split: option.splits if_splits sum.splits)
  have ch: "r_channel r = channel" and cf: "json_f64 (i_confidence it) \<noteq> JNull"
    using assms(2) r by (simp_all add: sound_memory_def)
  show ?thesis unfolding mrow
    by (rule write_upsert_Ok [OF assms(3,4) memory_columns(1)])
       (use r ch cf in \<open>simp_all add: memory_not_null map_of_given_values json_f64_def split: if_splits\<close>)
qed

lemma memory_write_sound:
  assumes "affinity_ok l" and "memory_row_with_state l d i st ov t = Some mrow"
    and "write_change l d s channel ''memory'' Upsert i mrow t' = Ok (d', c)" and "sound_memory l d channel j"
  shows "sound_memory l d' channel j"
  using assms(1-3)
proof (cases rule: memory_write)
  case (1 r it r' b)
  have "\<not> r_deleted r" using assms(2) 1(1) by (simp add: memory_row_with_state_def split: if_splits)
  with 1 assms(4) 1(8) [of "''memory''" j] show ?thesis
    by (cases "j = i") (simp_all add: sound_memory_def)
qed

lemma write_memories_Ok:
  assumes "affinity_ok l" and "strict_mono now" and "\<forall>m \<in> set ms. sound_memory l d channel (fst m)"
    and "last_ms (clock d) < now k" and "next_site_seq d s + int (length ms) \<le> i64_max"
  shows "\<exists>d' k'. write_memories l s channel now k d ms = (d', Ok k') \<and> last_ms (clock d') < now k'
    \<and> next_site_seq d' s \<le> next_site_seq d s + int (length ms)"
  using assms(3-5)
proof (induction ms arbitrary: d k)
  case (Cons m ms)
  obtain i st ov where m: "m = (i, st, ov)" by (metis prod_cases3)
  have nk: "now k < now (k + 1)" "now (k + 1) < now (k + 2)" using assms(2) by (simp_all add: strict_mono_less)
  show ?case
  proof (cases "memory_row_with_state l d i st ov (now k)")
    case None
    with Cons.IH [of d "k + 1"] Cons.prems nk m show ?thesis by fastforce
  next
    case (Some mrow)
    from memory_write_Ok [OF Some, of channel "now (k + 1)" s] Cons.prems nk m obtain d1 c where
      w: "write_change l d s channel ''memory'' Upsert i mrow (now (k + 1)) = Ok (d1, c)"
      and cl: "last_ms (clock d1) = now (k + 1)" and sq: "next_site_seq d1 s = next_site_seq d s + 1" by auto
    have "\<forall>m \<in> set ms. sound_memory l d1 channel (fst m)"
      using Cons.prems(1) memory_write_sound [OF assms(1) Some w] by simp
    from Cons.IH [OF this, of "k + 2"] nk cl sq Cons.prems(3) obtain d' k' where
      "write_memories l s channel now (k + 2) d1 ms = (d', Ok k') \<and> last_ms (clock d') < now k'
       \<and> next_site_seq d' s \<le> next_site_seq d1 s + int (length ms)" by auto
    with m Some w sq show ?thesis by simp
  qed
qed simp

lemma decide_progress:
  assumes "affinity_ok (b_libs bl)" and "open_batch d pid = Some r"
    and "strict_mono now" and "last_ms (clock d) < now 0"
    and "next_site_seq d s + 2 * int (length vs) \<le> i64_max"
    and "\<forall>it \<in> set (batch_items bl r). sound_memory (b_libs bl) d (r_channel r) (i_memory_id it)"
    and "\<forall>i m. lookup d ''memory'' i = Some m \<and> r_channel m = r_channel r \<longrightarrow> sound_memory (b_libs bl) d (r_channel r) i"
  shows "\<exists>d'. promote_decide bl s pid vs now d = (d', Ok True)"
proof -
  let ?A = "concat (map (verdict_entry (batch_items bl r)) vs)"
  let ?B = "concat (map (retire_entry d (r_channel r) (batch_items bl r)) vs)"
  have "sound_memory (b_libs bl) d (r_channel r) (fst m)" if "m \<in> set ?A" for m
  proof -
    from that obtain iv x where iv: "iv \<in> set vs" "decides (batch_items bl r) iv = Some x" "m = (fst iv, x)"
      by (auto simp: verdict_entry_def split: option.splits)
    then obtain it where "it \<in> set (batch_items bl r)" "i_memory_id it = fst iv"
      by (auto simp: decides_def list_ex_iff split: if_splits)
    with assms(6) iv show ?thesis by auto
  qed
  moreover have "sound_memory (b_libs bl) d (r_channel r) (fst m)" if "m \<in> set ?B" for m
  proof -
    from that have "retires d (r_channel r) (batch_items bl r) vs (fst m)" unfolding retire_entries_set by simp
    with assms(7) show ?thesis unfolding retires_def superseded_Some by blast
  qed
  ultimately have sd: "\<forall>m \<in> set (?A @ ?B). sound_memory (b_libs bl) d (r_channel r) (fst m)"
    unfolding set_append by blast
  have "length ?A \<le> length vs" "length ?B \<le> length vs"
    by (induction vs) (auto simp: verdict_entry_def retire_entry_def split: option.splits)
  then have len: "next_site_seq d s + int (length (?A @ ?B)) \<le> i64_max" using assms(5) by simp
  have "last_ms (clock d) < now 1" using assms(3,4) strict_mono_less [OF assms(3), of 0 1] by simp
  from write_memories_Ok [OF assms(1,3) sd this len] obtain d1 k where
    wm: "write_memories (b_libs bl) s (r_channel r) now 1 d (?A @ ?B) = (d1, Ok k)"
    and cl: "last_ms (clock d1) < now k" and sq: "next_site_seq d1 s \<le> i64_max" using len by auto
  let ?p = "decided_row (b_libs bl) (r_channel r) (case get_string (r_vals r ''items_json'') of Ok s \<Rightarrow> s | Err e \<Rightarrow> [])
     (promotion_complete (batch_items bl r) (all_verdicts bl r vs)) (all_verdicts bl r vs) s (now 0)
     (case get_i64 (r_vals r ''created_ms'') of Ok c \<Rightarrow> c | Err e \<Rightarrow> now 0)"
  have "lookup d1 ''promotion'' pid = lookup d ''promotion'' pid"
    using write_memories_promotions [of "b_libs bl" s "r_channel r" now 1 d "?A @ ?B"] wm by simp
  then have ch: "r_channel m = r_channel r" if "lookup d1 ''promotion'' pid = Some m" for m
    using that assms(2) by (auto simp: open_batch_def split: option.splits if_splits)
  have "\<exists>d' c. write_change (b_libs bl) d1 s (r_channel r) ''promotion'' Upsert pid ?p (now k) = Ok (d', c)
      \<and> last_ms (clock d') = now k \<and> next_site_seq d' s = next_site_seq d1 s + 1"
    unfolding decided_row_def
    by (rule write_upsert_Ok [OF cl sq memory_columns(2)])
       (use ch in \<open>simp_all add: promotion_not_null map_of_given_values\<close>)
  with wm assms(2) show ?thesis by (auto simp: promote_decide_def plan_verdict_eq Let_def)
qed

section \<open>A sample: one correction in a batch\<close>

definition sample_item :: item where
  "sample_item = \<lparr>i_memory_id = ''m1'', i_kind = ''lesson'', i_scope = ''global'', i_scope_ref = None,
     i_body = ''b'', i_confidence = 0, i_source_session = None, i_source_node = None,
     i_created_ms = 1, i_supersedes = Some ''m0''\<rparr>"

definition sample_libs :: batch_libs where
  "sample_libs = \<lparr>b_libs = \<lparr>affinity = (\<lambda>_ v. v), json_text = (\<lambda>_. []), json_parse = (\<lambda>_. None), f64_of_int = nat\<rparr>,
     real_le_int = (\<lambda>_ _. False), order_by_created = (\<lambda>rs. rs), items_parse = (\<lambda>_. Some [sample_item])\<rparr>"

definition sample_memory :: "string \<Rightarrow> sqlval \<Rightarrow> rrow" where
  "sample_memory st su = \<lparr>r_channel = ''ch'', r_site = ''a'', r_seq = 1, r_ms = 1, r_ctr = 0, r_deleted = False,
     r_vals = (\<lambda>n. if n = ''state'' then SText st else if n = ''supersedes'' then su
                   else if n = ''kind'' then SText ''lesson'' else if n = ''scope'' then SText ''global''
                   else if n = ''body'' then SText ''b'' else if n = ''confidence'' then SReal 0
                   else if n = ''created_ms'' then SInt 1 else SNull)\<rparr>"

definition sample_promotion :: rrow where
  "sample_promotion = \<lparr>r_channel = ''ch'', r_site = ''a'', r_seq = 3, r_ms = 1, r_ctr = 0, r_deleted = False,
     r_vals = (\<lambda>n. if n = ''state'' then SText ''open'' else if n = ''items_json'' then SText ''x''
                   else if n = ''created_ms'' then SInt 1 else SNull)\<rparr>"

definition sample_db :: db where
  "sample_db = \<lparr>clock = \<lparr>last_ms = 1, last_ctr = 0\<rparr>, change_log = [],
     recs = (\<lambda>t. if t = ''memory'' then [(''m0'', sample_memory ''active'' SNull),
                                         (''m1'', sample_memory ''proposed'' (SText ''m0''))]
                 else if t = ''promotion'' then [(''p'', sample_promotion)] else [])\<rparr>"

abbreviation sample_verdicts :: "(string \<times> json) list" where
  "sample_verdicts \<equiv> [(''m1'', JStr ''promote''), (''zz'', JStr ''reject'')]"

abbreviation sample_now :: "nat \<Rightarrow> int" where
  "sample_now \<equiv> (\<lambda>k. 10 + int k)"

lemma sample_affinity: "affinity_ok (b_libs sample_libs)"
  by (simp add: affinity_ok_def sample_libs_def)

lemma sample_open: "open_batch sample_db ''p'' = Some sample_promotion"
  by (simp add: open_batch_def lookup_def sample_db_def sample_promotion_def read_promotion_def)

lemma sample_items: "batch_items sample_libs sample_promotion = [sample_item]"
  by (simp add: batch_items_def sample_promotion_def read_promotion_def sample_libs_def)

lemma sample_new_state:
  "new_state sample_db ''ch'' [sample_item] sample_verdicts ''m0'' = Some ''retired''"
  by (simp add: new_state_def retires_def decides_def sample_item_def verdict_words_def verdict_state_def
        superseded_def lookup_def sample_db_def sample_memory_def)

lemma sample_readable: "readable (b_libs sample_libs) sample_db ''m0''"
  by (simp add: readable_def lookup_def sample_db_def sample_memory_def read_item_def is_i64_def
        i64_max_def i64_min_def)

lemma sample_sound:
  "sound_memory (b_libs sample_libs) sample_db ''ch'' i"
  by (simp add: sound_memory_def lookup_def sample_db_def sample_memory_def read_item_def is_i64_def
        i64_max_def i64_min_def json_f64_def)

lemma sample_seq: "next_site_seq sample_db ''a'' = 1" "last_ms (clock sample_db) = 1"
  by (simp_all add: next_site_seq_def sample_db_def max_seq_def)

lemma sample_decide: "\<exists>d'. promote_decide sample_libs ''a'' ''p'' sample_verdicts sample_now sample_db = (d', Ok True)"
proof (rule decide_progress [OF sample_affinity sample_open])
  show "strict_mono sample_now" by (rule strict_monoI) simp
qed (simp_all add: sample_seq sample_sound i64_max_def sample_promotion_def)

lemma sample_complete:
  "promotion_complete (batch_items sample_libs sample_promotion) (all_verdicts sample_libs sample_promotion sample_verdicts)"
  unfolding promotion_complete_def all_verdicts_def sample_items
  by (simp add: decides_def sample_item_def verdict_words_def verdict_state_def known_verdicts_def sample_promotion_def)

section \<open>Properties\<close>

text \<open>
  C20: A decision on an open batch that succeeds gives every memory the state the operator's
  verdicts say and touches no other: a memory of the batch is promoted or rejected by its
  verdict, the live, non-directive memory on the channel that a promoted correction names is
  retired even where a verdict of the same decision says otherwise of it, and a verdict on a
  memory that is not of the batch, or of an unknown form, changes nothing.
\<close>

theorem verdicts_take_effect:
  assumes "affinity_ok (b_libs bl)" and "open_batch d pid = Some r" and "distinct (map fst vs)"
    and "promote_decide bl s pid vs now d = (d', Ok b)"
  shows "b \<and> (case new_state d (r_channel r) (batch_items bl r) vs i of
      None \<Rightarrow> lookup d' ''memory'' i = lookup d ''memory'' i
    | Some st \<Rightarrow> readable (b_libs bl) d i \<longrightarrow>
        (\<exists>r'. lookup d' ''memory'' i = Some r' \<and> \<not> r_deleted r' \<and> r_vals r' ''state'' = SText st))"
  using assms(4,2)
proof (cases rule: promote_decideE)
  case (1 d1 k c prow)
  let ?ms = "concat (map (verdict_entry (batch_items bl r)) vs)
      @ concat (map (retire_entry d (r_channel r) (batch_items bl r)) vs)"
  have fr: "lookup d' ''memory'' i = lookup d1 ''memory'' i"
    by (rule promotion_write [OF assms(1) 1(4) [unfolded 1(3)]]) simp
  have lw: "last_word (b_libs bl) d ?ms d1 i" by (rule write_memories_last_word [OF assms(1) 1(2)])
  have ns: "map_option fst (map_of (rev ?ms) i) = new_state d (r_channel r) (batch_items bl r) vs i"
    by (rule map_of_decisions [OF assms(3)])
  show ?thesis
  proof (cases "map_of (rev ?ms) i")
    case None
    with lw ns [symmetric] 1(1) fr show ?thesis unfolding last_word_def by (simp del: rev_append)
  next
    case (Some x)
    with lw ns [symmetric] 1(1) fr show ?thesis unfolding last_word_def by (cases x) (simp del: rev_append)
  qed
qed

theorem verdicts_take_effect_witness:
  "\<exists>d' r. promote_decide sample_libs ''a'' ''p'' sample_verdicts sample_now sample_db = (d', Ok True)
     \<and> lookup d' ''memory'' ''m0'' = Some r \<and> r_vals r ''state'' = SText ''retired''"
proof -
  obtain d' where d': "promote_decide sample_libs ''a'' ''p'' sample_verdicts sample_now sample_db = (d', Ok True)"
    using sample_decide by blast
  have ch: "r_channel sample_promotion = ''ch''" by (simp add: sample_promotion_def)
  have "distinct (map fst sample_verdicts)" by simp
  from verdicts_take_effect [OF sample_affinity sample_open this d', of "''m0''"] sample_readable
  obtain r where "lookup d' ''memory'' ''m0'' = Some r" "r_vals r ''state'' = SText ''retired''"
    unfolding sample_items ch sample_new_state by auto
  with d' show ?thesis by blast
qed

text \<open>
  A decision leaves its batch open until every item has a verdict, and decided from then
  on. A decided batch is final: whatever decisions, failing ones among them, and new batches
  the node makes afterwards, another decision on it finds nothing to decide and writes
  nothing.
\<close>

theorem decided_batch_is_final:
  assumes "affinity_ok (b_libs bl)" and "open_batch d pid = Some r"
    and "promote_decide bl s pid vs now d = (d1, Ok b)" and "(batch_step bl)\<^sup>*\<^sup>* d1 d2"
  shows "if promotion_complete (batch_items bl r) (all_verdicts bl r vs)
    then batch_state d1 pid = Some (SText ''decided'')
       \<and> promote_decide bl s' pid vs' now' d2 = (d2, Ok False)
    else batch_state d1 pid = Some (SText ''open'')"
  using assms(3,2)
proof (cases rule: promote_decideE)
  case (1 d0 k c prow)
  have st: "batch_state d1 pid = Some (SText
      (if promotion_complete (batch_items bl r) (all_verdicts bl r vs) then ''decided'' else ''open''))"
    by (rule promotion_write [OF assms(1) 1(4) [unfolded 1(3)]]) (simp add: batch_state_def)
  show ?thesis
  proof (cases "promotion_complete (batch_items bl r) (all_verdicts bl r vs)")
    case True
    with st have dec: "batch_state d1 pid = Some (SText ''decided'')" by simp
    have "batch_state d2 pid = Some (SText ''decided'')"
      using closed.steps_keep [OF assms(4), of pid "''decided''"] dec by (simp add: closed_state_Some)
    from closed_batch_undecidable [OF this] True dec show ?thesis by simp
  qed (use st in simp)
qed

theorem decided_batch_is_final_witness:
  "\<exists>d'. promote_decide sample_libs ''a'' ''p'' sample_verdicts sample_now sample_db = (d', Ok True)
     \<and> promote_decide sample_libs ''b'' ''p'' [(''m1'', JStr ''reject'')] sample_now d' = (d', Ok False)"
proof -
  obtain d' where d': "promote_decide sample_libs ''a'' ''p'' sample_verdicts sample_now sample_db = (d', Ok True)"
    using sample_decide by blast
  from decided_batch_is_final [OF sample_affinity sample_open d' rtranclp.rtrancl_refl, of "''b''" "[(''m1'', JStr ''reject'')]" sample_now]
  have "promote_decide sample_libs ''b'' ''p'' [(''m1'', JStr ''reject'')] sample_now d' = (d', Ok False)"
    unfolding if_P [OF sample_complete] by blast
  with d' show ?thesis by blast
qed

text \<open>
  A decision on an open batch goes through: with a clock that moves on, sequence numbers
  left for two writes per verdict and one for the batch, and memories of the batch and of the
  channel whose values are what the columns keep, it returns success, whatever the verdicts.
\<close>

theorem decision_goes_through:
  assumes "affinity_ok (b_libs bl)" and "open_batch d pid = Some r"
    and "strict_mono now" and "last_ms (clock d) < now 0"
    and "next_site_seq d s + 2 * int (length vs) \<le> i64_max"
    and "\<forall>it \<in> set (batch_items bl r). sound_memory (b_libs bl) d (r_channel r) (i_memory_id it)"
    and "\<forall>i m. lookup d ''memory'' i = Some m \<and> r_channel m = r_channel r \<longrightarrow> sound_memory (b_libs bl) d (r_channel r) i"
  shows "\<exists>d'. promote_decide bl s pid vs now d = (d', Ok True)"
  by (rule decide_progress [OF assms])

theorem decision_goes_through_witness:
  "\<exists>d'. promote_decide sample_libs ''a'' ''p'' sample_verdicts sample_now sample_db = (d', Ok True)"
proof (rule decision_goes_through [OF sample_affinity sample_open])
  show "strict_mono sample_now" by (rule strict_monoI) simp
qed (simp_all add: sample_seq sample_sound i64_max_def sample_promotion_def)

end
