(* ===== verification/Calendar.thy ===== *)
theory Calendar
  imports Text_Prims "HOL-Library.Signed_Division"
begin

text \<open>
  Dates: \<open>days_from_civil\<close> and \<open>utc\<close> of \<^verbatim>\<open>src/node/src/session/exhaustion.rs\<close>, which turn dates of the
  proleptic Gregorian calendar into days and back without a date library, and the local day
  and its clock of \<^verbatim>\<open>src/node/src/corpus/promote.rs\<close>. Rust's division of signed integers truncates, so it
  is \<open>sdiv\<close> here; \<open>div_euclid\<close> and \<open>rem_euclid\<close> by a positive number are \<open>div\<close> and \<open>mod\<close>.

  Every sum, difference and product is one of \<open>i64\<close> and wraps around; a quotient by these divisors
  cannot.

  The arithmetic is compared with a calendar defined by leap years and lengths of months: first without
  bounds, and then, for the years and days that keep clear of a wrap-around, as the code computes it.
\<close>

section \<open>The code\<close>

definition days_from_civil :: "int \<Rightarrow> int \<Rightarrow> int \<Rightarrow> int" where
  "days_from_civil y0 m d =
     (let y = (if m \<le> 2 then wrap64 (y0 - 1) else y0);
          era = (if y \<ge> 0 then y else wrap64 (y - 399)) sdiv 400;
          yoe = wrap64 (y - wrap64 (era * 400));
          mp = wrap64 (m + 9) smod 12;
          doy = wrap64 (wrap64 (wrap64 (wrap64 (153 * mp) + 2) sdiv 5 + d) - 1);
          doe = wrap64 (wrap64 (wrap64 (wrap64 (yoe * 365) + yoe sdiv 4) - yoe sdiv 100) + doy)
      in wrap64 (wrap64 (wrap64 (era * 146097) + doe) - 719468))"

text \<open>The date of a day, as \<open>utc\<close> computes it.\<close>

definition civil_from_days :: "int \<Rightarrow> int \<times> int \<times> int" where
  "civil_from_days days =
     (let z = wrap64 (days + 719468);
          era = (if z \<ge> 0 then z else wrap64 (z - 146096)) sdiv 146097;
          doe = wrap64 (z - wrap64 (era * 146097));
          yoe = wrap64 (wrap64 (wrap64 (doe - doe sdiv 1460) + doe sdiv 36524) - doe sdiv 146096) sdiv 365;
          doy = wrap64 (doe - wrap64 (wrap64 (wrap64 (365 * yoe) + yoe sdiv 4) - yoe sdiv 100));
          mp = wrap64 (wrap64 (5 * doy) + 2) sdiv 153;
          d = wrap64 (wrap64 (doy - wrap64 (wrap64 (153 * mp) + 2) sdiv 5) + 1);
          m = (if mp < 10 then wrap64 (mp + 3) else wrap64 (mp - 9));
          y = wrap64 (wrap64 (yoe + wrap64 (era * 400)) + (if m \<le> 2 then 1 else 0))
      in (y, m, d))"

text \<open>\<open>{:0w}\<close> of an integer: the sign counts.\<close>

definition pad_nat :: "nat \<Rightarrow> nat \<Rightarrow> string" where
  "pad_nat w n = replicate (w - length (dec n)) (digit 0) @ dec n"

definition pad_int :: "nat \<Rightarrow> int \<Rightarrow> string" where
  "pad_int w i = (if i < 0 then CHR ''-'' # pad_nat (w - 1) (nat (- i)) else pad_nat w (nat i))"

definition utc :: "int \<Rightarrow> string" where
  "utc ms =
     (let secs = ms div 1000; days = secs div 86400; rem = secs mod 86400;
          (y, m, d) = civil_from_days days
      in pad_int 4 y @ ''-'' @ pad_int 2 m @ ''-'' @ pad_int 2 d @ '' ''
         @ pad_int 2 (rem sdiv 3600) @ '':'' @ pad_int 2 (rem smod 3600 sdiv 60) @ '' UTC'')"

text \<open>The local day, for an offset in minutes east of UTC.\<close>

definition day_start_of :: "int \<Rightarrow> int \<Rightarrow> int" where
  "day_start_of offset_minutes ms =
     (let offset_ms = offset_minutes * 60000; local = ms + offset_ms
      in local - local mod 86400000 - offset_ms)"

definition local_date_at :: "int \<Rightarrow> int \<Rightarrow> string" where
  "local_date_at ms offset = take 10 (utc (i64_saturating (ms + i64_saturating (offset * 60000))))"

record local_time =
  lt_hour :: nat
  lt_minute :: nat
  lt_second :: nat

definition local_now :: "int \<Rightarrow> int \<Rightarrow> local_time" where
  "local_now offset now_ms =
     (let secs = now_ms sdiv 1000 + offset * 60; day = nat (secs mod 86400)
      in \<lparr>lt_hour = day div 3600, lt_minute = day mod 3600 div 60, lt_second = day mod 60\<rparr>)"

text \<open>\<open>str::parse::<u32>\<close>.\<close>

definition parse_u32 :: "string \<Rightarrow> nat option" where
  "parse_u32 s = (case parse_u64 s of Some n \<Rightarrow> if n \<le> u32_max then Some n else None | None \<Rightarrow> None)"

text \<open>Seconds until the next \<open>HH:MM\<close>; the product is one of 32 bits and wraps.\<close>

definition secs_until :: "string \<Rightarrow> local_time \<Rightarrow> int" where
  "secs_until at now =
     (let (h, m) = (case split_once '':'' at of
             None \<Rightarrow> (2, 0)
           | Some (h, m) \<Rightarrow> (case (parse_u32 h, parse_u32 m) of (Some h, Some m) \<Rightarrow> (h, m) | _ \<Rightarrow> (2, 0)));
          target = int ((h * 3600 + m * 60) mod 2 ^ 32);
          now_s = int (lt_hour now * 3600 + lt_minute now * 60 + lt_second now);
          diff = target - now_s
      in if diff \<le> 0 then diff + 86400 else diff)"

section \<open>The calendar\<close>

definition leap_year :: "int \<Rightarrow> bool" where
  "leap_year y \<longleftrightarrow> y mod 4 = 0 \<and> (y mod 100 \<noteq> 0 \<or> y mod 400 = 0)"

definition month_length :: "int \<Rightarrow> int \<Rightarrow> int" where
  "month_length y m = (if m = 2 then (if leap_year y then 29 else 28)
                       else if m \<in> {4, 6, 9, 11} then 30 else 31)"

definition valid_date :: "int \<Rightarrow> int \<Rightarrow> int \<Rightarrow> bool" where
  "valid_date y m d \<longleftrightarrow> 1 \<le> m \<and> m \<le> 12 \<and> 1 \<le> d \<and> d \<le> month_length y m"

fun next_date :: "int \<times> int \<times> int \<Rightarrow> int \<times> int \<times> int" where
  "next_date (y, m, d) =
     (if d < month_length y m then (y, m, d + 1)
      else if m < 12 then (y, m + 1, 1) else (y + 1, 1, 1))"

section \<open>The same arithmetic without bounds\<close>

definition exact_days :: "int \<Rightarrow> int \<Rightarrow> int \<Rightarrow> int" where
  "exact_days y0 m d =
     (let y = (if m \<le> 2 then y0 - 1 else y0);
          era = (if y \<ge> 0 then y else y - 399) sdiv 400;
          yoe = y - era * 400;
          mp = (m + 9) smod 12;
          doy = (153 * mp + 2) sdiv 5 + d - 1;
          doe = yoe * 365 + yoe sdiv 4 - yoe sdiv 100 + doy
      in era * 146097 + doe - 719468)"

definition exact_date :: "int \<Rightarrow> int \<times> int \<times> int" where
  "exact_date days =
     (let z = days + 719468;
          era = (if z \<ge> 0 then z else z - 146096) sdiv 146097;
          doe = z - era * 146097;
          yoe = (doe - doe sdiv 1460 + doe sdiv 36524 - doe sdiv 146096) sdiv 365;
          doy = doe - (365 * yoe + yoe sdiv 4 - yoe sdiv 100);
          mp = (5 * doy + 2) sdiv 153;
          d = doy - (153 * mp + 2) sdiv 5 + 1;
          m = (if mp < 10 then mp + 3 else mp - 9);
          y = yoe + era * 400 + (if m \<le> 2 then 1 else 0)
      in (y, m, d))"

section \<open>Truncating division\<close>

lemma sdiv_nonneg: "0 \<le> (a::int) \<Longrightarrow> 0 < b \<Longrightarrow> a sdiv b = a div b"
  by (cases "a = 0") (simp_all add: signed_divide_int_def sgn_if)

lemma smod_nonneg: "0 \<le> (a::int) \<Longrightarrow> 0 < b \<Longrightarrow> a smod b = a mod b"
  by (cases "a = 0") (simp_all add: signed_modulo_int_def sgn_if)

text \<open>The idiom \<open>if y >= 0 { y } else { y - (n - 1) } / n\<close> is the floor.\<close>

lemma floor_idiom:
  assumes "0 < (n::int)"
  shows "(if y \<ge> 0 then y else y - (n - 1)) sdiv n = y div n"
proof (cases "y \<ge> 0")
  case True
  with assms show ?thesis by (simp add: sdiv_nonneg)
next
  case False
  have "(n - 1 - y) div n = - (y div n)"
  proof (rule int_div_pos_eq)
    show "n - 1 - y = n * - (y div n) + (n - 1 - y mod n)" by (simp add: algebra_simps minus_div_mult_eq_mod [symmetric])
    show "0 \<le> n - 1 - y mod n" "n - 1 - y mod n < n" using pos_mod_bound [OF assms, of y] pos_mod_sign [OF assms, of y] by simp_all
  qed
  moreover have "sgn (y - (n - 1)) = - 1" using False assms by (simp add: sgn_if)
  moreover have "\<bar>y - (n - 1)\<bar> = n - 1 - y" using False assms by simp
  ultimately show ?thesis using False assms by (simp add: signed_divide_int_def)
qed

lemma floor_idioms:
  "(if y \<ge> 0 then y else y - 399) sdiv 400 = y div (400::int)"
  "(if y \<ge> 0 then y else y - 146096) sdiv 146097 = y div (146097::int)"
proof -
  have "(399::int) = 400 - 1" "(146096::int) = 146097 - 1" by simp_all
  then show "(if y \<ge> 0 then y else y - 399) sdiv 400 = y div (400::int)"
    "(if y \<ge> 0 then y else y - 146096) sdiv 146097 = y div (146097::int)"
    using floor_idiom [of 400 y] floor_idiom [of 146097 y] by (simp_all only: zero_less_numeral)
qed

section \<open>The year of a day\<close>

text \<open>Days in the years of an era before the \<open>yoe\<close>-th, years beginning in March.\<close>

definition year_start :: "int \<Rightarrow> int" where
  "year_start yoe = 365 * yoe + yoe div 4 - yoe div 100"

lemma yoe_parts:
  fixes yoe :: int
  assumes "0 \<le> yoe" and "yoe < 400"
  obtains c b r where "yoe = 100 * c + 4 * b + r" and "0 \<le> c" and "c \<le> 3" and "0 \<le> b" and "b \<le> 24"
    and "0 \<le> r" and "r \<le> 3" and "yoe div 100 = c" and "yoe div 4 = 25 * c + b"
proof -
  let ?c = "yoe div 100" and ?b = "(yoe mod 100) div 4" and ?r = "yoe mod 4"
  have "yoe mod 100 mod 4 = yoe mod 4" by (simp add: mod_mod_cancel)
  then have "yoe = 100 * ?c + 4 * ?b + ?r" by (metis add.assoc mult_div_mod_eq)
  moreover have "yoe = yoe mod 100 + 4 * (25 * ?c)" by simp
  then have "yoe div 4 = 25 * ?c + ?b" by (metis add.commute div_mult_self2 zero_neq_numeral)
  moreover have "?c \<le> 3" "?b \<le> 24" "?r \<le> 3" "0 \<le> ?c" "0 \<le> ?b" "0 \<le> ?r" using assms by linarith+
  ultimately show ?thesis by (intro that [of ?c ?b ?r]) (assumption | rule refl)+
qed

text \<open>A year of the era is one day longer when the February at its end is.\<close>

definition year_length :: "int \<Rightarrow> int" where
  "year_length yoe = (if leap_year (yoe + 1) then 366 else 365)"

lemma leap_parts:
  fixes c b r :: int
  assumes "0 \<le> c" and "c \<le> 3" and "0 \<le> b" and "b \<le> 24" and "0 \<le> r" and "r \<le> 3"
  shows "leap_year (100 * c + 4 * b + r + 1) \<longleftrightarrow> r = 3 \<and> (b \<noteq> 24 \<or> c = 3)"
proof -
  let ?y = "100 * c + 4 * b + r + 1"
  have "?y = (r + 1) + 4 * (25 * c + b)" by simp
  then have m4: "?y mod 4 = (r + 1) mod 4" by (metis mod_mult_self2)
  show ?thesis
  proof (cases "r = 3")
    case False
    then have "(r + 1) mod 4 = r + 1" using assms by simp
    with m4 False assms show ?thesis by (simp add: leap_year_def)
  next
    case True
    have "?y = 4 * (b + 1) + 100 * c" using True by simp
    then have m100: "?y mod 100 = (4 * (b + 1)) mod 100" by (metis mod_mult_self2)
    show ?thesis
    proof (cases "b = 24")
      case False
      then have "(4 * (b + 1)) mod 100 = 4 * (b + 1)" using assms by simp
      with m4 m100 True False assms show ?thesis by (simp add: leap_year_def)
    next
      case b: True
      with m100 have "?y mod 100 = 0" by simp
      moreover have "c = 0 \<or> c = 1 \<or> c = 2 \<or> c = 3" using assms by arith
      ultimately show ?thesis using True b by (auto simp: leap_year_def)
    qed
  qed
qed

lemma year_of_doe:
  assumes y: "0 \<le> yoe" "yoe < 400" and "0 \<le> doy" and "doy < year_length yoe"
    and doe: "doe = year_start yoe + doy"
  shows "0 \<le> doe \<and> doe \<le> 146096 \<and> (doe - doe div 1460 + doe div 36524 - doe div 146096) div 365 = yoe"
proof -
  from y obtain c b r where p: "yoe = 100 * c + 4 * b + r" "0 \<le> c" "c \<le> 3" "0 \<le> b" "b \<le> 24"
    "0 \<le> r" "r \<le> 3" "yoe div 100 = c" "yoe div 4 = 25 * c + b" by (rule yoe_parts)
  have D: "doe = 36524 * c + 1461 * b + 365 * r + doy"
    using doe p(1,8,9) by (simp add: year_start_def)
  have long: "doy \<le> 364 \<or> doy = 365 \<and> r = 3 \<and> (b \<noteq> 24 \<or> c = 3)"
    using assms(4) leap_parts [OF p(2-7)] by (auto simp: year_length_def p(1) split: if_splits)
  have cases: "1461 * b + 365 * r + doy < 36524 \<or> c = 3 \<and> b = 24 \<and> r = 3 \<and> doy = 365"
    using long p(2-7) by linarith
  have D0: "0 \<le> doe" using D p(2-7) assms(3) by linarith
  have cent: "doe div 36524 - doe div 146096 = c \<and> doe \<le> 146096"
    using cases
  proof
    assume lt: "1461 * b + 365 * r + doy < 36524"
    have "doe div 36524 = c"
      by (rule int_div_pos_eq [of _ _ _ "1461 * b + 365 * r + doy"]) (use lt D p(2-7) assms(3) in linarith)+
    moreover have small: "doe < 146096" using lt D p(2-3) by linarith
    then have "doe div 146096 = 0" using D0 by simp
    ultimately show ?thesis using small by simp
  qed (simp add: D)
  let ?t = "24 * c + b + 365 * r + doy"
  have "doe = ?t + 1460 * (25 * c + b)" using D by simp
  then have q: "doe div 1460 = 25 * c + b + ?t div 1460" by (metis add.commute div_mult_self2 zero_neq_numeral)
  have t: "0 \<le> ?t" "?t < 2920" using p(2-7) assms(3) long by linarith+
  have k: "?t div 1460 = 0 \<and> ?t < 1460 \<or> ?t div 1460 = 1 \<and> ?t \<ge> 1460"
  proof (cases "?t < 1460")
    case False
    then have "?t div 1460 = 1" using t by (intro int_div_pos_eq [of _ _ _ "?t - 1460"]) linarith+
    with False show ?thesis by simp
  qed (use t in simp)
  let ?f = "doe - doe div 1460 + doe div 36524 - doe div 146096"
  have f: "?f = 365 * yoe + doy - ?t div 1460" using q cent D p(1) by simp
  have "0 \<le> doy - ?t div 1460" "doy - ?t div 1460 < 365" using k long p(2-7) assms(3) by linarith+
  then have "?f div 365 = yoe" using f by (intro int_div_pos_eq [of _ _ _ "doy - ?t div 1460"]) linarith+
  with D0 cent show ?thesis by blast
qed

lemma year_start_Suc:
  assumes "0 \<le> yoe" and "yoe < 399"
  shows "year_start (yoe + 1) = year_start yoe + year_length yoe"
proof -
  have "yoe < 400" using assms by simp
  with assms(1) obtain c b r where p: "yoe = 100 * c + 4 * b + r" "0 \<le> c" "c \<le> 3" "0 \<le> b" "b \<le> 24"
    "0 \<le> r" "r \<le> 3" "yoe div 100 = c" "yoe div 4 = 25 * c + b" by (rule yoe_parts)
  have d4: "(yoe + 1) div 4 = 25 * c + b + (if r = 3 then 1 else 0)"
    by (rule int_div_pos_eq [of _ _ _ "if r = 3 then 0 else r + 1"]) (use p(1-7) in auto)
  have "4 * b + r < 99 \<or> r = 3 \<and> b = 24" using p(5,7) by linarith
  then have d100: "(yoe + 1) div 100 = c + (if r = 3 \<and> b = 24 then 1 else 0)"
    by (intro int_div_pos_eq [of _ _ _ "if r = 3 \<and> b = 24 then 0 else 4 * b + r + 1"]) (use p(1-7) in auto)
  have "\<not> (c = 3 \<and> b = 24 \<and> r = 3)" using assms(2) p(1) by auto
  with d4 d100 p(1,8,9) leap_parts [OF p(2-7)] show ?thesis
    by (auto simp: year_start_def year_length_def)
qed

lemma year_exists:
  assumes "0 \<le> doe" and "doe < 146097"
  obtains yoe doy where "0 \<le> yoe" "yoe < 400" "0 \<le> doy" "doy < year_length yoe" "doe = year_start yoe + doy"
proof -
  have ex: "doe < year_start (int n) \<Longrightarrow> n < 400 \<Longrightarrow>
      \<exists>yoe doy. 0 \<le> yoe \<and> yoe < 400 \<and> 0 \<le> doy \<and> doy < year_length yoe \<and> doe = year_start yoe + doy" for n
  proof (induction n)
    case 0
    with assms(1) show ?case by (simp add: year_start_def)
  next
    case (Suc n)
    show ?case
    proof (cases "doe < year_start (int n)")
      case True
      with Suc show ?thesis by simp
    next
      case False
      have "year_start (int n + 1) = year_start (int n) + year_length (int n)"
        by (rule year_start_Suc) (use Suc.prems in auto)
      with False Suc.prems show ?thesis
        by (intro exI [of _ "int n"] exI [of _ "doe - year_start (int n)"]) (auto simp: add.commute)
    qed
  qed
  have last: "year_start 399 = 145731" "year_length 399 = 366"
    by (simp_all add: year_start_def year_length_def leap_year_def)
  show ?thesis
  proof (cases "doe < 145731")
    case True
    with ex [of 399] last that show ?thesis by auto
  next
    case False
    with last assms(2) that [of 399 "doe - 145731"] show ?thesis by simp
  qed
qed

section \<open>The month of a day\<close>

definition month_start :: "int \<Rightarrow> int" where
  "month_start mp = (153 * mp + 2) div 5"

lemma month_of_doy:
  "month_start mp \<le> doy \<and> doy < month_start (mp + 1) \<longleftrightarrow> (5 * doy + 2) div 153 = mp"
proof -
  have "month_start mp \<le> doy \<longleftrightarrow> 153 * mp \<le> 5 * doy + 2" unfolding month_start_def by linarith
  moreover have "doy < month_start (mp + 1) \<longleftrightarrow> 5 * doy + 2 < 153 * mp + 153"
  proof -
    have "153 * (mp + 1) + 2 = 153 * mp + 155" by simp
    moreover have "doy < (153 * mp + 155) div 5 \<longleftrightarrow> 5 * doy + 2 < 153 * mp + 153" by linarith
    ultimately show ?thesis unfolding month_start_def by (simp only:)
  qed
  moreover have "(5 * doy + 2) div 153 = mp \<longleftrightarrow> 153 * mp \<le> 5 * doy + 2 \<and> 5 * doy + 2 < 153 * mp + 153" by linarith
  ultimately show ?thesis by simp
qed

text \<open>The months in the order of the code, from March on, and the calendar's length of each.\<close>

abbreviation month_of :: "int \<Rightarrow> int" where
  "month_of mp \<equiv> if mp < 10 then mp + 3 else mp - 9"

lemma month_cases:
  assumes "0 \<le> (mp::int)" and "mp \<le> 11"
  shows "mp \<in> {0, 1, 2, 3, 4, 5, 6, 7, 8, 9, 10, 11}"
  unfolding insert_iff empty_iff using assms by presburger

lemma month_length_start:
  assumes "0 \<le> mp" and "mp \<le> 11"
  shows "month_length y (month_of mp) =
    (if mp = 11 then (if leap_year y then 29 else 28) else month_start (mp + 1) - month_start mp)"
  using month_cases [OF assms] by (auto simp: month_length_def month_start_def)

lemma month_index: "1 \<le> m \<Longrightarrow> m \<le> 12 \<Longrightarrow> 0 \<le> (m + 9) mod 12 \<and> (m + 9) mod 12 \<le> 11
    \<and> month_of ((m + 9) mod 12) = m \<and> ((m + 9) mod 12 \<ge> 10 \<longleftrightarrow> m \<le> 2)" for m :: int
proof -
  assume "1 \<le> m" "m \<le> 12"
  then have "m \<in> {1, 2, 3, 4, 5, 6, 7, 8, 9, 10, 11, 12}" unfolding insert_iff empty_iff by presburger
  then show ?thesis by auto
qed

lemma index_month: "0 \<le> mp \<Longrightarrow> mp \<le> 11 \<Longrightarrow> (month_of mp + 9) mod 12 = mp \<and> 1 \<le> month_of mp \<and> month_of mp \<le> 12
    \<and> (month_of mp \<le> 2 \<longleftrightarrow> 10 \<le> mp)" for mp :: int
  using month_cases [of mp] by auto

section \<open>Dates and days\<close>

text \<open>The day number in terms of era, year of the era and day of that year.\<close>

lemma exact_days_parts:
  assumes "1 \<le> m" and "m \<le> 12"
  shows "exact_days y m d =
    (let y' = (if m \<le> 2 then y - 1 else y)
     in (y' div 400) * 146097 + year_start (y' mod 400) + (month_start ((m + 9) mod 12) + d - 1) - 719468)"
proof -
  let ?y = "if m \<le> 2 then y - 1 else y"
  note era = floor_idioms(1) [of ?y]
  have yoe: "?y - ?y div 400 * 400 = ?y mod 400" by (simp add: minus_div_mult_eq_mod)
  have mp: "(m + 9) smod 12 = (m + 9) mod 12" using assms by (simp add: smod_nonneg)
  have "(153 * ((m + 9) mod 12) + 2) sdiv 5 = month_start ((m + 9) mod 12)"
    by (simp add: sdiv_nonneg month_start_def)
  then show ?thesis
    unfolding exact_days_def Let_def era yoe mp
    by (simp add: sdiv_nonneg year_start_def mult.commute)
qed

lemma exact_date_parts:
  assumes "0 \<le> yoe" and "yoe < 400" and "0 \<le> doy" and "doy < year_length yoe"
    and mp: "month_start mp \<le> doy" "doy < month_start (mp + 1)"
  shows "exact_date (era * 146097 + year_start yoe + doy - 719468) =
    (yoe + era * 400 + (if month_of mp \<le> 2 then 1 else 0), month_of mp, doy - month_start mp + 1)"
proof -
  let ?doe = "year_start yoe + doy"
  note doe = year_of_doe [OF assms(1-4) refl]
  let ?z = "era * 146097 + year_start yoe + doy"
  have "?z div 146097 = era" by (rule int_div_pos_eq [of _ _ _ ?doe]) (use doe in auto)
  then have e: "(if ?z \<ge> 0 then ?z else ?z - 146096) sdiv 146097 = era" unfolding floor_idioms(2) .
  let ?f = "?doe - ?doe div 1460 + ?doe div 36524 - ?doe div 146096"
  have f0: "0 \<le> ?f" using doe assms(1) by linarith
  have y: "(?doe - ?doe sdiv 1460 + ?doe sdiv 36524 - ?doe sdiv 146096) sdiv 365 = yoe"
    using doe f0 by (simp add: sdiv_nonneg)
  have ys: "365 * yoe + yoe sdiv 4 - yoe sdiv 100 = year_start yoe" using assms(1) by (simp add: sdiv_nonneg year_start_def)
  have m: "(5 * doy + 2) sdiv 153 = mp" using iffD1 [OF month_of_doy, of mp doy] mp assms(3) by (simp add: sdiv_nonneg)
  have "0 \<le> mp" using month_of_doy [of mp doy] mp assms(3) by linarith
  then have s: "(153 * mp + 2) sdiv 5 = month_start mp" by (simp add: sdiv_nonneg month_start_def)
  have z: "?z - 719468 + 719468 = ?z" "?z - era * 146097 = ?doe" "?doe - year_start yoe = doy" by simp_all
  show ?thesis unfolding exact_date_def Let_def z e y ys m s by simp
qed

lemma leap_mod_400: "leap_year (y mod 400 + 1) = leap_year (y + 1)"
proof -
  have "(y mod 400 + 1) mod n = (y + 1) mod n" if "n dvd 400" for n
  proof -
    have "(y mod 400) mod n = y mod n" using that by (rule mod_mod_cancel)
    then show ?thesis by (metis mod_add_left_eq)
  qed
  from this [of 4] this [of 100] this [of 400] show ?thesis by (simp add: leap_year_def)
qed

text \<open>A date of the calendar, in the terms of the code.\<close>

lemma valid_date_parts:
  assumes "valid_date y m d"
  defines "Y \<equiv> if m \<le> 2 then y - 1 else y" and "mp \<equiv> (m + 9) mod 12"
  shows "0 \<le> mp \<and> mp \<le> 11 \<and> 0 \<le> month_start mp \<and> month_start mp + d - 1 < year_length (Y mod 400)
    \<and> month_start mp + d - 1 < month_start (mp + 1) \<and> month_of mp = m
    \<and> (mp = 11 \<longrightarrow> year_length (Y mod 400) = 337 + month_length y m)
    \<and> (mp < 11 \<longrightarrow> month_length y m = month_start (mp + 1) - month_start mp)"
proof -
  have m: "1 \<le> m" "m \<le> 12" "1 \<le> d" "d \<le> month_length y m" using assms(1) by (auto simp: valid_date_def)
  note mi = month_index [OF m(1,2), folded mp_def]
  then have mp: "0 \<le> mp" "mp \<le> 11" "month_of mp = m" by blast+
  have len: "month_length y m = (if mp = 11 then (if leap_year y then 29 else 28)
      else month_start (mp + 1) - month_start mp)"
    using month_length_start [OF mp(1,2), of y] mp(3) by simp
  have yl: "year_length (Y mod 400) = (if leap_year (Y + 1) then 366 else 365)"
    by (simp add: year_length_def leap_mod_400)
  have st: "0 \<le> month_start mp" "mp < 11 \<Longrightarrow> month_start (mp + 1) \<le> 337"
    "mp = 11 \<Longrightarrow> month_start mp = 337 \<and> month_start (mp + 1) = 367 \<and> Y = y - 1"
    using mp(1,2) mi by (auto simp: month_start_def Y_def)
  show ?thesis
  proof (cases "mp = 11")
    case True
    with st len yl m mp show ?thesis by (auto split: if_splits)
  next
    case False
    then have "mp < 11" using mp by simp
    with st len yl m mp False show ?thesis by (auto split: if_splits)
  qed
qed

lemma civil_of_days:
  assumes "valid_date y m d"
  shows "exact_date (exact_days y m d) = (y, m, d)"
proof -
  let ?Y = "if m \<le> 2 then y - 1 else y" and ?mp = "(m + 9) mod 12"
  note p = valid_date_parts [OF assms]
  have m: "1 \<le> m" "m \<le> 12" "1 \<le> d" using assms by (auto simp: valid_date_def)
  have "exact_date (?Y div 400 * 146097 + year_start (?Y mod 400) + (month_start ?mp + d - 1) - 719468) =
    (?Y mod 400 + ?Y div 400 * 400 + (if month_of ?mp \<le> 2 then 1 else 0), month_of ?mp,
     month_start ?mp + d - 1 - month_start ?mp + 1)"
    by (rule exact_date_parts) (use p m in \<open>simp_all only: pos_mod_sign pos_mod_bound zero_less_numeral\<close>, use p m in linarith)+
  moreover have "month_of ?mp = m" using p by blast
  ultimately show ?thesis
    unfolding exact_days_parts [OF m(1,2)] Let_def by simp
qed

lemma days_of_civil:
  "\<exists>y m d. exact_date z = (y, m, d) \<and> valid_date y m d \<and> exact_days y m d = z"
proof -
  let ?e = "(z + 719468) div 146097" and ?doe = "(z + 719468) mod 146097"
  have "0 \<le> ?doe" "?doe < 146097" by simp_all
  then obtain yoe doy where y: "0 \<le> yoe" "yoe < 400" "0 \<le> doy" "doy < year_length yoe" "?doe = year_start yoe + doy"
    by (rule year_exists)
  define mp where "mp = (5 * doy + 2) div 153"
  have d365: "doy \<le> 365" using y(4) by (simp add: year_length_def split: if_splits)
  have mp: "0 \<le> mp" "mp \<le> 11" using y(3) d365 unfolding mp_def by linarith+
  have st: "month_start mp \<le> doy" "doy < month_start (mp + 1)"
    using iffD2 [OF month_of_doy, of doy mp] by (simp_all add: mp_def)
  have "z + 719468 = ?e * 146097 + ?doe" by simp
  then have z: "z = ?e * 146097 + year_start yoe + doy - 719468" using y(5) by linarith
  let ?m = "month_of mp" and ?d = "doy - month_start mp + 1"
  let ?y = "yoe + ?e * 400 + (if ?m \<le> 2 then 1 else 0)"
  have c: "exact_date z = (?y, ?m, ?d)"
    using exact_date_parts [OF y(1-4) st, of ?e] z by metis
  note im = index_month [OF mp]
  have Y: "(if ?m \<le> 2 then ?y - 1 else ?y) = yoe + 400 * ?e" by simp
  have ye: "(yoe + 400 * ?e) div 400 = ?e" "(yoe + 400 * ?e) mod 400 = yoe" using y(1,2) by simp_all
  have "?d \<le> month_length ?y ?m"
  proof (cases "mp = 11")
    case True
    then have "leap_year ?y = leap_year (yoe + 1)"
      using leap_mod_400 [of "yoe + 400 * ?e"] ye(2) by (simp add: ac_simps)
    with True y(4) show ?thesis unfolding month_length_start [OF mp]
      by (simp add: month_start_def year_length_def split: if_splits)
  next
    case False
    with st show ?thesis unfolding month_length_start [OF mp] by simp
  qed
  then have v: "valid_date ?y ?m ?d" using im st by (simp add: valid_date_def)
  have "exact_days ?y ?m ?d = z"
    unfolding exact_days_parts [OF conjunct1 [OF conjunct2 [OF im]] conjunct1 [OF conjunct2 [OF conjunct2 [OF im]]]] Let_def Y ye
    using im z by simp
  with c v show ?thesis by blast
qed

lemma year_step:
  "((Y + 1) div 400) * 146097 + year_start ((Y + 1) mod 400) =
     (Y div 400) * 146097 + year_start (Y mod 400) + year_length (Y mod 400)"
proof (cases "Y mod 400 = 399")
  case True
  have "Y + 1 = 400 * (Y div 400) + (Y mod 400 + 1)" by simp
  then have "Y + 1 = 400 * (Y div 400 + 1)" using True by simp
  then have "(Y + 1) div 400 = Y div 400 + 1" "(Y + 1) mod 400 = 0"
    by (metis nonzero_mult_div_cancel_left zero_neq_numeral, metis mod_mult_self1_is_0)
  with True show ?thesis by (simp add: year_start_def year_length_def leap_year_def)
next
  case False
  then have b: "0 \<le> Y mod 400" "Y mod 400 < 399" using pos_mod_bound [of 400 Y] by simp_all
  have "(Y + 1) div 400 = Y div 400" "(Y + 1) mod 400 = Y mod 400 + 1"
    by (rule int_div_pos_eq [of _ _ _ "Y mod 400 + 1"], use b in simp_all)
       (rule int_mod_pos_eq [of _ _ "Y div 400"], use b in simp_all)
  with year_start_Suc [OF b] show ?thesis by simp
qed

lemma next_month:
  assumes "1 \<le> m" and "m \<le> 12" and "m \<noteq> 2"
  shows "(if m = 12 then 1 else m + 1) + 9 \<ge> (0::int)
    \<and> ((if m = 12 then 1 else m + 1) + 9) mod 12 = (m + 9) mod 12 + 1 \<and> (m + 9) mod 12 < 11"
proof -
  from assms(1,2) have "m \<in> {1, 2, 3, 4, 5, 6, 7, 8, 9, 10, 11, 12}" unfolding insert_iff empty_iff by presburger
  with assms(3) show ?thesis by auto
qed

lemma days_of_next_date:
  assumes "valid_date y m d" and "next_date (y, m, d) = (y', m', d')"
  shows "exact_days y' m' d' = exact_days y m d + 1"
proof -
  have m: "1 \<le> m" "m \<le> 12" "1 \<le> d" "d \<le> month_length y m" using assms(1) by (auto simp: valid_date_def)
  note p = valid_date_parts [OF assms(1)]
  show ?thesis
  proof (cases "d < month_length y m")
    case True
    with assms(2) m show ?thesis by (auto simp: exact_days_parts Let_def)
  next
    case False
    then have d: "d = month_length y m" using m by simp
    show ?thesis
    proof (cases "m = 2")
      case True
      then have n: "y' = y" "m' = 3" "d' = 1" using assms(2) d by auto
      have "year_length ((y - 1) mod 400) = 337 + d" using p True d by simp
      then show ?thesis using year_step [of "y - 1"]
        by (simp add: n True exact_days_parts Let_def month_start_def)
    next
      case False
      note nm = next_month [OF m(1,2) False]
      have len: "d = month_start ((m + 9) mod 12 + 1) - month_start ((m + 9) mod 12)" using p nm d by simp
      have n: "m' = (if m = 12 then 1 else m + 1)" "d' = 1" "y' = (if m = 12 then y + 1 else y)"
        using assms(2) d m(2) by (auto split: if_splits)
      have Y: "(if m' \<le> 2 then y' - 1 else y') = (if m \<le> 2 then y - 1 else y)" "1 \<le> m'" "m' \<le> 12"
        using n False m(1,2) by auto
      show ?thesis
        unfolding exact_days_parts [OF Y(2,3)] exact_days_parts [OF m(1,2)] Let_def Y(1)
        using len nm n by simp
    qed
  qed
qed

section \<open>Where nothing wraps around\<close>

lemma wrap64_small: "- 9000000000000000000 \<le> x \<Longrightarrow> x \<le> 9000000000000000000 \<Longrightarrow> wrap64 x = x"
  by (rule wrap64_id) (simp add: is_i64_def i64_min_def i64_max_def)

abbreviation year_in_range :: "int \<Rightarrow> bool" where
  "year_in_range y \<equiv> \<bar>y\<bar> \<le> 24000000000000000"

lemma days_from_civil_exact:
  assumes "year_in_range y0" and "1 \<le> m" and "m \<le> 12" and "1 \<le> d" and "d \<le> 31"
  shows "days_from_civil y0 m d = exact_days y0 m d" and "\<bar>exact_days y0 m d\<bar> \<le> 8900000000000000000"
proof -
  define y where "y = (if m \<le> 2 then y0 - 1 else y0)"
  define e q mp doy where "e = y div 400" and "q = y - e * 400" and "mp = (m + 9) mod 12" and "doy = (153 * mp + 2) div 5 + d - 1"
  have y: "\<bar>y\<bar> \<le> 24000000000000001" using assms(1) by (auto simp: y_def)
  have q: "0 \<le> q" "q \<le> 399" unfolding q_def e_def by linarith+
  have e: "\<bar>e\<bar> \<le> 60000000000001" using y unfolding e_def by linarith
  have mp: "0 \<le> mp" "mp \<le> 11" by (auto simp: mp_def)
  have doy: "0 \<le> doy" "doy \<le> 400" using mp assms(4,5) unfolding doy_def by linarith+
  have ys: "(if m \<le> 2 then wrap64 (y0 - 1) else y0) = y" using assms(1) by (simp add: y_def wrap64_small)
  have "wrap64 (y - 399) = y - 399" using y by (intro wrap64_small) linarith+
  then have es: "(if y \<ge> 0 then y else wrap64 (y - 399)) sdiv 400 = e" "(if y \<ge> 0 then y else y - 399) sdiv 400 = e"
    by (simp_all only: floor_idioms e_def)
  have "wrap64 (e * 400) = e * 400" using e by (intro wrap64_small) linarith+
  then have qs: "wrap64 (y - wrap64 (e * 400)) = q" using q by (simp add: q_def [symmetric] wrap64_small)
  have mps: "wrap64 (m + 9) smod 12 = mp" "(m + 9) smod 12 = mp"
    using assms(2,3) by (simp_all add: wrap64_small smod_nonneg mp_def)
  have doys: "wrap64 (wrap64 (wrap64 (wrap64 (153 * mp) + 2) sdiv 5 + d) - 1) = doy"
    "(153 * mp + 2) sdiv 5 + d - 1 = doy"
    using mp assms(4,5) by (simp_all add: wrap64_small sdiv_nonneg doy_def)
  have div_q: "0 \<le> q div 4" "q div 4 \<le> 99" "0 \<le> q div 100" "q div 100 \<le> 3" using q by linarith+
  have "wrap64 (wrap64 (wrap64 (wrap64 (q * 365) + q sdiv 4) - q sdiv 100) + doy) = q * 365 + q sdiv 4 - q sdiv 100 + doy"
    using q div_q doy by (simp add: sdiv_nonneg wrap64_small)
  moreover have doe: "0 \<le> q * 365 + q sdiv 4 - q sdiv 100 + doy" "q * 365 + q sdiv 4 - q sdiv 100 + doy \<le> 150000"
    using q div_q doy by (simp_all add: sdiv_nonneg)
  moreover have em: "\<bar>e * 146097\<bar> \<le> 8800000000000000000" using e by linarith
  ultimately have "days_from_civil y0 m d = e * 146097 + (q * 365 + q sdiv 4 - q sdiv 100 + doy) - 719468"
    unfolding days_from_civil_def Let_def ys es qs mps doys by (simp add: wrap64_small)
  moreover have "exact_days y0 m d = e * 146097 + (q * 365 + q sdiv 4 - q sdiv 100 + doy) - 719468"
    unfolding exact_days_def Let_def y_def [symmetric] es q_def [symmetric] mps doys by (rule refl)
  ultimately show "days_from_civil y0 m d = exact_days y0 m d" "\<bar>exact_days y0 m d\<bar> \<le> 8900000000000000000"
    using doe em by simp_all
qed

lemma civil_from_days_exact:
  assumes "\<bar>days\<bar> \<le> 8900000000000000000"
  shows "civil_from_days days = exact_date days"
proof -
  define z where "z = days + 719468"
  define e doe where "e = z div 146097" and "doe = z - e * 146097"
  define yoe where "yoe = (doe - doe div 1460 + doe div 36524 - doe div 146096) div 365"
  define doy where "doy = doe - (365 * yoe + yoe div 4 - yoe div 100)"
  have z: "\<bar>z\<bar> \<le> 8900000000000719468" using assms by (simp add: z_def)
  have doe: "0 \<le> doe" "doe \<le> 146096" unfolding doe_def e_def by linarith+
  have ev: "\<bar>e\<bar> \<le> 61000000000000" using z unfolding e_def by linarith
  have em: "\<bar>e * 146097\<bar> \<le> 8900000000000900000" using z doe unfolding doe_def by linarith
  have divs: "0 \<le> doe div 1460" "doe div 1460 \<le> 100" "0 \<le> doe div 36524" "doe div 36524 \<le> 4" "0 \<le> doe div 146096" "doe div 146096 \<le> 1"
    "doe div 1460 \<le> doe" using doe by linarith+
  have f: "0 \<le> doe - doe div 1460 + doe div 36524 - doe div 146096" using doe divs by linarith
  obtain yo d0 where y: "0 \<le> yo" "yo < 400" "0 \<le> d0" "d0 < year_length yo" "doe = year_start yo + d0"
    using year_exists [of doe] doe by auto
  have yo: "yo = yoe" using year_of_doe [OF y] unfolding yoe_def by blast
  then have yoe: "0 \<le> yoe" "yoe \<le> 400" using y(1,2) by simp_all
  have doy: "0 \<le> doy" "doy \<le> 366" using y(3-5) by (auto simp: doy_def yo year_start_def year_length_def split: if_splits)
  define mp where "mp = (5 * doy + 2) div 153"
  have mp: "0 \<le> mp" "mp \<le> 11" using doy unfolding mp_def by linarith+
  have zs: "wrap64 (days + 719468) = z" using z by (simp add: z_def [symmetric] wrap64_small)
  have "wrap64 (z - 146096) = z - 146096" using z by (intro wrap64_small) linarith+
  then have es: "(if z \<ge> 0 then z else wrap64 (z - 146096)) sdiv 146097 = e" "(if z \<ge> 0 then z else z - 146096) sdiv 146097 = e"
    by (simp_all only: floor_idioms e_def)
  have "wrap64 (e * 146097) = e * 146097" using em by (intro wrap64_small) linarith+
  then have ds: "wrap64 (z - wrap64 (e * 146097)) = doe" using doe by (simp add: doe_def [symmetric] wrap64_small)
  have yoes: "wrap64 (wrap64 (wrap64 (doe - doe sdiv 1460) + doe sdiv 36524) - doe sdiv 146096) sdiv 365 = yoe"
    "(doe - doe sdiv 1460 + doe sdiv 36524 - doe sdiv 146096) sdiv 365 = yoe"
    using doe divs f by (simp_all add: sdiv_nonneg wrap64_small yoe_def)
  have "0 \<le> yoe div 4" "yoe div 4 \<le> 100" "0 \<le> yoe div 100" "yoe div 100 \<le> 4" using yoe by linarith+
  then have doys: "wrap64 (doe - wrap64 (wrap64 (wrap64 (365 * yoe) + yoe sdiv 4) - yoe sdiv 100)) = doy"
    "doe - (365 * yoe + yoe sdiv 4 - yoe sdiv 100) = doy"
    using yoe doy by (simp_all add: sdiv_nonneg doy_def [symmetric] wrap64_small)
  have mps: "wrap64 (wrap64 (5 * doy) + 2) sdiv 153 = mp" "(5 * doy + 2) sdiv 153 = mp"
    using doy by (simp_all add: sdiv_nonneg wrap64_small mp_def)
  have "0 \<le> (153 * mp + 2) div 5" "(153 * mp + 2) div 5 \<le> 400" using mp by linarith+
  then have dds: "wrap64 (wrap64 (doy - wrap64 (wrap64 (153 * mp) + 2) sdiv 5) + 1) = doy - (153 * mp + 2) sdiv 5 + 1"
    using doy mp by (simp add: sdiv_nonneg wrap64_small)
  have ms: "(if mp < 10 then wrap64 (mp + 3) else wrap64 (mp - 9)) = (if mp < 10 then mp + 3 else mp - 9)"
    using mp by (simp add: wrap64_small)
  have yw: "wrap64 (wrap64 (yoe + wrap64 (e * 400)) + (if b then 1 else 0)) = yoe + e * 400 + (if b then 1 else 0)" for b
    using yoe ev by (simp add: wrap64_small)
  let ?m = "if mp < 10 then mp + 3 else mp - 9"
  let ?date = "(yoe + e * 400 + (if ?m \<le> 2 then 1 else 0), ?m, doy - (153 * mp + 2) sdiv 5 + 1)"
  have "civil_from_days days = ?date" unfolding civil_from_days_def Let_def zs es ds yoes doys mps dds ms yw by (rule refl)
  moreover have "exact_date days = ?date"
    unfolding exact_date_def Let_def z_def [symmetric] es doe_def [symmetric] yoes doys mps by (rule refl)
  ultimately show ?thesis by (rule trans [OF _ sym])
qed

section \<open>Properties\<close>

lemma valid_date_exact:
  "year_in_range y \<Longrightarrow> valid_date y m d \<Longrightarrow>
     days_from_civil y m d = exact_days y m d \<and> civil_from_days (exact_days y m d) = exact_date (exact_days y m d)"
  using days_from_civil_exact [of y m d] civil_from_days_exact [of "exact_days y m d"]
  by (auto simp: valid_date_def month_length_def split: if_splits)

text \<open>The year of a day in range is in range.\<close>

lemma year_of_day:
  assumes "valid_date y m d" and "\<bar>exact_days y m d\<bar> \<le> 8000000000000000000"
  shows "year_in_range y"
proof -
  let ?Y = "if m \<le> 2 then y - 1 else y"
  have m: "1 \<le> m" "m \<le> 12" "1 \<le> d" using assms(1) by (auto simp: valid_date_def)
  note p = valid_date_parts [OF assms(1)]
  have "0 \<le> ?Y mod 400" "?Y mod 400 < 400" by simp_all
  then have "0 \<le> year_start (?Y mod 400)" "year_start (?Y mod 400) \<le> 146100"
    unfolding year_start_def by linarith+
  moreover have "year_length (?Y mod 400) \<le> 366" by (simp add: year_length_def)
  ultimately have "\<bar>?Y div 400 * 146097\<bar> \<le> 8000000000001000000"
    using p m assms(2) unfolding exact_days_parts [OF m(1,2)] Let_def by linarith
  then have "\<bar>?Y\<bar> \<le> 23000000000000000" by linarith
  then show ?thesis by (simp split: if_splits)
qed

text \<open>
  C21: The node's date arithmetic in 64 bits is the Gregorian calendar, for the years and day numbers that
  keep clear of a wrap-around: years up to 24,000,000,000,000,000 from year 0 either way, and day numbers
  up to 8,000,000,000,000,000,000 either way, which every millisecond count that fits 64 bits stays far
  inside. Day 0 is 1 January 1970; a valid date of such a year goes to its day number and back, and the day
  number of the date after it is one more; every such day number has a valid date, which has that day
  number; and the day of every time in 64-bit milliseconds is such a day number.
\<close>

theorem dates_are_calendar_days:
  "days_from_civil 1970 1 1 = 0
   \<and> (valid_date y m d \<and> \<bar>y\<bar> < 24000000000000000 \<longrightarrow> civil_from_days (days_from_civil y m d) = (y, m, d)
       \<and> (case next_date (y, m, d) of (y', m', d') \<Rightarrow> days_from_civil y' m' d' = days_from_civil y m d + 1))
   \<and> (\<bar>z\<bar> \<le> 8000000000000000000 \<longrightarrow>
       (case civil_from_days z of (y', m', d') \<Rightarrow> valid_date y' m' d' \<and> days_from_civil y' m' d' = z))
   \<and> (is_i64 ms \<longrightarrow> \<bar>ms div 1000 div 86400\<bar> \<le> 8000000000000000000)"
proof (intro conjI impI)
  show "days_from_civil 1970 1 1 = 0"
    by (simp add: days_from_civil_exact exact_days_parts Let_def year_start_def month_start_def)
next
  assume v: "valid_date y m d \<and> \<bar>y\<bar> < 24000000000000000"
  then show "civil_from_days (days_from_civil y m d) = (y, m, d)"
    using valid_date_exact [of y m d] civil_of_days [of y m d] by simp
  obtain y' m' d' where n: "next_date (y, m, d) = (y', m', d')" by (cases "next_date (y, m, d)")
  have "year_in_range y'" "valid_date y' m' d'" using n v by (auto simp: valid_date_def month_length_def split: if_splits)
  then have "days_from_civil y' m' d' = days_from_civil y m d + 1"
    using v valid_date_exact [of y m d] valid_date_exact [of y' m' d'] days_of_next_date [OF _ n] by simp
  then show "case next_date (y, m, d) of (y', m', d') \<Rightarrow> days_from_civil y' m' d' = days_from_civil y m d + 1"
    by (simp add: n del: next_date.simps)
next
  assume z: "\<bar>z\<bar> \<le> 8000000000000000000"
  obtain y' m' d' where c: "exact_date z = (y', m', d')" "valid_date y' m' d'" "exact_days y' m' d' = z"
    using days_of_civil [of z] by blast
  then have "days_from_civil y' m' d' = z" using valid_date_exact [of y' m' d'] year_of_day [of y' m' d'] z by simp
  with c z show "case civil_from_days z of (y', m', d') \<Rightarrow> valid_date y' m' d' \<and> days_from_civil y' m' d' = z"
    by (simp add: civil_from_days_exact)
next
  assume "is_i64 ms"
  then have "\<bar>ms\<bar> \<le> 9223372036854775808" by (auto simp: is_i64_def i64_min_def i64_max_def)
  then show "\<bar>ms div 1000 div 86400\<bar> \<le> 8000000000000000000" by linarith
qed

theorem dates_are_calendar_days_witness:
  "valid_date 2024 2 29 \<and> civil_from_days (days_from_civil 2024 2 29) = (2024, 2, 29)
   \<and> days_from_civil 2024 3 1 = days_from_civil 2024 2 29 + 1
   \<and> (case civil_from_days (- 719528) of (y', m', d') \<Rightarrow> valid_date y' m' d' \<and> days_from_civil y' m' d' = - 719528)"
proof -
  have v: "valid_date 2024 2 29" by (simp add: valid_date_def month_length_def leap_year_def)
  have "next_date (2024, 2, 29) = (2024, 3, 1)" by (simp add: month_length_def leap_year_def)
  with v dates_are_calendar_days [of 2024 2 29 "- 719528" 0] show ?thesis by auto
qed

end
