(* ===== verification/Exhaustion.thy ===== *)
theory Exhaustion
  imports Calendar Utf8_Text Json
begin

text \<open>
  What a session does when its provider refuses it: \<^verbatim>\<open>src/node/src/session/exhaustion.rs\<close>. A refused call is
  classified, the time the limit lifts is read from the answer's headers, and the policy the
  channel or the run chose decides whether the session waits, falls back to another model or
  is held for the operator.

  The headers of an answer are the texts they give by name. Doubles are their bit patterns;
  reading one, arithmetic on it and its conversion to an integer are the record \<open>f64_ops\<close>.
  A slice inside a character panics.
\<close>

record f64_ops =
  f64_parse :: "string \<Rightarrow> f64 option"
  f64_mul :: "f64 \<Rightarrow> f64 \<Rightarrow> f64"
  f64_add :: "f64 \<Rightarrow> f64 \<Rightarrow> f64"
  f64_ge :: "f64 \<Rightarrow> f64 \<Rightarrow> bool"
  f64_finite :: "f64 \<Rightarrow> bool"
  f64_to_i64 :: "f64 \<Rightarrow> int"

type_synonym header_map = "string \<Rightarrow> string option"

text \<open>The doubles \<open>0.0\<close>, \<open>1.0\<close>, \<open>61.0\<close>, \<open>1000.0\<close>, \<open>60000.0\<close> and \<open>3600000.0\<close>.\<close>

definition d_zero :: f64 where "d_zero = 0"
definition d_one :: f64 where "d_one = 4607182418800017408"
definition d_61 :: f64 where "d_61 = 4633781804099174400"
definition d_1000 :: f64 where "d_1000 = 4652007308841189376"
definition d_60000 :: f64 where "d_60000 = 4678479150791524352"
definition d_3600000 :: f64 where "d_3600000 = 4704985352480227328"

section \<open>Classifying a refusal\<close>

datatype cause = Exhausted | Throttled | Auth | Outage | Rejected

fun cause_str :: "cause \<Rightarrow> string" where
  "cause_str Exhausted = ''exhausted''"
| "cause_str Throttled = ''throttled''"
| "cause_str Auth = ''auth''"
| "cause_str Outage = ''outage''"
| "cause_str Rejected = ''rejected''"

definition EXHAUSTED :: "string list" where
  "EXHAUSTED = [''insufficient_quota'', ''quota'', ''usage limit'', ''usage_limit'', ''credit balance'',
     ''billing'', ''spend limit'', ''spending limit'']"

definition error_text :: "(string \<Rightarrow> json option) \<Rightarrow> string \<Rightarrow> string" where
  "error_text parse body =
     (case parse body of
        None \<Rightarrow> from_utf8_lossy body
      | Some v \<Rightarrow>
          let e = jindex v ''error'' in
          join_with '' '' (List.map_filter as_str
            [jindex e ''type'', jindex e ''code'', jindex e ''message'',
             jindex v ''type'', jindex v ''code'', jindex v ''message'', e]))"

definition says_exhausted :: "(string \<Rightarrow> json option) \<Rightarrow> string \<Rightarrow> bool" where
  "says_exhausted parse body =
     list_ex (\<lambda>p. contains_str (lowercase (error_text parse body)) p) EXHAUSTED"

definition classify :: "(string \<Rightarrow> json option) \<Rightarrow> nat \<Rightarrow> header_map \<Rightarrow> string \<Rightarrow> cause" where
  "classify parse status headers body =
     (let unified_rejected = (case headers ''anthropic-ratelimit-unified-status'' of
            Some v \<Rightarrow> lowercase v = ''rejected'' | None \<Rightarrow> False)
      in if status = 402 then Exhausted
         else if status = 429 then
           (if unified_rejected \<or> says_exhausted parse body then Exhausted else Throttled)
         else if status = 401 \<or> status = 403 then
           (if says_exhausted parse body then Exhausted else Auth)
         else if status = 400 \<and> says_exhausted parse body then Exhausted
         else if 500 \<le> status \<and> status \<le> 599 then Outage
         else Rejected)"

section \<open>Times\<close>

datatype panic = Panic

text \<open>\<open>str::parse::<i64>\<close>.\<close>

definition parse_i64 :: "string \<Rightarrow> int option" where
  "parse_i64 s =
     (case s of
        [] \<Rightarrow> None
      | c # r \<Rightarrow>
          let (neg, ds) = (if c = CHR ''-'' then (True, r) else if c = CHR ''+'' then (False, r) else (False, s))
          in if ds = [] \<or> \<not> list_all is_digit ds then None
             else let v = (if neg then - int (dec_value ds) else int (dec_value ds))
                  in if is_i64 v then Some v else None)"

text \<open>\<open>split_once\<close> on one of several characters, \<open>splitn\<close>, and the last of two signs.\<close>

fun split_first :: "(char \<Rightarrow> bool) \<Rightarrow> string \<Rightarrow> (string \<times> string) option" where
  "split_first p [] = None"
| "split_first p (c # s) = (if p c then Some ([], s) else map_option (apfst ((#) c)) (split_first p s))"

fun splitn :: "nat \<Rightarrow> char \<Rightarrow> string \<Rightarrow> string list" where
  "splitn 0 c s = []"
| "splitn (Suc 0) c s = [s]"
| "splitn (Suc (Suc n)) c s =
     (case split_first (\<lambda>x. x = c) s of None \<Rightarrow> [s] | Some (a, b) \<Rightarrow> a # splitn (Suc n) c b)"

definition is_sign :: "char \<Rightarrow> bool" where
  "is_sign c \<longleftrightarrow> c = CHR ''+'' \<or> c = CHR ''-''"

definition rsplit_sign :: "string \<Rightarrow> (string \<times> char \<times> string) option" where
  "rsplit_sign s =
     (case split_first is_sign (rev s) of
        None \<Rightarrow> None
      | Some (a, b) \<Rightarrow> Some (rev b, rev s ! length a, rev a))"

text \<open>The clock and the offset in minutes; \<open>split_at\<close> panics inside a character.\<close>

definition rfc3339_offset :: "string \<Rightarrow> (panic, (string \<times> int) option) result" where
  "rfc3339_offset time =
     (if time \<noteq> [] \<and> last time \<in> {CHR ''Z'', CHR ''z''} then Ok (Some (butlast time, 0))
      else (case rsplit_sign time of
        None \<Rightarrow> Ok None
      | Some (clk, sg, digits) \<Rightarrow>
          bind_result
            (case split_once '':'' digits of
               Some hm \<Rightarrow> Ok (Some hm)
             | None \<Rightarrow> if length digits = 4
                       then (if cont (digits ! 2) then Err Panic else Ok (Some (take 2 digits, drop 2 digits)))
                       else Ok None)
            (\<lambda>hm. Ok (case hm of
               None \<Rightarrow> None
             | Some (h, mi) \<Rightarrow>
                 (case (parse_i64 h, parse_i64 mi) of
                    (Some h, Some mi) \<Rightarrow> Some (clk, (if sg = CHR ''-'' then - 1 else 1) * (h * 60 + mi))
                  | _ \<Rightarrow> None)))))"

text \<open>
  The checks and the sum, wrapped once at the end: for sums and products that is the same as wrapping each.
\<close>

definition rfc3339_clock :: "f64_ops \<Rightarrow> int \<Rightarrow> int \<Rightarrow> int \<Rightarrow> string \<Rightarrow> int \<Rightarrow> int option" where
  "rfc3339_clock fo y m day clk offset_min =
     (case splitn 3 (CHR '':'') clk of
        [h, mi, s] \<Rightarrow>
          (case (parse_i64 h, parse_i64 mi, f64_parse fo s) of
             (Some h, Some mi, Some secs) \<Rightarrow>
               if \<not> (1 \<le> m \<and> m \<le> 12) \<or> \<not> (1 \<le> day \<and> day \<le> 31) \<or> h > 23 \<or> mi > 59 \<or> f64_ge fo secs d_61 then None
               else let whole = days_from_civil y m day * 86400 + h * 3600 + mi * 60 - offset_min * 60
                    in Some (wrap64 (whole * 1000 + f64_to_i64 fo (f64_mul fo secs d_1000)))
           | _ \<Rightarrow> None)
      | _ \<Rightarrow> None)"

definition rfc3339_ms :: "f64_ops \<Rightarrow> string \<Rightarrow> (panic, int option) result" where
  "rfc3339_ms fo text0 =
     (case split_first (\<lambda>c. c \<in> {CHR ''T'', CHR ''t'', CHR '' ''}) (trim text0) of
        None \<Rightarrow> Ok None
      | Some (date, time) \<Rightarrow>
          (case map parse_i64 (splitn 3 (CHR ''-'') date) of
             [Some y, Some m, Some day] \<Rightarrow>
               bind_result (rfc3339_offset time) (\<lambda>co. Ok (case co of
                 None \<Rightarrow> None
               | Some (clk, off) \<Rightarrow> rfc3339_clock fo y m day clk off))
           | _ \<Rightarrow> Ok None))"

text \<open>A duration, \<open>1h2m3.5s\<close>.\<close>

definition in_number :: "char \<Rightarrow> bool" where
  "in_number c \<longleftrightarrow> is_digit c \<or> c = CHR ''.''"

definition duration_unit :: "string \<Rightarrow> (f64 \<times> string) option" where
  "duration_unit rest =
     (case strip_prefix ''ms'' rest of
        Some r \<Rightarrow> Some (d_one, r)
      | None \<Rightarrow>
          (case rest of
             [] \<Rightarrow> None
           | c # r \<Rightarrow> if c = CHR ''h'' then Some (d_3600000, r)
                      else if c = CHR ''m'' then Some (d_60000, r)
                      else if c = CHR ''s'' then Some (d_1000, r) else None))"

lemma duration_unit_shorter: "duration_unit s = Some (u, r) \<Longrightarrow> length r < length s"
  by (auto simp: duration_unit_def strip_prefix_Some split: option.splits list.splits if_splits)

function duration_total :: "f64_ops \<Rightarrow> f64 \<Rightarrow> string \<Rightarrow> f64 option" where
  "duration_total fo acc rest =
     (if rest = [] then Some acc
      else (case f64_parse fo (takeWhile in_number rest) of
        None \<Rightarrow> None
      | Some n \<Rightarrow>
          (case duration_unit (dropWhile in_number rest) of
             None \<Rightarrow> None
           | Some (u, r) \<Rightarrow> duration_total fo (f64_add fo acc (f64_mul fo n u)) r)))"
  by pat_completeness auto
termination
proof (relation "measure (\<lambda>(fo, acc, rest). length rest)")
  fix fo :: f64_ops and acc rest n x u r
  assume "duration_unit (dropWhile in_number rest) = Some x" and "(u, r) = x"
  then have "length r < length (dropWhile in_number rest)" by (metis duration_unit_shorter)
  also have "\<dots> \<le> length rest" by (rule length_dropWhile_le)
  finally show "((fo, f64_add fo acc (f64_mul fo n u), r), fo, acc, rest) \<in> measure (\<lambda>(fo, acc, rest). length rest)"
    by simp
qed simp

declare duration_total.simps [simp del]

definition duration_ms :: "f64_ops \<Rightarrow> string \<Rightarrow> int option" where
  "duration_ms fo text0 =
     (if trim text0 = [] then None else map_option (f64_to_i64 fo) (duration_total fo d_zero (trim text0)))"

text \<open>The times the headers give, and the latest of them.\<close>

definition retry_after :: "f64_ops \<Rightarrow> header_map \<Rightarrow> int \<Rightarrow> int list" where
  "retry_after fo headers now_ms =
     (case Option.bind (headers ''retry-after'') (\<lambda>v. f64_parse fo (trim v)) of
        None \<Rightarrow> []
      | Some secs \<Rightarrow> if f64_finite fo secs \<and> f64_ge fo secs d_zero
                     then [wrap64 (now_ms + f64_to_i64 fo (f64_mul fo secs d_1000))] else [])"

definition unified_reset :: "header_map \<Rightarrow> int list" where
  "unified_reset headers =
     (case Option.bind (headers ''anthropic-ratelimit-unified-reset'') (\<lambda>v. parse_i64 (trim v)) of
        None \<Rightarrow> [] | Some secs \<Rightarrow> [i64_saturating (secs * 1000)])"

definition RFC3339_HEADERS :: "string list" where
  "RFC3339_HEADERS = [''anthropic-ratelimit-requests-reset'', ''anthropic-ratelimit-tokens-reset'',
     ''anthropic-ratelimit-input-tokens-reset'', ''anthropic-ratelimit-output-tokens-reset'']"

definition DURATION_HEADERS :: "string list" where
  "DURATION_HEADERS = [''x-ratelimit-reset-requests'', ''x-ratelimit-reset-tokens'']"

fun rfc3339_resets :: "f64_ops \<Rightarrow> header_map \<Rightarrow> string list \<Rightarrow> (panic, int list) result" where
  "rfc3339_resets fo headers [] = Ok []"
| "rfc3339_resets fo headers (n # ns) =
     bind_result (case headers n of None \<Rightarrow> Ok None | Some v \<Rightarrow> rfc3339_ms fo v) (\<lambda>t.
     bind_result (rfc3339_resets fo headers ns) (\<lambda>ts.
     Ok (case t of None \<Rightarrow> ts | Some ms \<Rightarrow> ms # ts)))"

definition duration_resets :: "f64_ops \<Rightarrow> header_map \<Rightarrow> int \<Rightarrow> int list" where
  "duration_resets fo headers now_ms =
     List.map_filter (\<lambda>n. map_option (\<lambda>ms. wrap64 (now_ms + ms)) (Option.bind (headers n) (duration_ms fo))) DURATION_HEADERS"

definition reset_ms :: "f64_ops \<Rightarrow> header_map \<Rightarrow> int \<Rightarrow> (panic, int option) result" where
  "reset_ms fo headers now_ms =
     bind_result (rfc3339_resets fo headers RFC3339_HEADERS) (\<lambda>dates.
     let at = retry_after fo headers now_ms @ unified_reset headers @ dates @ duration_resets fo headers now_ms
     in Ok (if at = [] then None else Some (Max (set at))))"

section \<open>The policy\<close>

datatype exhaustion_policy = Pause | Fallback | FallbackThenWait

fun policy_str :: "exhaustion_policy \<Rightarrow> string" where
  "policy_str Pause = ''pause''"
| "policy_str Fallback = ''fallback''"
| "policy_str FallbackThenWait = ''fallback_then_wait''"

definition policy_parse :: "string \<Rightarrow> exhaustion_policy option" where
  "policy_parse t = (if t = ''pause'' then Some Pause else if t = ''fallback'' then Some Fallback
                     else if t = ''fallback_then_wait'' then Some FallbackThenWait else None)"

definition policy_waits :: "exhaustion_policy \<Rightarrow> bool" where
  "policy_waits p \<longleftrightarrow> p = Pause \<or> p = FallbackThenWait"

record choice =
  c_policy :: exhaustion_policy
  c_fallback :: "string option"

definition choice_check :: "choice \<Rightarrow> (string, choice) result" where
  "choice_check c =
     (let fallback = (case c_fallback c of
            None \<Rightarrow> None | Some f \<Rightarrow> if trim f = [] then None else Some (trim f))
      in if c_policy c \<noteq> Pause \<and> fallback = None
         then Err (''the `'' @ policy_str (c_policy c) @ ''` exhaustion policy needs a fallback model'')
         else Ok \<lparr>c_policy = c_policy c, c_fallback = fallback\<rparr>)"

text \<open>The channel's binding is read by serde's derived reader, \<open>from_value\<close>.\<close>

definition exhaustion_resolve :: "(json \<Rightarrow> choice option) \<Rightarrow> choice option \<Rightarrow> json \<Rightarrow> (string, choice) result" where
  "exhaustion_resolve from_value run bindings =
     (case run of
        Some c \<Rightarrow> choice_check c
      | None \<Rightarrow>
          let bnd = jindex bindings ''exhaustion'' in
          if bnd = JNull then Ok \<lparr>c_policy = Pause, c_fallback = None\<rparr>
          else (case from_value bnd of
                  None \<Rightarrow> Err ''the channel's exhaustion policy does not parse''
                | Some c \<Rightarrow> choice_check c))"

record exhaustion_decision =
  x_policy :: exhaustion_policy
  x_outcome :: string
  x_fallback :: "string option"
  x_next_wake_ms :: "int option"
  x_note :: "string option"

definition exhaustion_wait :: "choice \<Rightarrow> int option \<Rightarrow> string option \<Rightarrow> exhaustion_decision" where
  "exhaustion_wait c reset note =
     (case reset of
        Some at \<Rightarrow> \<lparr>x_policy = c_policy c, x_outcome = ''waiting'', x_fallback = c_fallback c,
                    x_next_wake_ms = Some at, x_note = note\<rparr>
      | None \<Rightarrow> \<lparr>x_policy = c_policy c, x_outcome = ''held'', x_fallback = c_fallback c, x_next_wake_ms = None,
                 x_note = Some (case note of Some n \<Rightarrow> n @ '' The provider gave no reset time.''
                                | None \<Rightarrow> ''The provider gave no reset time.'')\<rparr>)"

definition exhaustion_decide :: "choice \<Rightarrow> int option \<Rightarrow> (string, unit) result \<Rightarrow> exhaustion_decision" where
  "exhaustion_decide c reset usable =
     (if c_policy c = Pause then exhaustion_wait c reset None
      else (case usable of
        Ok u \<Rightarrow> \<lparr>x_policy = c_policy c, x_outcome = ''falling_back'', x_fallback = c_fallback c,
                x_next_wake_ms = None, x_note = None\<rparr>
      | Err why \<Rightarrow>
          if policy_waits (c_policy c) then exhaustion_wait c reset (Some (''Not falling back: '' @ why @ ''.''))
          else \<lparr>x_policy = c_policy c, x_outcome = ''held'', x_fallback = c_fallback c, x_next_wake_ms = None,
                x_note = Some (''Not falling back: '' @ why @ ''.'')\<rparr>))"

section \<open>Reading a printed time\<close>

lemma pad_digits: "list_all is_digit (pad_nat w n)"
  using dec_digits [of n] by (auto simp: pad_nat_def list_all_iff)

lemma pad_nonempty [simp]: "pad_nat w n \<noteq> []"
  by (simp add: pad_nat_def)

lemma dec_value_pad [simp]: "dec_value (pad_nat w n) = n"
  by (simp add: pad_nat_def)

lemma digit_not_mark: "is_digit c \<Longrightarrow> c \<notin> {CHR ''-'', CHR ''+'', CHR '':'', CHR ''T'', CHR ''t'', CHR '' '', CHR ''Z'', CHR ''z''}"
  by (auto simp: is_digit_def)

lemma pad_marks: "c \<in> {CHR ''-'', CHR ''+'', CHR '':'', CHR ''T'', CHR ''t'', CHR '' '', CHR ''Z'', CHR ''z''} \<Longrightarrow> c \<notin> set (pad_nat w n)"
  using pad_digits [of w n] digit_not_mark by (auto simp: list_all_iff)

lemma parse_i64_pad: "int n \<le> i64_max \<Longrightarrow> parse_i64 (pad_nat w n) = Some (int n)"
proof -
  assume "int n \<le> i64_max"
  then have r: "is_i64 (int n)" by (simp add: is_i64_def i64_min_def)
  obtain c ds where c: "pad_nat w n = c # ds" by (cases "pad_nat w n") simp_all
  then have "c \<noteq> CHR ''-''" "c \<noteq> CHR ''+''" using pad_marks [of _ w n] by force+
  with c pad_digits [of w n] dec_value_pad [of w n] r show ?thesis
    by (simp add: parse_i64_def Let_def)
qed

lemma split_first_at: "\<forall>c \<in> set a. \<not> p c \<Longrightarrow> p c \<Longrightarrow> split_first p (a @ c # b) = Some (a, b)"
  by (induction a) auto

lemma split_first_none: "\<forall>c \<in> set a. \<not> p c \<Longrightarrow> split_first p a = None"
  by (induction a) auto

lemma splitn3:
  assumes "c \<notin> set x" and "c \<notin> set y"
  shows "splitn 3 c (x @ c # y @ c # z) = [x, y, z]"
proof -
  have "split_first (\<lambda>x. x = c) (x @ c # y @ c # z) = Some (x, y @ c # z)"
    "split_first (\<lambda>x. x = c) (y @ c # z) = Some (y, z)"
    using assms by (auto intro!: split_first_at)
  then show ?thesis by (simp add: numeral_3_eq_3)
qed

lemma split_once_char:
  assumes "c \<notin> set a"
  shows "split_once [c] (a @ c # b) = Some (a, b)"
  using assms by (induction a) (subst split_once.simps, simp)+

lemma rsplit_sign_at:
  assumes "is_sign c" and "\<forall>x \<in> set b. \<not> is_sign x"
  shows "rsplit_sign (a @ c # b) = Some (a, c, b)"
  using split_first_at [of "rev b" is_sign c "rev a"] assms by (simp add: rsplit_sign_def nth_append)

text \<open>A time as RFC 3339 writes it, with its offset in minutes.\<close>

definition zone_text :: "int \<Rightarrow> string" where
  "zone_text off =
     (if off = 0 then ''Z''
      else (if off < 0 then CHR ''-'' else CHR ''+'') # pad_nat 2 (nat \<bar>off\<bar> div 60) @ '':'' @ pad_nat 2 (nat \<bar>off\<bar> mod 60))"

definition clock_text :: "nat \<Rightarrow> nat \<Rightarrow> nat \<Rightarrow> string" where
  "clock_text h mi s = pad_nat 2 h @ '':'' @ pad_nat 2 mi @ '':'' @ pad_nat 2 s"

definition iso_text :: "nat \<Rightarrow> nat \<Rightarrow> nat \<Rightarrow> nat \<Rightarrow> nat \<Rightarrow> nat \<Rightarrow> int \<Rightarrow> string" where
  "iso_text y m d h mi s off =
     pad_nat 4 y @ ''-'' @ pad_nat 2 m @ ''-'' @ pad_nat 2 d @ ''T'' @ clock_text h mi s @ zone_text off"

lemma clock_text_marks: "CHR ''+'' \<notin> set (clock_text h mi s)" "CHR ''-'' \<notin> set (clock_text h mi s)"
  using pad_marks by (auto simp: clock_text_def)

lemma rfc3339_offset_text:
  assumes "\<bar>off\<bar> < 1440"
  shows "rfc3339_offset (clock_text h mi s @ zone_text off) = Ok (Some (clock_text h mi s, off))"
proof (cases "off = 0")
  case True
  then show ?thesis by (simp add: rfc3339_offset_def zone_text_def butlast_append)
next
  case False
  let ?sg = "if off < 0 then CHR ''-'' else CHR ''+''"
  let ?H = "nat \<bar>off\<bar> div 60" and ?M = "nat \<bar>off\<bar> mod 60"
  let ?ds = "pad_nat 2 ?H @ CHR '':'' # pad_nat 2 ?M"
  have z: "zone_text off = ?sg # ?ds" using False by (simp add: zone_text_def)
  have lst: "last (clock_text h mi s @ zone_text off) = last (pad_nat 2 ?M)" by (simp add: z)
  have "last (pad_nat 2 ?M) \<in> set (pad_nat 2 ?M)" by simp
  then have nz: "last (clock_text h mi s @ zone_text off) \<notin> {CHR ''Z'', CHR ''z''}"
    unfolding lst using pad_marks by blast
  have "\<forall>x \<in> set ?ds. \<not> is_sign x" using pad_marks by (auto simp: is_sign_def)
  then have rs: "rsplit_sign (clock_text h mi s @ zone_text off) = Some (clock_text h mi s, ?sg, ?ds)"
    unfolding z by (intro rsplit_sign_at) (simp_all add: is_sign_def)
  have so: "split_once '':'' ?ds = Some (pad_nat 2 ?H, pad_nat 2 ?M)"
    using pad_marks by (intro split_once_char) blast
  have "int ?H \<le> i64_max" "int ?M \<le> i64_max" using assms by (auto simp: i64_max_def)
  note p = parse_i64_pad [OF this(1), of 2] parse_i64_pad [OF this(2), of 2]
  have "int ?H * 60 + int ?M = \<bar>off\<bar>" by (simp add: zdiv_int zmod_int)
  then have "(if ?sg = CHR ''-'' then - 1 else 1) * (int ?H * 60 + int ?M) = off" by auto
  with nz rs so p show ?thesis by (simp add: rfc3339_offset_def)
qed

text \<open>What reading whole seconds relies on: two digits are read as the number they are.\<close>

definition secs_ok :: "f64_ops \<Rightarrow> bool" where
  "secs_ok fo \<longleftrightarrow> (\<forall>s < 61. \<exists>x. f64_parse fo (pad_nat 2 s) = Some x \<and> \<not> f64_ge fo x d_61
     \<and> f64_to_i64 fo (f64_mul fo x d_1000) = 1000 * int s)"

lemma days_bound:
  assumes "valid_date y m d" and "0 \<le> y" and "y \<le> 9999"
  shows "\<bar>days_from_civil y m d\<bar> \<le> 5000000"
proof -
  let ?Y = "if m \<le> 2 then y - 1 else y"
  have m: "1 \<le> m" "m \<le> 12" "1 \<le> d" using assms(1) by (auto simp: valid_date_def)
  note p = valid_date_parts [OF assms(1)]
  have y4: "0 \<le> ?Y mod 400" "?Y mod 400 < 400" by simp_all
  then have ys: "0 \<le> year_start (?Y mod 400)" "year_start (?Y mod 400) \<le> 146100"
    unfolding year_start_def by linarith+
  have yl: "year_length (?Y mod 400) \<le> 366" by (simp add: year_length_def)
  have "- 1 \<le> ?Y div 400" "?Y div 400 \<le> 25" using assms(2,3) by (auto split: if_splits)
  with p m ys yl have "\<bar>exact_days y m d\<bar> \<le> 5000000" unfolding exact_days_parts [OF m(1,2)] Let_def by linarith
  then show ?thesis using valid_date_exact [OF _ assms(1)] assms(2,3) by simp
qed

lemma iso_trim: "trim (iso_text y m d h mi s off) = iso_text y m d h mi s off"
proof (rule trim_id, rule disjI2, rule conjI)
  have hd: "hd (iso_text y m d h mi s off) = hd (pad_nat 4 y)" by (simp add: iso_text_def hd_append)
  have "is_digit (hd (pad_nat 4 y))" using pad_digits [of 4 y] by (cases "pad_nat 4 y") auto
  then show "\<not> is_space_byte (hd (iso_text y m d h mi s off))" unfolding hd by (rule digit_not_space)
  show "\<not> is_space_byte (last (iso_text y m d h mi s off))"
  proof (cases "off = 0")
    case True
    moreover have "\<not> is_space_byte (CHR ''Z'')" by code_simp
    ultimately show ?thesis by (simp add: iso_text_def zone_text_def)
  next
    case False
    then have "last (iso_text y m d h mi s off) = last (pad_nat 2 (nat \<bar>off\<bar> mod 60))"
      by (simp add: iso_text_def zone_text_def)
    moreover have "is_digit (last (pad_nat 2 (nat \<bar>off\<bar> mod 60)))"
      using pad_digits [of 2 "nat \<bar>off\<bar> mod 60"] by (simp add: list_all_iff)
    ultimately show ?thesis using digit_not_space by simp
  qed
qed

section \<open>Properties\<close>

text \<open>
  A time a provider or a tracker writes as RFC 3339, for any date of the calendar of the
  years 0 to 9999, any time of day to the second (a leap second among them) and any offset
  within a day, is read as the milliseconds since the epoch it names.
\<close>

theorem rfc3339_reads_calendar_time:
  assumes "secs_ok fo" and "valid_date (int y) (int m) (int d)" and "y \<le> 9999"
    and "h < 24" and "mi < 60" and "s < 61" and "\<bar>off\<bar> < 1440"
  shows "rfc3339_ms fo (iso_text y m d h mi s off) =
    Ok (Some ((days_from_civil (int y) (int m) (int d) * 86400 + int h * 3600 + int mi * 60 + int s - off * 60) * 1000))"
proof -
  let ?time = "clock_text h mi s @ zone_text off"
  have "\<forall>c \<in> set (pad_nat 4 y @ ''-'' @ pad_nat 2 m @ ''-'' @ pad_nat 2 d). c \<notin> {CHR ''T'', CHR ''t'', CHR '' ''}"
    using pad_marks by auto
  from split_first_at [OF this, of "CHR ''T''" ?time]
  have sp: "split_first (\<lambda>c. c \<in> {CHR ''T'', CHR ''t'', CHR '' ''}) (iso_text y m d h mi s off) =
      Some (pad_nat 4 y @ ''-'' @ pad_nat 2 m @ ''-'' @ pad_nat 2 d, ?time)" by (simp add: iso_text_def)
  have dd: "splitn 3 (CHR ''-'') (pad_nat 4 y @ ''-'' @ pad_nat 2 m @ ''-'' @ pad_nat 2 d) =
      [pad_nat 4 y, pad_nat 2 m, pad_nat 2 d]"
    using splitn3 [of "CHR ''-''" "pad_nat 4 y" "pad_nat 2 m" "pad_nat 2 d"] pad_marks by simp
  have cl: "splitn 3 (CHR '':'') (clock_text h mi s) = [pad_nat 2 h, pad_nat 2 mi, pad_nat 2 s]"
    using splitn3 [of "CHR '':''" "pad_nat 2 h" "pad_nat 2 mi" "pad_nat 2 s"] pad_marks by (simp add: clock_text_def)
  have md: "1 \<le> int m" "int m \<le> 12" "1 \<le> int d" "int d \<le> 31"
    using assms(2) by (auto simp: valid_date_def month_length_def split: if_splits)
  then have "int y \<le> i64_max" "int m \<le> i64_max" "int d \<le> i64_max" "int h \<le> i64_max" "int mi \<le> i64_max"
    using assms(3-5) by (auto simp: i64_max_def)
  note ps = this [THEN parse_i64_pad]
  obtain x where x: "f64_parse fo (pad_nat 2 s) = Some x" "\<not> f64_ge fo x d_61"
    "f64_to_i64 fo (f64_mul fo x d_1000) = 1000 * int s" using assms(1,6) by (auto simp: secs_ok_def)
  let ?t = "(days_from_civil (int y) (int m) (int d) * 86400 + int h * 3600 + int mi * 60 + int s - off * 60) * 1000"
  have "is_i64 ?t"
    using days_bound [OF assms(2)] assms(3-7) by (simp add: is_i64_def i64_min_def i64_max_def) linarith
  then have w: "wrap64 ?t = ?t" by (rule wrap64_id)
  have "rfc3339_clock fo (int y) (int m) (int d) (clock_text h mi s) off = Some (wrap64 ?t)"
    using md assms(4,5) x by (simp add: rfc3339_clock_def cl ps Let_def algebra_simps)
  then show ?thesis
    unfolding rfc3339_ms_def iso_trim sp option.case prod.case dd list.map ps list.case
      rfc3339_offset_text [OF assms(7)] bind_result_Ok w by (simp only:)
qed

definition toy_ops :: f64_ops where
  "toy_ops = \<lparr>f64_parse = (\<lambda>s. if s \<noteq> [] \<and> list_all is_digit s then Some (dec_value s) else None),
     f64_mul = (\<lambda>a b. a), f64_add = (+), f64_ge = (\<lambda>a b. b = d_61 \<and> 61 \<le> a), f64_finite = (\<lambda>_. True),
     f64_to_i64 = (\<lambda>a. 1000 * int a)\<rparr>"

lemma toy_secs_ok: "secs_ok toy_ops"
  by (simp add: secs_ok_def toy_ops_def pad_digits)

theorem rfc3339_reads_calendar_time_witness:
  "rfc3339_ms toy_ops (iso_text 2024 2 29 23 59 60 (- 330)) =
    Ok (Some ((days_from_civil 2024 2 29 * 86400 + 23 * 3600 + 59 * 60 + 60 + 330 * 60) * 1000))"
proof -
  have "valid_date (int 2024) (int 2) (int 29)" by (simp add: valid_date_def month_length_def leap_year_def)
  from rfc3339_reads_calendar_time [OF toy_secs_ok this, of 23 59 60 "- 330"] show ?thesis by simp
qed

text \<open>
  An offset of four bytes without a colon is cut after two of them. Where the third is inside
  a character the cut panics, although the text would otherwise only have been refused.
\<close>

abbreviation split_text :: string where
  "split_text \<equiv> ''1-1-1T0:0:0+1'' @ [char_of (195::nat), char_of (169::nat)] @ ''0''"

lemma offset_panics: "rfc3339_ms fo split_text = Err Panic"
proof -
  have t: "trim split_text = split_text" by code_simp
  have s: "split_first (\<lambda>c. c \<in> {CHR ''T'', CHR ''t'', CHR '' ''}) split_text
      = Some (''1-1-1'', ''0:0:0+1'' @ [char_of (195::nat), char_of (169::nat)] @ ''0'')" by code_simp
  have d: "map parse_i64 (splitn 3 (CHR ''-'') ''1-1-1'') = [Some 1, Some 1, Some 1]" by code_simp
  have o: "rfc3339_offset (''0:0:0+1'' @ [char_of (195::nat), char_of (169::nat)] @ ''0'') = Err Panic" by code_simp
  show ?thesis unfolding rfc3339_ms_def t s option.case prod.case d list.case o bind_result_Err ..
qed

text \<open>Every policy is parsed from its own name.\<close>

lemma policy_parse_str: "policy_parse (policy_str p) = Some p"
  by (cases p) (simp_all add: policy_parse_def)

text \<open>The time a session waits for is one the provider's headers gave, and no other is later.\<close>

lemma reset_is_latest:
  assumes "reset_ms fo headers now_ms = Ok (Some t)" and "rfc3339_resets fo headers RFC3339_HEADERS = Ok dates"
  shows "t \<in> set (retry_after fo headers now_ms @ unified_reset headers @ dates @ duration_resets fo headers now_ms)
    \<and> (\<forall>u \<in> set (retry_after fo headers now_ms @ unified_reset headers @ dates @ duration_resets fo headers now_ms). u \<le> t)"
proof -
  let ?at = "retry_after fo headers now_ms @ unified_reset headers @ dates @ duration_resets fo headers now_ms"
  have "?at \<noteq> []" "t = Max (set ?at)" using assms by (auto simp: reset_ms_def Let_def split: if_splits)
  then show ?thesis by (metis Max_ge Max_in List.finite_set set_empty)
qed

lemma choice_check_fallback:
  assumes "choice_check c = Ok c'"
  shows "c_policy c' = c_policy c \<and> (c_policy c' \<noteq> Pause \<longrightarrow> c_fallback c' \<noteq> None)
    \<and> (\<forall>f. c_fallback c' = Some f \<longrightarrow> f \<noteq> [] \<and> trim f = f)"
proof -
  let ?f = "case c_fallback c of None \<Rightarrow> None | Some f \<Rightarrow> if trim f = [] then None else Some (trim f)"
  have c': "c' = \<lparr>c_policy = c_policy c, c_fallback = ?f\<rparr>" "c_policy c \<noteq> Pause \<longrightarrow> ?f \<noteq> None"
    using assms by (auto simp: choice_check_def Let_def split: if_splits)
  show ?thesis using c' by (cases "c_fallback c") (auto split: if_splits)
qed

lemma resolve_fallback:
  assumes "exhaustion_resolve from_value run bindings = Ok c"
  shows "(c_policy c \<noteq> Pause \<longrightarrow> c_fallback c \<noteq> None) \<and> (\<forall>f. c_fallback c = Some f \<longrightarrow> f \<noteq> [] \<and> trim f = f)"
proof (cases run)
  case (Some r)
  with assms choice_check_fallback show ?thesis by (auto simp: exhaustion_resolve_def)
next
  case None
  show ?thesis
  proof (cases "jindex bindings ''exhaustion'' = JNull")
    case True
    with None assms have "c = \<lparr>c_policy = Pause, c_fallback = None\<rparr>" by (simp add: exhaustion_resolve_def)
    then show ?thesis by simp
  next
    case False
    with None assms obtain c0 where "choice_check c0 = Ok c"
      by (auto simp: exhaustion_resolve_def Let_def split: option.splits)
    with choice_check_fallback show ?thesis by blast
  qed
qed

text \<open>
  What happens to a session whose provider is exhausted follows the policy that was
  resolved for it. It is woken only at a time the provider gave, and then only when the policy
  waits: \<open>pause\<close>, or \<open>fallback_then_wait\<close> with no usable fallback. It falls back only under a
  fallback policy with a usable fallback, and then to a model that was named. In every other
  case it is held for the operator, with a note that says why.
\<close>

theorem exhaustion_follows_policy:
  fixes reset :: "int option" and usable :: "(string, unit) result"
  assumes "exhaustion_resolve from_value run bindings = Ok c"
  defines "x \<equiv> exhaustion_decide c reset usable"
  shows "x_next_wake_ms x = (if x_outcome x = ''waiting'' then reset else None)
    \<and> (x_outcome x = ''waiting'' \<longleftrightarrow> reset \<noteq> None \<and>
         (c_policy c = Pause \<or> c_policy c = FallbackThenWait \<and> \<not> is_ok usable))
    \<and> (x_outcome x = ''falling_back'' \<longleftrightarrow> c_policy c \<noteq> Pause \<and> is_ok usable)
    \<and> (x_outcome x = ''falling_back'' \<longrightarrow> (\<exists>f. x_fallback x = Some f \<and> f \<noteq> [] \<and> trim f = f))
    \<and> (x_outcome x \<notin> {''waiting'', ''falling_back''} \<longrightarrow> x_outcome x = ''held'' \<and> x_note x \<noteq> None)"
proof -
  have f: "\<exists>f. c_fallback c = Some f \<and> f \<noteq> [] \<and> trim f = f" if "c_policy c \<noteq> Pause"
    using resolve_fallback [OF assms(1)] that by blast
  show ?thesis
    unfolding x_def
    by (cases usable; cases reset; cases "c_policy c")
       (use f in \<open>auto simp: exhaustion_decide_def exhaustion_wait_def policy_waits_def\<close>)
qed

theorem exhaustion_follows_policy_witness:
  "\<exists>c. exhaustion_resolve (\<lambda>_. None) (Some \<lparr>c_policy = FallbackThenWait, c_fallback = Some ''p/m ''\<rparr>) JNull = Ok c
     \<and> x_outcome (exhaustion_decide c (Some 7) (Err ''x'')) = ''waiting''
     \<and> x_next_wake_ms (exhaustion_decide c (Some 7) (Err ''x'')) = Some 7"
proof -
  let ?r = "Some \<lparr>c_policy = FallbackThenWait, c_fallback = Some ''p/m ''\<rparr>"
  have "trim ''p/m '' = ''p/m''" by code_simp
  then have r: "exhaustion_resolve (\<lambda>_. None) ?r JNull = Ok \<lparr>c_policy = FallbackThenWait, c_fallback = Some ''p/m''\<rparr>"
    by (simp add: exhaustion_resolve_def choice_check_def)
  from exhaustion_follows_policy [OF r, of "Some 7" "Err ''x''"] r show ?thesis by auto
qed

end
