(* ===== verification/Egress.thy ===== *)
theory Egress
  imports Text_Prims "HOL-Library.Word" "HOL-Library.AList"
begin

unbundle bit_operations_syntax

text \<open>
  What a sandboxed client may reach: the allowlist, the grants and the addresses never dialled of
  \<^verbatim>\<open>src/node/src/gateway/proxy.rs\<close>, and the host names of \<^verbatim>\<open>src/node/src/mcp/egress.rs\<close>.

  An address is its bits, a \<open>32 word\<close> or a \<open>128 word\<close>. Arguments stand for what the code takes from
  outside: matching a regular expression, reading an address, decoding base64, looking a name
  up, and whether an address answers. A moment of the monotonic clock is an integer.
\<close>

section \<open>Addresses\<close>

datatype ip = V4 "32 word" | V6 "128 word"

definition v4_octet :: "nat \<Rightarrow> 32 word \<Rightarrow> 32 word" where
  "v4_octet i a = drop_bit (24 - 8 * i) a AND 0xff"

definition v4_internal :: "32 word \<Rightarrow> bool" where
  "v4_internal a \<longleftrightarrow> v4_octet 0 a = 127 \<or> (v4_octet 0 a = 169 \<and> v4_octet 1 a = 254)
     \<or> a = 0 \<or> a = 0xffffffff"

text \<open>\<open>to_ipv4_mapped\<close>: the block \<open>::ffff:0:0/96\<close>.\<close>

definition v6_mapped :: "128 word \<Rightarrow> 32 word option" where
  "v6_mapped a = (if drop_bit 32 a = 0xffff then Some (ucast a) else None)"

definition internal_address :: "ip \<Rightarrow> bool" where
  "internal_address i = (case i of
      V4 a \<Rightarrow> v4_internal a
    | V6 a \<Rightarrow> (case v6_mapped a of
        Some b \<Rightarrow> v4_internal b
      | None \<Rightarrow> a = 1 \<or> a = 0 \<or> drop_bit 112 a AND 0xffc0 = 0xfe80))"

record cidr =
  c_network :: ip
  c_prefix :: nat

fun ip_width :: "ip \<Rightarrow> nat" where
  "ip_width (V4 _) = 32"
| "ip_width (V6 _) = 128"

text \<open>\<open>str::parse::<u8>\<close>.\<close>

definition parse_u8 :: "string \<Rightarrow> nat option" where
  "parse_u8 s = (case parse_u64 s of Some n \<Rightarrow> if n \<le> 255 then Some n else None | None \<Rightarrow> None)"

definition cidr_from_str :: "(string \<Rightarrow> ip option) \<Rightarrow> string \<Rightarrow> cidr option" where
  "cidr_from_str parse_ip text0 =
     (let t = trim text0;
          (address, prefix) = (case split_once ''/'' t of Some (a, p) \<Rightarrow> (a, Some p) | None \<Rightarrow> (t, None))
      in case parse_ip address of
           None \<Rightarrow> None
         | Some network \<Rightarrow>
             (case prefix of
                None \<Rightarrow> Some \<lparr>c_network = network, c_prefix = ip_width network\<rparr>
              | Some p \<Rightarrow>
                  (case parse_u8 p of
                     None \<Rightarrow> None
                   | Some n \<Rightarrow> if n \<le> ip_width network then Some \<lparr>c_network = network, c_prefix = n\<rparr> else None)))"

text \<open>The bits a prefix compares; both widths are shifted as 128 bits, and never by the whole width.\<close>

definition masked :: "nat \<Rightarrow> 128 word \<Rightarrow> nat \<Rightarrow> 128 word" where
  "masked prefix bits width = (if prefix = 0 then 0 else drop_bit (width - prefix) bits)"

fun unmapped :: "ip \<Rightarrow> ip" where
  "unmapped (V4 a) = V4 a"
| "unmapped (V6 a) = (case v6_mapped a of Some b \<Rightarrow> V4 b | None \<Rightarrow> V6 a)"

definition cidr_contains :: "cidr \<Rightarrow> ip \<Rightarrow> bool" where
  "cidr_contains c i = (case (c_network c, unmapped i) of
      (V4 n, V4 a) \<Rightarrow> masked (c_prefix c) (ucast n) 32 = masked (c_prefix c) (ucast a) 32
    | (V6 n, V6 a) \<Rightarrow> masked (c_prefix c) n 128 = masked (c_prefix c) a 128
    | _ \<Rightarrow> False)"

definition PRIVATE_BLOCKS :: "string list" where
  "PRIVATE_BLOCKS = [''10.0.0.0/8'', ''172.16.0.0/12'', ''192.168.0.0/16'', ''100.64.0.0/10'', ''fc00::/7'']"

definition CLUSTER_SUFFIXES :: "string list" where
  "CLUSTER_SUFFIXES = [''.svc'', ''.cluster.local'', ''.internal'']"

section \<open>What is never dialled\<close>

record refusal =
  rf_this_machine :: bool
  rf_blocks :: "cidr list"
  rf_cluster_names :: bool

definition refusal_this_machine :: refusal where
  "refusal_this_machine = \<lparr>rf_this_machine = True, rf_blocks = [], rf_cluster_names = False\<rparr>"

definition refusal_nothing :: refusal where
  "refusal_nothing = \<lparr>rf_this_machine = False, rf_blocks = [], rf_cluster_names = False\<rparr>"

fun all_some :: "'a option list \<Rightarrow> 'a list option" where
  "all_some [] = Some []"
| "all_some (x # xs) = (case (x, all_some xs) of (Some a, Some as) \<Rightarrow> Some (a # as) | _ \<Rightarrow> None)"

definition refusal_cluster :: "(string \<Rightarrow> ip option) \<Rightarrow> string list \<Rightarrow> refusal option" where
  "refusal_cluster parse_ip extra =
     map_option (\<lambda>bs. \<lparr>rf_this_machine = True, rf_blocks = bs, rf_cluster_names = True\<rparr>)
       (all_some (map (cidr_from_str parse_ip) (PRIVATE_BLOCKS @ extra)))"

definition refusal_address :: "refusal \<Rightarrow> ip \<Rightarrow> string option" where
  "refusal_address rf i =
     (if rf_this_machine rf \<and> internal_address i
      then Some ''resolves to an address on this machine; not proxied''
      else if list_ex (\<lambda>b. cidr_contains b i) (rf_blocks rf)
      then Some ''resolves to a private or cluster address; not proxied'' else None)"

definition trim_dots :: "string \<Rightarrow> string" where
  "trim_dots h = rev (dropWhile (\<lambda>c. c = CHR ''.'') (rev h))"

definition refusal_name :: "(string \<Rightarrow> ip option) \<Rightarrow> refusal \<Rightarrow> string \<Rightarrow> string option" where
  "refusal_name parse_ip rf host0 =
     (if \<not> rf_cluster_names rf then None
      else let host = trim_dots host0 in
        case parse_ip host of
          Some i \<Rightarrow> refusal_address rf i
        | None \<Rightarrow>
            if list_ex (\<lambda>s. ends_with host s \<or> host = tl s) CLUSTER_SUFFIXES \<or> CHR ''.'' \<notin> set host
            then Some ''names a host inside the cluster; not proxied'' else None)"

definition lookup_name :: "(string \<Rightarrow> ip option) \<Rightarrow> refusal \<Rightarrow> string \<Rightarrow> string" where
  "lookup_name parse_ip rf host =
     (if rf_cluster_names rf \<and> parse_ip host = None \<and> \<not> ends_with host ''.'' then host @ ''.'' else host)"

text \<open>What a dial comes to: the address connected to, a refusal, or nothing reachable.\<close>

datatype dialled = Stream ip | DialRefused string | Unreachable

record net =
  n_parse_ip :: "string \<Rightarrow> ip option"
  n_resolve :: "string \<Rightarrow> nat \<Rightarrow> ip list option"
  n_answers :: "ip \<Rightarrow> nat \<Rightarrow> bool"

definition dial :: "net \<Rightarrow> refusal \<Rightarrow> string \<Rightarrow> nat \<Rightarrow> dialled" where
  "dial n rf host port =
     (case refusal_name (n_parse_ip n) rf host of
        Some why \<Rightarrow> DialRefused why
      | None \<Rightarrow>
          let resolved = (case n_resolve n (lookup_name (n_parse_ip n) rf host) port of Some as \<Rightarrow> as | None \<Rightarrow> []);
              addresses = filter (\<lambda>a. refusal_address rf a = None) resolved;
              refused = filter (\<lambda>a. refusal_address rf a \<noteq> None) resolved
          in if addresses = [] \<and> refused \<noteq> [] then DialRefused (the (refusal_address rf (last refused)))
             else (case find (\<lambda>a. n_answers n a port) addresses of
                     Some a \<Rightarrow> Stream a
                   | None \<Rightarrow> Unreachable))"

section \<open>The allowlist proxy\<close>

definition anchor :: "string \<Rightarrow> string" where
  "anchor host =
     (let s = (if starts_with host ''^'' then host else CHR ''^'' # host)
      in if ends_with s ''$'' then s else s @ ''$'')"

text \<open>An allowlist is its anchored patterns; \<open>is_match\<close> is the regular expressions' own.\<close>

type_synonym allowlist = "string list"

definition allowlist_new :: "(string \<Rightarrow> bool) \<Rightarrow> string list \<Rightarrow> allowlist option" where
  "allowlist_new compiles entries =
     (if list_all (\<lambda>e. compiles (anchor e)) entries then Some (map anchor entries) else None)"

definition allowlist_allows :: "(string \<Rightarrow> string \<Rightarrow> bool) \<Rightarrow> allowlist \<Rightarrow> string \<Rightarrow> bool" where
  "allowlist_allows is_match al host = list_ex (\<lambda>r. is_match r host) al"

definition rsplit_colon :: "string \<Rightarrow> (string \<times> string) option" where
  "rsplit_colon s =
     (if CHR '':'' \<in> set s
      then Some (rev (tl (dropWhile (\<lambda>c. c \<noteq> CHR '':'') (rev s))), rev (takeWhile (\<lambda>c. c \<noteq> CHR '':'') (rev s)))
      else None)"

definition is_bracket :: "char \<Rightarrow> bool" where
  "is_bracket c \<longleftrightarrow> c = CHR ''['' \<or> c = CHR '']''"

definition bare_host :: "string \<Rightarrow> string" where
  "bare_host h = lowercase (rev (dropWhile is_bracket (rev (dropWhile is_bracket h))))"

datatype proxy_decision = Connect string | Refused string

definition proxy_decide :: "(string \<Rightarrow> string \<Rightarrow> bool) \<Rightarrow> string \<Rightarrow> string option \<Rightarrow> allowlist \<Rightarrow> proxy_decision" where
  "proxy_decide is_match meth authority al =
     (if meth \<noteq> ''CONNECT'' then Refused ''only CONNECT is proxied''
      else case authority of
        None \<Rightarrow> Refused ''CONNECT needs host:port''
      | Some a \<Rightarrow>
          (case rsplit_colon a of
             None \<Rightarrow> Refused ''CONNECT needs host:port''
           | Some (host, port) \<Rightarrow>
               if port \<noteq> ''443'' then Refused ''only port 443 is proxied''
               else if \<not> allowlist_allows is_match al (bare_host host) then Refused ''host is not allowlisted''
               else Connect (bare_host host)))"

text \<open>The allowlist proxy's answer to a request, up to what is spliced.\<close>

datatype proxied = Spliced ip string | Forbidden string | BadGateway

definition handle_proxied :: "net \<Rightarrow> (string \<Rightarrow> string \<Rightarrow> bool) \<Rightarrow> allowlist \<Rightarrow> refusal \<Rightarrow> string \<Rightarrow> string option \<Rightarrow> proxied" where
  "handle_proxied n is_match al rf meth authority =
     (case proxy_decide is_match meth authority al of
        Refused why \<Rightarrow> Forbidden why
      | Connect host \<Rightarrow>
          (case dial n rf host 443 of
             Stream a \<Rightarrow> Spliced a host
           | DialRefused why \<Rightarrow> Forbidden why
           | Unreachable \<Rightarrow> BadGateway))"

section \<open>Grants\<close>

record attachment =
  at_host :: string
  at_credential :: string
  at_name :: string
  at_value :: string

record grant_spec =
  gs_client :: string
  gs_session_id :: "string option"
  gs_warming :: "string option"
  gs_hosts :: "string list"
  gs_patterns :: "string list"
  gs_plain_http :: bool
  gs_refusal :: string
  gs_upstreams :: "attachment list"

record grant =
  gr_client :: string
  gr_session_id :: "string option"
  gr_warming :: "string option"
  gr_hosts :: "string list"
  gr_patterns :: allowlist
  gr_plain_http :: bool
  gr_refusal :: string
  gr_upstreams :: "attachment list"
  gr_widened :: "(string \<times> int option) list"
  gr_refused :: "string list"

definition grant_allows :: "(string \<Rightarrow> string \<Rightarrow> bool) \<Rightarrow> int \<Rightarrow> grant \<Rightarrow> string \<Rightarrow> bool" where
  "grant_allows is_match now g host =
     (if host \<in> set (gr_hosts g) \<or> allowlist_allows is_match (gr_patterns g) host then True
      else case map_of (gr_widened g) host of
        Some None \<Rightarrow> True
      | Some (Some until) \<Rightarrow> now < until
      | None \<Rightarrow> False)"

definition grant_upstream :: "grant \<Rightarrow> string \<Rightarrow> attachment option" where
  "grant_upstream g host = find (\<lambda>a. at_host a = host) (gr_upstreams g)"

definition REMEMBERED_REFUSALS :: nat where
  "REMEMBERED_REFUSALS = 8"

definition remember_refusal :: "string \<Rightarrow> grant \<Rightarrow> grant" where
  "remember_refusal host g =
     (if length (gr_refused g) < REMEMBERED_REFUSALS \<and> host \<notin> set (gr_refused g)
      then g\<lparr>gr_refused := gr_refused g @ [host]\<rparr> else g)"

definition grant_widen :: "string \<Rightarrow> int option \<Rightarrow> grant \<Rightarrow> grant" where
  "grant_widen host until g =
     (if map_of (gr_widened g) host = Some None then g
      else g\<lparr>gr_widened := AList.update host until (gr_widened g)\<rparr>)"

text \<open>Every live grant, by its token; the token is drawn at random.\<close>

type_synonym grants = "(string \<times> grant) list"

definition grants_issue :: "(string \<Rightarrow> bool) \<Rightarrow> string \<Rightarrow> grant_spec \<Rightarrow> grants \<Rightarrow> grants option" where
  "grants_issue compiles token spec gs =
     map_option (\<lambda>ps. AList.update token
        \<lparr>gr_client = gs_client spec, gr_session_id = gs_session_id spec, gr_warming = gs_warming spec,
         gr_hosts = map lowercase (gs_hosts spec), gr_patterns = ps, gr_plain_http = gs_plain_http spec,
         gr_refusal = gs_refusal spec, gr_upstreams = gs_upstreams spec, gr_widened = [], gr_refused = []\<rparr> gs)
       (allowlist_new compiles (gs_patterns spec))"

definition grants_revoke :: "string \<Rightarrow> grants \<Rightarrow> grants" where
  "grants_revoke token gs = AList.delete token gs"

definition of_session :: "grants \<Rightarrow> string \<Rightarrow> grant list" where
  "of_session gs sid = filter (\<lambda>g. gr_session_id g = Some sid) (map snd gs)"

definition holds_session :: "grants \<Rightarrow> string \<Rightarrow> bool" where
  "holds_session gs sid \<longleftrightarrow> of_session gs sid \<noteq> []"

definition session_allows :: "(string \<Rightarrow> string \<Rightarrow> bool) \<Rightarrow> int \<Rightarrow> grants \<Rightarrow> string \<Rightarrow> string \<Rightarrow> bool" where
  "session_allows is_match now gs sid host = list_ex (\<lambda>g. grant_allows is_match now g (lowercase host)) (of_session gs sid)"

definition widen_session :: "string \<Rightarrow> string \<Rightarrow> int option \<Rightarrow> grants \<Rightarrow> grants \<times> bool" where
  "widen_session sid host until gs =
     (map (\<lambda>(t, g). (t, if gr_session_id g = Some sid then grant_widen (lowercase host) until g else g)) gs,
      of_session gs sid \<noteq> [])"

section \<open>The granted proxy\<close>

text \<open>What the proxy reads of a request.\<close>

record request =
  rq_method :: string
  rq_proxy_auth :: "string option"
  rq_scheme :: "string option"
  rq_authority :: "string option"
  rq_host :: "string option"
  rq_port :: "nat option"

definition presented_token :: "(string \<Rightarrow> string option) \<Rightarrow> request \<Rightarrow> string option" where
  "presented_token b64 rq =
     (case rq_proxy_auth rq of
        None \<Rightarrow> None
      | Some h \<Rightarrow>
          (case strip_prefix ''Basic '' h of
             None \<Rightarrow> None
           | Some enc \<Rightarrow>
               (case b64 (trim enc) of
                  None \<Rightarrow> None
                | Some bytes \<Rightarrow>
                    if utf8_valid bytes then map_option snd (split_once '':'' bytes) else None)))"

datatype reply =
    Challenge
  | Answer nat string
  | Tunnel ip string
  | Forward ip string nat
  | Credentialed ip string

definition answer_dial :: "(ip \<Rightarrow> reply) \<Rightarrow> dialled \<Rightarrow> reply" where
  "answer_dial k d = (case d of
      Stream a \<Rightarrow> k a
    | DialRefused why \<Rightarrow> Answer 403 why
    | Unreachable \<Rightarrow> Answer 502 ''upstream unreachable'')"

definition forward_upstream :: "net \<Rightarrow> refusal \<Rightarrow> request \<Rightarrow> attachment \<Rightarrow> reply" where
  "forward_upstream n rf rq att =
     (if rq_port rq \<noteq> None \<and> rq_port rq \<noteq> Some 80
      then Answer 403 ''a credentialed upstream is asked for as http://<host>/ and reached on 443''
      else answer_dial (\<lambda>a. Credentialed a (at_host att)) (dial n rf (at_host att) 443))"

definition granted_target :: "grant \<Rightarrow> request \<Rightarrow> (string \<times> nat) option" where
  "granted_target g rq =
     (if rq_method rq = ''CONNECT''
      then (case Option.bind (rq_authority rq) rsplit_colon of
              Some (host, port) \<Rightarrow> if port = ''443'' then Some (host, 443) else None
            | None \<Rightarrow> None)
      else if rq_scheme rq = Some ''http'' \<and> gr_plain_http g
      then map_option (\<lambda>h. (h, case rq_port rq of Some p \<Rightarrow> p | None \<Rightarrow> 80)) (rq_host rq)
      else None)"

text \<open>
  A request, up to what is sent or spliced: the answer and the grants, in which a refusal is
  remembered. \<open>observe\<close> is who is told of one, and may replace the sentence it gets.
\<close>

definition handle_granted :: "net \<Rightarrow> (string \<Rightarrow> string \<Rightarrow> bool) \<Rightarrow> (string \<Rightarrow> string option) \<Rightarrow> (grant \<Rightarrow> string \<Rightarrow> string option)
    \<Rightarrow> refusal \<Rightarrow> int \<Rightarrow> request \<Rightarrow> grants \<Rightarrow> reply \<times> grants" where
  "handle_granted n is_match b64 observe rf now rq gs =
     (case presented_token b64 rq of
        None \<Rightarrow> (Challenge, gs)
      | Some token \<Rightarrow>
          (case map_of gs token of
             None \<Rightarrow> (Challenge, gs)
           | Some g \<Rightarrow>
               let tunnel = (rq_method rq = ''CONNECT'');
                   attached = (if \<not> tunnel \<and> rq_scheme rq = Some ''http''
                               then Option.bind (rq_host rq) (\<lambda>h. grant_upstream g (bare_host h)) else None)
               in (case attached of
                    Some att \<Rightarrow> (forward_upstream n rf rq att, gs)
                  | None \<Rightarrow>
                      (case granted_target g rq of
                         None \<Rightarrow> (Answer 403 ''only CONNECT to port 443 is proxied'', gs)
                       | Some (h, port) \<Rightarrow>
                           let host = bare_host h in
                           (case refusal_name (n_parse_ip n) rf host of
                              Some why \<Rightarrow> (Answer 403 why, gs)
                            | None \<Rightarrow>
                                if \<not> grant_allows is_match now g host
                                then (Answer 403 (case observe g host of Some said \<Rightarrow> said | None \<Rightarrow> gr_refusal g),
                                      AList.update token (remember_refusal host g) gs)
                                else (answer_dial (\<lambda>a. if tunnel then Tunnel a host else Forward a host port)
                                        (dial n rf host port), gs))))))"

section \<open>Host names\<close>

definition valid_label :: "string \<Rightarrow> bool" where
  "valid_label l \<longleftrightarrow> l \<noteq> [] \<and> length l \<le> 63 \<and> hd l \<noteq> CHR ''-'' \<and> last l \<noteq> CHR ''-''
     \<and> list_all (\<lambda>b. is_lower b \<or> is_digit b \<or> b = CHR ''-'') l"

definition valid_host :: "string \<Rightarrow> bool" where
  "valid_host h \<longleftrightarrow> h \<noteq> [] \<and> length h \<le> 253 \<and> CHR ''.'' \<in> set h \<and> list_all valid_label (split_on (CHR ''.'') h)"

definition strip_scheme :: "string \<Rightarrow> string \<Rightarrow> string" where
  "strip_scheme scheme h = (case strip_prefix scheme h of Some r \<Rightarrow> r | None \<Rightarrow> h)"

datatype host_error = OtherPort string | NotAHost

definition normalize_host :: "string \<Rightarrow> (host_error, string) result" where
  "normalize_host raw =
     (let h1 = strip_scheme ''http://'' (strip_scheme ''https://'' (lowercase (trim raw)));
          h2 = (case split_once ''/'' h1 of Some (name, _) \<Rightarrow> name | None \<Rightarrow> h1)
      in case rsplit_colon h2 of
           Some (name, port) \<Rightarrow>
             if port \<noteq> ''443'' then Err (OtherPort port)
             else if valid_host name then Ok name else Err NotAHost
         | None \<Rightarrow> if valid_host h2 then Ok h2 else Err NotAHost)"

section \<open>Address blocks\<close>

text \<open>A block as the addresses it holds: \<open>2 ^ (width - prefix)\<close> of them from its base.\<close>

definition block_size :: "nat \<Rightarrow> nat \<Rightarrow> nat" where
  "block_size width prefix = 2 ^ (width - prefix)"

definition in_block :: "nat \<Rightarrow> nat \<Rightarrow> nat \<Rightarrow> nat \<Rightarrow> bool" where
  "in_block width prefix network a \<longleftrightarrow>
     (let base = network - network mod block_size width prefix
      in base \<le> a \<and> a < base + block_size width prefix)"

lemma in_block_div:
  "in_block width prefix network a \<longleftrightarrow> network div block_size width prefix = a div block_size width prefix"
proof -
  let ?s = "block_size width prefix"
  have s: "0 < ?s" by (simp add: block_size_def)
  have base: "network - network mod ?s = network div ?s * ?s" by (simp add: minus_mod_eq_div_mult)
  have "in_block width prefix network a \<longleftrightarrow> network div ?s * ?s \<le> a \<and> a < network div ?s * ?s + ?s"
    by (simp add: in_block_def base Let_def)
  also have "\<dots> \<longleftrightarrow> network div ?s \<le> a div ?s \<and> a div ?s < network div ?s + 1"
    using s by (simp add: less_eq_div_iff_mult_less_eq div_less_iff_less_mult algebra_simps)
  finally show ?thesis by auto
qed

lemma masked_eq:
  assumes "prefix \<le> width" and "width \<le> 128" and "unat x < 2 ^ width" and "unat y < 2 ^ width"
  shows "masked prefix x width = masked prefix y width \<longleftrightarrow> in_block width prefix (unat x) (unat y)"
proof (cases "prefix = 0")
  case True
  with assms(3,4) show ?thesis by (simp add: masked_def in_block_div block_size_def)
next
  case False
  have "unat (drop_bit (width - prefix) z) = unat z div 2 ^ (width - prefix)" for z :: "128 word"
    unfolding unat_drop_bit_eq by (rule drop_bit_eq_div)
  then show ?thesis using False by (simp add: masked_def in_block_div block_size_def word_unat_eq_iff)
qed

lemma unat_v4: "unat (ucast (a :: 32 word) :: 128 word) = unat a" "unat a < 2 ^ 32"
proof -
  show lt: "unat a < 2 ^ 32" using unsigned_less [of a, where 'a = nat] by simp
  show "unat (ucast a :: 128 word) = unat a"
    using lt by (simp add: unsigned_ucast_eq take_bit_nat_eq_self_iff)
qed

definition ip_number :: "ip \<Rightarrow> nat" where
  "ip_number i = (case i of V4 a \<Rightarrow> unat a | V6 a \<Rightarrow> unat a)"

lemma cidr_contains_block:
  assumes "c_prefix c \<le> ip_width (c_network c)"
  shows "cidr_contains c i \<longleftrightarrow> ip_width (unmapped i) = ip_width (c_network c)
    \<and> in_block (ip_width (c_network c)) (c_prefix c) (ip_number (c_network c)) (ip_number (unmapped i))"
proof -
  have v6: "unat a < 2 ^ 128" for a :: "128 word" using unsigned_less [of a, where 'a = nat] by simp
  have v4: "unat (ucast a :: 128 word) < 2 ^ 32" for a :: "32 word" using unat_v4 [of a] by simp
  show ?thesis
  proof (cases "c_network c"; cases "unmapped i")
    fix n a assume c: "c_network c = V4 n" "unmapped i = V4 a"
    then show ?thesis using assms masked_eq [of "c_prefix c" 32 "ucast n" "ucast a", OF _ _ v4 v4]
      by (simp add: cidr_contains_def ip_number_def unat_v4)
  next
    fix n a assume c: "c_network c = V6 n" "unmapped i = V6 a"
    then show ?thesis using assms masked_eq [of "c_prefix c" 128 n a, OF _ _ v6 v6]
      by (simp add: cidr_contains_def ip_number_def)
  qed (simp_all add: cidr_contains_def)
qed

section \<open>What is dialled\<close>

lemma find_SomeD: "find P xs = Some a \<Longrightarrow> a \<in> set xs \<and> P a"
  by (induction xs) (auto split: if_splits)

lemma dial_Stream:
  assumes "dial n rf host port = Stream a"
  shows "refusal_name (n_parse_ip n) rf host = None \<and> refusal_address rf a = None \<and> n_answers n a port
    \<and> (\<exists>as. n_resolve n (lookup_name (n_parse_ip n) rf host) port = Some as \<and> a \<in> set as)"
proof -
  let ?as = "case n_resolve n (lookup_name (n_parse_ip n) rf host) port of Some as \<Rightarrow> as | None \<Rightarrow> []"
  have nm: "refusal_name (n_parse_ip n) rf host = None"
    using assms by (auto simp: dial_def split: option.splits)
  have "find (\<lambda>a. n_answers n a port) (filter (\<lambda>a. refusal_address rf a = None) ?as) = Some a"
    using assms nm by (auto simp: dial_def Let_def split: if_splits option.splits)
  then have "a \<in> set (filter (\<lambda>a. refusal_address rf a = None) ?as) \<and> n_answers n a port" by (rule find_SomeD)
  with nm show ?thesis
    by (cases "n_resolve n (lookup_name (n_parse_ip n) rf host) port") auto
qed

lemma refusal_address_None:
  "refusal_address rf a = None \<longleftrightarrow>
     (rf_this_machine rf \<longrightarrow> \<not> internal_address a) \<and> (\<forall>b \<in> set (rf_blocks rf). \<not> cidr_contains b a)"
  by (auto simp: refusal_address_def list_ex_iff)

lemma answer_dial_eq:
  "answer_dial k d = r \<Longrightarrow> (\<And>c t. r \<noteq> Answer c t) \<Longrightarrow> \<exists>a. d = Stream a \<and> k a = r"
  by (cases d) (auto simp: answer_dial_def)

text \<open>An address reached on behalf of a grant, and the host it was reached for.\<close>

fun reached :: "reply \<Rightarrow> (ip \<times> string) option" where
  "reached (Tunnel a h) = Some (a, h)"
| "reached (Forward a h p) = Some (a, h)"
| "reached (Credentialed a h) = Some (a, h)"
| "reached _ = None"

lemma reached_dial:
  assumes "reached (answer_dial k d) = Some x"
  obtains a where "d = Stream a" and "reached (k a) = Some x"
  using assms by (cases d) (auto simp: answer_dial_def)

text \<open>The admitted ways, by what the request and its grant say.\<close>

definition admitted :: "(string \<Rightarrow> string \<Rightarrow> bool) \<Rightarrow> int \<Rightarrow> grant \<Rightarrow> request \<Rightarrow> string \<Rightarrow> bool" where
  "admitted is_match now g rq h \<longleftrightarrow>
     (rq_method rq = ''CONNECT'' \<and> grant_allows is_match now g h
        \<and> (\<exists>x. Option.bind (rq_authority rq) rsplit_colon = Some (x, ''443'') \<and> bare_host x = h))
   \<or> (rq_method rq \<noteq> ''CONNECT'' \<and> rq_scheme rq = Some ''http'' \<and> gr_plain_http g \<and> grant_allows is_match now g h
        \<and> (\<exists>x. rq_host rq = Some x \<and> bare_host x = h))
   \<or> (rq_method rq \<noteq> ''CONNECT'' \<and> rq_scheme rq = Some ''http'' \<and> (\<exists>att \<in> set (gr_upstreams g). at_host att = h)
        \<and> (\<exists>x. rq_host rq = Some x \<and> bare_host x = h))"

lemma grant_upstream_Some: "grant_upstream g h = Some att \<Longrightarrow> att \<in> set (gr_upstreams g) \<and> at_host att = h"
  by (auto simp: grant_upstream_def find_Some_iff)

lemma granted_target_Some:
  assumes "granted_target g rq = Some (h, port)" and "grant_allows is_match now g (bare_host h)"
  shows "admitted is_match now g rq (bare_host h)"
  using assms by (auto simp: granted_target_def admitted_def split: if_splits option.splits)

lemma handle_grantedE:
  assumes "handle_granted n is_match b64 observe rf now rq gs = (r, gs')" and "reached r = Some (a, h)"
  obtains token g port where "presented_token b64 rq = Some token" and "map_of gs token = Some g"
    and "admitted is_match now g rq h" and "dial n rf h port = Stream a" and "gs' = gs"
proof -
  from assms obtain token g where t: "presented_token b64 rq = Some token" "map_of gs token = Some g"
    by (auto simp: handle_granted_def split: option.splits)
  let ?att = "if rq_method rq \<noteq> ''CONNECT'' \<and> rq_scheme rq = Some ''http''
    then Option.bind (rq_host rq) (\<lambda>h. grant_upstream g (bare_host h)) else None"
  show ?thesis
  proof (cases ?att)
    case (Some att)
    then obtain x where x: "rq_method rq \<noteq> ''CONNECT''" "rq_scheme rq = Some ''http''" "rq_host rq = Some x"
      "grant_upstream g (bare_host x) = Some att" by (auto split: if_splits bind_splits)
    have r: "r = forward_upstream n rf rq att" "gs' = gs"
      using assms(1) t Some by (simp_all add: handle_granted_def Let_def)
    have "reached (answer_dial (\<lambda>a. Credentialed a (at_host att)) (dial n rf (at_host att) 443)) = Some (a, h)"
      using assms(2) r(1) by (auto simp: forward_upstream_def split: if_splits)
    then obtain a' where "dial n rf (at_host att) 443 = Stream a'" "reached (Credentialed a' (at_host att)) = Some (a, h)"
      by (rule reached_dial)
    with x grant_upstream_Some [OF x(4)] t r(2) that [of token g 443] show ?thesis by (auto simp: admitted_def)
  next
    case None
    obtain hh port where tg: "granted_target g rq = Some (hh, port)"
      using assms t None by (auto simp: handle_granted_def Let_def split: option.splits)
    let ?h = "bare_host hh"
    have nm: "refusal_name (n_parse_ip n) rf ?h = None"
      using assms t None tg by (auto simp: handle_granted_def Let_def split: option.splits)
    have al: "grant_allows is_match now g ?h"
    proof (rule ccontr)
      assume "\<not> ?thesis"
      with assms t None tg nm show False by (auto simp: handle_granted_def Let_def)
    qed
    have r: "r = answer_dial (\<lambda>a. if rq_method rq = ''CONNECT'' then Tunnel a ?h else Forward a ?h port) (dial n rf ?h port)"
      "gs' = gs" using assms(1) t None tg nm al by (simp_all add: handle_granted_def Let_def)
    from assms(2) [unfolded r(1)] obtain a' where d: "dial n rf ?h port = Stream a'"
      "reached (if rq_method rq = ''CONNECT'' then Tunnel a' ?h else Forward a' ?h port) = Some (a, h)"
      by (rule reached_dial)
    then have "a' = a" "?h = h" by (auto split: if_splits)
    with d(1) granted_target_Some [OF tg al] t r(2) that show ?thesis by blast
  qed
qed

section \<open>Opening a host\<close>

lemma map_of_widen_session:
  "map_of (fst (widen_session sid host until gs)) token = map_option
     (\<lambda>g. if gr_session_id g = Some sid then grant_widen (lowercase host) until g else g) (map_of gs token)"
  by (induction gs) (auto simp: widen_session_def)

lemma lowercase_idem [simp]: "lowercase (lowercase s) = lowercase s"
  by (simp add: lowercase_def)

text \<open>Opening a host reaches that host, until the moment given, and closes none that was open for longer.\<close>

lemma grant_widen_allows:
  assumes "\<And>u. map_of (gr_widened g) host = Some (Some u) \<Longrightarrow> until = None \<or> (\<exists>v. until = Some v \<and> u \<le> v)"
  shows "grant_allows is_match now (grant_widen host until g) h \<longleftrightarrow>
    grant_allows is_match now g h \<or> h = host \<and> (case until of None \<Rightarrow> True | Some u \<Rightarrow> now < u)"
proof (cases "map_of (gr_widened g) host")
  case None
  then show ?thesis by (auto simp: grant_widen_def grant_allows_def AList.update_conv' split: option.splits)
next
  case (Some w)
  show ?thesis
  proof (cases w)
    case None
    with Some show ?thesis by (auto simp: grant_widen_def grant_allows_def split: option.splits)
  next
    case w: (Some u)
    with Some assms have "until = None \<or> (\<exists>v. until = Some v \<and> u \<le> v)" by simp
    with Some w show ?thesis
      by (auto simp: grant_widen_def grant_allows_def AList.update_conv' split: option.splits)
  qed
qed

section \<open>Normal host names\<close>

lemma valid_label_chars: "valid_label l \<Longrightarrow> c \<in> set l \<Longrightarrow> is_lower c \<or> is_digit c \<or> c = CHR ''-''"
  by (auto simp: valid_label_def list_all_iff)

lemma split_on_chars: "c \<in> set s \<Longrightarrow> c = d \<or> (\<exists>p \<in> set (split_on d s). c \<in> set p)"
proof -
  assume "c \<in> set s"
  then have "c \<in> set (join_with [d] (split_on d s))" by (simp add: join_split)
  moreover have "c \<in> set (join_with [d] ps) \<Longrightarrow> c = d \<or> (\<exists>p \<in> set ps. c \<in> set p)" for ps
  proof (induction ps)
    case (Cons p ps)
    then show ?case by (cases "ps = []") (auto simp: join_with_Cons)
  qed simp
  ultimately show ?thesis by blast
qed

lemma valid_host_chars:
  assumes "valid_host h" and "c \<in> set h"
  shows "is_lower c \<or> is_digit c \<or> c = CHR ''-'' \<or> c = CHR ''.''"
  using split_on_chars [OF assms(2), of "CHR ''.''"] assms(1) valid_label_chars
  by (auto simp: valid_host_def list_all_iff)

lemma host_char:
  assumes "is_lower c \<or> is_digit c \<or> c = CHR ''-'' \<or> c = CHR ''.''"
  shows "lower c = c" and "c \<noteq> CHR ''/''" and "c \<noteq> CHR '':''" and "\<not> is_space_byte c"
proof -
  have ns: "\<not> is_space_byte c" if "is_lower c" using that
    by (auto simp: is_space_byte_def ws_seqs_def is_lower_def upt_rec)
  have "\<not> is_space_byte (CHR ''-'')" "\<not> is_space_byte (CHR ''.'')" by code_simp+
  with assms ns digit_not_space show "\<not> is_space_byte c" by blast
  show "lower c = c" "c \<noteq> CHR ''/''" "c \<noteq> CHR '':''"
    using assms by (auto simp: lower_def is_lower_def is_digit_def is_upper_def)
qed

lemma split_once_absent:
  assumes "c \<notin> set s"
  shows "split_once [c] s = None"
  using assms by (induction s) (subst split_once.simps, simp)+

lemma normalize_valid:
  assumes "valid_host h"
  shows "normalize_host h = Ok h"
proof -
  have ch: "lower c = c \<and> c \<noteq> CHR ''/'' \<and> c \<noteq> CHR '':'' \<and> \<not> is_space_byte c" if "c \<in> set h" for c
    using host_char [OF valid_host_chars [OF assms that]] by blast
  have ne: "h \<noteq> []" using assms by (simp add: valid_host_def)
  have t: "trim h = h" by (rule trim_id) (use ch ne in auto)
  have l: "lowercase h = h" unfolding lowercase_def using ch by (induction h) auto
  have s: "strip_prefix p h = None" if "CHR ''/'' \<in> set p" for p
    unfolding strip_prefix_None using that ch [of "CHR ''/''"] by auto
  have "CHR ''/'' \<notin> set h" "CHR '':'' \<notin> set h" using ch by blast+
  with t l s assms show ?thesis
    by (simp add: normalize_host_def strip_scheme_def split_once_absent rsplit_colon_def Let_def)
qed

lemma normalize_Ok_valid: "normalize_host raw = Ok h \<Longrightarrow> valid_host h"
  by (auto simp: normalize_host_def Let_def split: option.splits if_splits prod.splits)

section \<open>Properties\<close>

text \<open>
  C7: The proxy a sandbox reaches the network through connects only for a client that presents
  the token of a live grant, and only to a host that grant admits: by \<open>CONNECT\<close> on port 443 to a
  host it allows at that moment, by plain HTTP only where the grant permits it, or to the exact
  host of a credential it was given. Whatever the grant says and whatever a name resolves to,
  the address connected to is one the lookup returned that is not on this machine or its link
  (IPv4 addresses written as IPv6 included) and lies in none of the refused blocks.
\<close>

theorem proxy_stays_inside_the_grant:
  assumes "handle_granted n is_match b64 observe rf now rq gs = (r, gs')" and "reached r = Some (a, h)"
  shows "(\<exists>token g. presented_token b64 rq = Some token \<and> map_of gs token = Some g \<and> admitted is_match now g rq h)
    \<and> (rf_this_machine rf \<longrightarrow> \<not> internal_address a)
    \<and> (\<forall>c \<in> set (rf_blocks rf). c_prefix c \<le> ip_width (c_network c) \<longrightarrow> \<not> (ip_width (unmapped a) = ip_width (c_network c)
         \<and> in_block (ip_width (c_network c)) (c_prefix c) (ip_number (c_network c)) (ip_number (unmapped a))))
    \<and> (\<exists>port as. n_resolve n (lookup_name (n_parse_ip n) rf h) port = Some as \<and> a \<in> set as)"
  using assms
proof (cases rule: handle_grantedE)
  case (1 token g port)
  note d = dial_Stream [OF 1(4)]
  then have ra: "(rf_this_machine rf \<longrightarrow> \<not> internal_address a) \<and> (\<forall>b \<in> set (rf_blocks rf). \<not> cidr_contains b a)"
    by (simp add: refusal_address_None)
  then have "\<not> (ip_width (unmapped a) = ip_width (c_network c)
         \<and> in_block (ip_width (c_network c)) (c_prefix c) (ip_number (c_network c)) (ip_number (unmapped a)))"
    if "c \<in> set (rf_blocks rf)" "c_prefix c \<le> ip_width (c_network c)" for c
    using that cidr_contains_block by blast
  with 1 d ra show ?thesis by blast
qed

definition sample_grant :: grant where
  "sample_grant = \<lparr>gr_client = ''session'', gr_session_id = Some ''s'', gr_warming = None, gr_hosts = [''crates.io''],
     gr_patterns = [], gr_plain_http = False, gr_refusal = ''no'', gr_upstreams = [], gr_widened = [], gr_refused = []\<rparr>"

definition sample_net :: net where
  "sample_net = \<lparr>n_parse_ip = (\<lambda>_. None), n_resolve = (\<lambda>_ _. Some [V4 0x7f000001, V4 0x01020304]), n_answers = (\<lambda>_ _. True)\<rparr>"

definition sample_request :: request where
  "sample_request = \<lparr>rq_method = ''CONNECT'', rq_proxy_auth = Some ''Basic x'', rq_scheme = None,
     rq_authority = Some ''crates.io:443'', rq_host = None, rq_port = None\<rparr>"

lemma sample_handle:
  "handle_granted sample_net (\<lambda>_ _. False) (\<lambda>_. Some ''session:t'') (\<lambda>_ _. None) refusal_this_machine 0
     sample_request [(''t'', sample_grant)] = (Tunnel (V4 0x01020304) ''crates.io'', [(''t'', sample_grant)])"
proof -
  have t: "presented_token (\<lambda>_. Some ''session:t'') sample_request = Some ''t''" by code_simp
  have tg: "granted_target sample_grant sample_request = Some (''crates.io'', 443)" by code_simp
  have bh: "bare_host ''crates.io'' = ''crates.io''" by code_simp
  have i: "internal_address (V4 0x7f000001)" "\<not> internal_address (V4 0x01020304)"
    by (simp_all add: internal_address_def v4_internal_def v4_octet_def)
  have "dial sample_net refusal_this_machine ''crates.io'' 443 = Stream (V4 0x01020304)"
    using i by (simp add: dial_def sample_net_def refusal_this_machine_def refusal_name_def lookup_name_def refusal_address_def)
  then show ?thesis
    by (simp add: handle_granted_def t tg bh Let_def)
       (simp add: sample_request_def sample_grant_def refusal_name_def refusal_this_machine_def grant_allows_def answer_dial_def bh)
qed

theorem proxy_stays_inside_the_grant_witness:
  "reached (Tunnel (V4 0x01020304) ''crates.io'') = Some (V4 0x01020304, ''crates.io'')
   \<and> admitted (\<lambda>_ _. False) 0 sample_grant sample_request ''crates.io'' \<and> \<not> internal_address (V4 0x01020304)"
proof -
  have "reached (Tunnel (V4 0x01020304) ''crates.io'') = Some (V4 0x01020304, ''crates.io'')" by simp
  moreover have "presented_token (\<lambda>_. Some ''session:t'') sample_request = Some ''t''" by code_simp
  moreover have "rf_this_machine refusal_this_machine" by (simp add: refusal_this_machine_def)
  ultimately show ?thesis using proxy_stays_inside_the_grant [OF sample_handle] by auto
qed

text \<open>
  A host name put to the operator is normal: it has at least two labels of lower-case
  letters, digits and inner hyphens, at most 63 bytes each and 253 in all, no scheme, port or
  path, and normalizing it again changes nothing. So an ask, its answer and the grant it opens
  name the same host.
\<close>

theorem normal_host_is_stable:
  assumes "normalize_host raw = Ok h"
  shows "normalize_host h = Ok h \<and> lowercase h = h \<and> length h \<le> 253 \<and> CHR ''.'' \<in> set h
    \<and> (\<forall>c \<in> set h. is_lower c \<or> is_digit c \<or> c = CHR ''-'' \<or> c = CHR ''.'')
    \<and> (\<forall>l \<in> set (split_on (CHR ''.'') h). l \<noteq> [] \<and> length l \<le> 63 \<and> hd l \<noteq> CHR ''-'' \<and> last l \<noteq> CHR ''-'')"
proof -
  note v = normalize_Ok_valid [OF assms]
  have "\<forall>c \<in> set h. lower c = c" using host_char(1) valid_host_chars [OF v] by blast
  then have "lowercase h = h" unfolding lowercase_def by (induction h) auto
  with normalize_valid [OF v] v valid_host_chars [OF v] show ?thesis
    by (auto simp: valid_host_def valid_label_def list_all_iff)
qed

theorem normal_host_is_stable_witness:
  "normalize_host '' HTTPS://Crates.IO:443/x'' = Ok ''crates.io'' \<and> normalize_host ''crates.io'' = Ok ''crates.io''"
proof -
  have r: "normalize_host '' HTTPS://Crates.IO:443/x'' = Ok ''crates.io''" by code_simp
  from normal_host_is_stable [OF r] r show ?thesis by blast
qed

end
