(* ===== verification/Approvals.thy ===== *)
theory Approvals
  imports Egress Utf8_Text Json
begin

text \<open>
  Calls held for the operator: the approval rows of \<^verbatim>\<open>src/node/src/store/approvals.rs\<close>, asking for a
  host in \<^verbatim>\<open>src/node/src/mcp/egress.rs\<close>, and the operator's answer in \<^verbatim>\<open>src/node/src/mcp/mod.rs\<close>, from
  reading the row to the decision and what it sets in motion.

  The table is the list of its rows; an \<open>UPDATE\<close> changes the rows its condition holds for and
  returns how many. Each operation of the store holds its lock throughout, so it is one step;
  an answer is several, and other steps come between reading the row and deciding it.
  Arguments stand for the hash, for JSON text, for the check of an edit against a tool's
  schema, and for saving a host to a repository's settings.
\<close>

section \<open>Rows\<close>

record approval =
  a_id :: string
  a_channel :: string
  a_session_id :: "string option"
  a_node_id :: string
  a_lane :: "string option"
  a_tool :: string
  a_arguments :: string
  a_request_key :: string
  a_title :: string
  a_state :: string
  a_answer_option_id :: "string option"
  a_edited_arguments :: "string option"
  a_result :: "string option"
  a_reason :: "string option"
  a_operator_note :: "string option"
  a_claimed_ms :: "int option"
  a_created_ms :: int
  a_decided_ms :: "int option"
  a_finished_ms :: "int option"
  a_expires_ms :: int

definition PENDING :: string where "PENDING = ''pending''"
definition RUNNING :: string where "RUNNING = ''running''"
definition SUCCEEDED :: string where "SUCCEEDED = ''succeeded''"
definition FAILED :: string where "FAILED = ''failed''"
definition UNCERTAIN :: string where "UNCERTAIN = ''uncertain''"
definition REJECTED :: string where "REJECTED = ''rejected''"
definition CHANGES_REQUESTED :: string where "CHANGES_REQUESTED = ''changes_requested''"
definition EXPIRED :: string where "EXPIRED = ''expired''"
definition EGRESS_TOOL :: string where "EGRESS_TOOL = ''request_egress''"
definition PREPARE_EGRESS_TOOL :: string where "PREPARE_EGRESS_TOOL = ''prepare_egress''"
definition PLACE_TOOL :: string where "PLACE_TOOL = ''run_on_digitalocean''"
definition OPTION_REQUEST_CHANGES :: string where "OPTION_REQUEST_CHANGES = ''request_changes''"
definition OPTION_ALLOW_SESSION :: string where "OPTION_ALLOW_SESSION = ''allow_session''"
definition OPTION_ALLOW_REPO :: string where "OPTION_ALLOW_REPO = ''allow_repo''"
definition OPTION_ALLOW_ONCE :: string where "OPTION_ALLOW_ONCE = ''allow_once''"
definition OPTION_REJECT_ONCE :: string where "OPTION_REJECT_ONCE = ''reject_once''"

lemmas approval_names = PENDING_def RUNNING_def SUCCEEDED_def FAILED_def UNCERTAIN_def REJECTED_def
  CHANGES_REQUESTED_def EXPIRED_def EGRESS_TOOL_def PREPARE_EGRESS_TOOL_def PLACE_TOOL_def
  OPTION_REQUEST_CHANGES_def OPTION_ALLOW_SESSION_def OPTION_ALLOW_REPO_def OPTION_ALLOW_ONCE_def
  OPTION_REJECT_ONCE_def

definition is_settled :: "approval \<Rightarrow> bool" where
  "is_settled a \<longleftrightarrow> a_state a \<in> {SUCCEEDED, FAILED, UNCERTAIN, REJECTED, CHANGES_REQUESTED, EXPIRED}"

record approval_libs =
  hash_body :: "string \<Rightarrow> string"
  ap_parse :: "string \<Rightarrow> json option"
  ap_text :: "json \<Rightarrow> string"
  check_edit :: "string \<Rightarrow> json \<Rightarrow> json \<Rightarrow> (string \<times> string) list"
  save_session_host :: "string \<Rightarrow> string \<Rightarrow> (string, string) result"
  save_preparation_host :: "string \<Rightarrow> string \<Rightarrow> (string, string) result"

definition arguments_hash :: "approval_libs \<Rightarrow> string \<Rightarrow> string" where
  "arguments_hash l arguments =
     hash_body l (case ap_parse l arguments of Some v \<Rightarrow> ap_text l v | None \<Rightarrow> arguments)"

section \<open>The table\<close>

type_synonym table = "approval list"

definition update_where :: "(approval \<Rightarrow> bool) \<Rightarrow> (approval \<Rightarrow> approval) \<Rightarrow> table \<Rightarrow> table \<times> nat" where
  "update_where p f rows = (map (\<lambda>a. if p a then f a else a) rows, length (filter p rows))"

definition insert_approval :: "approval \<Rightarrow> table \<Rightarrow> table option" where
  "insert_approval a rows = (if a_id a \<in> set (map a_id rows) then None else Some (rows @ [a]))"

definition get_approval :: "table \<Rightarrow> string \<Rightarrow> approval option" where
  "get_approval rows i = find (\<lambda>a. a_id a = i) rows"

text \<open>\<open>ORDER BY created_ms ... LIMIT 1\<close>; of rows made in the same millisecond the earlier is taken.\<close>

fun first_by :: "(approval \<Rightarrow> approval \<Rightarrow> bool) \<Rightarrow> table \<Rightarrow> approval option" where
  "first_by better [] = None"
| "first_by better (a # rows) = (case first_by better rows of
      None \<Rightarrow> Some a | Some b \<Rightarrow> if better b a then Some b else Some a)"

definition pending_approval :: "table \<Rightarrow> int \<Rightarrow> string \<Rightarrow> string \<Rightarrow> approval option" where
  "pending_approval rows now channel key =
     first_by (\<lambda>b a. a_created_ms b < a_created_ms a)
       (filter (\<lambda>a. a_channel a = channel \<and> a_request_key a = key \<and> a_state a = PENDING \<and> a_expires_ms a > now) rows)"

definition latest_approval :: "table \<Rightarrow> string \<Rightarrow> string \<Rightarrow> approval option" where
  "latest_approval rows channel key =
     first_by (\<lambda>b a. a_created_ms b > a_created_ms a)
       (filter (\<lambda>a. a_channel a = channel \<and> a_request_key a = key) rows)"

definition approvals_of_session :: "table \<Rightarrow> string \<Rightarrow> table" where
  "approvals_of_session rows sid = sort_key a_created_ms (filter (\<lambda>a. a_session_id a = Some sid) rows)"

definition allowed_egress_asks :: "table \<Rightarrow> string \<Rightarrow> table" where
  "allowed_egress_asks rows sid = sort_key a_created_ms
     (filter (\<lambda>a. a_session_id a = Some sid \<and> a_tool a = EGRESS_TOOL \<and> a_state a = SUCCEEDED) rows)"

record decision =
  d_state :: string
  d_option_id :: string
  d_edited_arguments :: "string option"
  d_reason :: "string option"
  d_note :: "string option"
  d_bound_to :: "string option"

definition decidable :: "int \<Rightarrow> string \<Rightarrow> decision \<Rightarrow> approval \<Rightarrow> bool" where
  "decidable now i dc a \<longleftrightarrow> a_id a = i \<and> a_state a = PENDING \<and> a_expires_ms a > now
     \<and> (d_bound_to dc = None \<or> d_bound_to dc = Some (a_arguments a))"

definition decided_as :: "int \<Rightarrow> decision \<Rightarrow> approval \<Rightarrow> approval" where
  "decided_as now dc a = a\<lparr>a_state := d_state dc, a_answer_option_id := Some (d_option_id dc),
     a_edited_arguments := d_edited_arguments dc, a_reason := d_reason dc, a_operator_note := d_note dc,
     a_claimed_ms := None, a_decided_ms := Some now,
     a_finished_ms := (if d_state dc \<in> {REJECTED, CHANGES_REQUESTED} then Some now else None)\<rparr>"

definition decide_approval :: "int \<Rightarrow> string \<Rightarrow> decision \<Rightarrow> table \<Rightarrow> table \<times> bool" where
  "decide_approval now i dc rows =
     (let (rows', n) = update_where (decidable now i dc) (decided_as now dc) rows in (rows', n = 1))"

definition claim_approval :: "int \<Rightarrow> string \<Rightarrow> table \<Rightarrow> table" where
  "claim_approval now i rows =
     fst (update_where (\<lambda>a. a_id a = i \<and> a_state a = PENDING) (\<lambda>a. a\<lparr>a_claimed_ms := Some now\<rparr>) rows)"

definition release_approval :: "string \<Rightarrow> table \<Rightarrow> table" where
  "release_approval i rows =
     fst (update_where (\<lambda>a. a_id a = i \<and> a_claimed_ms a \<noteq> None) (\<lambda>a. a\<lparr>a_claimed_ms := None\<rparr>) rows)"

definition stale_approval_claims :: "int \<Rightarrow> int \<Rightarrow> table \<Rightarrow> string list" where
  "stale_approval_claims now older_than_ms rows =
     map a_id (filter (\<lambda>a. case a_claimed_ms a of Some c \<Rightarrow> c < now - older_than_ms | None \<Rightarrow> False) rows)"

definition finish_approval :: "int \<Rightarrow> string \<Rightarrow> string \<Rightarrow> string option \<Rightarrow> string option \<Rightarrow> table \<Rightarrow> table" where
  "finish_approval now i st result reason rows =
     fst (update_where (\<lambda>a. a_id a = i \<and> a_state a = RUNNING)
       (\<lambda>a. a\<lparr>a_state := st, a_result := result, a_reason := reason, a_finished_ms := Some now\<rparr>) rows)"

definition extend_pending_approvals :: "string \<Rightarrow> int \<Rightarrow> table \<Rightarrow> table \<times> nat" where
  "extend_pending_approvals node_id by_ms rows =
     update_where (\<lambda>a. a_state a = PENDING \<and> a_node_id a = node_id)
       (\<lambda>a. a\<lparr>a_expires_ms := a_expires_ms a + by_ms\<rparr>) rows"

definition expired_as :: "int \<Rightarrow> approval \<Rightarrow> approval" where
  "expired_as now a = a\<lparr>a_state := EXPIRED, a_reason := Some ''unanswered before it expired'', a_finished_ms := Some now\<rparr>"

fun expire_each :: "int \<Rightarrow> approval list \<Rightarrow> table \<Rightarrow> table \<times> approval list" where
  "expire_each now [] rows = (rows, [])"
| "expire_each now (a # due) rows =
     (let (rows1, n) = update_where (\<lambda>b. a_id b = a_id a \<and> a_state b = PENDING) (expired_as now) rows;
          (rows2, out) = expire_each now due rows1
      in (rows2, if n = 1 then expired_as now a # out else out))"

definition expire_due_approvals :: "int \<Rightarrow> table \<Rightarrow> table \<times> approval list" where
  "expire_due_approvals now rows =
     expire_each now (filter (\<lambda>a. a_state a = PENDING \<and> a_expires_ms a \<le> now) rows) rows"

section \<open>Asking for a host\<close>

definition unit_separator :: char where
  "unit_separator = char_of (31 :: nat)"

definition egress_request_key :: "approval_libs \<Rightarrow> string \<Rightarrow> string \<Rightarrow> string" where
  "egress_request_key l session_id host =
     hash_body l (EGRESS_TOOL @ [unit_separator] @ session_id @ [unit_separator] @ host)"

datatype asked = AskPending approval bool | Declined approval

definition first_eight :: "string \<Rightarrow> string" where
  "first_eight s = (if 8 \<le> length s \<and> (length s = 8 \<or> \<not> cont (s ! 8)) then take 8 s else s)"

definition ask_title :: "string \<Rightarrow> string \<Rightarrow> string option \<Rightarrow> string" where
  "ask_title host session_id why =
     ''reach '' @ host @ '' from session '' @ first_eight session_id
       @ (case why of None \<Rightarrow> [] | Some w \<Rightarrow> '' '' @ [char_of (194::nat), char_of (183::nat)] @ '' '' @ w)"

definition egress_ask :: "approval_libs \<Rightarrow> int \<Rightarrow> int \<Rightarrow> string \<Rightarrow> string \<Rightarrow> string \<Rightarrow> string \<Rightarrow> string
    \<Rightarrow> string option \<Rightarrow> bool \<Rightarrow> table \<Rightarrow> (string, asked \<times> table) result" where
  "egress_ask l now expiry_secs new_id node_id channel session_id host why0 again rows =
     (let key = egress_request_key l session_id host;
          why = (case why0 of None \<Rightarrow> None | Some w \<Rightarrow> if trim w = [] then None else Some (take_chars 500 (trim w)));
          row = \<lparr>a_id = new_id, a_channel = channel, a_session_id = Some session_id, a_node_id = node_id,
            a_lane = None, a_tool = EGRESS_TOOL,
            a_arguments = ap_text l (JObj ((''host'', JStr host) # (case why of None \<Rightarrow> [] | Some w \<Rightarrow> [(''why'', JStr w)]))),
            a_request_key = key, a_title = ask_title host session_id why, a_state = PENDING,
            a_answer_option_id = None, a_edited_arguments = None, a_result = None, a_reason = None,
            a_operator_note = None, a_claimed_ms = None, a_created_ms = now, a_decided_ms = None,
            a_finished_ms = None, a_expires_ms = now + max expiry_secs 1 * 1000\<rparr>;
          raise = (case insert_approval row rows of None \<Rightarrow> Err ''store'' | Some rows' \<Rightarrow> Ok (AskPending row True, rows'))
      in case latest_approval rows channel key of
           Some a \<Rightarrow>
             if a_state a = PENDING \<and> a_expires_ms a > now then Ok (AskPending a False, rows)
             else if a_state a = REJECTED \<and> \<not> again then Ok (Declined a, rows)
             else raise
         | None \<Rightarrow> raise)"

text \<open>A warm-up asks once per repository and host, on the channel its newest session ran in or the
  default one; a host once rejected is not asked for again.\<close>

definition warming_key :: "approval_libs \<Rightarrow> string \<Rightarrow> string \<Rightarrow> string" where
  "warming_key l repo host =
     hash_body l (PREPARE_EGRESS_TOOL @ [unit_separator] @ repo @ [unit_separator] @ host)"

definition ask_warming :: "approval_libs \<Rightarrow> int \<Rightarrow> int \<Rightarrow> string \<Rightarrow> string \<Rightarrow> string option \<Rightarrow> string \<Rightarrow> string
    \<Rightarrow> string \<Rightarrow> string \<Rightarrow> table \<Rightarrow> (string, (asked \<times> table) option) result" where
  "ask_warming l now expiry_secs new_id node_id newest_channel default_channel repo named host rows =
     (let channel = (case newest_channel of Some c \<Rightarrow> c | None \<Rightarrow> default_channel);
          key = warming_key l repo host;
          row = \<lparr>a_id = new_id, a_channel = channel, a_session_id = None, a_node_id = node_id,
            a_lane = None, a_tool = PREPARE_EGRESS_TOOL,
            a_arguments = ap_text l (JObj [(''host'', JStr host), (''repo'', JStr repo)]),
            a_request_key = key, a_title = ''reach '' @ host @ '' from '' @ named @ [CHR 0x27] @ ''s warm-up'',
            a_state = PENDING, a_answer_option_id = None, a_edited_arguments = None, a_result = None,
            a_reason = None, a_operator_note = None, a_claimed_ms = None, a_created_ms = now,
            a_decided_ms = None, a_finished_ms = None, a_expires_ms = now + max expiry_secs 1 * 1000\<rparr>;
          raise = (case insert_approval row rows of
                     None \<Rightarrow> Err ''store'' | Some rows' \<Rightarrow> Ok (Some (AskPending row True, rows')))
      in if trim channel = [] then Ok None
         else case latest_approval rows channel key of
           Some a \<Rightarrow>
             if a_state a = PENDING \<and> a_expires_ms a > now then Ok (Some (AskPending a False, rows))
             else if a_state a = REJECTED then Ok (Some (Declined a, rows))
             else raise
         | None \<Rightarrow> raise)"

text \<open>What an answer opens and until when, the clock counting seconds.\<close>

definition ONCE :: int where
  "ONCE = 10 * 60"

definition scope_of :: "int \<Rightarrow> string \<Rightarrow> (string \<times> int option) option" where
  "scope_of clock option_id =
     (if option_id = OPTION_ALLOW_ONCE then Some (''once'', Some (clock + ONCE))
      else if option_id = OPTION_ALLOW_SESSION then Some (''session'', None)
      else if option_id = OPTION_ALLOW_REPO then Some (''repository'', None) else None)"

text \<open>The host and the repository an ask names; an argument that is not JSON names none.\<close>

definition arg_text :: "json \<Rightarrow> string \<Rightarrow> string option" where
  "arg_text v k = Option.bind (jget v k) as_str"

datatype ask_error = AskNotJson | AskHost host_error | AskNoRepository

definition host_of :: "approval_libs \<Rightarrow> approval \<Rightarrow> (ask_error, string) result" where
  "host_of l a = (case ap_parse l (a_arguments a) of
      None \<Rightarrow> Err AskNotJson
    | Some v \<Rightarrow> (case normalize_host (case arg_text v ''host'' of Some h \<Rightarrow> h | None \<Rightarrow> []) of
                   Ok h \<Rightarrow> Ok h | Err e \<Rightarrow> Err (AskHost e)))"

definition repo_of :: "approval_libs \<Rightarrow> approval \<Rightarrow> (ask_error, string) result" where
  "repo_of l a = (case ap_parse l (a_arguments a) of
      None \<Rightarrow> Err AskNotJson
    | Some v \<Rightarrow> (case arg_text v ''repo'' of
                   Some r \<Rightarrow> if trim r = [] then Err AskNoRepository else Ok r
                 | None \<Rightarrow> Err AskNoRepository))"

section \<open>The operator's answer\<close>

record operator_answer =
  o_option_id :: string
  o_arguments :: "json option"
  o_reason :: "string option"
  o_notes :: "string option"
  o_arguments_hash :: "string option"

datatype answer_refusal =
    NoSuchApproval | NoLongerWaiting | HasExpired | NotTheOnesRead | NotJson | HostRefused host_error
  | NamesNoSession | NamesNoRepository | NotSaved string | RunOrNotRun | SavedOrRejected

datatype answer_error = AnswerRejected answer_refusal | Unfit "(string \<times> string) list"

text \<open>What follows a decision: nothing more, running the call, opening a host to the session, running the
  session elsewhere, or a host saved for a repository.\<close>

datatype action =
    Settle
  | RunCall json
  | OpenHost string string "string \<times> int option" "string option"
  | PlaceSession
  | SavedHost string string string

record planned =
  pl_id :: string
  pl_decision :: decision
  pl_action :: action

definition said :: "string option \<Rightarrow> string option" where
  "said t = (case t of None \<Rightarrow> None | Some s \<Rightarrow> if trim s = [] then None else Some (trim s))"

definition allow_decision :: "string \<Rightarrow> approval \<Rightarrow> string option \<Rightarrow> string option \<Rightarrow> decision" where
  "allow_decision option_id a edited notes =
     \<lparr>d_state = RUNNING, d_option_id = option_id, d_edited_arguments = edited, d_reason = None, d_note = notes,
      d_bound_to = Some (a_arguments a)\<rparr>"

definition takes_no_edit :: "approval \<Rightarrow> bool" where
  "takes_no_edit a \<longleftrightarrow> a_tool a \<in> {EGRESS_TOOL, PREPARE_EGRESS_TOOL, PLACE_TOOL}"

text \<open>\<open>allow_egress\<close> and \<open>save_warming_host\<close> up to the decision.\<close>

fun ask_refusal :: "ask_error \<Rightarrow> answer_refusal" where
  "ask_refusal AskNotJson = NotJson"
| "ask_refusal (AskHost e) = HostRefused e"
| "ask_refusal AskNoRepository = NamesNoRepository"

definition plan_egress :: "approval_libs \<Rightarrow> approval \<Rightarrow> string \<Rightarrow> string \<times> int option \<Rightarrow> string option
    \<Rightarrow> (answer_error, planned) result" where
  "plan_egress l a option_id opened notes =
     (case host_of l a of
        Err e \<Rightarrow> Err (AnswerRejected (ask_refusal e))
      | Ok host \<Rightarrow>
          (case a_session_id a of
             None \<Rightarrow> Err (AnswerRejected NamesNoSession)
           | Some sid \<Rightarrow>
               bind_result
                 (if fst opened = ''repository''
                  then (case save_session_host l sid host of Err e \<Rightarrow> Err (AnswerRejected (NotSaved e)) | Ok r \<Rightarrow> Ok (Some r))
                  else Ok None)
                 (\<lambda>saved. Ok \<lparr>pl_id = a_id a, pl_decision = allow_decision option_id a None notes,
                            pl_action = OpenHost sid host opened saved\<rparr>)))"

definition plan_warming :: "approval_libs \<Rightarrow> approval \<Rightarrow> string \<Rightarrow> string option \<Rightarrow> (answer_error, planned) result" where
  "plan_warming l a option_id notes =
     bind_result (case host_of l a of Err e \<Rightarrow> Err (AnswerRejected (ask_refusal e)) | Ok h \<Rightarrow> Ok h) (\<lambda>host.
     bind_result (case repo_of l a of Err e \<Rightarrow> Err (AnswerRejected (ask_refusal e)) | Ok r \<Rightarrow> Ok r) (\<lambda>repo.
       case save_preparation_host l repo host of
         Err e \<Rightarrow> Err (AnswerRejected (NotSaved e))
       | Ok saved \<Rightarrow> Ok \<lparr>pl_id = a_id a, pl_decision = allow_decision option_id a None notes,
                        pl_action = SavedHost repo host saved\<rparr>))"

definition plan_refusal :: "approval \<Rightarrow> string \<Rightarrow> string option \<Rightarrow> string option \<Rightarrow> (answer_error, planned) result" where
  "plan_refusal a option_id reason notes =
     (let settle = (\<lambda>st r n. \<lparr>pl_id = a_id a, pl_decision = \<lparr>d_state = st, d_option_id = option_id,
              d_edited_arguments = None, d_reason = Some r, d_note = n, d_bound_to = Some (a_arguments a)\<rparr>,
              pl_action = Settle\<rparr>)
      in if option_id = OPTION_REQUEST_CHANGES
         then (case (notes, reason) of
                 (Some n, _) \<Rightarrow> Ok (settle CHANGES_REQUESTED ''the operator asked for changes'' (Some n))
               | (None, Some r) \<Rightarrow> Ok (settle CHANGES_REQUESTED ''the operator asked for changes'' (Some r))
               | _ \<Rightarrow> Err (Unfit [(''notes'', ''say what should change'')]))
         else Ok (settle REJECTED (case reason of Some r \<Rightarrow> r | None \<Rightarrow> ''the operator did not allow this call'') notes))"

definition plan_call :: "approval_libs \<Rightarrow> approval \<Rightarrow> string \<Rightarrow> json option \<Rightarrow> string option \<Rightarrow> (answer_error, planned) result" where
  "plan_call l a option_id args notes =
     (case ap_parse l (a_arguments a) of
        None \<Rightarrow> Err (AnswerRejected NotJson)
      | Some original \<Rightarrow>
          let errors = (case args of None \<Rightarrow> [] | Some edited \<Rightarrow> check_edit l (a_tool a) original edited)
          in if errors \<noteq> [] then Err (Unfit errors)
             else Ok \<lparr>pl_id = a_id a,
                      pl_decision = allow_decision option_id a (map_option (ap_text l) args) notes,
                      pl_action = RunCall (case args of Some v \<Rightarrow> v | None \<Rightarrow> original)\<rparr>)"

text \<open>From the row as it was read to what is to be decided.\<close>

definition plan_answer :: "approval_libs \<Rightarrow> int \<Rightarrow> approval \<Rightarrow> operator_answer \<Rightarrow> (answer_error, planned) result" where
  "plan_answer l clock a ans =
     (let reason = said (o_reason ans); notes = said (o_notes ans); opt = o_option_id ans;
          asked = (case ap_parse l (a_arguments a) of Some v \<Rightarrow> v | None \<Rightarrow> JNull)
      in if takes_no_edit a \<and> opt \<noteq> OPTION_REQUEST_CHANGES \<and> opt \<noteq> OPTION_REJECT_ONCE
            \<and> (case o_arguments ans of Some edited \<Rightarrow> edited \<noteq> asked | None \<Rightarrow> False)
         then Err (Unfit [([], if a_tool a = PLACE_TOOL
             then ''this card runs the session where it asked and takes no edit; reject it instead''
             else ''this card opens the host it asked about and takes no edit; reject it instead'')])
         else if a_tool a = EGRESS_TOOL \<and> scope_of clock opt \<noteq> None
         then plan_egress l a opt (the (scope_of clock opt)) notes
         else if a_tool a = PLACE_TOOL \<and> opt = OPTION_REQUEST_CHANGES
         then Err (AnswerRejected RunOrNotRun)
         else if a_tool a = PLACE_TOOL \<and> opt = OPTION_ALLOW_ONCE
         then Ok \<lparr>pl_id = a_id a, pl_decision = allow_decision opt a None notes, pl_action = PlaceSession\<rparr>
         else if a_tool a = PREPARE_EGRESS_TOOL \<and> opt = OPTION_ALLOW_REPO
         then plan_warming l a opt notes
         else if a_tool a = PREPARE_EGRESS_TOOL \<and> (opt = OPTION_ALLOW_ONCE \<or> opt = OPTION_REQUEST_CHANGES)
         then Err (AnswerRejected SavedOrRejected)
         else if opt \<noteq> OPTION_ALLOW_ONCE then plan_refusal a opt reason notes
         else plan_call l a opt (o_arguments ans) notes)"

definition answer_read :: "approval_libs \<Rightarrow> int \<Rightarrow> int \<Rightarrow> table \<Rightarrow> string \<Rightarrow> operator_answer \<Rightarrow> (answer_error, planned) result" where
  "answer_read l now clock rows i ans =
     (case get_approval rows i of
        None \<Rightarrow> Err (AnswerRejected NoSuchApproval)
      | Some a \<Rightarrow>
          if a_state a \<noteq> PENDING then Err (AnswerRejected NoLongerWaiting)
          else if a_expires_ms a \<le> now then Err (AnswerRejected HasExpired)
          else if (case o_arguments_hash ans of None \<Rightarrow> False | Some h \<Rightarrow> trim h \<noteq> arguments_hash l (a_arguments a))
          then Err (AnswerRejected NotTheOnesRead)
          else plan_answer l clock a ans)"

section \<open>Deciding and what follows\<close>

text \<open>The calls handed over to run are kept in the order they were started.\<close>

record world =
  w_rows :: table
  w_grants :: grants
  w_plans :: "planned list"
  w_calls :: "(string \<times> string \<times> json) list"

definition opened_result :: "approval_libs \<Rightarrow> string \<Rightarrow> string \<times> int option \<Rightarrow> string option \<Rightarrow> string" where
  "opened_result l host opened saved = ap_text l (JObj
     [(''for_secs'', if snd opened = None then JNull else JInt ONCE), (''host'', JStr host),
      (''repository'', case saved of None \<Rightarrow> JNull | Some r \<Rightarrow> JStr r), (''scope'', JStr (fst opened))])"

definition not_opened :: "string \<Rightarrow> string option \<Rightarrow> string" where
  "not_opened host saved = (case saved of
      Some repo \<Rightarrow> ''the session holds no grant any more, so nothing was opened now; '' @ host
        @ '' was saved to '' @ repo @ [CHR 0x27] @ ''s egress for its next session''
    | None \<Rightarrow> ''the session holds no grant any more; nothing was opened'')"

definition follow :: "approval_libs \<Rightarrow> int \<Rightarrow> planned \<Rightarrow> world \<Rightarrow> world" where
  "follow l now p w =
     (case pl_action p of
        Settle \<Rightarrow> w
      | RunCall args \<Rightarrow>
          w\<lparr>w_calls := w_calls w @ [(pl_id p, (case get_approval (w_rows w) (pl_id p) of Some a \<Rightarrow> a_tool a | None \<Rightarrow> []), args)]\<rparr>
      | OpenHost sid host opened saved \<Rightarrow>
          (let (gs, widened) = widen_session sid host (snd opened) (w_grants w)
           in w\<lparr>w_grants := gs,
                w_rows := (if widened
                  then finish_approval now (pl_id p) SUCCEEDED (Some (opened_result l host opened saved)) None (w_rows w)
                  else finish_approval now (pl_id p) FAILED None (Some (not_opened host saved)) (w_rows w))\<rparr>)
      | PlaceSession \<Rightarrow>
          w\<lparr>w_rows := finish_approval now (pl_id p) SUCCEEDED
               (Some (ap_text l (JObj [(''placed'', JStr ''digitalocean'')]))) None (w_rows w)\<rparr>
      | SavedHost repo host saved \<Rightarrow>
          w\<lparr>w_rows := finish_approval now (pl_id p) SUCCEEDED
               (Some (ap_text l (JObj [(''host'', JStr host), (''repository'', JStr saved), (''scope'', JStr ''repository'')])))
               None (w_rows w)\<rparr>)"

definition answer_commit :: "approval_libs \<Rightarrow> int \<Rightarrow> int \<Rightarrow> planned \<Rightarrow> world \<Rightarrow> (answer_error, world) result" where
  "answer_commit l now now' p w =
     (let (rows, landed) = decide_approval now (pl_id p) (pl_decision p) (w_rows w)
      in if landed then Ok (follow l now' p (w\<lparr>w_rows := rows\<rparr>))
         else Err (AnswerRejected NoLongerWaiting))"

definition remote_outcome_unknown :: "string \<Rightarrow> bool" where
  "remote_outcome_unknown e = starts_with e ''mutation-outcome-unknown:''"

definition settle_approval :: "approval_libs \<Rightarrow> int \<Rightarrow> string \<Rightarrow> (string, json) result \<Rightarrow> table \<Rightarrow> table" where
  "settle_approval l now i outcome rows =
     (case outcome of
        Ok v \<Rightarrow> finish_approval now i SUCCEEDED (Some (ap_text l v)) None rows
      | Err e \<Rightarrow> finish_approval now i (if remote_outcome_unknown e then UNCERTAIN else FAILED) None (Some e) rows)"

section \<open>Every order of steps\<close>

text \<open>
  The node between two moments. An approval is inserted pending under a new id; an answer is
  read at one step and lands, if it does, at another; calls that were started settle in any
  order; rows are claimed, released, put off and expired in between.
\<close>

definition new_ask :: "approval \<Rightarrow> bool" where
  "new_ask a \<longleftrightarrow> a_state a = PENDING \<and> a_answer_option_id a = None \<and> a_edited_arguments a = None"

inductive step :: "approval_libs \<Rightarrow> world \<Rightarrow> world \<Rightarrow> bool" for l where
  inserted: "new_ask a \<Longrightarrow> insert_approval a (w_rows w) = Some rows \<Longrightarrow> step l w (w\<lparr>w_rows := rows\<rparr>)"
| answered: "answer_read l now clock (w_rows w) i ans = Ok p \<Longrightarrow> step l w (w\<lparr>w_plans := p # w_plans w\<rparr>)"
| landed: "p \<in> set (w_plans w) \<Longrightarrow> answer_commit l now now' p w = Ok w' \<Longrightarrow> step l w w'"
| settled: "step l w (w\<lparr>w_rows := settle_approval l now i outcome (w_rows w)\<rparr>)"
| claimed: "step l w (w\<lparr>w_rows := claim_approval now i (w_rows w)\<rparr>)"
| released: "step l w (w\<lparr>w_rows := release_approval i (w_rows w)\<rparr>)"
| extended: "step l w (w\<lparr>w_rows := fst (extend_pending_approvals n by_ms (w_rows w))\<rparr>)"
| expired: "step l w (w\<lparr>w_rows := fst (expire_due_approvals now (w_rows w))\<rparr>)"

definition idle :: world where
  "idle = \<lparr>w_rows = [], w_grants = [], w_plans = [], w_calls = []\<rparr>"

section \<open>One approval from ask to result\<close>

definition demo_libs :: approval_libs where
  "demo_libs = \<lparr>hash_body = (\<lambda>s. s), ap_parse = (\<lambda>s. if s = ''{}'' then Some (JObj []) else None),
     ap_text = (\<lambda>v. ''{}''), check_edit = (\<lambda>t original edited. []),
     save_session_host = (\<lambda>s h. Ok h), save_preparation_host = (\<lambda>r h. Ok h)\<rparr>"

definition demo_ask :: approval where
  "demo_ask = \<lparr>a_id = ''a1'', a_channel = ''c'', a_session_id = Some ''s'', a_node_id = ''n'', a_lane = None,
     a_tool = ''git_push'', a_arguments = ''{}'', a_request_key = ''k'', a_title = ''push'', a_state = PENDING,
     a_answer_option_id = None, a_edited_arguments = None, a_result = None, a_reason = None,
     a_operator_note = None, a_claimed_ms = None, a_created_ms = 0, a_decided_ms = None,
     a_finished_ms = None, a_expires_ms = 1000\<rparr>"

definition demo_plan :: planned where
  "demo_plan = \<lparr>pl_id = ''a1'', pl_decision = allow_decision OPTION_ALLOW_ONCE demo_ask None None, pl_action = RunCall (JObj [])\<rparr>"

definition demo_asked :: world where
  "demo_asked = idle\<lparr>w_rows := [demo_ask]\<rparr>"

definition demo_running :: world where
  "demo_running = \<lparr>w_rows = [decided_as 10 (pl_decision demo_plan) demo_ask], w_grants = [], w_plans = [demo_plan],
     w_calls = [(''a1'', ''git_push'', JObj [])]\<rparr>"

definition demo_done :: world where
  "demo_done = demo_running\<lparr>w_rows := settle_approval demo_libs 20 ''a1'' (Ok (JObj [])) (w_rows demo_running)\<rparr>"

lemma demo_reads:
  "answer_read demo_libs 5 0 [demo_ask] ''a1'' \<lparr>o_option_id = OPTION_ALLOW_ONCE, o_arguments = None, o_reason = None,
     o_notes = None, o_arguments_hash = Some ''{}''\<rparr> = Ok demo_plan"
  by code_simp

lemma demo_lands: "answer_commit demo_libs 10 10 demo_plan (demo_asked\<lparr>w_plans := [demo_plan]\<rparr>) = Ok demo_running"
  by code_simp

lemma demo_runs: "(step demo_libs)\<^sup>*\<^sup>* idle demo_running"
proof -
  have "step demo_libs idle (idle\<lparr>w_rows := [demo_ask]\<rparr>)"
    by (rule step.inserted [of demo_ask]) (simp_all add: new_ask_def demo_ask_def insert_approval_def idle_def)
  moreover have "step demo_libs demo_asked (demo_asked\<lparr>w_plans := demo_plan # w_plans demo_asked\<rparr>)"
    using demo_reads by (intro step.answered) (simp add: demo_asked_def idle_def)
  moreover have "step demo_libs (demo_asked\<lparr>w_plans := [demo_plan]\<rparr>) demo_running"
    using demo_lands by (intro step.landed) simp_all
  ultimately show ?thesis by (simp add: demo_asked_def idle_def converse_rtranclp_into_rtranclp)
qed

lemma demo_finishes: "(step demo_libs)\<^sup>*\<^sup>* demo_running demo_done"
  using step.settled [of demo_libs demo_running] unfolding demo_done_def by blast

lemma demo_settles: "\<exists>a. get_approval (w_rows demo_done) ''a1'' = Some a \<and> is_settled a"
proof -
  have "get_approval (w_rows demo_done) ''a1'' \<noteq> None \<and> is_settled (the (get_approval (w_rows demo_done) ''a1''))"
    by code_simp
  thus ?thesis by auto
qed

section \<open>What no step takes back\<close>

text \<open>
  How a row may change: it keeps its id, tool and arguments; once it is decided its answer, the edit, the
  time it was decided and the deadline stay; once it is settled only a claim left on it is cleared.
\<close>

definition row_le :: "approval \<Rightarrow> approval \<Rightarrow> bool" where
  "row_le a b \<longleftrightarrow> a_id b = a_id a \<and> a_tool b = a_tool a \<and> a_arguments b = a_arguments a
     \<and> (a_state a \<noteq> PENDING \<longrightarrow> a_state b \<noteq> PENDING \<and> a_answer_option_id b = a_answer_option_id a
          \<and> a_edited_arguments b = a_edited_arguments a \<and> a_decided_ms b = a_decided_ms a
          \<and> a_expires_ms b = a_expires_ms a)
     \<and> (is_settled a \<longrightarrow> b = a \<or> b = a\<lparr>a_claimed_ms := None\<rparr>)"

definition table_le :: "table \<Rightarrow> table \<Rightarrow> bool" where
  "table_le rows rows' \<longleftrightarrow> (\<exists>f. rows' = map f rows \<and> (\<forall>a. row_le a (f a)))"

lemma row_le_refl: "row_le a a"
  by (simp add: row_le_def)

lemma row_le_trans: "row_le a b \<Longrightarrow> row_le b c \<Longrightarrow> row_le a c"
proof -
  assume ab: "row_le a b" and bc: "row_le b c"
  have "c = a \<or> c = a\<lparr>a_claimed_ms := None\<rparr>" if settled: "is_settled a"
  proof -
    have b: "b = a \<or> b = a\<lparr>a_claimed_ms := None\<rparr>" using ab settled by (simp add: row_le_def)
    hence "is_settled b" using settled by (auto simp: is_settled_def)
    hence "c = b \<or> c = b\<lparr>a_claimed_ms := None\<rparr>" using bc by (simp add: row_le_def)
    thus ?thesis using b by auto
  qed
  thus ?thesis using ab bc unfolding row_le_def by (elim conjE, intro conjI impI) simp_all
qed

lemma table_le_refl: "table_le rows rows"
  unfolding table_le_def by (rule exI [of _ id]) (simp add: row_le_refl)

lemma table_le_trans: "table_le r1 r2 \<Longrightarrow> table_le r2 r3 \<Longrightarrow> table_le r1 r3"
proof -
  assume "table_le r1 r2" and "table_le r2 r3"
  then obtain f g where "r2 = map f r1" "r3 = map g r2" and fg: "\<And>a. row_le a (f a)" "\<And>a. row_le a (g a)"
    unfolding table_le_def by blast
  moreover have "row_le a ((g \<circ> f) a)" for a using row_le_trans [OF fg(1) fg(2)] by simp
  ultimately show ?thesis unfolding table_le_def by (intro exI [of _ "g \<circ> f"]) simp
qed

lemma update_where_le: "(\<And>a. p a \<Longrightarrow> row_le a (f a)) \<Longrightarrow> table_le rows (fst (update_where p f rows))"
  unfolding table_le_def update_where_def
  by (rule exI [of _ "\<lambda>a. if p a then f a else a"]) (simp add: row_le_refl)

lemma pending_not_settled: "a_state a = PENDING \<Longrightarrow> \<not> is_settled a"
  by (simp add: is_settled_def approval_names)

lemma running_not_settled: "a_state a = RUNNING \<Longrightarrow> \<not> is_settled a"
  by (simp add: is_settled_def approval_names)

lemma decide_le: "table_le rows (fst (decide_approval now i dc rows))"
  using update_where_le [of "decidable now i dc" "decided_as now dc" rows]
  by (simp add: decide_approval_def case_prod_beta Let_def row_le_def decidable_def decided_as_def pending_not_settled)

lemma finish_le: "st \<noteq> PENDING \<Longrightarrow> table_le rows (finish_approval now i st result reason rows)"
  unfolding finish_approval_def by (rule update_where_le) (simp add: row_le_def running_not_settled)

lemma settle_le: "table_le rows (settle_approval l now i outcome rows)"
  unfolding settle_approval_def by (cases outcome) (simp_all add: finish_le approval_names)

lemma claim_le: "table_le rows (claim_approval now i rows)"
  unfolding claim_approval_def by (rule update_where_le) (simp add: row_le_def pending_not_settled)

lemma release_le: "table_le rows (release_approval i rows)"
  unfolding release_approval_def by (rule update_where_le) (simp add: row_le_def)

lemma extend_le: "table_le rows (fst (extend_pending_approvals n by_ms rows))"
  unfolding extend_pending_approvals_def by (rule update_where_le) (simp add: row_le_def pending_not_settled)

lemma expire_each_le: "table_le rows (fst (expire_each now due rows))"
proof (induction due arbitrary: rows)
  case Nil thus ?case by (simp add: table_le_refl)
next
  case (Cons a due)
  let ?u = "update_where (\<lambda>b. a_id b = a_id a \<and> a_state b = PENDING) (expired_as now) rows"
  have "table_le rows (fst ?u)"
    by (rule update_where_le) (simp add: row_le_def pending_not_settled expired_as_def)
  moreover have "fst (expire_each now (a # due) rows) = fst (expire_each now due (fst ?u))"
    by (simp add: case_prod_beta Let_def)
  ultimately show ?case using table_le_trans Cons.IH by simp
qed

lemma follow_le: "table_le (w_rows w) (w_rows (follow l now p w))"
proof (cases "pl_action p")
  case (OpenHost sid host opened saved)
  have "SUCCEEDED \<noteq> PENDING" "FAILED \<noteq> PENDING" by (simp_all add: approval_names)
  thus ?thesis using OpenHost by (simp add: follow_def case_prod_beta Let_def finish_le)
qed (simp_all add: follow_def table_le_refl finish_le approval_names)

lemma commit_Ok:
  assumes "answer_commit l now now' p w = Ok w'"
  shows "snd (decide_approval now (pl_id p) (pl_decision p) (w_rows w))"
    and "w' = follow l now' p (w\<lparr>w_rows := fst (decide_approval now (pl_id p) (pl_decision p) (w_rows w))\<rparr>)"
  using assms by (auto simp: answer_commit_def case_prod_beta Let_def split: if_splits)

lemma commit_le: "answer_commit l now now' p w = Ok w' \<Longrightarrow> table_le (w_rows w) (w_rows w')"
  using commit_Ok(2) [of l now now' p w w'] decide_le [of "w_rows w" now "pl_id p" "pl_decision p"]
    follow_le [of "w\<lparr>w_rows := fst (decide_approval now (pl_id p) (pl_decision p) (w_rows w))\<rparr>" l now' p]
  by (auto intro: table_le_trans)

lemma step_rows:
  "step l w w' \<Longrightarrow> \<exists>rows. table_le (w_rows w) rows \<and> (w_rows w' = rows \<or>
     (\<exists>a. w_rows w' = rows @ [a] \<and> new_ask a \<and> a_id a \<notin> set (map a_id rows)))"
proof (induction rule: step.induct)
  case (inserted a w rows)
  thus ?case using table_le_refl [of "w_rows w"] by (auto simp: insert_approval_def split: if_splits)
next
  case (landed p w now now' w')
  thus ?case using commit_le by blast
qed (auto intro: table_le_refl settle_le claim_le release_le extend_le expire_each_le simp: expire_due_approvals_def)

lemma get_approval_append: "get_approval rows i = Some a \<Longrightarrow> get_approval (rows @ new) i = Some a"
  unfolding get_approval_def by (induction rows) auto

lemma get_approval_map:
  assumes "get_approval rows i = Some a" and "\<And>a. row_le a (f a)"
  shows "get_approval (map f rows) i = Some (f a)"
proof -
  have "a_id (f b) = a_id b" for b using assms(2) by (simp add: row_le_def)
  thus ?thesis using assms(1) unfolding get_approval_def by (induction rows) (auto split: if_splits)
qed

lemma get_approval_le:
  assumes "get_approval rows i = Some a" and "table_le rows rows'"
  obtains b where "get_approval rows' i = Some b" and "row_le a b"
proof -
  obtain f where "rows' = map f rows" and f: "\<And>a. row_le a (f a)" using assms(2) by (auto simp: table_le_def)
  thus thesis using that [of "f a"] get_approval_map [OF assms(1) f] by simp
qed

lemma step_keeps_row:
  assumes "step l w w'" and "get_approval (w_rows w) i = Some a"
  shows "\<exists>b. get_approval (w_rows w') i = Some b \<and> row_le a b"
proof -
  obtain rows where le: "table_le (w_rows w) rows" and "w_rows w' = rows \<or> (\<exists>a. w_rows w' = rows @ [a])"
    using step_rows [OF assms(1)] by blast
  moreover obtain b where "get_approval rows i = Some b" "row_le a b" using get_approval_le [OF assms(2) le] .
  ultimately show ?thesis using get_approval_append [of rows i b] by auto
qed

interpretation rows: kept_entries "step l" "\<lambda>w. get_approval (w_rows w)" row_le for l
  by unfold_locales (rule row_le_refl, erule row_le_trans, assumption, rule step_keeps_row)

text \<open>
  C19: A settled approval is final. Once an approval has succeeded, failed, been refused, sent back or
  expired, then whatever is asked, answered, run, claimed, put off or expired afterwards, in any order,
  the row stays exactly as it is, or exactly as it is but with the claim that was left on it cleared: no
  later step changes its state, answer, arguments, result, reason or a time on it, and none claims it again.
\<close>

theorem settled_approval_is_final:
  assumes "get_approval (w_rows w) i = Some a" and "is_settled a" and "(step l)\<^sup>*\<^sup>* w w'"
  shows "get_approval (w_rows w') i = Some a \<or> get_approval (w_rows w') i = Some (a\<lparr>a_claimed_ms := None\<rparr>)"
proof -
  obtain b where "get_approval (w_rows w') i = Some b" "row_le a b" using rows.steps_keep [OF assms(3,1)] by blast
  thus ?thesis using assms(2) by (auto simp: row_le_def)
qed

theorem settled_approval_is_final_witness:
  "\<exists>a w'. get_approval (w_rows demo_done) ''a1'' = Some a \<and> is_settled a
     \<and> w' = demo_done\<lparr>w_rows := claim_approval 30 ''a1'' (w_rows demo_done)\<rparr>
     \<and> (get_approval (w_rows w') ''a1'' = Some a \<or> get_approval (w_rows w') ''a1'' = Some (a\<lparr>a_claimed_ms := None\<rparr>))"
proof -
  obtain a where a: "get_approval (w_rows demo_done) ''a1'' = Some a" "is_settled a"
    using demo_settles by blast
  have "(step demo_libs)\<^sup>*\<^sup>* demo_done (demo_done\<lparr>w_rows := claim_approval 30 ''a1'' (w_rows demo_done)\<rparr>)"
    by (rule r_into_rtranclp) (rule step.claimed)
  from settled_approval_is_final [OF a this] show ?thesis using a by blast
qed

section \<open>What an approved call runs\<close>

text \<open>The arguments a decision lets run: those that were asked, or an edit the tool's schema lets through.\<close>

definition approved_args :: "approval_libs \<Rightarrow> string \<Rightarrow> string \<Rightarrow> string option \<Rightarrow> json \<Rightarrow> bool" where
  "approved_args l tool arguments edited args \<longleftrightarrow>
     (\<exists>original. ap_parse l arguments = Some original
        \<and> (edited = None \<and> args = original
           \<or> edited = Some (ap_text l args) \<and> check_edit l tool original args = []))"

definition plan_fits :: "approval_libs \<Rightarrow> table \<Rightarrow> planned \<Rightarrow> bool" where
  "plan_fits l rows p \<longleftrightarrow> (\<forall>args. pl_action p = RunCall args \<longrightarrow>
     (\<exists>a b. get_approval rows (pl_id p) = Some a \<and> \<not> takes_no_edit a \<and> d_bound_to (pl_decision p) = Some b
        \<and> d_state (pl_decision p) = RUNNING \<and> d_option_id (pl_decision p) = OPTION_ALLOW_ONCE
        \<and> approved_args l (a_tool a) b (d_edited_arguments (pl_decision p)) args))"

definition call_fits :: "approval_libs \<Rightarrow> table \<Rightarrow> string \<times> string \<times> json \<Rightarrow> bool" where
  "call_fits l rows = (\<lambda>(i, tool, args). \<exists>a d. get_approval rows i = Some a \<and> a_tool a = tool
     \<and> \<not> takes_no_edit a \<and> a_state a \<noteq> PENDING \<and> a_answer_option_id a = Some OPTION_ALLOW_ONCE
     \<and> approved_args l tool (a_arguments a) (a_edited_arguments a) args
     \<and> a_decided_ms a = Some d \<and> d < a_expires_ms a)"

definition world_ok :: "approval_libs \<Rightarrow> world \<Rightarrow> bool" where
  "world_ok l w \<longleftrightarrow> distinct (map a_id (w_rows w)) \<and> (\<forall>p\<in>set (w_plans w). plan_fits l (w_rows w) p)
     \<and> (\<forall>c\<in>set (w_calls w). call_fits l (w_rows w) c) \<and> distinct (map fst (w_calls w))"

lemma plan_fits_keep:
  assumes "plan_fits l rows p"
    and "\<And>i a. get_approval rows i = Some a \<Longrightarrow> \<exists>b. get_approval rows' i = Some b \<and> row_le a b"
  shows "plan_fits l rows' p"
  unfolding plan_fits_def
proof (intro allI impI)
  fix args assume "pl_action p = RunCall args"
  then obtain a b where a: "get_approval rows (pl_id p) = Some a" and fits: "\<not> takes_no_edit a"
      "d_bound_to (pl_decision p) = Some b" "d_state (pl_decision p) = RUNNING"
      "d_option_id (pl_decision p) = OPTION_ALLOW_ONCE"
      "approved_args l (a_tool a) b (d_edited_arguments (pl_decision p)) args"
    using assms(1) unfolding plan_fits_def by blast
  obtain a' where "get_approval rows' (pl_id p) = Some a'" and "a_tool a' = a_tool a"
    using assms(2) [OF a] by (auto simp: row_le_def)
  with fits show "\<exists>a b. get_approval rows' (pl_id p) = Some a \<and> \<not> takes_no_edit a
        \<and> d_bound_to (pl_decision p) = Some b \<and> d_state (pl_decision p) = RUNNING
        \<and> d_option_id (pl_decision p) = OPTION_ALLOW_ONCE
        \<and> approved_args l (a_tool a) b (d_edited_arguments (pl_decision p)) args"
    by (simp add: takes_no_edit_def)
qed

lemma call_fits_keep:
  assumes "call_fits l rows c"
    and "\<And>i a. get_approval rows i = Some a \<Longrightarrow> \<exists>b. get_approval rows' i = Some b \<and> row_le a b"
  shows "call_fits l rows' c"
proof -
  obtain i tool args where c: "c = (i, tool, args)" by (cases c) auto
  obtain a d where a: "get_approval rows i = Some a" and fits: "a_tool a = tool" "\<not> takes_no_edit a"
      "a_state a \<noteq> PENDING" "a_answer_option_id a = Some OPTION_ALLOW_ONCE"
      "approved_args l tool (a_arguments a) (a_edited_arguments a) args" "a_decided_ms a = Some d" "d < a_expires_ms a"
    using assms(1) unfolding call_fits_def c by auto
  obtain b where "get_approval rows' i = Some b" and "row_le a b" using assms(2) [OF a] by blast
  with fits show ?thesis unfolding call_fits_def c by (simp add: row_le_def takes_no_edit_def)
qed

lemma plan_runs_call:
  assumes "plan_answer l clock a ans = Ok p" and "pl_action p = RunCall args"
  shows "\<not> takes_no_edit a" and "o_option_id ans = OPTION_ALLOW_ONCE"
    and "plan_call l a (o_option_id ans) (o_arguments ans) (said (o_notes ans)) = Ok p"
proof -
  have egress: "plan_egress l a opt opened nt \<noteq> Ok p" for opt opened nt
    using assms(2) unfolding plan_egress_def
    by (auto split: sum.splits option.splits if_splits)
  have warming: "plan_warming l a opt nt \<noteq> Ok p" for opt nt
    using assms(2) unfolding plan_warming_def
    by (auto split: sum.splits)
  have refusal: "plan_refusal a opt reason nt \<noteq> Ok p" for opt reason nt
    using assms(2) unfolding plan_refusal_def by (auto simp: Let_def split: option.splits if_splits)
  have names: "EGRESS_TOOL \<noteq> PLACE_TOOL" "EGRESS_TOOL \<noteq> PREPARE_EGRESS_TOOL" "PLACE_TOOL \<noteq> PREPARE_EGRESS_TOOL"
    "scope_of clock OPTION_ALLOW_ONCE \<noteq> None"
    by (simp_all add: approval_names scope_of_def)
  have none: "plan_answer l clock a ans \<noteq> Ok p" if "takes_no_edit a \<or> o_option_id ans \<noteq> OPTION_ALLOW_ONCE"
    using that names assms(2) egress warming refusal unfolding plan_answer_def Let_def takes_no_edit_def
    by (elim disjE) (simp_all, auto)
  show edit: "\<not> takes_no_edit a" and opt: "o_option_id ans = OPTION_ALLOW_ONCE"
    using none assms(1) by blast+
  show "plan_call l a (o_option_id ans) (o_arguments ans) (said (o_notes ans)) = Ok p"
    using assms(1) edit opt unfolding plan_answer_def Let_def takes_no_edit_def by simp
qed

lemma read_plan_fits:
  assumes "answer_read l now clock rows i ans = Ok p"
  shows "plan_fits l rows p"
  unfolding plan_fits_def
proof (intro allI impI)
  fix args assume run: "pl_action p = RunCall args"
  obtain a where a: "get_approval rows i = Some a" and plan: "plan_answer l clock a ans = Ok p"
    using assms unfolding answer_read_def by (auto split: option.splits if_splits)
  have i: "a_id a = i" using a unfolding get_approval_def by (auto simp: find_Some_iff)
  have edit: "\<not> takes_no_edit a" and opt: "o_option_id ans = OPTION_ALLOW_ONCE"
    and call: "plan_call l a (o_option_id ans) (o_arguments ans) (said (o_notes ans)) = Ok p"
    using plan_runs_call [OF plan run] by simp_all
  obtain original where orig: "ap_parse l (a_arguments a) = Some original"
    and ok: "o_arguments ans = None \<or> check_edit l (a_tool a) original (the (o_arguments ans)) = []"
    and p: "p = \<lparr>pl_id = a_id a, pl_decision = allow_decision (o_option_id ans) a
                  (map_option (ap_text l) (o_arguments ans)) (said (o_notes ans)),
                pl_action = RunCall (case o_arguments ans of Some v \<Rightarrow> v | None \<Rightarrow> original)\<rparr>"
    using call unfolding plan_call_def by (auto simp: Let_def split: option.splits if_splits)
  have "approved_args l (a_tool a) (a_arguments a) (d_edited_arguments (pl_decision p)) args"
    unfolding approved_args_def using orig ok p run
    by (cases "o_arguments ans") (auto simp: allow_decision_def)
  thus "\<exists>a b. get_approval rows (pl_id p) = Some a \<and> \<not> takes_no_edit a
        \<and> d_bound_to (pl_decision p) = Some b \<and> d_state (pl_decision p) = RUNNING
        \<and> d_option_id (pl_decision p) = OPTION_ALLOW_ONCE
        \<and> approved_args l (a_tool a) b (d_edited_arguments (pl_decision p)) args"
    using a i edit opt by (simp add: p allow_decision_def)
qed

lemma decide_lands:
  assumes "snd (decide_approval now i dc rows)" and "distinct (map a_id rows)"
  obtains a where "get_approval rows i = Some a" and "decidable now i dc a"
    and "get_approval (fst (decide_approval now i dc rows)) i = Some (decided_as now dc a)"
proof -
  have "length (filter (decidable now i dc) rows) = 1"
    using assms(1) by (simp add: decide_approval_def update_where_def Let_def)
  then obtain a where a: "a \<in> set rows" "decidable now i dc a"
    by (metis filter_empty_conv length_0_conv zero_neq_one)
  have i: "a_id a = i" using a(2) by (simp add: decidable_def)
  have get: "get_approval rows i = Some a"
    using a(1) i assms(2) unfolding get_approval_def
    by (induction rows) (auto simp: image_iff)
  let ?f = "\<lambda>a. if decidable now i dc a then decided_as now dc a else a"
  have "row_le b (?f b)" for b
    by (simp add: row_le_def decidable_def decided_as_def pending_not_settled)
  from get_approval_map [OF get this] have "get_approval (map ?f rows) i = Some (decided_as now dc a)"
    using a(2) by simp
  thus thesis using that [OF get a(2)] by (simp add: decide_approval_def update_where_def Let_def)
qed

lemma table_le_ids: "table_le rows rows' \<Longrightarrow> map a_id rows' = map a_id rows"
  unfolding table_le_def row_le_def by (auto simp: comp_def)

lemma step_distinct: "step l w w' \<Longrightarrow> distinct (map a_id (w_rows w)) \<Longrightarrow> distinct (map a_id (w_rows w'))"
  using step_rows [of l w w'] table_le_ids [of "w_rows w"] by fastforce

lemma landed_call_fits:
  assumes ok: "world_ok l w" and p: "p \<in> set (w_plans w)" and run: "pl_action p = RunCall args"
    and commit: "answer_commit l now now' p w = Ok w'"
  shows "\<exists>tool. w_calls w' = w_calls w @ [(pl_id p, tool, args)] \<and> call_fits l (w_rows w') (pl_id p, tool, args)"
    and "pl_id p \<notin> fst ` set (w_calls w)" and "w_plans w' = w_plans w"
proof -
  let ?dc = "pl_decision p"
  let ?rows = "fst (decide_approval now (pl_id p) ?dc (w_rows w))"
  obtain a where a: "get_approval (w_rows w) (pl_id p) = Some a" "decidable now (pl_id p) ?dc a"
    and got: "get_approval ?rows (pl_id p) = Some (decided_as now ?dc a)"
    using decide_lands [OF commit_Ok(1) [OF commit]] ok unfolding world_ok_def by blast
  have w': "w' = (w\<lparr>w_rows := ?rows\<rparr>)\<lparr>w_calls := w_calls w @ [(pl_id p, a_tool a, args)]\<rparr>"
    using commit_Ok(2) [OF commit] run got by (simp add: follow_def decided_as_def)
  have "plan_fits l (w_rows w) p" using ok p unfolding world_ok_def by blast
  then obtain b where "\<not> takes_no_edit a" and b: "d_bound_to ?dc = Some b" and "d_state ?dc = RUNNING"
    and "d_option_id ?dc = OPTION_ALLOW_ONCE" and "approved_args l (a_tool a) b (d_edited_arguments ?dc) args"
    using run a(1) unfolding plan_fits_def by auto
  moreover have "b = a_arguments a" and "now < a_expires_ms a" using a(2) b by (auto simp: decidable_def)
  moreover have "RUNNING \<noteq> PENDING" by (simp add: approval_names)
  ultimately have "call_fits l ?rows (pl_id p, a_tool a, args)"
    using got unfolding call_fits_def by (simp add: decided_as_def takes_no_edit_def)
  thus "\<exists>tool. w_calls w' = w_calls w @ [(pl_id p, tool, args)] \<and> call_fits l (w_rows w') (pl_id p, tool, args)"
    and "w_plans w' = w_plans w" by (simp_all add: w')
  show "pl_id p \<notin> fst ` set (w_calls w)"
  proof
    assume "pl_id p \<in> fst ` set (w_calls w)"
    then obtain tool args' where "(pl_id p, tool, args') \<in> set (w_calls w)" by force
    hence "call_fits l (w_rows w) (pl_id p, tool, args')" using ok unfolding world_ok_def by blast
    hence "a_state a \<noteq> PENDING" using a(1) unfolding call_fits_def by auto
    thus False using a(2) by (simp add: decidable_def)
  qed
qed

lemma follow_other:
  assumes "\<And>args. pl_action p \<noteq> RunCall args"
  shows "w_calls (follow l now p w) = w_calls w" and "w_plans (follow l now p w) = w_plans w"
  using assms by (cases "pl_action p"; simp add: follow_def case_prod_beta Let_def)+

lemma step_keeps_plans_and_calls:
  assumes "step l w w'" and ok: "world_ok l w"
  shows "(\<forall>p\<in>set (w_plans w'). plan_fits l (w_rows w) p)
       \<and> (\<forall>c\<in>set (w_calls w'). call_fits l (w_rows w) c \<or> call_fits l (w_rows w') c) \<and> distinct (map fst (w_calls w'))"
  using assms
proof (induction rule: step.induct)
  case (answered now clock w i ans p)
  thus ?case using read_plan_fits by (auto simp: world_ok_def)
next
  case (landed p w now now' w')
  show ?case
  proof (cases "\<exists>args. pl_action p = RunCall args")
    case True
    then obtain args where run: "pl_action p = RunCall args" by blast
    note call = landed_call_fits [OF landed(3,1) run landed(2)]
    obtain tool where "w_calls w' = w_calls w @ [(pl_id p, tool, args)]" "call_fits l (w_rows w') (pl_id p, tool, args)"
      using call(1) by blast
    thus ?thesis using landed(3) call(2,3) by (auto simp: world_ok_def)
  next
    case False
    thus ?thesis using landed(3) commit_Ok(2) [OF landed(2)] follow_other [of p] by (simp add: world_ok_def)
  qed
qed (simp_all add: world_ok_def)

lemma step_world_ok:
  assumes "step l w w'" and "world_ok l w"
  shows "world_ok l w'"
proof -
  note keep = step_keeps_row [OF assms(1)]
  note kept = step_keeps_plans_and_calls [OF assms]
  have "call_fits l (w_rows w') c" if "c \<in> set (w_calls w')" for c
    using kept that call_fits_keep keep by blast
  moreover have "plan_fits l (w_rows w') p" if "p \<in> set (w_plans w')" for p
    using kept that plan_fits_keep keep by blast
  ultimately show ?thesis using kept step_distinct [OF assms(1)] assms(2) unfolding world_ok_def by blast
qed

lemma reachable_world_ok: "(step l)\<^sup>*\<^sup>* idle w \<Longrightarrow> world_ok l w"
proof (induction rule: rtranclp_induct)
  case base thus ?case by (simp add: world_ok_def idle_def)
next
  case (step y z) thus ?case using step_world_ok by blast
qed

text \<open>
  C5: An approved call runs once, as it was read. Whatever order asks, answers, decisions, runs, claims
  and expiries come in, from a node with nothing asked, no approval starts two calls, and every call
  started has its approval's row, on which the operator answered \<open>allow_once\<close> before the deadline; what runs
  is the tool of that row with the row's own arguments, or with an edit that the check against the
  tool's schema let through and that the row records.
\<close>

theorem approved_calls_run_once_as_read:
  assumes "(step l)\<^sup>*\<^sup>* idle w"
  shows "distinct (map fst (w_calls w)) \<and>
    (\<forall>(i, tool, args) \<in> set (w_calls w). \<exists>a original decided.
       get_approval (w_rows w) i = Some a \<and> a_tool a = tool \<and> a_state a \<noteq> PENDING
       \<and> a_answer_option_id a = Some OPTION_ALLOW_ONCE \<and> a_decided_ms a = Some decided \<and> decided < a_expires_ms a
       \<and> ap_parse l (a_arguments a) = Some original
       \<and> (a_edited_arguments a = None \<and> args = original
          \<or> a_edited_arguments a = Some (ap_text l args) \<and> check_edit l tool original args = []))"
proof -
  have "\<exists>a original decided. get_approval (w_rows w) i = Some a \<and> a_tool a = tool \<and> a_state a \<noteq> PENDING
       \<and> a_answer_option_id a = Some OPTION_ALLOW_ONCE \<and> a_decided_ms a = Some decided \<and> decided < a_expires_ms a
       \<and> ap_parse l (a_arguments a) = Some original
       \<and> (a_edited_arguments a = None \<and> args = original
          \<or> a_edited_arguments a = Some (ap_text l args) \<and> check_edit l tool original args = [])"
    if "(i, tool, args) \<in> set (w_calls w)" for i tool args
  proof -
    have "call_fits l (w_rows w) (i, tool, args)" using reachable_world_ok [OF assms] that by (auto simp: world_ok_def)
    thus ?thesis unfolding call_fits_def approved_args_def by fast
  qed
  thus ?thesis using reachable_world_ok [OF assms] unfolding world_ok_def by blast
qed

theorem approved_calls_run_once_as_read_witness:
  "w_calls demo_running = [(''a1'', ''git_push'', JObj [])] \<and>
   (\<exists>a original decided. get_approval (w_rows demo_running) ''a1'' = Some a \<and> a_state a \<noteq> PENDING
       \<and> a_answer_option_id a = Some OPTION_ALLOW_ONCE \<and> a_decided_ms a = Some decided \<and> decided < a_expires_ms a
       \<and> ap_parse demo_libs (a_arguments a) = Some original \<and> original = JObj [])"
proof -
  have calls: "w_calls demo_running = [(''a1'', ''git_push'', JObj [])]" by (simp add: demo_running_def)
  have parse: "ap_parse demo_libs s = Some v \<Longrightarrow> v = JObj []" for s v by (simp add: demo_libs_def split: if_splits)
  have "\<forall>(i, tool, args) \<in> set (w_calls demo_running). \<exists>a original decided. get_approval (w_rows demo_running) i = Some a
       \<and> a_state a \<noteq> PENDING \<and> a_answer_option_id a = Some OPTION_ALLOW_ONCE \<and> a_decided_ms a = Some decided
       \<and> decided < a_expires_ms a \<and> ap_parse demo_libs (a_arguments a) = Some original"
    using approved_calls_run_once_as_read [OF demo_runs] by blast
  thus ?thesis unfolding calls using parse by (simp del: ex_simps) blast
qed

end
