(* ===== verification/Broker.thy ===== *)
theory Broker
  imports Path_Text Json "HOL-Library.Option_ord" "HOL-Library.AList"
begin

text \<open>
  The credential broker, \<^verbatim>\<open>src/node/src/broker/mod.rs\<close>: which credentials a node holds, which of them leave
  it and for whom, and how copies of a shared sign-in are handed over, replaced, removed and
  revoked between nodes.

  A \<open>BTreeMap\<close> is the list of its entries in the order of the keys. The reader of a credential's
  JSON is an argument; a new sign-in's id is one too, by the credential it is minted for.
  Sealing the store and its file are outside.
\<close>

section \<open>Ordered maps\<close>

fun btree_insert :: "'k::linorder \<Rightarrow> 'v \<Rightarrow> ('k \<times> 'v) list \<Rightarrow> ('k \<times> 'v) list" where
  "btree_insert k v [] = [(k, v)]"
| "btree_insert k v ((k', v') # kvs) =
     (if k = k' then (k, v) # kvs
      else if k < k' then (k, v) # (k', v') # kvs
      else (k', v') # btree_insert k v kvs)"

lemma map_of_btree_insert [simp]: "map_of (btree_insert k v kvs) k' = (if k' = k then Some v else map_of kvs k')"
  by (induction kvs) (auto split: if_splits)

lemma map_of_btree_delete [simp]: "map_of (AList.delete k kvs) k' = (if k' = k then None else map_of kvs k')"
  by (simp add: AList.delete_conv')

section \<open>Credentials\<close>

definition KIND_ENV :: string where "KIND_ENV = ''env''"
definition KIND_API_KEY :: string where "KIND_API_KEY = ''api_key''"
definition KIND_OAUTH :: string where "KIND_OAUTH = ''oauth''"

record credential =
  c_env :: "(string \<times> string) list"
  c_channels :: "string list"
  c_nodes :: "string list"
  c_repos :: "string list"
  c_kind :: string
  c_provider :: "string option"
  c_expires_ms :: "int option"
  c_identity :: "string option"
  c_grant_id :: "string option"
  c_grant_version :: nat
  c_grant_origin :: "string option"

definition default_credential :: credential where
  "default_credential = \<lparr>c_env = [], c_channels = [], c_nodes = [], c_repos = [], c_kind = KIND_ENV, c_provider = None,
     c_expires_ms = None, c_identity = None, c_grant_id = None, c_grant_version = 0, c_grant_origin = None\<rparr>"

definition allows :: "credential \<Rightarrow> string \<Rightarrow> bool" where
  "allows c channel \<longleftrightarrow> channel \<in> set (c_channels c)"

definition supersedes :: "credential \<Rightarrow> credential \<Rightarrow> bool" where
  "supersedes c other \<longleftrightarrow> (c_grant_id other, c_grant_version other) < (c_grant_id c, c_grant_version c)"

definition newer_grant_than :: "credential \<Rightarrow> string option \<Rightarrow> bool" where
  "newer_grant_than c g \<longleftrightarrow> g < c_grant_id c"

definition origin :: "credential \<Rightarrow> string option" where
  "origin c = (case c_grant_origin c of
      Some o' \<Rightarrow> Some o' | None \<Rightarrow> (case c_nodes c of [] \<Rightarrow> None | n # _ \<Rightarrow> Some n))"

definition originates_at :: "credential \<Rightarrow> string \<Rightarrow> bool" where
  "originates_at c node_id = (case origin c of None \<Rightarrow> True | Some o' \<Rightarrow> o' = node_id)"

definition shared_from :: "credential \<Rightarrow> string \<Rightarrow> string option" where
  "shared_from c node_id = (case origin c of None \<Rightarrow> None | Some o' \<Rightarrow> if o' \<noteq> node_id then Some o' else None)"

definition revoke_targets :: "credential \<Rightarrow> string \<Rightarrow> string list" where
  "revoke_targets c node_id =
     (if \<not> originates_at c node_id then [] else filter (\<lambda>n. n \<noteq> node_id) (c_nodes c))"

definition ensure_grant :: "string \<Rightarrow> string \<Rightarrow> credential \<Rightarrow> credential \<times> bool" where
  "ensure_grant fresh node_id c =
     (if c_grant_id c \<noteq> None then (c, False)
      else (c\<lparr>c_grant_id := Some fresh, c_grant_origin := Some node_id\<rparr>, True))"

definition allows_node :: "credential \<Rightarrow> string \<Rightarrow> bool" where
  "allows_node c node_id \<longleftrightarrow> c_nodes c = [] \<or> node_id \<in> set (c_nodes c)"

definition is_model :: "credential \<Rightarrow> bool" where
  "is_model c \<longleftrightarrow> c_kind c = KIND_API_KEY \<or> c_kind c = KIND_OAUTH"

section \<open>Repositories a credential names\<close>

definition strip_suffix :: "string \<Rightarrow> string \<Rightarrow> string option" where
  "strip_suffix suf s = (if ends_with s suf then Some (take (length s - length suf) s) else None)"

fun is_normal :: "component \<Rightarrow> bool" where
  "is_normal (Normal p) = True"
| "is_normal _ = False"

definition repos_entry_names :: "string option \<Rightarrow> string \<Rightarrow> string \<Rightarrow> bool" where
  "repos_entry_names home bound repo =
     (if ParentDir \<in> set (components repo) then False
      else case strip_suffix ''/**'' bound of
        None \<Rightarrow> CHR ''*'' \<notin> set bound \<and> repo_path_matches home bound repo
      | Some prefix \<Rightarrow>
          if CHR ''*'' \<in> set prefix then False
          else
            let want = expand_home home prefix; have' = components repo
            in if \<not> list_ex is_normal want then False
               else if hd want = RootDir
               then length want < length have' \<and> take (length want) have' = want
               else list_ex (\<lambda>e. take (length want) (drop (e - length want) have') = want)
                      [length want ..< length have'])"

definition names_repo :: "string option \<Rightarrow> credential \<Rightarrow> string \<Rightarrow> bool" where
  "names_repo home c repo = list_ex (\<lambda>bound. repos_entry_names home bound repo) (c_repos c)"

datatype repos_error = StrayWildcard string | DotSegment string | NamesNothing string

fun check_repos :: "string list \<Rightarrow> (repos_error, unit) result" where
  "check_repos [] = Ok ()"
| "check_repos (bound # rest) =
     (let prefix = (case strip_suffix ''/**'' bound of Some p \<Rightarrow> p | None \<Rightarrow> bound)
      in if CHR ''*'' \<in> set prefix then Err (StrayWildcard bound)
         else if ends_with bound ''/**'' \<and> list_ex (\<lambda>part. part = ''.'' \<or> part = ''..'') (split_on (CHR ''/'') prefix)
         then Err (DotSegment bound)
         else if \<not> list_ex is_normal (components prefix) then Err (NamesNothing bound)
         else check_repos rest)"

section \<open>Sign-ins of a provider\<close>

definition is_sign_in_name :: "string \<Rightarrow> string \<Rightarrow> bool" where
  "is_sign_in_name name base =
     (case Option.bind (strip_prefix base name) (strip_prefix ''@'') of Some suffix \<Rightarrow> suffix \<noteq> [] | None \<Rightarrow> False)"

definition in_family :: "string \<Rightarrow> credential \<Rightarrow> string \<Rightarrow> string \<Rightarrow> bool" where
  "in_family name c entry base \<longleftrightarrow>
     name = base \<or> (is_sign_in_name name base \<and> is_model c \<and> c_provider c = Some entry)"

text \<open>\<open>key(a).cmp(&key(b))\<close> is not \<open>Greater\<close>; names compare in reverse.\<close>

definition precedence_le :: "string \<Rightarrow> string \<times> credential \<Rightarrow> string \<times> credential \<Rightarrow> bool" where
  "precedence_le node_id a b \<longleftrightarrow>
     (let ka = (originates_at (snd a) node_id, c_grant_id (snd a), c_grant_version (snd a));
          kb = (originates_at (snd b) node_id, c_grant_id (snd b), c_grant_version (snd b))
      in ka < kb \<or> ka = kb \<and> fst b \<le> fst a)"

fun max_by :: "('a \<Rightarrow> 'a \<Rightarrow> bool) \<Rightarrow> 'a list \<Rightarrow> 'a option" where
  "max_by le [] = None"
| "max_by le (x # xs) = Some (foldl (\<lambda>m y. if le m y then y else m) x xs)"

section \<open>Removed sign-ins\<close>

record tombstone =
  t_grant_id :: "string option"
  t_grant_version :: nat
  t_origin :: "string option"

definition tombstone_of :: "credential \<Rightarrow> tombstone" where
  "tombstone_of c = \<lparr>t_grant_id = c_grant_id c, t_grant_version = c_grant_version c, t_origin = origin c\<rparr>"

definition tombstone_key :: "tombstone \<Rightarrow> string option \<times> nat" where
  "tombstone_key t = (t_grant_id t, t_grant_version t)"

definition refuses :: "tombstone \<Rightarrow> credential \<Rightarrow> bool" where
  "refuses t copy \<longleftrightarrow> \<not> newer_grant_than copy (t_grant_id t)
     \<or> (t_grant_id t = None \<and> t_origin t \<noteq> None \<and> origin copy = t_origin t)"

datatype revoked = Dropped | KeptOwn | NotHeld

record broker =
  credentials :: "(string \<times> credential) list"
  revoked_map :: "(string \<times> tombstone) list"

definition empty_broker :: broker where
  "empty_broker = \<lparr>credentials = [], revoked_map = []\<rparr>"

section \<open>Operations\<close>

definition broker_get :: "broker \<Rightarrow> string \<Rightarrow> credential option" where
  "broker_get b name = map_of (credentials b) name"

definition broker_tombstone :: "broker \<Rightarrow> string \<Rightarrow> tombstone option" where
  "broker_tombstone b name = map_of (revoked_map b) name"

definition broker_put :: "string \<Rightarrow> credential \<Rightarrow> broker \<Rightarrow> broker \<times> bool" where
  "broker_put name c b =
     (b\<lparr>revoked_map := AList.delete name (revoked_map b), credentials := btree_insert name c (credentials b)\<rparr>,
      broker_get b name \<noteq> None)"

fun list_missing :: "string list \<Rightarrow> string list \<Rightarrow> string list" where
  "list_missing nodes [] = nodes"
| "list_missing nodes (n # listed) = list_missing (if n \<in> set nodes then nodes else nodes @ [n]) listed"

definition broker_import :: "string \<Rightarrow> string \<Rightarrow> string \<Rightarrow> credential \<Rightarrow> broker \<Rightarrow> broker \<times> string list" where
  "broker_import fresh node_id name c0 b =
     (let named_elsewhere = (case c_grant_origin c0 of Some o' \<Rightarrow> o' \<noteq> node_id | None \<Rightarrow> False);
          c1 = (if c_grant_origin c0 = None then c0\<lparr>c_grant_origin := Some node_id\<rparr> else c0);
          holders = (case broker_get b name of
             None \<Rightarrow> None
           | Some held \<Rightarrow> if named_elsewhere \<or> revoke_targets held node_id = [] then None
                          else Some (c_nodes held, revoke_targets held node_id))
      in case holders of
           None \<Rightarrow> (fst (broker_put name c1 b), [])
         | Some (listed, carried) \<Rightarrow>
             let nodes = list_missing (if c_nodes c1 = [] then [node_id] else c_nodes c1) listed;
                 c2 = fst (ensure_grant fresh node_id (c1\<lparr>c_nodes := nodes, c_grant_id := None, c_grant_version := 0\<rparr>))
             in (fst (broker_put name c2 b), carried))"

definition broker_remove :: "string \<Rightarrow> broker \<Rightarrow> broker \<times> bool" where
  "broker_remove name b = (b\<lparr>credentials := AList.delete name (credentials b)\<rparr>, broker_get b name \<noteq> None)"

definition bury :: "string \<Rightarrow> tombstone \<Rightarrow> broker \<Rightarrow> broker" where
  "bury name t b =
     (case broker_tombstone b name of
        Some held \<Rightarrow> if tombstone_key t \<le> tombstone_key held then b
                     else b\<lparr>revoked_map := btree_insert name t (revoked_map b)\<rparr>
      | None \<Rightarrow> b\<lparr>revoked_map := btree_insert name t (revoked_map b)\<rparr>)"

definition broker_revoke :: "string \<Rightarrow> broker \<Rightarrow> broker \<times> credential option" where
  "broker_revoke name b =
     (case broker_get b name of
        None \<Rightarrow> (b, None)
      | Some removed \<Rightarrow>
          (bury name (tombstone_of removed) (b\<lparr>credentials := AList.delete name (credentials b)\<rparr>), Some removed))"

definition apply_revoke :: "string \<Rightarrow> string \<Rightarrow> string option \<Rightarrow> nat \<Rightarrow> broker \<Rightarrow> broker \<times> revoked" where
  "apply_revoke sender name grant_id grant_version b =
     (let org = (if grant_id = None then None else Some sender);
          t = \<lparr>t_grant_id = grant_id, t_grant_version = grant_version, t_origin = org\<rparr>
      in case broker_get b name of
           None \<Rightarrow>
             ((case broker_tombstone b name of
                 Some t' \<Rightarrow> if t_origin t' = Some sender then bury name t b else b
               | None \<Rightarrow> b), NotHeld)
         | Some held \<Rightarrow>
             if origin held \<noteq> Some sender \<or> newer_grant_than held grant_id then (b, KeptOwn)
             else
               let left = (if org = None then (tombstone_of held)\<lparr>t_origin := None\<rparr> else tombstone_of held)
               in (bury name t (bury name left (b\<lparr>credentials := AList.delete name (credentials b)\<rparr>)), Dropped))"

definition bound_to :: "broker \<Rightarrow> string \<Rightarrow> (string \<times> credential) list" where
  "bound_to b node_id = filter (\<lambda>(n, c). node_id \<in> set (c_nodes c)) (credentials b)"

text \<open>The loop of \<open>admission_handoff\<close>: the credentials as they then are, the rows, the names minted.\<close>

fun admit_each :: "(string \<Rightarrow> string) \<Rightarrow> string \<Rightarrow> string \<Rightarrow> (string \<times> credential) list
    \<Rightarrow> (string \<times> credential) list \<times> (string \<times> credential) list \<times> string list" where
  "admit_each mint self_id to [] = ([], [], [])"
| "admit_each mint self_id to ((name, c) # rest) =
     (let (cs, rows, minted) = admit_each mint self_id to rest
      in if to \<notin> set (c_nodes c) \<or> shared_from c self_id \<noteq> None then ((name, c) # cs, rows, minted)
         else let (c', new) = ensure_grant (mint name) self_id c
              in ((name, c') # cs, (name, c') # rows, if new then name # minted else minted))"

definition admission_handoff :: "(string \<Rightarrow> string) \<Rightarrow> string \<Rightarrow> string \<Rightarrow> broker
    \<Rightarrow> broker \<times> (string \<times> credential) list \<times> string list" where
  "admission_handoff mint self_id to b =
     (let (cs, rows, minted) = admit_each mint self_id to (credentials b)
      in (b\<lparr>credentials := cs\<rparr>, rows, minted))"

text \<open>One row of a handoff; \<open>None\<close> when it is dropped.\<close>

definition handoff_origin :: "string \<Rightarrow> credential \<Rightarrow> credential" where
  "handoff_origin sender c =
     (if c_grant_origin c \<noteq> None then c
      else c\<lparr>c_grant_origin := (case c_grant_id c of
               Some _ \<Rightarrow> (case c_nodes c of [] \<Rightarrow> None | n # _ \<Rightarrow> Some n)
             | None \<Rightarrow> Some sender)\<rparr>)"

definition handoff_row :: "string \<Rightarrow> string \<Rightarrow> string \<Rightarrow> credential \<Rightarrow> broker \<Rightarrow> broker option" where
  "handoff_row self_id sender name c0 b =
     (if c_nodes c0 = [] \<or> \<not> allows_node c0 self_id then None
      else if \<not> is_ok (check_repos (c_repos c0)) then None
      else if c_grant_id c0 \<noteq> None
              \<and> (case broker_get b name of Some held \<Rightarrow> \<not> supersedes c0 held | None \<Rightarrow> False) then None
      else
        let c = handoff_origin sender c0
        in if (case broker_tombstone b name of Some t \<Rightarrow> refuses t c | None \<Rightarrow> False) then None
           else Some (b\<lparr>revoked_map := AList.delete name (revoked_map b),
                       credentials := btree_insert name c (credentials b)\<rparr>))"

definition read_row :: "(json \<Rightarrow> credential option) \<Rightarrow> json \<Rightarrow> (string \<times> credential) option" where
  "read_row parse v =
     (case as_str (jindex v ''name'') of
        None \<Rightarrow> None
      | Some name \<Rightarrow> map_option (Pair name) (parse (jindex v ''credential'')))"

fun apply_handoff :: "(json \<Rightarrow> credential option) \<Rightarrow> string \<Rightarrow> string \<Rightarrow> json list \<Rightarrow> broker \<Rightarrow> broker \<times> string list" where
  "apply_handoff parse self_id sender [] b = (b, [])"
| "apply_handoff parse self_id sender (r # rows) b =
     (case read_row parse r of
        None \<Rightarrow> apply_handoff parse self_id sender rows b
      | Some (name, c) \<Rightarrow>
          (case handoff_row self_id sender name c b of
             None \<Rightarrow> apply_handoff parse self_id sender rows b
           | Some b' \<Rightarrow> apsnd ((#) name) (apply_handoff parse self_id sender rows b')))"

definition handoff_rows :: "(credential \<Rightarrow> json) \<Rightarrow> (string \<times> credential) list \<Rightarrow> json list" where
  "handoff_rows to_json creds = map (\<lambda>(n, c). JObj [(''credential'', to_json c), (''name'', JStr n)]) creds"

section \<open>What leaves the broker\<close>

text \<open>Why a credential cannot be attached to a host (\<^verbatim>\<open>src/node/src/broker/upstream.rs\<close>).\<close>

datatype template_error = Unclosed | NotAName string

datatype upstream_why =
    BadTemplate template_error | VariableUnset string string | ComposerUnset | ComposerNotJson
  | ComposerIncomplete | ComposerNoEntry | NotAHeaderName | NotAHeaderValue

datatype broker_error =
    Unknown string
  | NotBound string string
  | NotOnThisNode string
  | NotForRepo string string
  | NotEnv string
  | Overlap string string string
  | Upstream_Error string string upstream_why
  | Parse_Error string

definition usable :: "broker \<Rightarrow> string \<Rightarrow> string \<Rightarrow> string \<Rightarrow> (broker_error, credential) result" where
  "usable b name channel node_id =
     (case broker_get b name of
        None \<Rightarrow> Err (Unknown name)
      | Some c \<Rightarrow>
          if \<not> allows c channel then Err (NotBound name channel)
          else if \<not> allows_node c node_id then Err (NotOnThisNode name) else Ok c)"

definition usable_by_node :: "broker \<Rightarrow> string \<Rightarrow> string \<Rightarrow> (broker_error, credential) result" where
  "usable_by_node b name node_id =
     (case broker_get b name of
        None \<Rightarrow> Err (Unknown name)
      | Some c \<Rightarrow>
          if c_channels c = [] then Err (NotBound name ''(any)'')
          else if \<not> allows_node c node_id then Err (NotOnThisNode name) else Ok c)"

definition env_for :: "broker \<Rightarrow> string \<Rightarrow> string \<Rightarrow> string \<Rightarrow> (broker_error, (string \<times> string) list) result" where
  "env_for b name channel node_id = bind_result (usable b name channel node_id) (\<lambda>c. Ok (c_env c))"

definition env_for_node :: "broker \<Rightarrow> string \<Rightarrow> string \<Rightarrow> (broker_error, (string \<times> string) list) result" where
  "env_for_node b name node_id = bind_result (usable_by_node b name node_id) (\<lambda>c. Ok (c_env c))"

definition preparation_env :: "string option \<Rightarrow> broker \<Rightarrow> string \<Rightarrow> string \<Rightarrow> string
    \<Rightarrow> (broker_error, (string \<times> string) list) result" where
  "preparation_env home b name repo node_id =
     (case broker_get b name of
        None \<Rightarrow> Err (Unknown name)
      | Some c \<Rightarrow>
          if \<not> allows_node c node_id then Err (NotOnThisNode name)
          else if c_kind c \<noteq> KIND_ENV then Err (NotEnv name)
          else if \<not> names_repo home c repo then Err (NotForRepo name repo)
          else Ok (c_env c))"

text \<open>The variables of one credential joining those lent so far, each kept with who lent it.\<close>

fun lend_vars :: "string \<Rightarrow> (string \<times> string) list \<Rightarrow> (string \<times> string \<times> string) list
    \<Rightarrow> (broker_error, (string \<times> string \<times> string) list) result" where
  "lend_vars name [] env = Ok env"
| "lend_vars name ((key, v) # vars) env =
     (case map_of env key of
        Some (_, first) \<Rightarrow> Err (Overlap first name key)
      | None \<Rightarrow> lend_vars name vars (btree_insert key (v, name) env))"

fun lend_all :: "string option \<Rightarrow> broker \<Rightarrow> string \<Rightarrow> string \<Rightarrow> string list \<Rightarrow> (string \<times> string \<times> string) list
    \<Rightarrow> (broker_error, (string \<times> string \<times> string) list) result" where
  "lend_all home b repo node_id [] env = Ok env"
| "lend_all home b repo node_id (name # names) env =
     bind_result (preparation_env home b name repo node_id) (\<lambda>vars.
     bind_result (lend_vars name vars env) (lend_all home b repo node_id names))"

definition preparation_env_all :: "string option \<Rightarrow> broker \<Rightarrow> string list \<Rightarrow> string \<Rightarrow> string
    \<Rightarrow> (broker_error, (string \<times> string) list) result" where
  "preparation_env_all home b names repo node_id =
     bind_result (lend_all home b repo node_id names []) (\<lambda>env. Ok (map (\<lambda>(k, v, _). (k, v)) env))"

record injection =
  authorization :: "string option"
  x_api_key :: "string option"
  oauth_beta :: bool
  chatgpt_account_id :: "string option"

definition no_injection :: injection where
  "no_injection = \<lparr>authorization = None, x_api_key = None, oauth_beta = False, chatgpt_account_id = None\<rparr>"

text \<open>\<open>header_ok\<close> is \<open>HeaderValue::from_str\<close>.\<close>

definition env_value :: "credential \<Rightarrow> string \<Rightarrow> (broker_error, string) result" where
  "env_value c k = (case map_of (c_env c) k of Some v \<Rightarrow> Ok v | None \<Rightarrow> Err (Parse_Error (''credential has no '' @ k)))"

definition chatgpt_account :: "(string \<Rightarrow> bool) \<Rightarrow> credential \<Rightarrow> (broker_error, string) result" where
  "chatgpt_account header_ok c =
     (case map_of (c_env c) ''CHATGPT_ACCOUNT_ID'' of
        Some account \<Rightarrow>
          if trim account = [] then Err (Parse_Error ''credential has no CHATGPT_ACCOUNT_ID'')
          else if header_ok account then Ok account
          else Err (Parse_Error ''credential has an invalid CHATGPT_ACCOUNT_ID'')
      | None \<Rightarrow> Err (Parse_Error ''credential has no CHATGPT_ACCOUNT_ID''))"

definition inject :: "(string \<Rightarrow> bool) \<Rightarrow> credential \<Rightarrow> string \<Rightarrow> (broker_error, injection) result" where
  "inject header_ok c shape =
     (if c_kind c = KIND_API_KEY
      then bind_result (env_value c ''API_KEY'') (\<lambda>key.
             Ok (if shape = ''anthropic'' then no_injection\<lparr>x_api_key := Some key\<rparr>
                 else no_injection\<lparr>authorization := Some (''Bearer '' @ key)\<rparr>))
      else if c_kind c = KIND_OAUTH
      then bind_result (env_value c ''ACCESS_TOKEN'') (\<lambda>token.
           bind_result (if shape = ''openai-codex'' then map_sum id Some (chatgpt_account header_ok c) else Ok None) (\<lambda>account.
             Ok (no_injection\<lparr>authorization := Some (''Bearer '' @ token), oauth_beta := (shape = ''anthropic''),
                              chatgpt_account_id := account\<rparr>)))
      else Err (Parse_Error (''credential kind '' @ c_kind c @ '' cannot be injected into a model request'')))"

definition inject_for :: "(string \<Rightarrow> bool) \<Rightarrow> broker \<Rightarrow> string \<Rightarrow> string \<Rightarrow> string \<Rightarrow> string \<Rightarrow> (broker_error, injection) result" where
  "inject_for header_ok b name channel node_id shape =
     bind_result (usable b name channel node_id) (\<lambda>c. inject header_ok c shape)"

definition inject_for_probe :: "(string \<Rightarrow> bool) \<Rightarrow> broker \<Rightarrow> string \<Rightarrow> string \<Rightarrow> string \<Rightarrow> (broker_error, injection) result" where
  "inject_for_probe header_ok b name node_id shape =
     bind_result (usable_by_node b name node_id) (\<lambda>c. inject header_ok c shape)"

definition family :: "broker \<Rightarrow> string \<Rightarrow> string \<Rightarrow> (string \<times> credential) list" where
  "family b entry base = filter (\<lambda>(name, c). in_family name c entry base) (credentials b)"

definition model_credential :: "broker \<Rightarrow> string \<Rightarrow> string \<Rightarrow> string \<Rightarrow> string \<Rightarrow> (string \<times> credential) option" where
  "model_credential b entry base channel node_id =
     max_by (precedence_le node_id)
       (filter (\<lambda>(n, c). allows c channel \<and> allows_node c node_id) (family b entry base))"

definition primary_sign_in :: "broker \<Rightarrow> string \<Rightarrow> string \<Rightarrow> string \<Rightarrow> (string \<times> credential) option" where
  "primary_sign_in b entry base node_id =
     (case broker_get b base of
        Some c \<Rightarrow> if allows_node c node_id then Some (base, c)
                  else max_by (precedence_le node_id) (filter (\<lambda>(n, c). allows_node c node_id) (family b entry base))
      | None \<Rightarrow> max_by (precedence_le node_id) (filter (\<lambda>(n, c). allows_node c node_id) (family b entry base)))"

definition inject_for_provider :: "(string \<Rightarrow> bool) \<Rightarrow> broker \<Rightarrow> string \<Rightarrow> string \<Rightarrow> string \<Rightarrow> string \<Rightarrow> string
    \<Rightarrow> (broker_error, injection) result" where
  "inject_for_provider header_ok b entry base channel node_id shape =
     (case model_credential b entry base channel node_id of
        Some (_, c) \<Rightarrow> inject header_ok c shape
      | None \<Rightarrow> inject_for header_ok b base channel node_id shape)"

definition inject_for_probe_provider :: "(string \<Rightarrow> bool) \<Rightarrow> broker \<Rightarrow> string \<Rightarrow> string \<Rightarrow> string \<Rightarrow> string
    \<Rightarrow> (broker_error, injection) result" where
  "inject_for_probe_provider header_ok b entry base node_id shape =
     (case max_by (precedence_le node_id)
             (filter (\<lambda>(n, c). c_channels c \<noteq> [] \<and> allows_node c node_id) (family b entry base)) of
        Some (_, c) \<Rightarrow> inject header_ok c shape
      | None \<Rightarrow> inject_for_probe header_ok b base node_id shape)"

definition available_to :: "broker \<Rightarrow> string \<Rightarrow> string \<Rightarrow> string list" where
  "available_to b channel node_id = map fst (filter (\<lambda>(n, c). allows c channel \<and> allows_node c node_id) (credentials b))"

definition has_model_credential :: "broker \<Rightarrow> string \<Rightarrow> bool" where
  "has_model_credential b node_id = list_ex (\<lambda>(n, c). is_model c \<and> allows_node c node_id) (credentials b)"

definition model_credential_for :: "broker \<Rightarrow> string \<Rightarrow> string \<Rightarrow> (string \<times> credential) option" where
  "model_credential_for b provider node_id =
     find (\<lambda>(n, c). is_model c \<and> c_provider c = Some provider \<and> allows_node c node_id) (credentials b)"

section \<open>What happens to a node's broker\<close>

text \<open>
  The node between two moments: a handoff from a peer, a peer's revoke, the operator's \<open>credential rm\<close>, what
  admitting a node hands over, and the operator putting or importing a credential.
\<close>

datatype event =
    Handoff string "json list"
  | RevokeFrom string string "string option" nat
  | Rm string
  | Admit string
  | Put string credential
  | Import string credential

fun run_event :: "(json \<Rightarrow> credential option) \<Rightarrow> (string \<Rightarrow> string) \<Rightarrow> string \<Rightarrow> event \<Rightarrow> broker \<Rightarrow> broker" where
  "run_event parse mint self_id (Handoff sender rows) b = fst (apply_handoff parse self_id sender rows b)"
| "run_event parse mint self_id (RevokeFrom sender name g v) b = fst (apply_revoke sender name g v b)"
| "run_event parse mint self_id (Rm name) b = fst (broker_revoke name b)"
| "run_event parse mint self_id (Admit to) b = fst (admission_handoff mint self_id to b)"
| "run_event parse mint self_id (Put name c) b = fst (broker_put name c b)"
| "run_event parse mint self_id (Import name c) b = fst (broker_import (mint name) self_id name c b)"

abbreviation run_events :: "(json \<Rightarrow> credential option) \<Rightarrow> (string \<Rightarrow> string) \<Rightarrow> string \<Rightarrow> event list \<Rightarrow> broker \<Rightarrow> broker" where
  "run_events parse mint self_id evs b \<equiv> fold (run_event parse mint self_id) evs b"

text \<open>The operator brings \<open>name\<close> back, or a peer sends a copy of it that names no sign-in.\<close>

fun restores :: "string \<Rightarrow> event \<Rightarrow> bool" where
  "restores name (Put n c) = (n = name)"
| "restores name (Import n c) = (n = name)"
| "restores name _ = False"

fun sends_untracked :: "(json \<Rightarrow> credential option) \<Rightarrow> string \<Rightarrow> event \<Rightarrow> bool" where
  "sends_untracked parse name (Handoff sender rows) =
     list_ex (\<lambda>r. case read_row parse r of Some (n, c) \<Rightarrow> n = name \<and> c_grant_id c = None | None \<Rightarrow> False) rows"
| "sends_untracked parse name _ = False"

section \<open>A removed sign-in stays removed\<close>

definition past :: "string \<Rightarrow> string option \<Rightarrow> broker \<Rightarrow> bool" where
  "past name g b \<longleftrightarrow> (case broker_get b name of
      Some c \<Rightarrow> g < c_grant_id c
    | None \<Rightarrow> (\<exists>t. broker_tombstone b name = Some t \<and> g \<le> t_grant_id t))"

lemma bury_get [simp]: "broker_get (bury name t b) n = broker_get b n"
  by (simp add: bury_def broker_get_def split: option.split)

lemma bury_other [simp]: "n \<noteq> name \<Longrightarrow> broker_tombstone (bury name t b) n = broker_tombstone b n"
  by (simp add: bury_def broker_tombstone_def split: option.split)

lemma bury_keeps_later:
  "\<exists>t'. broker_tombstone (bury name t b) name = Some t' \<and> t_grant_id t \<le> t_grant_id t'
      \<and> (\<forall>u. broker_tombstone b name = Some u \<longrightarrow> t_grant_id u \<le> t_grant_id t')"
proof (cases "broker_tombstone b name")
  case None
  thus ?thesis by (simp add: bury_def) (simp add: broker_tombstone_def)
next
  case (Some u)
  show ?thesis
  proof (cases "tombstone_key t \<le> tombstone_key u")
    case True
    hence "t_grant_id t \<le> t_grant_id u" by (auto simp: tombstone_key_def)
    thus ?thesis using Some True by (simp add: bury_def)
  next
    case False
    hence "t_grant_id u \<le> t_grant_id t" by (auto simp: tombstone_key_def not_le)
    thus ?thesis using Some False by (simp add: bury_def) (simp add: broker_tombstone_def)
  qed
qed

lemma past_bury: "past name g b \<Longrightarrow> past name g (bury n t b)"
proof (cases "n = name")
  case True
  assume "past name g b"
  thus ?thesis using bury_keeps_later [of name t b] True
    by (auto simp: past_def split: option.splits intro: order_trans)
qed (simp add: past_def split: option.splits)

lemma buried_past: "g \<le> t_grant_id t \<Longrightarrow> broker_get b name = None \<Longrightarrow> past name g (bury name t b)"
  using bury_keeps_later [of name t b] by (auto simp: past_def split: option.splits intro: order_trans)

lemma get_deleted [simp]:
  "broker_get (b\<lparr>credentials := AList.delete name (credentials b)\<rparr>) n = (if n = name then None else broker_get b n)"
  "broker_tombstone (b\<lparr>credentials := cs\<rparr>) n = broker_tombstone b n"
  by (simp_all add: broker_get_def broker_tombstone_def)

lemma past_delete_other: "past name g b \<Longrightarrow> n \<noteq> name \<Longrightarrow> past name g (b\<lparr>credentials := AList.delete n (credentials b)\<rparr>)"
  by (simp add: past_def split: option.splits)

lemma past_revoke: "past name g b \<Longrightarrow> past name g (fst (broker_revoke n b))"
proof (cases "broker_get b n")
  case (Some c)
  assume past: "past name g b"
  show ?thesis
  proof (cases "n = name")
    case True
    hence "g \<le> t_grant_id (tombstone_of c)" using past Some by (simp add: past_def tombstone_of_def)
    thus ?thesis using Some True by (simp add: broker_revoke_def buried_past)
  next
    case False
    thus ?thesis using Some past by (simp add: broker_revoke_def past_bury past_delete_other)
  qed
qed (simp add: broker_revoke_def)

lemma revoke_past: "broker_get b name = Some c \<Longrightarrow> past name (c_grant_id c) (fst (broker_revoke name b))"
  by (simp add: broker_revoke_def buried_past tombstone_of_def)

lemma past_apply_revoke: "past name g b \<Longrightarrow> past name g (fst (apply_revoke sender n h v b))"
proof (cases "broker_get b n")
  case None
  assume "past name g b"
  thus ?thesis using None by (simp add: apply_revoke_def Let_def past_bury split: option.split)
next
  case (Some c)
  assume past: "past name g b"
  let ?left = "if h = None then (tombstone_of c)\<lparr>t_origin := None\<rparr> else tombstone_of c"
  have "past name g (bury n ?left (b\<lparr>credentials := AList.delete n (credentials b)\<rparr>))"
  proof (cases "n = name")
    case True
    hence "g \<le> t_grant_id ?left" using past Some by (auto simp: past_def tombstone_of_def)
    thus ?thesis using True by (simp add: buried_past)
  next
    case False
    thus ?thesis using past by (simp add: past_bury past_delete_other)
  qed
  thus ?thesis using Some past by (cases h) (auto simp: apply_revoke_def Let_def past_bury)
qed

lemma handoff_origin_grant [simp]: "c_grant_id (handoff_origin sender c) = c_grant_id c"
  by (simp add: handoff_origin_def)

lemma past_handoff_row:
  assumes "handoff_row self_id sender n c b = Some b'" and "past name g b" and "n = name \<Longrightarrow> c_grant_id c \<noteq> None"
  shows "past name g b'"
proof -
  let ?c = "handoff_origin sender c"
  have b': "b' = b\<lparr>revoked_map := AList.delete n (revoked_map b), credentials := btree_insert n ?c (credentials b)\<rparr>"
    using assms(1) by (auto simp: handoff_row_def Let_def split: if_splits)
  have get: "broker_get b' m = (if m = n then Some ?c else broker_get b m)"
    and tomb: "m \<noteq> n \<Longrightarrow> broker_tombstone b' m = broker_tombstone b m" for m
    by (simp_all add: b' broker_get_def broker_tombstone_def)
  show ?thesis
  proof (cases "n = name")
    case True
    have "g < c_grant_id c"
    proof (cases "broker_get b name")
      case None
      then obtain t where t: "broker_tombstone b name = Some t" "g \<le> t_grant_id t"
        using assms(2) by (auto simp: past_def)
      have "\<not> refuses t ?c" using assms(1) t(1) True by (auto simp: handoff_row_def Let_def split: if_splits)
      hence "t_grant_id t < c_grant_id c" by (simp add: refuses_def newer_grant_than_def)
      thus ?thesis using t(2) by simp
    next
      case (Some held)
      hence "supersedes c held" using assms(1,3) True by (auto simp: handoff_row_def split: if_splits)
      moreover have "g < c_grant_id held" using assms(2) Some by (simp add: past_def)
      ultimately show ?thesis by (auto simp: supersedes_def)
    qed
    thus ?thesis using True get by (simp add: past_def)
  next
    case False
    thus ?thesis using assms(2) get [of name] tomb [of name] unfolding past_def by (simp split: option.splits)
  qed
qed

lemma past_apply_handoff:
  "\<lbrakk>past name g b; \<not> sends_untracked parse name (Handoff sender rows)\<rbrakk>
     \<Longrightarrow> past name g (fst (apply_handoff parse self_id sender rows b))"
proof (induction rows arbitrary: b)
  case (Cons r rows)
  show ?case
  proof (cases "read_row parse r")
    case (Some nc)
    obtain n c where nc: "nc = (n, c)" by (cases nc) auto
    have tracked: "n = name \<Longrightarrow> c_grant_id c \<noteq> None" using Cons.prems(2) Some nc by auto
    have "past name g b'" if "handoff_row self_id sender n c b = Some b'" for b'
      using past_handoff_row [OF that Cons.prems(1) tracked] .
    thus ?thesis using Cons Some nc by (auto split: option.split)
  qed (use Cons in auto)
qed simp

lemma admit_each_get:
  "map_of (fst (admit_each mint self_id to cs)) n =
     map_option (\<lambda>c. if to \<notin> set (c_nodes c) \<or> shared_from c self_id \<noteq> None then c
                      else fst (ensure_grant (mint n) self_id c)) (map_of cs n)"
  by (induction cs) (auto simp: case_prod_beta Let_def)

lemma past_admission: "past name g b \<Longrightarrow> past name g (fst (admission_handoff mint self_id to b))"
proof -
  assume past: "past name g b"
  have "g < c_grant_id c \<Longrightarrow> g < c_grant_id (fst (ensure_grant f self_id c))" for c f
    by (cases "c_grant_id c") (auto simp: ensure_grant_def)
  thus ?thesis using past
    by (auto simp: past_def admission_handoff_def case_prod_beta Let_def broker_get_def broker_tombstone_def
        admit_each_get split: option.splits)
qed

lemma past_put: "past name g b \<Longrightarrow> n \<noteq> name \<Longrightarrow> past name g (fst (broker_put n c b))"
  by (simp add: past_def broker_put_def broker_get_def broker_tombstone_def split: option.splits)

lemma import_is_put: "\<exists>c'. fst (broker_import fresh self_id n c b) = fst (broker_put n c' b)"
  unfolding broker_import_def Let_def by (auto split: option.splits)

lemma past_import: "past name g b \<Longrightarrow> n \<noteq> name \<Longrightarrow> past name g (fst (broker_import fresh self_id n c b))"
  using import_is_put [of fresh self_id n c b] past_put by metis

lemma past_event:
  "\<lbrakk>past name g b; \<not> restores name ev; \<not> sends_untracked parse name ev\<rbrakk>
     \<Longrightarrow> past name g (run_event parse mint self_id ev b)"
proof (cases ev)
  case (Handoff sender rows)
  assume "past name g b" "\<not> sends_untracked parse name ev"
  thus ?thesis unfolding Handoff run_event.simps by (rule past_apply_handoff)
qed (simp_all add: past_apply_revoke past_revoke past_admission past_put past_import)

lemma past_events:
  "\<lbrakk>past name g b; \<forall>ev\<in>set evs. \<not> restores name ev \<and> \<not> sends_untracked parse name ev\<rbrakk>
     \<Longrightarrow> past name g (run_events parse mint self_id evs b)"
  by (induction evs arbitrary: b) (simp_all add: past_event)

text \<open>
  C6: A removed credential stays removed. After the operator removes a credential at a node, no
  sequence of handoffs, revokes, removals and admissions brings that sign-in back, refreshed or not:
  as long as the operator does not put or import the credential again and every copy sent names its
  sign-in, a copy held there under that name is of a later sign-in than the one removed.
\<close>

theorem removed_sign_in_stays_removed:
  assumes "broker_get b name = Some c"
    and "\<forall>ev\<in>set evs. \<not> restores name ev \<and> \<not> sends_untracked parse name ev"
    and "broker_get (run_events parse mint self_id evs (fst (broker_revoke name b))) name = Some c'"
  shows "c_grant_id c < c_grant_id c'"
  using past_events [OF revoke_past [OF assms(1)] assms(2), of mint self_id] assms(3) by (simp add: past_def)

definition sample_copy :: "string option \<Rightarrow> nat \<Rightarrow> credential" where
  "sample_copy g v = default_credential\<lparr>c_nodes := [''node-a'', ''node-b''], c_grant_id := g, c_grant_version := v,
     c_grant_origin := Some ''node-b''\<rparr>"

text \<open>A reader for the examples: the text of a row's credential is its sign-in.\<close>

definition sample_parse :: "json \<Rightarrow> credential option" where
  "sample_parse v = (case v of
      JStr s \<Rightarrow> Some (if s = ''untracked'' then sample_copy None 0 else sample_copy (Some s) 3) | _ \<Rightarrow> None)"

definition sample_row :: "string \<Rightarrow> json" where
  "sample_row s = JObj [(''credential'', JStr s), (''name'', JStr ''anthropic'')]"

definition sample_broker :: broker where
  "sample_broker = \<lparr>credentials = [(''anthropic'', sample_copy (Some ''0190'') 3)], revoked_map = []\<rparr>"

theorem removed_sign_in_stays_removed_witness:
  "\<exists>c c'. broker_get sample_broker ''anthropic'' = Some c
     \<and> broker_get (run_events sample_parse (\<lambda>_. []) ''node-a''
          [Handoff ''node-b'' [sample_row ''0190''], Handoff ''node-b'' [sample_row ''0191'']]
          (fst (broker_revoke ''anthropic'' sample_broker))) ''anthropic'' = Some c'
     \<and> c_grant_id c < c_grant_id c'"
proof -
  let ?evs = "[Handoff ''node-b'' [sample_row ''0190''], Handoff ''node-b'' [sample_row ''0191'']]"
  have held: "broker_get sample_broker ''anthropic'' = Some (sample_copy (Some ''0190'') 3)" by code_simp
  have evs: "\<forall>ev\<in>set ?evs. \<not> restores ''anthropic'' ev \<and> \<not> sends_untracked sample_parse ''anthropic'' ev" by code_simp
  have "broker_get (run_events sample_parse (\<lambda>_. []) ''node-a'' ?evs (fst (broker_revoke ''anthropic'' sample_broker)))
      ''anthropic'' = Some (sample_copy (Some ''0191'') 3)" by code_simp
  with held removed_sign_in_stays_removed [OF held evs this] show ?thesis by blast
qed

text \<open>
  A copy that names no sign-in undoes a removal. It is not compared with the copy held, so it
  replaces a later sign-in, and the tombstone is gone by then: the removed sign-in, sent
  again, is then taken.
\<close>

theorem untracked_copy_reopens_removed_sign_in:
  "broker_get sample_broker ''anthropic'' = Some (sample_copy (Some ''0190'') 3)
   \<and> broker_get (run_events sample_parse (\<lambda>_. []) ''node-a''
        [Rm ''anthropic'', Handoff ''node-b'' [sample_row ''0191''], Handoff ''node-b'' [sample_row ''untracked''],
         Handoff ''node-b'' [sample_row ''0190'']] sample_broker) ''anthropic''
      = Some (sample_copy (Some ''0190'') 3)"
  by code_simp

section \<open>Revokes from peers\<close>

lemma dropped_past:
  assumes "broker_get b name = Some c" and "origin c = Some sender" and "\<not> newer_grant_than c g"
  shows "snd (apply_revoke sender name g v b) = Dropped" and "past name g (fst (apply_revoke sender name g v b))"
proof -
  show "snd (apply_revoke sender name g v b) = Dropped" using assms by (simp add: apply_revoke_def Let_def)
  let ?t = "\<lparr>t_grant_id = g, t_grant_version = v, t_origin = if g = None then None else Some sender\<rparr>"
  let ?left = "if g = None then (tombstone_of c)\<lparr>t_origin := None\<rparr> else tombstone_of c"
  have "past name g (bury name ?t (bury name ?left (b\<lparr>credentials := AList.delete name (credentials b)\<rparr>)))"
    by (rule buried_past) simp_all
  thus "past name g (fst (apply_revoke sender name g v b))"
    using assms by (cases g) (simp_all add: apply_revoke_def Let_def)
qed

text \<open>
  C17: A revoke is the origin's to send. For a copy this node holds: a peer that is not the origin of the
  copy changes nothing by revoking it, and neither does the origin when the sign-in held is later than the
  one it revokes. When the sign-in held is not later than the one revoked, the origin's revoke drops the
  copy; and after that no sequence of handoffs, revokes, removals and admissions leaves under this name a
  sign-in that is not later than the revoked one, as long as every copy of it that a peer hands over names
  its sign-in and the operator does not put or import one here again.
\<close>

theorem only_the_origin_revokes:
  assumes "broker_get b name = Some c"
  shows "(origin c \<noteq> Some sender \<longrightarrow> apply_revoke sender name g v b = (b, KeptOwn))
    \<and> (g < c_grant_id c \<longrightarrow> apply_revoke sender name g v b = (b, KeptOwn))
    \<and> (origin c = Some sender \<and> c_grant_id c \<le> g \<longrightarrow>
         snd (apply_revoke sender name g v b) = Dropped
         \<and> (\<forall>evs parse mint self_id c'. (\<forall>ev\<in>set evs. \<not> restores name ev \<and> \<not> sends_untracked parse name ev) \<longrightarrow>
              broker_get (run_events parse mint self_id evs (fst (apply_revoke sender name g v b))) name = Some c' \<longrightarrow>
              g < c_grant_id c'))"
proof (intro conjI impI allI)
  assume "origin c \<noteq> Some sender"
  thus "apply_revoke sender name g v b = (b, KeptOwn)" using assms by (simp add: apply_revoke_def Let_def)
next
  assume "g < c_grant_id c"
  thus "apply_revoke sender name g v b = (b, KeptOwn)" using assms by (simp add: apply_revoke_def Let_def newer_grant_than_def)
next
  assume own: "origin c = Some sender \<and> c_grant_id c \<le> g"
  hence le: "\<not> newer_grant_than c g" by (simp add: newer_grant_than_def not_less)
  show "snd (apply_revoke sender name g v b) = Dropped" using dropped_past(1) [OF assms _ le] own by blast
  fix evs parse mint self_id c'
  assume evs: "\<forall>ev\<in>set evs. \<not> restores name ev \<and> \<not> sends_untracked parse name ev"
    and held: "broker_get (run_events parse mint self_id evs (fst (apply_revoke sender name g v b))) name = Some c'"
  have "past name g (fst (apply_revoke sender name g v b))" using dropped_past(2) [OF assms _ le] own by blast
  from past_events [OF this evs, of mint self_id] show "g < c_grant_id c'" using held by (simp add: past_def)
qed

theorem only_the_origin_revokes_witness:
  "apply_revoke ''node-c'' ''anthropic'' (Some ''0190'') 3 sample_broker = (sample_broker, KeptOwn)
   \<and> snd (apply_revoke ''node-b'' ''anthropic'' (Some ''0190'') 3 sample_broker) = Dropped"
proof -
  have held: "broker_get sample_broker ''anthropic'' = Some (sample_copy (Some ''0190'') 3)" by code_simp
  have "origin (sample_copy (Some ''0190'') 3) = Some ''node-b''" "c_grant_id (sample_copy (Some ''0190'') 3) = Some ''0190''"
    by (simp_all add: sample_copy_def origin_def)
  thus ?thesis
    using only_the_origin_revokes [OF held, of "''node-c''" "Some ''0190''" 3]
      only_the_origin_revokes [OF held, of "''node-b''" "Some ''0190''" 3] by simp
qed

section \<open>Choosing a sign-in\<close>

definition precedence_key :: "string \<Rightarrow> string \<times> credential \<Rightarrow> bool \<times> string option \<times> nat" where
  "precedence_key n a = (originates_at (snd a) n, c_grant_id (snd a), c_grant_version (snd a))"

lemma precedence_le_key:
  "precedence_le n a b \<longleftrightarrow> precedence_key n a < precedence_key n b
     \<or> precedence_key n a = precedence_key n b \<and> fst b \<le> fst a"
  by (simp only: precedence_le_def precedence_key_def Let_def)

lemma precedence_total: "precedence_le n a b \<or> precedence_le n b a"
  unfolding precedence_le_key by (cases "precedence_key n a" "precedence_key n b" rule: linorder_cases) auto

lemma precedence_trans: "precedence_le n a b \<Longrightarrow> precedence_le n b c \<Longrightarrow> precedence_le n a c"
  unfolding precedence_le_key by (elim disjE conjE) (auto intro: less_trans)

lemma foldl_max:
  assumes "\<And>a b. le a b \<or> le b a" and "\<And>a b c. le a b \<Longrightarrow> le b c \<Longrightarrow> le a c"
  shows "foldl (\<lambda>m y. if le m y then y else m) x xs \<in> set (x # xs)
    \<and> (\<forall>y\<in>set (x # xs). le y (foldl (\<lambda>m y. if le m y then y else m) x xs))"
proof (induction xs arbitrary: x)
  case Nil
  have "le x x" using assms(1) by blast
  thus ?case by simp
next
  case (Cons a xs)
  define m where "m = (if le x a then a else x)"
  define r where "r = foldl (\<lambda>m y. if le m y then y else m) m xs"
  have m: "le x m" "le a m" "m = x \<or> m = a" using assms(1) by (auto simp: m_def)
  have IH: "r \<in> set (m # xs)" "\<forall>y\<in>set (m # xs). le y r" using Cons [of m] unfolding r_def by blast+
  have "le x r" "le a r" using m IH(2) assms(2) by (meson list.set_intros(1))+
  moreover have "foldl (\<lambda>m y. if le m y then y else m) x (a # xs) = r" by (simp add: r_def m_def)
  ultimately show ?case using m(3) IH by auto
qed

lemma max_by_Some:
  assumes "\<And>a b. le a b \<or> le b a" and "\<And>a b c. le a b \<Longrightarrow> le b c \<Longrightarrow> le a c" and "max_by le xs = Some m"
  shows "m \<in> set xs \<and> (\<forall>y\<in>set xs. le y m)"
proof (cases xs)
  case (Cons y ys)
  hence "m = foldl (\<lambda>m y. if le m y then y else m) y ys" using assms(3) by simp
  moreover have "foldl (\<lambda>m y. if le m y then y else m) y ys \<in> set (y # ys)
    \<and> (\<forall>z\<in>set (y # ys). le z (foldl (\<lambda>m y. if le m y then y else m) y ys))"
    by (rule foldl_max; fact assms)
  ultimately show ?thesis unfolding Cons by blast
qed (use assms(3) in simp)

lemma max_by_None [simp]: "max_by le xs = None \<longleftrightarrow> xs = []"
  by (cases xs) simp_all

lemma model_credentialD:
  assumes "model_credential b entry base channel node_id = Some (name, c)"
  shows "(name, c) \<in> set (credentials b)" and "in_family name c entry base" and "allows c channel" and "allows_node c node_id"
    and "\<forall>(n, d) \<in> set (credentials b). in_family n d entry base \<longrightarrow> allows d channel \<longrightarrow> allows_node d node_id
            \<longrightarrow> precedence_le node_id (n, d) (name, c)"
proof -
  let ?xs = "filter (\<lambda>(n, c). allows c channel \<and> allows_node c node_id) (family b entry base)"
  have "(name, c) \<in> set ?xs \<and> (\<forall>y\<in>set ?xs. precedence_le node_id y (name, c))"
    using assms unfolding model_credential_def
    by (rule max_by_Some [rotated 2]) (rule precedence_total, rule precedence_trans)
  thus "(name, c) \<in> set (credentials b)" and "in_family name c entry base" and "allows c channel" and "allows_node c node_id"
    and "\<forall>(n, d) \<in> set (credentials b). in_family n d entry base \<longrightarrow> allows d channel \<longrightarrow> allows_node d node_id
            \<longrightarrow> precedence_le node_id (n, d) (name, c)"
    by (auto simp: family_def)
qed

section \<open>What leaves and for whom\<close>

lemma inject_Ok_model: "inject header_ok c shape = Ok i \<Longrightarrow> is_model c"
  by (auto simp: inject_def is_model_def split: if_splits)

lemma usable_Ok: "usable b name channel node_id = Ok c \<longleftrightarrow>
    broker_get b name = Some c \<and> allows c channel \<and> allows_node c node_id"
  by (auto simp: usable_def split: option.splits if_splits)

lemma inject_provider_Ok:
  assumes "inject_for_provider header_ok b entry base channel node_id shape = Ok i"
  shows "\<exists>name c. model_credential b entry base channel node_id = Some (name, c) \<and> inject header_ok c shape = Ok i"
proof (cases "model_credential b entry base channel node_id")
  case None
  obtain c where c: "broker_get b base = Some c" "allows c channel" "allows_node c node_id"
    using assms None by (auto simp: inject_for_provider_def inject_for_def bind_result_eq_Ok usable_Ok)
  hence "(base, c) \<in> set (filter (\<lambda>(n, c). allows c channel \<and> allows_node c node_id) (family b entry base))"
    by (auto simp: family_def in_family_def broker_get_def dest: map_of_SomeD)
  moreover have "filter (\<lambda>(n, c). allows c channel \<and> allows_node c node_id) (family b entry base) = []"
    using None unfolding model_credential_def max_by_None .
  ultimately show ?thesis by simp
next
  case (Some nc)
  thus ?thesis using assms by (cases nc) (simp add: inject_for_provider_def)
qed

lemma lend_vars_Ok:
  "lend_vars name vars env = Ok env' \<Longrightarrow> (k, v, who) \<in> set env' \<Longrightarrow> (k, v, who) \<in> set env \<or> who = name \<and> (k, v) \<in> set vars"
proof (induction vars arbitrary: env)
  case (Cons kv vars)
  obtain k' v' where kv: "kv = (k', v')" by (cases kv)
  have none: "map_of env k' = None" and rest: "lend_vars name vars (btree_insert k' (v', name) env) = Ok env'"
    using Cons.prems(1) by (auto simp: kv split: option.splits)
  have "(k, v, who) \<in> set (btree_insert k' (v', name) env) \<Longrightarrow> (k, v, who) \<in> set env \<or> (k, v, who) = (k', v', name)" for env
    by (induction env) (auto split: if_splits)
  thus ?case using Cons.IH [OF rest Cons.prems(2)] kv by auto
qed simp

lemma lend_all_Ok:
  "lend_all home b repo node_id names env = Ok env' \<Longrightarrow> (k, v, who) \<in> set env' \<Longrightarrow>
     (k, v, who) \<in> set env \<or> who \<in> set names \<and> (\<exists>vars. preparation_env home b who repo node_id = Ok vars \<and> (k, v) \<in> set vars)"
proof (induction names arbitrary: env)
  case (Cons name names)
  obtain vars env1 where vars: "preparation_env home b name repo node_id = Ok vars" and env1: "lend_vars name vars env = Ok env1"
    and rest: "lend_all home b repo node_id names env1 = Ok env'"
    using Cons.prems(1) by (auto simp: bind_result_eq_Ok)
  show ?case using Cons.IH [OF rest Cons.prems(2)] lend_vars_Ok [OF env1] vars by auto
qed simp

lemma preparation_env_Ok: "preparation_env home b name repo node_id = Ok vars \<longleftrightarrow>
    (\<exists>c. broker_get b name = Some c \<and> allows_node c node_id \<and> c_kind c = KIND_ENV \<and> names_repo home c repo \<and> vars = c_env c)"
  by (auto simp: preparation_env_def split: option.splits if_splits)

lemma usable_by_node_Ok: "usable_by_node b name node_id = Ok c \<longleftrightarrow>
    broker_get b name = Some c \<and> c_channels c \<noteq> [] \<and> allows_node c node_id"
  by (auto simp: usable_by_node_def split: option.splits if_splits)

lemma inject_probe_provider_Ok:
  assumes "inject_for_probe_provider header_ok b entry base node_id shape = Ok i"
  shows "\<exists>n c. (n, c) \<in> set (credentials b) \<and> in_family n c entry base \<and> c_channels c \<noteq> [] \<and> allows_node c node_id
    \<and> inject header_ok c shape = Ok i"
proof (cases "max_by (precedence_le node_id) (filter (\<lambda>(n, c). c_channels c \<noteq> [] \<and> allows_node c node_id) (family b entry base))")
  case None
  then show ?thesis using assms
    by (auto simp: inject_for_probe_provider_def inject_for_probe_def bind_result_eq_Ok usable_by_node_Ok broker_get_def
        in_family_def dest: map_of_SomeD)
next
  case (Some nc)
  have "nc \<in> set (filter (\<lambda>(n, c). c_channels c \<noteq> [] \<and> allows_node c node_id) (family b entry base))"
    by (rule conjunct1, rule max_by_Some [OF _ _ Some]) (rule precedence_total, rule precedence_trans)
  then have "(fst nc, snd nc) \<in> set (credentials b) \<and> in_family (fst nc) (snd nc) entry base
      \<and> c_channels (snd nc) \<noteq> [] \<and> allows_node (snd nc) node_id"
    by (simp add: family_def case_prod_beta)
  moreover have "inject header_ok (snd nc) shape = Ok i"
    using assms unfolding inject_for_probe_provider_def Some by (simp add: case_prod_beta)
  ultimately show ?thesis by blast
qed

lemma admitted_rows:
  "(n, c) \<in> set (fst (snd (admit_each mint self_id to cs))) \<Longrightarrow>
     \<exists>d. (n, d) \<in> set cs \<and> to \<in> set (c_nodes d) \<and> shared_from d self_id = None \<and> c_env c = c_env d"
  by (induction cs) (fastforce simp: case_prod_beta Let_def ensure_grant_def split: if_splits)+

text \<open>
  C18: The calls that serve tools, model requests, the node's own fetch and model probes, warm-ups and
  admissions let a credential's material leave the broker only where the credential is bound. A tool gets a credential's environment, and a model request that names its
  credential is signed, only for a channel and on a node the credential lists (no nodes listed is every
  node). A model request for a provider is signed only by a model credential with such a listing that has
  the provider's base name, whatever provider it lists itself, or is a sign-in \<open>base@...\<close> that lists that
  provider; and of those by one signed in here before a copy of another node's. The node's own fetch and
  its model probes have no channel: they get only a credential that lists some channel and this node, the
  probe of a provider one of the same family. A warm-up is lent only variables of environment credentials
  that name the repository themselves, on a node they list. And a node that is admitted is handed only
  credentials that list it and are not copies of another node's.
\<close>

theorem credential_leaves_only_where_bound:
  "(env_for b name channel node_id = Ok vars \<longrightarrow>
      (\<exists>c. broker_get b name = Some c \<and> channel \<in> set (c_channels c) \<and> allows_node c node_id \<and> vars = c_env c))
   \<and> (inject_for header_ok b name channel node_id shape = Ok i \<longrightarrow>
      (\<exists>c. broker_get b name = Some c \<and> is_model c \<and> channel \<in> set (c_channels c) \<and> allows_node c node_id
         \<and> inject header_ok c shape = Ok i))
   \<and> (inject_for_provider header_ok b entry base channel node_id shape = Ok i \<longrightarrow>
      (\<exists>n c. (n, c) \<in> set (credentials b) \<and> (n = base \<or> is_sign_in_name n base \<and> c_provider c = Some entry)
         \<and> is_model c \<and> channel \<in> set (c_channels c) \<and> allows_node c node_id \<and> inject header_ok c shape = Ok i
         \<and> (\<forall>(n', d) \<in> set (credentials b). in_family n' d entry base \<longrightarrow> channel \<in> set (c_channels d)
               \<longrightarrow> allows_node d node_id \<longrightarrow> originates_at d node_id \<longrightarrow> originates_at c node_id)))
   \<and> (env_for_node b name node_id = Ok vars \<longrightarrow>
      (\<exists>c. broker_get b name = Some c \<and> c_channels c \<noteq> [] \<and> allows_node c node_id \<and> vars = c_env c))
   \<and> (inject_for_probe header_ok b name node_id shape = Ok i \<longrightarrow>
      (\<exists>c. broker_get b name = Some c \<and> is_model c \<and> c_channels c \<noteq> [] \<and> allows_node c node_id
         \<and> inject header_ok c shape = Ok i))
   \<and> (inject_for_probe_provider header_ok b entry base node_id shape = Ok i \<longrightarrow>
      (\<exists>n c. (n, c) \<in> set (credentials b) \<and> (n = base \<or> is_sign_in_name n base \<and> c_provider c = Some entry)
         \<and> is_model c \<and> c_channels c \<noteq> [] \<and> allows_node c node_id \<and> inject header_ok c shape = Ok i))
   \<and> (preparation_env_all home b names repo node_id = Ok lent \<longrightarrow>
      (\<forall>(k, v) \<in> set lent. \<exists>n \<in> set names. \<exists>c. broker_get b n = Some c \<and> c_kind c = KIND_ENV
         \<and> allows_node c node_id \<and> names_repo home c repo \<and> (k, v) \<in> set (c_env c)))
   \<and> (\<forall>(n, c) \<in> set (fst (snd (admission_handoff mint node_id to b))).
        \<exists>d. (n, d) \<in> set (credentials b) \<and> to \<in> set (c_nodes d) \<and> shared_from d node_id = None \<and> c_env c = c_env d)"
proof (intro conjI impI)
  assume "env_for b name channel node_id = Ok vars"
  thus "\<exists>c. broker_get b name = Some c \<and> channel \<in> set (c_channels c) \<and> allows_node c node_id \<and> vars = c_env c"
    by (auto simp: env_for_def bind_result_eq_Ok usable_Ok allows_def)
next
  assume "inject_for header_ok b name channel node_id shape = Ok i"
  thus "\<exists>c. broker_get b name = Some c \<and> is_model c \<and> channel \<in> set (c_channels c) \<and> allows_node c node_id
      \<and> inject header_ok c shape = Ok i"
    by (auto simp: inject_for_def bind_result_eq_Ok usable_Ok allows_def dest: inject_Ok_model)
next
  assume "inject_for_provider header_ok b entry base channel node_id shape = Ok i"
  then obtain n c where m: "model_credential b entry base channel node_id = Some (n, c)" and i: "inject header_ok c shape = Ok i"
    using inject_provider_Ok by blast
  have "originates_at c node_id" if "(n', d) \<in> set (credentials b)" "in_family n' d entry base" "channel \<in> set (c_channels d)"
      "allows_node d node_id" "originates_at d node_id" for n' d
    using model_credentialD(5) [OF m] that by (auto simp: allows_def precedence_le_def Let_def less_prod_def)
  thus "\<exists>n c. (n, c) \<in> set (credentials b) \<and> (n = base \<or> is_sign_in_name n base \<and> c_provider c = Some entry)
         \<and> is_model c \<and> channel \<in> set (c_channels c) \<and> allows_node c node_id \<and> inject header_ok c shape = Ok i
         \<and> (\<forall>(n', d) \<in> set (credentials b). in_family n' d entry base \<longrightarrow> channel \<in> set (c_channels d)
               \<longrightarrow> allows_node d node_id \<longrightarrow> originates_at d node_id \<longrightarrow> originates_at c node_id)"
    using model_credentialD(1,3,4) [OF m] model_credentialD(2) [OF m, unfolded in_family_def] i inject_Ok_model [OF i]
    by (intro exI [of _ n] exI [of _ c]) (auto simp: allows_def)
next
  assume "env_for_node b name node_id = Ok vars"
  thus "\<exists>c. broker_get b name = Some c \<and> c_channels c \<noteq> [] \<and> allows_node c node_id \<and> vars = c_env c"
    by (auto simp: env_for_node_def bind_result_eq_Ok usable_by_node_Ok)
next
  assume "inject_for_probe header_ok b name node_id shape = Ok i"
  thus "\<exists>c. broker_get b name = Some c \<and> is_model c \<and> c_channels c \<noteq> [] \<and> allows_node c node_id
      \<and> inject header_ok c shape = Ok i"
    by (auto simp: inject_for_probe_def bind_result_eq_Ok usable_by_node_Ok dest: inject_Ok_model)
next
  assume "inject_for_probe_provider header_ok b entry base node_id shape = Ok i"
  from inject_probe_provider_Ok [OF this]
  show "\<exists>n c. (n, c) \<in> set (credentials b) \<and> (n = base \<or> is_sign_in_name n base \<and> c_provider c = Some entry)
         \<and> is_model c \<and> c_channels c \<noteq> [] \<and> allows_node c node_id \<and> inject header_ok c shape = Ok i"
    by (auto simp: in_family_def dest: inject_Ok_model)
next
  assume "preparation_env_all home b names repo node_id = Ok lent"
  then obtain env where env: "lend_all home b repo node_id names [] = Ok env" and lent: "lent = map (\<lambda>(k, v, _). (k, v)) env"
    by (auto simp: preparation_env_all_def bind_result_eq_Ok)
  show "\<forall>(k, v) \<in> set lent. \<exists>n \<in> set names. \<exists>c. broker_get b n = Some c \<and> c_kind c = KIND_ENV
         \<and> allows_node c node_id \<and> names_repo home c repo \<and> (k, v) \<in> set (c_env c)"
    using lend_all_Ok [OF env] by (fastforce simp: lent preparation_env_Ok)
next
  show "\<forall>(n, c) \<in> set (fst (snd (admission_handoff mint node_id to b))).
        \<exists>d. (n, d) \<in> set (credentials b) \<and> to \<in> set (c_nodes d) \<and> shared_from d node_id = None \<and> c_env c = c_env d"
    using admitted_rows [of _ _ mint node_id to "credentials b"]
    by (auto simp: admission_handoff_def case_prod_beta Let_def)
qed

definition sample_signed_in :: broker where
  "sample_signed_in = \<lparr>credentials =
     [(''anthropic'', default_credential\<lparr>c_kind := KIND_OAUTH, c_channels := [''work''], c_nodes := [''node-b'', ''node-a''],
         c_env := [(''ACCESS_TOKEN'', ''peer'')], c_grant_id := Some ''0191'', c_grant_origin := Some ''node-b''\<rparr>),
      (''anthropic@work'', default_credential\<lparr>c_kind := KIND_OAUTH, c_channels := [''work''], c_provider := Some ''claude'',
         c_env := [(''ACCESS_TOKEN'', ''own'')], c_grant_id := Some ''0190''\<rparr>),
      (''nova'', default_credential\<lparr>c_repos := [''gitlab.com/shop/**''], c_channels := [''work''], c_env := [(''TOKEN'', ''x'')]\<rparr>)],
     revoked_map = []\<rparr>"

theorem credential_leaves_only_where_bound_witness:
  "(\<exists>c. broker_get sample_signed_in ''nova'' = Some c \<and> ''work'' \<in> set (c_channels c) \<and> c_env c = [(''TOKEN'', ''x'')])
   \<and> (\<exists>n c. (n, c) \<in> set (credentials sample_signed_in) \<and> originates_at c ''node-a''
        \<and> inject (\<lambda>_. True) c ''anthropic'' = Ok (no_injection\<lparr>authorization := Some ''Bearer own'', oauth_beta := True\<rparr>))
   \<and> (\<exists>c. broker_get sample_signed_in ''nova'' = Some c \<and> c_channels c \<noteq> [] \<and> allows_node c ''node-a'')
   \<and> (\<exists>c. broker_get sample_signed_in ''nova'' = Some c \<and> c_kind c = KIND_ENV \<and> names_repo None c ''/src/gitlab.com/shop/web'')"
proof -
  let ?i = "no_injection\<lparr>authorization := Some ''Bearer own'', oauth_beta := True\<rparr>"
  have env: "env_for sample_signed_in ''nova'' ''work'' ''node-a'' = Ok [(''TOKEN'', ''x'')]" by code_simp
  have node: "env_for_node sample_signed_in ''nova'' ''node-a'' = Ok [(''TOKEN'', ''x'')]" by code_simp
  have inj: "inject_for_provider (\<lambda>_. True) sample_signed_in ''claude'' ''anthropic'' ''work'' ''node-a'' ''anthropic'' = Ok ?i"
    by code_simp
  have prep: "preparation_env_all None sample_signed_in [''nova''] ''/src/gitlab.com/shop/web'' ''node-a'' = Ok [(''TOKEN'', ''x'')]"
    by code_simp
  note bound = credential_leaves_only_where_bound [where b = sample_signed_in and name = "''nova''" and channel = "''work''"
      and node_id = "''node-a''" and vars = "[(''TOKEN'', ''x'')]" and header_ok = "\<lambda>_. True" and entry = "''claude''"
      and base = "''anthropic''" and shape = "''anthropic''" and i = ?i and home = None and names = "[''nova'']"
      and repo = "''/src/gitlab.com/shop/web''" and lent = "[(''TOKEN'', ''x'')]"]
  let ?own = "default_credential\<lparr>c_kind := KIND_OAUTH, c_channels := [''work''], c_provider := Some ''claude'',
         c_env := [(''ACCESS_TOKEN'', ''own'')], c_grant_id := Some ''0190''\<rparr>"
  have own: "(''anthropic@work'', ?own) \<in> set (credentials sample_signed_in)" by (simp add: sample_signed_in_def)
  have fits: "in_family ''anthropic@work'' ?own ''claude'' ''anthropic''" "''work'' \<in> set (c_channels ?own)"
      "allows_node ?own ''node-a''" "originates_at ?own ''node-a''"
    by code_simp+
  obtain n c where nc: "(n, c) \<in> set (credentials sample_signed_in)" "inject (\<lambda>_. True) c ''anthropic'' = Ok ?i"
      "\<forall>(n', d) \<in> set (credentials sample_signed_in). in_family n' d ''claude'' ''anthropic'' \<longrightarrow> ''work'' \<in> set (c_channels d)
               \<longrightarrow> allows_node d ''node-a'' \<longrightarrow> originates_at d ''node-a'' \<longrightarrow> originates_at c ''node-a''"
    using mp [OF conjunct1 [OF conjunct2 [OF conjunct2 [OF bound]]] inj] by blast
  have "originates_at c ''node-a''" using bspec [OF nc(3) own] fits by blast
  hence model: "\<exists>n c. (n, c) \<in> set (credentials sample_signed_in) \<and> originates_at c ''node-a''
        \<and> inject (\<lambda>_. True) c ''anthropic'' = Ok ?i"
    using nc(1,2) by blast
  have lent: "\<exists>c. broker_get sample_signed_in ''nova'' = Some c \<and> c_kind c = KIND_ENV \<and> names_repo None c ''/src/gitlab.com/shop/web''"
    using mp [OF conjunct1 [OF conjunct2 [OF conjunct2 [OF conjunct2 [OF conjunct2 [OF conjunct2 [OF conjunct2 [OF bound]]]]]]] prep]
    by auto
  have fetch: "\<exists>c. broker_get sample_signed_in ''nova'' = Some c \<and> c_channels c \<noteq> [] \<and> allows_node c ''node-a''"
    using mp [OF conjunct1 [OF conjunct2 [OF conjunct2 [OF conjunct2 [OF bound]]]] node] by auto
  have "\<exists>c. broker_get sample_signed_in ''nova'' = Some c \<and> ''work'' \<in> set (c_channels c) \<and> c_env c = [(''TOKEN'', ''x'')]"
    using mp [OF conjunct1 [OF bound] env] by auto
  with model lent fetch show ?thesis by blast
qed

section \<open>Group entries\<close>

lemma window_iff:
  "list_ex (\<lambda>e. take n (drop (e - n) xs) = want) [n ..< length xs] \<longleftrightarrow>
     (\<exists>a rest. xs = a @ want @ rest \<and> rest \<noteq> [])" if "length want = n" for n :: nat and xs want :: "'a list"
proof
  assume "list_ex (\<lambda>e. take n (drop (e - n) xs) = want) [n ..< length xs]"
  then obtain e where e: "n \<le> e" "e < length xs" "take n (drop (e - n) xs) = want" by (auto simp: list_ex_iff)
  have "xs = take (e - n) xs @ take n (drop (e - n) xs) @ drop n (drop (e - n) xs)"
    by (simp only: append_take_drop_id)
  moreover have "drop n (drop (e - n) xs) \<noteq> []" using e by simp
  ultimately show "\<exists>a rest. xs = a @ want @ rest \<and> rest \<noteq> []" using e(3) by metis
next
  assume "\<exists>a rest. xs = a @ want @ rest \<and> rest \<noteq> []"
  then obtain a rest where xs: "xs = a @ want @ rest" "rest \<noteq> []" by blast
  have "take n (drop (length a + n - n) xs) = want" using xs that by simp
  moreover have "length a + n < length xs" using xs that by simp
  ultimately show "list_ex (\<lambda>e. take n (drop (e - n) xs) = want) [n ..< length xs]"
    unfolding list_ex_iff by (intro bexI [of _ "length a + n"]) auto
qed

lemma take_eq_prefix: "length want < length xs \<and> take (length want) xs = want \<longleftrightarrow> (\<exists>rest. xs = want @ rest \<and> rest \<noteq> [])"
proof
  assume "length want < length xs \<and> take (length want) xs = want"
  thus "\<exists>rest. xs = want @ rest \<and> rest \<noteq> []" by (metis append_take_drop_id drop_eq_Nil linorder_not_less)
qed auto

lemma strip_suffix_group [simp]: "strip_suffix ''/**'' (g @ ''/**'') = Some g"
  by (simp add: strip_suffix_def ends_with_def)

text \<open>
  A group entry names the repositories strictly under its group and no others. An entry \<open>group/**\<close>
  names a repository exactly when, by whole path segments, the group's path leads the
  repository's (or, written relative, occurs in it) with at least one segment after it; a repository
  path that climbs with \<open>..\<close> is never named, nor does a group that names nothing name anything.
\<close>

theorem group_entry_names_repos_under:
  assumes "CHR ''*'' \<notin> set grp"
  shows "repos_entry_names home (grp @ ''/**'') repo \<longleftrightarrow>
    ParentDir \<notin> set (components repo) \<and> list_ex is_normal (expand_home home grp)
    \<and> (\<exists>above below. components repo = above @ expand_home home grp @ below \<and> below \<noteq> []
         \<and> (hd (expand_home home grp) = RootDir \<longrightarrow> above = []))"
proof -
  define want where "want = expand_home home grp"
  have "repos_entry_names home (grp @ ''/**'') repo \<longleftrightarrow> ParentDir \<notin> set (components repo) \<and> list_ex is_normal want
      \<and> (if hd want = RootDir then \<exists>below. components repo = want @ below \<and> below \<noteq> []
         else \<exists>above below. components repo = above @ want @ below \<and> below \<noteq> [])"
    using assms unfolding repos_entry_names_def want_def [symmetric] strip_suffix_group option.case Let_def
      window_iff [OF refl] take_eq_prefix by simp
  thus ?thesis unfolding want_def by simp
qed

theorem group_entry_names_repos_under_witness:
  "repos_entry_names None (''gitlab.com/group'' @ ''/**'') ''/src/gitlab.com/group/app''
   \<and> \<not> repos_entry_names None (''gitlab.com/group'' @ ''/**'') ''/src/gitlab.com/group2/app''"
proof -
  have names: "components ''/src/gitlab.com/group/app'' = [RootDir, Normal ''src''] @ [Normal ''gitlab.com'', Normal ''group''] @ [Normal ''app'']"
    "expand_home None ''gitlab.com/group'' = [Normal ''gitlab.com'', Normal ''group'']" by code_simp+
  have "Normal ''group'' \<notin> set (components ''/src/gitlab.com/group2/app'')" by code_simp
  moreover have "CHR ''*'' \<notin> set ''gitlab.com/group''" by simp
  ultimately show ?thesis
    using group_entry_names_repos_under [of "''gitlab.com/group''" None "''/src/gitlab.com/group/app''"]
      group_entry_names_repos_under [of "''gitlab.com/group''" None "''/src/gitlab.com/group2/app''"]
    unfolding names by fastforce
qed

end
