(* ===== verification/Upstream.thy ===== *)
theory Upstream
  imports Broker Egress
begin

text \<open>
  Hosts the node attaches a stored credential to: the \<open>[upstreams]\<close> table and its checks
  (\<^verbatim>\<open>src/node/src/config/upstreams.rs\<close>), the header a credential becomes (\<^verbatim>\<open>src/node/src/broker/upstream.rs\<close>), and the
  headers of a request the proxy sends on to such a host (\<open>forward_upstream\<close> in
  \<^verbatim>\<open>src/node/src/gateway/proxy.rs\<close>).

  Reading JSON, base64, Unicode lower case and what may stand in a header are the record
  \<open>header_libs\<close>. A \<open>HeaderMap\<close> is the list of its entries, the names in lower case.
\<close>

record header_libs =
  json_read :: "string \<Rightarrow> json option"
  b64_encode :: "string \<Rightarrow> string"
  to_lowercase :: "string \<Rightarrow> string"
  name_ok :: "string \<Rightarrow> bool"
  value_ok :: "string \<Rightarrow> bool"
  header_text :: "string \<Rightarrow> string option"

section \<open>The table\<close>

datatype preparation_lending = LendEnv | LendAttach

datatype attach = Attach_Basic | Attach_Header | Attach_Composer

record upstream =
  up_host :: string
  up_credential :: string
  up_attach :: attach
  up_header :: string
  up_value :: string
  up_username :: string
  up_password :: string
  up_sessions :: bool

record upstreams =
  us_preparation :: preparation_lending
  us_host :: "upstream list"

definition DEFAULT_HEADER :: string where
  "DEFAULT_HEADER = ''authorization''"

definition RESERVED_HEADERS :: "string list" where
  "RESERVED_HEADERS = [''host'', ''connection'', ''content-length'', ''transfer-encoding'', ''te'', ''trailer'',
     ''upgrade'', ''keep-alive'', ''proxy-authorization'', ''proxy-authenticate'', ''proxy-connection'']"

definition header_name :: "header_libs \<Rightarrow> upstream \<Rightarrow> string" where
  "header_name l u =
     (if up_attach u = Attach_Header \<and> trim (up_header u) \<noteq> [] then to_lowercase l (trim (up_header u)) else DEFAULT_HEADER)"

definition for_credential :: "upstreams \<Rightarrow> string \<Rightarrow> upstream list" where
  "for_credential us credential = filter (\<lambda>u. up_credential u = credential) (us_host us)"

text \<open>The \<open>${NAME}\<close> references of a template, in order.\<close>

definition is_var_name :: "string \<Rightarrow> bool" where
  "is_var_name name \<longleftrightarrow> name \<noteq> [] \<and> list_all (\<lambda>c. is_alnum c \<or> c = CHR ''_'') name"

function template_names :: "string \<Rightarrow> (template_error, string list) result" where
  "template_names rest =
     (case split_once ''${'' rest of
        None \<Rightarrow> Ok []
      | Some (_, after) \<Rightarrow>
          (case split_once ''}'' after of
             None \<Rightarrow> Err Unclosed
           | Some (name, rest') \<Rightarrow>
               if \<not> is_var_name name then Err (NotAName name)
               else bind_result (template_names rest') (\<lambda>names. Ok (name # names))))"
  by pat_completeness auto
termination
  by (relation "measure length") (auto dest!: split_once_Some)

declare template_names.simps [simp del]

definition literal_host :: "string \<Rightarrow> bool" where
  "literal_host v \<longleftrightarrow> CHR ''.'' \<in> set v \<and> length v \<le> 253
     \<and> list_all (\<lambda>l. l \<noteq> [] \<and> hd l \<noteq> CHR ''-'' \<and> last l \<noteq> CHR ''-''
                    \<and> list_all (\<lambda>b. is_lower b \<or> is_digit b \<or> b = CHR ''-'') l) (split_on (CHR ''.'') v)"

datatype upstreams_error =
    NotAHostName string | DeclaredTwice string | BadCredentialName string | MeansNothing string string
  | NeedsBoth string | FieldTemplate string string template_error | LiteralSecret string string
  | BadHeaderName string string | ReservedHeader string string

definition unused :: "string \<Rightarrow> string \<Rightarrow> string \<Rightarrow> (upstreams_error, unit) result" where
  "unused host field v = (if v = [] then Ok () else Err (MeansNothing host field))"

definition template_field :: "string \<Rightarrow> string \<Rightarrow> string \<Rightarrow> (upstreams_error, string list) result" where
  "template_field host field t = (case template_names t of Err e \<Rightarrow> Err (FieldTemplate host field e) | Ok ns \<Rightarrow> Ok ns)"

definition check_attach :: "header_libs \<Rightarrow> upstream \<Rightarrow> (upstreams_error, unit) result" where
  "check_attach l u =
     (let host = up_host u in
      case up_attach u of
        Attach_Basic \<Rightarrow>
          bind_result (unused host ''header'' (up_header u)) (\<lambda>_.
          bind_result (unused host ''value'' (up_value u)) (\<lambda>_.
            if up_username u = [] \<or> up_password u = [] then Err (NeedsBoth host)
            else bind_result (template_field host ''username'' (up_username u)) (\<lambda>_.
                 bind_result (template_field host ''password'' (up_password u)) (\<lambda>ns.
                   if ns = [] then Err (LiteralSecret host ''password'') else Ok ()))))
      | Attach_Header \<Rightarrow>
          bind_result (unused host ''username'' (up_username u)) (\<lambda>_.
          bind_result (unused host ''password'' (up_password u)) (\<lambda>_.
            if \<not> name_ok l (header_name l u) then Err (BadHeaderName host (header_name l u))
            else if header_name l u \<in> set RESERVED_HEADERS then Err (ReservedHeader host (header_name l u))
            else bind_result (template_field host ''value'' (up_value u)) (\<lambda>ns.
                   if ns = [] then Err (LiteralSecret host ''value'') else Ok ())))
      | Attach_Composer \<Rightarrow>
          bind_result (unused host ''header'' (up_header u)) (\<lambda>_.
          bind_result (unused host ''value'' (up_value u)) (\<lambda>_.
          bind_result (unused host ''username'' (up_username u)) (\<lambda>_.
            unused host ''password'' (up_password u)))))"

fun validate_each :: "header_libs \<Rightarrow> string list \<Rightarrow> upstream list \<Rightarrow> (upstreams_error, unit) result" where
  "validate_each l seen [] = Ok ()"
| "validate_each l seen (u # us) =
     (if \<not> literal_host (up_host u) then Err (NotAHostName (up_host u))
      else if up_host u \<in> set seen then Err (DeclaredTwice (up_host u))
      else if trim (up_credential u) = [] \<or> trim (up_credential u) \<noteq> up_credential u then Err (BadCredentialName (up_host u))
      else bind_result (check_attach l u) (\<lambda>_. validate_each l (seen @ [up_host u]) us))"

definition validate_upstreams :: "header_libs \<Rightarrow> upstreams \<Rightarrow> (upstreams_error, unit) result" where
  "validate_upstreams l us = validate_each l [] (us_host us)"

section \<open>The header a credential becomes\<close>

definition unusable :: "upstream \<Rightarrow> upstream_why \<Rightarrow> broker_error" where
  "unusable u why = Upstream_Error (up_credential u) (up_host u) why"

text \<open>\<open>replacen(pattern, value, 1)\<close>.\<close>

definition replace_first :: "string \<Rightarrow> string \<Rightarrow> string \<Rightarrow> string" where
  "replace_first pat v s = (case split_once pat s of Some (a, b) \<Rightarrow> a @ v @ b | None \<Rightarrow> s)"

fun fill_names :: "upstream \<Rightarrow> string \<Rightarrow> (string \<times> string) list \<Rightarrow> string list \<Rightarrow> string \<Rightarrow> (broker_error, string) result" where
  "fill_names u field env [] out = Ok out"
| "fill_names u field env (name # names) out =
     (case map_of env name of
        None \<Rightarrow> Err (unusable u (VariableUnset field name))
      | Some v \<Rightarrow> fill_names u field env names (replace_first (''${'' @ name @ ''}'') v out))"

definition fill :: "upstream \<Rightarrow> string \<Rightarrow> string \<Rightarrow> (string \<times> string) list \<Rightarrow> (broker_error, string) result" where
  "fill u field t env =
     (case template_names t of
        Err e \<Rightarrow> Err (unusable u (BadTemplate e))
      | Ok names \<Rightarrow> fill_names u field env names t)"

definition basic_header :: "header_libs \<Rightarrow> string \<Rightarrow> string \<Rightarrow> string" where
  "basic_header l username password = ''Basic '' @ b64_encode l (username @ '':'' @ password)"

definition from_composer_auth :: "header_libs \<Rightarrow> upstream \<Rightarrow> string \<Rightarrow> (broker_error, string) result" where
  "from_composer_auth l u document =
     (case json_read l document of
        None \<Rightarrow> Err (unusable u ComposerNotJson)
      | Some parsed \<Rightarrow>
          (case jget (jindex parsed ''http-basic'') (up_host u) of
             Some entry \<Rightarrow>
               (case (as_str (jindex entry ''username''), as_str (jindex entry ''password'')) of
                  (Some username, Some password) \<Rightarrow> Ok (basic_header l username password)
                | _ \<Rightarrow> Err (unusable u ComposerIncomplete))
           | None \<Rightarrow>
               (case Option.bind (jget (jindex parsed ''bearer'') (up_host u)) as_str of
                  Some token \<Rightarrow> Ok (''Bearer '' @ token)
                | None \<Rightarrow> Err (unusable u ComposerNoEntry))))"

definition rendered :: "header_libs \<Rightarrow> upstream \<Rightarrow> (string \<times> string) list \<Rightarrow> (broker_error, string) result" where
  "rendered l u env =
     (case up_attach u of
        Attach_Basic \<Rightarrow>
          bind_result (fill u ''username'' (up_username u) env) (\<lambda>username.
          bind_result (fill u ''password'' (up_password u) env) (\<lambda>password. Ok (basic_header l username password)))
      | Attach_Header \<Rightarrow> fill u ''value'' (up_value u) env
      | Attach_Composer \<Rightarrow>
          (case map_of env ''COMPOSER_AUTH'' of
             None \<Rightarrow> Err (unusable u ComposerUnset)
           | Some document \<Rightarrow> from_composer_auth l u document))"

definition render :: "header_libs \<Rightarrow> upstream \<Rightarrow> (string \<times> string) list \<Rightarrow> (broker_error, attachment) result" where
  "render l u env =
     bind_result (rendered l u env) (\<lambda>v.
       if \<not> name_ok l (header_name l u) then Err (unusable u NotAHeaderName)
       else if \<not> value_ok l v then Err (unusable u NotAHeaderValue)
       else Ok \<lparr>at_host = lowercase (up_host u), at_credential = up_credential u, at_name = header_name l u, at_value = v\<rparr>)"

definition attach_for_preparation :: "header_libs \<Rightarrow> string option \<Rightarrow> broker \<Rightarrow> upstream \<Rightarrow> string \<Rightarrow> string
    \<Rightarrow> (broker_error, attachment) result" where
  "attach_for_preparation l home b u repo node_id =
     bind_result (preparation_env home b (up_credential u) repo node_id) (render l u)"

definition attach_for_session :: "header_libs \<Rightarrow> broker \<Rightarrow> upstream \<Rightarrow> string \<Rightarrow> string \<Rightarrow> (broker_error, attachment) result" where
  "attach_for_session l b u channel node_id =
     bind_result (usable b (up_credential u) channel node_id) (\<lambda>c.
       if c_kind c \<noteq> KIND_ENV then Err (NotEnv (up_credential u)) else render l u (c_env c))"

definition session_attachments :: "header_libs \<Rightarrow> broker \<Rightarrow> upstreams \<Rightarrow> string \<Rightarrow> string \<Rightarrow> attachment list" where
  "session_attachments l b us channel node_id =
     List.map_filter (\<lambda>u. case attach_for_session l b u channel node_id of Ok a \<Rightarrow> Some a | Err e \<Rightarrow> None)
       (filter up_sessions (us_host us))"

datatype attachments_error = NoDeclaredUpstream string | NotAttached broker_error

fun attach_each :: "header_libs \<Rightarrow> string option \<Rightarrow> broker \<Rightarrow> string \<Rightarrow> string \<Rightarrow> upstream list
    \<Rightarrow> (attachments_error, attachment list) result" where
  "attach_each l home b repo node_id [] = Ok []"
| "attach_each l home b repo node_id (u # us) =
     (case attach_for_preparation l home b u repo node_id of
        Err e \<Rightarrow> Err (NotAttached e)
      | Ok a \<Rightarrow> bind_result (attach_each l home b repo node_id us) (\<lambda>as. Ok (a # as)))"

fun attachments :: "header_libs \<Rightarrow> string option \<Rightarrow> broker \<Rightarrow> string \<Rightarrow> upstreams \<Rightarrow> string \<Rightarrow> string list
    \<Rightarrow> (attachments_error, attachment list) result" where
  "attachments l home b repo us node_id [] = Ok []"
| "attachments l home b repo us node_id (name # names) =
     (let declared = for_credential us name
      in if declared = [] then Err (NoDeclaredUpstream name)
         else bind_result (attach_each l home b repo node_id declared) (\<lambda>as.
              bind_result (attachments l home b repo us node_id names) (\<lambda>bs. Ok (as @ bs))))"

section \<open>The request sent on\<close>

type_synonym headers = "(string \<times> string) list"

definition header_remove :: "string \<Rightarrow> headers \<Rightarrow> headers" where
  "header_remove n hs = filter (\<lambda>(k, v). k \<noteq> n) hs"

definition header_insert :: "string \<Rightarrow> string \<Rightarrow> headers \<Rightarrow> headers" where
  "header_insert n v hs = header_remove n hs @ [(n, v)]"

definition get_all :: "string \<Rightarrow> headers \<Rightarrow> string list" where
  "get_all n hs = map snd (filter (\<lambda>(k, v). k = n) hs)"

definition HOP_BY_HOP :: "string list" where
  "HOP_BY_HOP = [''connection'', ''proxy-connection'', ''keep-alive'', ''proxy-authorization'', ''proxy-authenticate'',
     ''te'', ''trailer'', ''upgrade'']"

definition named_by_connection :: "header_libs \<Rightarrow> headers \<Rightarrow> string list" where
  "named_by_connection l hs =
     filter (\<lambda>n. n \<noteq> []) (map (\<lambda>n. lowercase (trim n))
       (concat (map (split_on (CHR '','')) (List.map_filter (header_text l) (get_all ''connection'' hs)))))"

definition forward_headers :: "header_libs \<Rightarrow> attachment \<Rightarrow> headers \<Rightarrow> headers option" where
  "forward_headers l att hs =
     (let hs1 = fold header_remove (HOP_BY_HOP @ named_by_connection l hs) hs;
          hs2 = header_remove (at_name att) (header_remove ''authorization'' hs1)
      in if \<not> value_ok l (at_host att) then None
         else Some (header_insert (at_name att) (at_value att) (header_insert ''host'' (at_host att) hs2)))"

section \<open>Templates\<close>

text \<open>The reference: each \<open>${NAME}\<close> stands for the variable's value, all at once.\<close>

function expand :: "(string \<times> string) list \<Rightarrow> string \<Rightarrow> string option" where
  "expand env t =
     (case split_once ''${'' t of
        None \<Rightarrow> Some t
      | Some (lit, after) \<Rightarrow>
          (case split_once ''}'' after of
             None \<Rightarrow> None
           | Some (name, rest) \<Rightarrow>
               if \<not> is_var_name name then None
               else (case map_of env name of
                 None \<Rightarrow> None
               | Some v \<Rightarrow> map_option (\<lambda>r. lit @ v @ r) (expand env rest))))"
  by pat_completeness auto
termination
  by (relation "measure (length \<circ> snd)") (auto dest!: split_once_Some)

declare expand.simps [simp del]

text \<open>A value that neither opens a reference nor completes one with the text around it.\<close>

definition plain_value :: "string \<Rightarrow> bool" where
  "plain_value v \<longleftrightarrow> v \<noteq> [] \<and> CHR ''$'' \<notin> set v \<and> hd v \<noteq> CHR ''{''"

definition opens_none :: "string \<Rightarrow> bool" where
  "opens_none s \<longleftrightarrow> \<not> contains_str s ''${''"

lemma opens_none_Cons:
  "opens_none (c # s) \<longleftrightarrow> opens_none s \<and> \<not> (c = CHR ''$'' \<and> s \<noteq> [] \<and> hd s = CHR ''{'')"
proof -
  have "contains_str (c # s) ''${'' \<longleftrightarrow> contains_str s ''${'' \<or> (c = CHR ''$'' \<and> s \<noteq> [] \<and> hd s = CHR ''{'')"
    unfolding contains_str_def by (subst split_once.simps) (cases s; auto split: option.split)
  thus ?thesis by (auto simp: opens_none_def)
qed

lemma opens_none_Nil [simp]: "opens_none []"
  by (auto simp: opens_none_def contains_str_iff)

lemma opens_none_append:
  "opens_none (a @ b) \<longleftrightarrow> opens_none a \<and> opens_none b \<and> \<not> (a \<noteq> [] \<and> b \<noteq> [] \<and> last a = CHR ''$'' \<and> hd b = CHR ''{'')"
  by (induction a) (auto simp: opens_none_Cons hd_append)

lemma plain_opens_none: "CHR ''$'' \<notin> set v \<Longrightarrow> opens_none v"
  by (auto simp: opens_none_def contains_str_iff)

lemma split_once_opens_none:
  "opens_none a \<Longrightarrow> split_once (''${'' @ n) (a @ ''${'' @ n @ b) = Some (a, b)"
proof (induction a)
  case Nil
  have "strip_prefix (''${'' @ n) (''${'' @ n @ b) = Some b" by (simp only: strip_prefix_Some append_assoc)
  thus ?case by (subst split_once.simps) simp
next
  case (Cons c a)
  have "strip_prefix (''${'' @ n) (c # a @ ''${'' @ n @ b) = None"
    using Cons.prems by (cases a) (auto simp: opens_none_Cons strip_prefix_None)
  thus ?case using Cons by (subst split_once.simps) (simp add: opens_none_Cons)
qed

lemma split_once_opens_lit: "split_once ''${'' t = Some (lit, after) \<Longrightarrow> opens_none lit"
proof (induction lit arbitrary: t)
  case (Cons c lit)
  have t: "strip_prefix ''${'' t = None" "t \<noteq> []" and rest: "split_once ''${'' (tl t) = Some (lit, after)" and hd: "hd t = c"
    using Cons.prems by (subst (asm) split_once.simps; auto split: option.splits list.splits)+
  have "tl t = lit @ ''${'' @ after" using split_once_Some [OF rest] .
  hence "t = c # lit @ ''${'' @ after" using t(2) hd by (cases t) auto
  hence "\<not> (c = CHR ''$'' \<and> lit \<noteq> [] \<and> hd lit = CHR ''{'')" using t(1) by (cases lit) (auto simp: strip_prefix_None)
  thus ?case using Cons.IH [OF rest] by (simp add: opens_none_Cons)
qed simp

lemma fill_names_expand:
  assumes "\<forall>(k, v)\<in>set env. plain_value v"
  shows "template_names t = Ok names \<Longrightarrow> opens_none before \<Longrightarrow>
     (before = [] \<or> last before \<noteq> CHR ''$'') \<Longrightarrow>
     fill_names u field env names (before @ t) = Ok out \<longleftrightarrow> (\<exists>r. expand env t = Some r \<and> out = before @ r)"
proof (induction t arbitrary: names before rule: template_names.induct)
  case (1 t)
  show ?case
  proof (cases "split_once ''${'' t")
    case None
    hence "names = []" using 1(2) by (subst (asm) template_names.simps) simp
    thus ?thesis using None by (subst expand.simps) auto
  next
    case (Some la)
    obtain lit after where la: "la = (lit, after)" by (cases la)
    obtain name rest names' where close: "split_once ''}'' after = Some (name, rest)" and nm: "is_var_name name"
      and rest: "template_names rest = Ok names'" and names: "names = name # names'"
      using 1(2) Some la by (subst (asm) template_names.simps) (auto simp: bind_result_eq_Ok split: option.splits if_splits)
    have t: "t = lit @ ''${'' @ name @ ''}'' @ rest"
      using split_once_Some [OF Some [unfolded la]] split_once_Some [OF close] by simp
    show ?thesis
    proof (cases "map_of env name")
      case None
      thus ?thesis using Some la close nm names by (subst expand.simps) simp
    next
      case val: (Some v)
      have v: "plain_value v" using assms map_of_SomeD [OF val] by auto
      have lit: "opens_none (before @ lit)"
        using 1(3,4) split_once_opens_lit [OF Some [unfolded la]] by (auto simp: opens_none_append)
      have "replace_first (''${'' @ name @ ''}'') v (before @ t) = (before @ lit @ v) @ rest"
        using split_once_opens_none [OF lit, of "name @ ''}''" rest] unfolding replace_first_def t by simp
      moreover have "opens_none (before @ lit @ v)"
        using lit v plain_opens_none [of v] opens_none_append [of "before @ lit" v] by (auto simp: plain_value_def)
      moreover have "before @ lit @ v \<noteq> []" "last (before @ lit @ v) \<noteq> CHR ''$''"
        using v last_in_set [of v] unfolding plain_value_def by (metis append_is_Nil_conv, metis append_is_Nil_conv last_appendR)
      ultimately have "fill_names u field env names (before @ t) = Ok out \<longleftrightarrow>
          (\<exists>r. expand env rest = Some r \<and> out = (before @ lit @ v) @ r)"
        using 1(1) [OF Some la [symmetric] close refl _ rest, of "before @ lit @ v"] nm val names by simp
      moreover have "expand env t = map_option (\<lambda>r. lit @ v @ r) (expand env rest)"
        using Some la close nm val by (subst expand.simps) simp
      ultimately show ?thesis by auto
    qed
  qed
qed

lemma expand_needs_template: "expand env t = Some r \<Longrightarrow> \<exists>names. template_names t = Ok names"
proof (induction env t arbitrary: r rule: expand.induct)
  case (1 env t)
  show ?case
  proof (cases "split_once ''${'' t")
    case None
    thus ?thesis by (subst template_names.simps) simp
  next
    case (Some la)
    obtain lit after where la: "la = (lit, after)" by (cases la)
    obtain name rest v r' where close: "split_once ''}'' after = Some (name, rest)" and nm: "is_var_name name"
      and val: "map_of env name = Some v" and rest: "expand env rest = Some r'"
      using 1(2) Some la by (subst (asm) expand.simps) (auto split: option.splits if_splits)
    obtain names where "template_names rest = Ok names"
      using 1(1) [OF Some la [symmetric] close refl _ val rest] nm by blast
    thus ?thesis using Some la close nm by (subst template_names.simps) simp
  qed
qed

text \<open>
  Filling a template is substitution. When no value of the credential is empty, holds a dollar
  sign or begins with a brace, replacing the references one after the other in the text gives
  exactly the template with every \<open>${NAME}\<close> replaced by its value, and fails exactly when the
  template is not well formed or names a variable the credential does not set.
\<close>

theorem fill_is_substitution:
  assumes "\<forall>(k, v)\<in>set env. plain_value v"
  shows "fill u field t env = Ok out \<longleftrightarrow> expand env t = Some out"
proof (cases "template_names t")
  case (Inl e)
  hence "expand env t = None" using expand_needs_template [of env t] by (cases "expand env t") auto
  thus ?thesis using Inl by (simp add: fill_def)
next
  case (Inr names)
  thus ?thesis using fill_names_expand [OF assms Inr, of "[]" u field out] by (simp add: fill_def)
qed

text \<open>A value that holds a reference is itself filled in.\<close>

lemma fill_reaches_into_values:
  "fill u ''password'' ''${A}:${B}'' [(''A'', ''${B}''), (''B'', ''secret'')] = Ok ''secret:${B}''
   \<and> expand [(''A'', ''${B}''), (''B'', ''secret'')] ''${A}:${B}'' = Some ''${B}:secret''"
  by code_simp

theorem fill_is_substitution_witness:
  "fill \<lparr>up_host = ''nova.laravel.com'', up_credential = ''nova'', up_attach = Attach_Header, up_header = [],
      up_value = ''Bearer ${TOKEN}'', up_username = [], up_password = [], up_sessions = True\<rparr>
     ''value'' ''Bearer ${TOKEN}'' [(''TOKEN'', ''tok-1'')] = Ok ''Bearer tok-1''"
proof -
  have "\<forall>(k, v)\<in>set [(''TOKEN'', ''tok-1'')]. plain_value v" by (simp add: plain_value_def)
  moreover have "expand [(''TOKEN'', ''tok-1'')] ''Bearer ${TOKEN}'' = Some ''Bearer tok-1''" by code_simp
  ultimately show ?thesis by (simp only: fill_is_substitution)
qed

section \<open>What reaches the host\<close>

lemma get_all_remove: "get_all n (header_remove m hs) = (if n = m then [] else get_all n hs)"
  by (induction hs) (auto simp: get_all_def header_remove_def)

lemma get_all_insert: "get_all n (header_insert m v hs) = (if n = m then [v] else get_all n hs)"
  using get_all_remove [of n m hs] by (simp add: header_insert_def get_all_def)

lemma get_all_removes: "get_all n (fold header_remove ns hs) = (if n \<in> set ns then [] else get_all n hs)"
  by (induction ns arbitrary: hs) (auto simp: get_all_remove)

lemma forward_headers_get_all:
  assumes "forward_headers l att hs = Some hs'"
  shows "get_all n hs' =
    (if n = at_name att then [at_value att] else if n = ''host'' then [at_host att]
     else if n = ''authorization'' \<or> n \<in> set HOP_BY_HOP \<or> n \<in> set (named_by_connection l hs) then []
     else get_all n hs)"
  using assms by (auto simp: forward_headers_def Let_def get_all_insert get_all_remove get_all_removes split: if_splits)

lemma unused_Ok [simp]: "unused host field v = Ok x \<longleftrightarrow> v = []"
  by (simp add: unused_def)

lemma check_attach_header:
  assumes "check_attach l u = Ok ()"
  shows "header_name l u \<notin> set RESERVED_HEADERS"
proof (cases "up_attach u = Attach_Header")
  case True
  thus ?thesis using assms by (auto simp: check_attach_def Let_def bind_result_eq_Ok split: if_splits)
next
  case False
  hence "header_name l u = DEFAULT_HEADER" by (simp add: header_name_def)
  thus ?thesis by (simp add: DEFAULT_HEADER_def RESERVED_HEADERS_def)
qed

lemma validate_each_Ok:
  "validate_each l seen us = Ok () \<Longrightarrow> u \<in> set us \<Longrightarrow>
     literal_host (up_host u) \<and> header_name l u \<notin> set RESERVED_HEADERS \<and> up_host u \<notin> set seen"
proof (induction us arbitrary: seen)
  case (Cons a us)
  have "literal_host (up_host a)" "up_host a \<notin> set seen" "check_attach l a = Ok ()" "validate_each l (seen @ [up_host a]) us = Ok ()"
    using Cons.prems(1) by (auto simp: bind_result_eq_Ok split: if_splits)
  thus ?case using Cons.IH [of "seen @ [up_host a]"] Cons.prems(2) check_attach_header by auto
qed simp

lemma validate_each_distinct:
  "validate_each l seen us = Ok () \<Longrightarrow> distinct (map up_host us)"
proof (induction us arbitrary: seen)
  case (Cons a us)
  have rest: "validate_each l (seen @ [up_host a]) us = Ok ()"
    using Cons.prems by (auto simp: bind_result_eq_Ok split: if_splits)
  have "up_host a \<notin> set (map up_host us)" using validate_each_Ok [OF rest] by force
  thus ?case using Cons.IH [OF rest] by simp
qed simp

lemma literal_lowercase:
  assumes "literal_host h"
  shows "lowercase h = h"
proof -
  have "lower c = c" if "c \<in> set h" for c
  proof -
    have "c = CHR ''.'' \<or> (\<exists>p \<in> set (split_on (CHR ''.'') h). c \<in> set p)" by (rule split_on_chars [OF that])
    moreover have "is_lower c \<or> is_digit c \<or> c = CHR ''-''" if "p \<in> set (split_on (CHR ''.'') h)" "c \<in> set p" for p
      using assms that by (auto simp: literal_host_def list_all_iff)
    ultimately show ?thesis using host_char(1) by blast
  qed
  thus ?thesis unfolding lowercase_def by (simp add: map_idI)
qed

lemma render_Ok:
  "render l u env = Ok att \<Longrightarrow> at_host att = lowercase (up_host u) \<and> at_name att = header_name l u
     \<and> at_credential att = up_credential u \<and> rendered l u env = Ok (at_value att)"
  by (auto simp: render_def bind_result_eq_Ok split: if_splits)

lemma session_attachmentD:
  assumes "att \<in> set (session_attachments l b us channel node_id)"
  shows "\<exists>u c. u \<in> set (us_host us) \<and> up_sessions u \<and> broker_get b (up_credential u) = Some c \<and> allows c channel
      \<and> allows_node c node_id \<and> c_kind c = KIND_ENV \<and> render l u (c_env c) = Ok att"
proof -
  obtain u where u: "u \<in> set (us_host us)" "up_sessions u" "attach_for_session l b u channel node_id = Ok att"
    using assms by (auto simp: session_attachments_def map_filter_def split: sum.splits)
  obtain c where "usable b (up_credential u) channel node_id = Ok c" "c_kind c = KIND_ENV" "render l u (c_env c) = Ok att"
    using u(3) by (auto simp: attach_for_session_def bind_result_eq_Ok split: if_splits)
  thus ?thesis using u(1,2) unfolding usable_Ok by blast
qed

text \<open>
  C16: A session's attached credential is sent to its declared host and nothing of the client's goes with it.
  With a table that passed its checks, each credential attached for a session is one bound to
  the session's channel and node, of an upstream that opts sessions in, and only for that
  upstream's host. A request sent on carries the node's value as the only value of the
  attached header and the declared host as its \<open>Host\<close>; no other \<open>Authorization\<close>, nothing said to
  the proxy, and none of the headers \<open>Connection\<close> names reaches the host; all other headers
  pass unchanged.
\<close>

theorem attached_credential_reaches_only_its_host:
  assumes "validate_upstreams l us = Ok ()" and "att \<in> set (session_attachments l b us channel node_id)"
    and "forward_headers l att hs = Some hs'"
  shows "\<exists>u \<in> set (us_host us). \<exists>c. up_sessions u \<and> at_host att = up_host u
      \<and> broker_get b (up_credential u) = Some c \<and> channel \<in> set (c_channels c) \<and> allows_node c node_id \<and> c_kind c = KIND_ENV
      \<and> rendered l u (c_env c) = Ok (at_value att)
      \<and> (\<forall>n. get_all n hs' = (if n = header_name l u then [at_value att] else if n = ''host'' then [up_host u]
            else if n = ''authorization'' \<or> n \<in> set HOP_BY_HOP \<or> n \<in> set (named_by_connection l hs) then [] else get_all n hs))
      \<and> header_name l u \<notin> insert ''host'' (set HOP_BY_HOP)"
proof -
  obtain u c where u: "u \<in> set (us_host us)" "up_sessions u" and c: "broker_get b (up_credential u) = Some c" "allows c channel"
      "allows_node c node_id" "c_kind c = KIND_ENV" and att: "render l u (c_env c) = Ok att"
    using session_attachmentD [OF assms(2)] by blast
  have valid: "literal_host (up_host u)" "header_name l u \<notin> set RESERVED_HEADERS"
    using validate_each_Ok [OF assms(1) [unfolded validate_upstreams_def] u(1)] by simp_all
  note rendered = render_Ok [OF att]
  have host: "at_host att = up_host u" using rendered literal_lowercase [OF valid(1)] by simp
  have reserved: "header_name l u \<notin> insert ''host'' (set HOP_BY_HOP)"
    using valid(2) by (auto simp: RESERVED_HEADERS_def HOP_BY_HOP_def)
  have "\<forall>n. get_all n hs' = (if n = header_name l u then [at_value att] else if n = ''host'' then [up_host u]
            else if n = ''authorization'' \<or> n \<in> set HOP_BY_HOP \<or> n \<in> set (named_by_connection l hs) then [] else get_all n hs)"
    using forward_headers_get_all [OF assms(3)] rendered host by simp
  thus ?thesis using u c host rendered reserved unfolding allows_def by blast
qed

definition sample_libs :: header_libs where
  "sample_libs = \<lparr>json_read = (\<lambda>_. None), b64_encode = (\<lambda>s. s), to_lowercase = lowercase, name_ok = (\<lambda>_. True),
     value_ok = (\<lambda>_. True), header_text = Some\<rparr>"

definition sample_upstreams :: upstreams where
  "sample_upstreams = \<lparr>us_preparation = LendAttach, us_host = [\<lparr>up_host = ''nova.laravel.com'', up_credential = ''nova'',
     up_attach = Attach_Header, up_header = [], up_value = ''Bearer ${TOKEN}'', up_username = [], up_password = [], up_sessions = True\<rparr>]\<rparr>"

definition sample_attachment :: attachment where
  "sample_attachment = \<lparr>at_host = ''nova.laravel.com'', at_credential = ''nova'', at_name = ''authorization'', at_value = ''Bearer x''\<rparr>"

definition sample_headers :: headers where
  "sample_headers = [(''authorization'', ''Bearer placeholder''), (''connection'', ''close, X-Hop''), (''x-hop'', ''1''),
     (''accept'', ''*''), (''host'', ''evil.example'')]"

theorem attached_credential_reaches_only_its_host_witness:
  "\<exists>hs'. forward_headers sample_libs sample_attachment sample_headers = Some hs'
     \<and> get_all ''authorization'' hs' = [''Bearer x''] \<and> get_all ''host'' hs' = [''nova.laravel.com'']
     \<and> get_all ''connection'' hs' = []"
proof -
  have valid: "validate_upstreams sample_libs sample_upstreams = Ok ()" by code_simp
  have "session_attachments sample_libs sample_signed_in sample_upstreams ''work'' ''node-a'' = [sample_attachment]" by code_simp
  hence att: "sample_attachment \<in> set (session_attachments sample_libs sample_signed_in sample_upstreams ''work'' ''node-a'')"
    by simp
  have trim_empty: "trim [] = []" by code_simp
  obtain hs' where hs': "forward_headers sample_libs sample_attachment sample_headers = Some hs'"
    by (simp add: forward_headers_def sample_libs_def Let_def)
  have u: "u \<in> set (us_host sample_upstreams) \<Longrightarrow> header_name sample_libs u = ''authorization'' \<and> up_host u = ''nova.laravel.com''" for u
    using trim_empty by (simp add: sample_upstreams_def header_name_def DEFAULT_HEADER_def)
  have "at_value sample_attachment = ''Bearer x''" by (simp add: sample_attachment_def)
  thus ?thesis using attached_credential_reaches_only_its_host [OF valid att hs'] u hs'
    by (auto simp: HOP_BY_HOP_def)
qed

end
