(* ===== verification/Conversation.thy ===== *)
theory Conversation
  imports Json Utf8_Text Complex_Main "HOL-Library.Log_Nat"
begin

text \<open>
  The neutral conversation of \<^verbatim>\<open>src/agent/src/conversation.rs\<close>, which the loop, the journal and
  the wire encoders share, and what it means for one to be well formed: every tool call is
  answered by the very next message, in order, and no result stands alone. Also here are the
  double-precision operations the size estimates use and cutting text at a character.
\<close>

section \<open>Messages\<close>

datatype role = User | Assistant

datatype block =
    Text string
  | ToolUse string string json
  | ToolResult string string bool
  | Opaque json

record message =
  m_role :: role
  m_blocks :: "block list"

abbreviation Message :: "role \<Rightarrow> block list \<Rightarrow> message" where
  "Message r bs \<equiv> \<lparr>m_role = r, m_blocks = bs\<rparr>"

text \<open>A double of the estimates, by its value.\<close>

type_synonym double = rat

record measured =
  ms_messages :: nat
  ms_tokens :: nat
  ms_bytes_per_token :: double

record conversation =
  cv_system :: string
  cv_messages :: "message list"
  cv_measured :: "measured option"
  cv_cache_key :: "string option"

definition new_conversation :: "string \<Rightarrow> conversation" where
  "new_conversation system =
     \<lparr>cv_system = system, cv_messages = [], cv_measured = None, cv_cache_key = None\<rparr>"

definition push_message :: "conversation \<Rightarrow> role \<Rightarrow> block list \<Rightarrow> conversation" where
  "push_message conv r bs = conv\<lparr>cv_messages := cv_messages conv @ [Message r bs]\<rparr>"

lemma push_message_simps [simp]:
  "cv_messages (push_message conv r bs) = cv_messages conv @ [Message r bs]"
  "cv_measured (push_message conv r bs) = cv_measured conv"
  "cv_system (push_message conv r bs) = cv_system conv"
  by (simp_all add: push_message_def)

section \<open>Doubles\<close>

text \<open>
  IEEE 754 binary64 on the range in use: byte counts, token counts and their quotients lie
  between \<open>1/16\<close> and \<open>2\<^sup>6\<^sup>4\<close> or are zero, so a result is the exact one rounded to a significand of
  53 bits, ties to even. \<open>binade q\<close> is the exponent of the power of two at or below \<open>q\<close>.
\<close>

definition pow2 :: "int \<Rightarrow> rat" where
  "pow2 e = (if 0 \<le> e then 2 ^ nat e else 1 / 2 ^ nat (- e))"

definition binade :: "rat \<Rightarrow> int" where
  "binade q =
     (let (n, d) = quotient_of q;
          e = int (floorlog 2 (nat n)) - int (floorlog 2 (nat d)) in
      if pow2 e \<le> q then e else e - 1)"

definition round_even :: "rat \<Rightarrow> int" where
  "round_even q =
     (let f = \<lfloor>q\<rfloor>; r = q - of_int f in
      if r < 1 / 2 \<or> r = 1 / 2 \<and> even f then f else f + 1)"

definition to_double :: "rat \<Rightarrow> double" where
  "to_double q =
     (if q \<le> 0 then 0
      else (let u = pow2 (binade q - 52) in of_int (round_even (q / u)) * u))"

definition div_double :: "double \<Rightarrow> double \<Rightarrow> double" where
  "div_double a b = to_double (a / b)"

text \<open>\<open>f64::clamp\<close>, and \<open>as u64\<close>, which saturates.\<close>

definition clamp :: "double \<Rightarrow> double \<Rightarrow> double \<Rightarrow> double" where
  "clamp q lo hi = (if q < lo then lo else if hi < q then hi else q)"

definition as_u64 :: "int \<Rightarrow> nat" where
  "as_u64 i = min u64_max (nat i)"

section \<open>Cutting text at a character\<close>

definition is_char_boundary :: "string \<Rightarrow> nat \<Rightarrow> bool" where
  "is_char_boundary s i \<longleftrightarrow> i = 0 \<or> i = length s \<or> i < length s \<and> \<not> cont (s ! i)"

fun floor_boundary :: "string \<Rightarrow> nat \<Rightarrow> nat" where
  "floor_boundary s 0 = 0"
| "floor_boundary s (Suc i) =
     (if is_char_boundary s (Suc i) then Suc i else floor_boundary s i)"

text \<open>Only asked for a place inside the text, whose end is a boundary.\<close>

function ceil_boundary :: "string \<Rightarrow> nat \<Rightarrow> nat" where
  "ceil_boundary s i =
     (if is_char_boundary s i \<or> length s < i then i else ceil_boundary s (Suc i))"
  by auto
termination
proof (relation "measure (\<lambda>(s, i). length s - i)", goal_cases)
  case (2 s i)
  then have "i < length s" by (cases "i = length s") (auto simp: is_char_boundary_def)
  then show ?case by simp
qed simp

declare ceil_boundary.simps [simp del]

lemma floor_boundary_le: "floor_boundary s i \<le> i"
  by (induction s i rule: floor_boundary.induct) auto

lemma floor_boundary_boundary: "is_char_boundary s (floor_boundary s i)"
  by (induction s i rule: floor_boundary.induct) (auto simp: is_char_boundary_def)

lemma ceil_boundary_range:
  "i \<le> length s \<Longrightarrow> i \<le> ceil_boundary s i \<and> ceil_boundary s i \<le> length s"
proof (induction s i rule: ceil_boundary.induct)
  case (1 s i)
  show ?case
  proof (cases "is_char_boundary s i")
    case True
    then show ?thesis using 1(2) by (simp add: ceil_boundary.simps [of s i])
  next
    case False
    moreover from this have "i < length s" using 1(2) by (cases "i = length s") (auto simp: is_char_boundary_def)
    ultimately show ?thesis using 1(1) by (simp add: ceil_boundary.simps [of s i])
  qed
qed

section \<open>Calls and results\<close>

text \<open>The calls of a message's blocks, and the ids its results answer.\<close>

type_synonym call = "string \<times> string \<times> json"

fun call_of :: "block \<Rightarrow> call option" where
  "call_of (ToolUse i n v) = Some (i, n, v)"
| "call_of _ = None"

fun result_id :: "block \<Rightarrow> string option" where
  "result_id (ToolResult i c e) = Some i"
| "result_id _ = None"

definition calls_of :: "block list \<Rightarrow> call list" where
  "calls_of bs = List.map_filter call_of bs"

definition result_ids :: "block list \<Rightarrow> string list" where
  "result_ids bs = List.map_filter result_id bs"

lemma calls_of_simps [simp]:
  "calls_of [] = []"
  "calls_of (b # bs) = (case call_of b of Some c \<Rightarrow> c # calls_of bs | None \<Rightarrow> calls_of bs)"
  "calls_of (bs @ bs') = calls_of bs @ calls_of bs'"
  by (simp_all add: calls_of_def map_filter_simps map_filter_def split: option.split)

lemma result_ids_simps [simp]:
  "result_ids [] = []"
  "result_ids (b # bs) = (case result_id b of Some i \<Rightarrow> i # result_ids bs | None \<Rightarrow> result_ids bs)"
  "result_ids (bs @ bs') = result_ids bs @ result_ids bs'"
  by (simp_all add: result_ids_def map_filter_simps map_filter_def split: option.split)

text \<open>
  A well-formed conversation. A message of the model's makes calls and holds no results; a
  message that answers calls holds nothing else and comes right after them; any other
  message of the user's holds neither.
\<close>

definition is_result :: "block \<Rightarrow> bool" where
  "is_result b \<longleftrightarrow> result_id b \<noteq> None"

definition calls_made :: "message \<Rightarrow> string list" where
  "calls_made m = (if m_role m = Assistant then map fst (calls_of (m_blocks m)) else [])"

fun answered :: "message list \<Rightarrow> bool" where
  "answered [] = True"
| "answered (m # ms) =
     (result_ids (m_blocks m) = [] \<and>
      (if calls_made m = [] then answered ms
       else (case ms of
               [] \<Rightarrow> False
             | r # rest \<Rightarrow>
                 m_role r = User \<and> list_all is_result (m_blocks r) \<and>
                 result_ids (m_blocks r) = calls_made m \<and> answered rest)))"

lemma answered_append: "answered ms \<Longrightarrow> answered ms' \<Longrightarrow> answered (ms @ ms')"
proof (induction ms rule: answered.induct)
  case (2 m ms)
  show ?case
  proof (cases "calls_made m = []")
    case True
    with 2 show ?thesis by simp
  next
    case False
    with 2(3) obtain r rest where ms: "ms = r # rest" by (auto split: list.splits)
    with False 2 show ?thesis by simp
  qed
qed simp

lemma answered_drop:
  assumes "answered ms"
    and "c = length ms \<or> c < length ms \<and> result_ids (m_blocks (ms ! c)) = []"
  shows "answered (take c ms) \<and> answered (drop c ms)"
  using assms
proof (induction ms arbitrary: c rule: answered.induct)
  case (2 m ms)
  show ?case
  proof (cases c)
    case 0
    with 2(3) show ?thesis by simp
  next
    case (Suc d)
    show ?thesis
    proof (cases "calls_made m = []")
      case True
      with 2(1) [of d] 2(3,4) Suc show ?thesis by simp
    next
      case False
      with 2(3) obtain r rest where ms: "ms = r # rest" by (auto split: list.splits)
      have "d \<noteq> 0" using 2(3,4) False Suc ms by (cases d) auto
      then obtain d' where "d = Suc d'" by (cases d) auto
      with 2(2) [of r rest d'] 2(3,4) Suc ms False show ?thesis by simp
    qed
  qed
qed simp

end
