(* ===== verification/Compact.thy ===== *)
theory Compact
  imports Conversation
begin

text \<open>
  \<^verbatim>\<open>src/agent/src/compact.rs\<close>: keeping a long session inside the model's context window. Old tool
  outputs are replaced by a note of their size; then everything before the last stretch is
  replaced by a summary that restates the calls made and the operator's messages.
\<close>

section \<open>Sizes\<close>

text \<open>
  What is not in the repository: the text serde\_json writes for a value, which characters
  Unicode calls decimal digits (for \<open>\d\<close> of the regex crate), and the regex replacement of line
  anchors in an output shown to the summariser.
\<close>

record agent_libs =
  al_to_string :: "json \<Rightarrow> string"
  al_is_nd :: "string \<Rightarrow> bool"
  al_strip_anchors :: "string \<Rightarrow> string"

definition KEEP_RAW :: nat where
  "KEEP_RAW = 20000"

definition PROTECT_OUTPUT :: nat where
  "PROTECT_OUTPUT = 40000"

definition MIN_PRUNE_SAVING :: nat where
  "MIN_PRUNE_SAVING = 20000"

definition MIN_PRUNE_RESULT :: nat where
  "MIN_PRUNE_RESULT = 50"

definition SUMMARY_MAX_TOKENS :: nat where
  "SUMMARY_MAX_TOKENS = 4096"

definition SUMMARY_RESULT_BYTES :: nat where
  "SUMMARY_RESULT_BYTES = 8000"

definition DEFAULT_BYTES_PER_TOKEN :: double where
  "DEFAULT_BYTES_PER_TOKEN = 4"

text \<open>A window is far below the \<open>2\<^sup>6\<^sup>0\<close> tokens at which \<open>window * 15\<close> would leave 64 bits.\<close>

definition threshold :: "nat \<Rightarrow> nat" where
  "threshold window =
     (let reserve = max (window * 15 div 100) 16384 in
      max (window - reserve) (window div 2))"

record limits =
  keep_raw :: nat
  protect_output :: nat
  min_prune_saving :: nat

definition for_window :: "nat option \<Rightarrow> limits" where
  "for_window window =
     (case map_option threshold window of
        None \<Rightarrow> \<lparr>keep_raw = KEEP_RAW, protect_output = PROTECT_OUTPUT,
                 min_prune_saving = MIN_PRUNE_SAVING\<rparr>
      | Some t \<Rightarrow>
          \<lparr>keep_raw = min KEEP_RAW (t * 2 div 5),
           protect_output = min PROTECT_OUTPUT (t * 4 div 5),
           min_prune_saving = min MIN_PRUNE_SAVING (t * 2 div 5)\<rparr>)"

fun block_bytes :: "agent_libs \<Rightarrow> block \<Rightarrow> nat" where
  "block_bytes l (Text t) = length t"
| "block_bytes l (ToolUse i name input) = length name + length (al_to_string l input)"
| "block_bytes l (ToolResult i content e) = length content"
| "block_bytes l (Opaque v) = length (al_to_string l v)"

definition message_bytes :: "agent_libs \<Rightarrow> message \<Rightarrow> nat" where
  "message_bytes l m = 8 + sum_list (map (block_bytes l) (m_blocks m))"

definition request_bytes :: "agent_libs \<Rightarrow> conversation \<Rightarrow> nat \<Rightarrow> nat" where
  "request_bytes l conv overhead =
     overhead + length (cv_system conv) + sum_list (map (message_bytes l) (cv_messages conv))"

definition rate :: "conversation \<Rightarrow> double" where
  "rate conv =
     (case cv_measured conv of None \<Rightarrow> DEFAULT_BYTES_PER_TOKEN | Some m \<Rightarrow> ms_bytes_per_token m)"

definition tokens :: "nat \<Rightarrow> double \<Rightarrow> nat" where
  "tokens n r = as_u64 \<lceil>div_double (to_double (of_nat n)) r\<rceil>"

definition estimate :: "agent_libs \<Rightarrow> conversation \<Rightarrow> nat \<Rightarrow> nat" where
  "estimate l conv overhead =
     (case cv_measured conv of
        Some m \<Rightarrow>
          if ms_messages m \<le> length (cv_messages conv) then
            (let added = sum_list (map (message_bytes l) (drop (ms_messages m) (cv_messages conv))) in
             ms_tokens m + tokens added (ms_bytes_per_token m))
          else tokens (request_bytes l conv overhead) (rate conv)
      | None \<Rightarrow> tokens (request_bytes l conv overhead) (rate conv))"

definition messages_tokens :: "agent_libs \<Rightarrow> conversation \<Rightarrow> nat" where
  "messages_tokens l conv =
     tokens (sum_list (map (message_bytes l) (cv_messages conv))) (rate conv)"

definition measure_request :: "conversation \<Rightarrow> nat \<Rightarrow> nat \<Rightarrow> nat \<Rightarrow> conversation" where
  "measure_request conv sent prompt answer =
     (let r = (if 0 < prompt
               then clamp (div_double (to_double (of_nat sent)) (to_double (of_nat prompt))) 1 16
               else rate conv) in
      conv\<lparr>cv_measured := Some
        \<lparr>ms_messages = length (cv_messages conv), ms_tokens = prompt + answer,
         ms_bytes_per_token = r\<rparr>\<rparr>)"

definition remeasure :: "agent_libs \<Rightarrow> conversation \<Rightarrow> nat \<Rightarrow> conversation" where
  "remeasure l conv overhead =
     conv\<lparr>cv_measured := Some
       \<lparr>ms_messages = length (cv_messages conv),
        ms_tokens = tokens (request_bytes l conv overhead) (rate conv),
        ms_bytes_per_token = rate conv\<rparr>\<rparr>"

section \<open>Pruning tool outputs\<close>

record pruned =
  pr_id :: string
  pr_content :: string

definition all_blocks :: "message list \<Rightarrow> block list" where
  "all_blocks ms = concat (map m_blocks ms)"

fun failed_id :: "block \<Rightarrow> string option" where
  "failed_id (ToolResult i c True) = Some i"
| "failed_id _ = None"

text \<open>\<open>trim_start_matches("./")\<close>.\<close>

fun trim_dot_slash :: "string \<Rightarrow> string" where
  "trim_dot_slash (a # b # s) =
     (if a = CHR ''.'' \<and> b = CHR ''/'' then trim_dot_slash s else a # b # s)"
| "trim_dot_slash s = s"

type_synonym file_call = "string \<times> string \<times> string \<times> (json \<times> json)"

fun file_call :: "string set \<Rightarrow> block \<Rightarrow> file_call option" where
  "file_call failed (ToolUse i name input) =
     (if name \<in> {''read'', ''edit'', ''write''} \<and> i \<notin> failed then
        (case as_str (jindex input ''path'') of
           None \<Rightarrow> None
         | Some path \<Rightarrow>
             Some (i, name, trim_dot_slash path, (jindex input ''offset'', jindex input ''limit'')))
      else None)"
| "file_call failed _ = None"

definition supersedes :: "string \<Rightarrow> string \<Rightarrow> json \<times> json \<Rightarrow> file_call \<Rightarrow> bool" where
  "supersedes tool path lines = (\<lambda>(_, t, p, l).
     p = path \<and> (t \<in> {''edit'', ''write''} \<or> tool = ''read'' \<and> t = ''read'' \<and> l = lines))"

fun superseded_calls :: "file_call list \<Rightarrow> (string \<times> string) list" where
  "superseded_calls [] = []"
| "superseded_calls ((i, tool, path, lines) # later) =
     (if tool \<noteq> ''write'' \<and> list_ex (supersedes tool path lines) later
      then (i, path) # superseded_calls later else superseded_calls later)"

text \<open>The map is filled in the order of the calls, so the last entry of an id stands.\<close>

definition superseded :: "conversation \<Rightarrow> string \<Rightarrow> string option" where
  "superseded conv =
     (let bs = all_blocks (cv_messages conv);
          failed = set (List.map_filter failed_id bs) in
      map_of (rev (superseded_calls (List.map_filter (file_call failed) bs))))"

definition superseded_note :: "string \<Rightarrow> nat \<Rightarrow> string" where
  "superseded_note path n =
     ''[Superseded by a later read or change of '' @ path @ '' - '' @ dec n @ '' tokens]''"

definition truncated_note :: "nat \<Rightarrow> string" where
  "truncated_note n = ''[Output truncated - '' @ dec n @ '' tokens]''"

record prune_state =
  ps_newer :: nat
  ps_saved :: nat
  ps_plan :: "pruned list"
  ps_elided :: "pruned list"

fun prune_block :: "limits \<Rightarrow> double \<Rightarrow> (string \<Rightarrow> string option) \<Rightarrow> block \<Rightarrow> prune_state \<Rightarrow> prune_state" where
  "prune_block bounds r stale (ToolResult i content e) st =
     (let sz = tokens (length content) r;
          protected = ps_newer st < protect_output bounds;
          st = st\<lparr>ps_newer := ps_newer st + sz\<rparr> in
      if sz < MIN_PRUNE_RESULT
         \<or> starts_with content ''['' \<and> contains_str content '' tokens]'' then st
      else (case stale i of
          Some path \<Rightarrow>
            st\<lparr>ps_elided := ps_elided st @ [\<lparr>pr_id = i, pr_content = superseded_note path sz\<rparr>]\<rparr>
        | None \<Rightarrow>
            if protected then st
            else (let note = truncated_note sz in
              st\<lparr>ps_saved := ps_saved st + (sz - min (tokens (length note) r) sz),
                 ps_plan := ps_plan st @ [\<lparr>pr_id = i, pr_content = note\<rparr>]\<rparr>)))"
| "prune_block bounds r stale _ st = st"

definition newest_first :: "message list \<Rightarrow> block list" where
  "newest_first ms = concat (map (\<lambda>m. rev (m_blocks m)) (rev ms))"

definition prune_plan :: "conversation \<Rightarrow> limits \<Rightarrow> pruned list" where
  "prune_plan conv bounds =
     (let st = fold (prune_block bounds (rate conv) (superseded conv)) (newest_first (cv_messages conv))
                 \<lparr>ps_newer = 0, ps_saved = 0, ps_plan = [], ps_elided = []\<rparr> in
      ps_elided st @ (if ps_saved st < min_prune_saving bounds then [] else ps_plan st))"

fun prune_result :: "pruned list \<Rightarrow> block \<Rightarrow> block" where
  "prune_result pruned (ToolResult i content e) =
     (case find (\<lambda>p. pr_id p = i) pruned of
        Some p \<Rightarrow> ToolResult i (pr_content p) e
      | None \<Rightarrow> ToolResult i content e)"
| "prune_result pruned b = b"

definition apply_prune :: "pruned list \<Rightarrow> message list \<Rightarrow> message list" where
  "apply_prune pruned ms = map (\<lambda>m. m\<lparr>m_blocks := map (prune_result pruned) (m_blocks m)\<rparr>) ms"

definition prune :: "agent_libs \<Rightarrow> conversation \<Rightarrow> pruned list \<Rightarrow> nat \<Rightarrow> conversation" where
  "prune l conv pruned overhead =
     remeasure l (conv\<lparr>cv_messages := apply_prune pruned (cv_messages conv)\<rparr>) overhead"

section \<open>Where to cut\<close>

definition is_results :: "message \<Rightarrow> bool" where
  "is_results m \<longleftrightarrow> m_role m = User \<and> list_ex is_result (m_blocks m)"

fun cut_walk :: "(message \<Rightarrow> nat) \<Rightarrow> nat \<Rightarrow> message list \<Rightarrow> nat \<Rightarrow> nat \<Rightarrow> nat \<Rightarrow> nat" where
  "cut_walk sz keep ms 0 kept c = c"
| "cut_walk sz keep ms (Suc j) kept c =
     (if Suc j < length ms then
        (let kept' = kept + sz (ms ! Suc j) in
         if keep < kept' then c
         else cut_walk sz keep ms j kept' (if is_results (ms ! Suc j) then c else Suc j))
      else cut_walk sz keep ms j kept (Suc j))"

definition worked :: "message \<Rightarrow> bool" where
  "worked m \<longleftrightarrow> m_role m = Assistant \<and> m_blocks m \<noteq> []"

definition cut :: "agent_libs \<Rightarrow> conversation \<Rightarrow> nat \<Rightarrow> nat option" where
  "cut l conv keep =
     (let ms = cv_messages conv; r = rate conv;
          c = cut_walk (\<lambda>m. tokens (message_bytes l m) r) keep ms (length ms) 0 (length ms) in
      if list_ex worked (take c ms) then Some c else None)"

section \<open>What a summary restates\<close>

text \<open>What starts a compacted conversation, and the headings inside it.\<close>

definition SUMMARY_HEADER :: string where
  "SUMMARY_HEADER = ''[harness] The earlier part of this session was summarised to fit the model''
     @ [CHR 0x27] @ ''s context window.''"

definition CALLS :: string where
  "CALLS = [LF, LF] @ ''The tool calls made before this point, from the record, oldest first:'' @ [LF]"

definition OPERATOR_MESSAGES :: string where
  "OPERATOR_MESSAGES = [LF, LF] @ ''The operator'' @ [CHR 0x27]
     @ ''s messages, word for word, oldest first:''"

definition CARRY_ON :: string where
  "CARRY_ON = [LF, LF] @ ''Carry on with the work from here.''"

definition HARNESS :: string where
  "HARNESS = ''[harness]''"

definition MAX_OPERATOR_BYTES :: nat where
  "MAX_OPERATOR_BYTES = 16 * 1024"

definition MAX_CALLS :: nat where
  "MAX_CALLS = 60"

definition CALL_DETAIL_BYTES :: nat where
  "CALL_DETAIL_BYTES = 160"

definition dots :: string where
  "dots = [CHR 0xE2, CHR 0x80, CHR 0xA6]"

definition arrow :: string where
  "arrow = [CHR 0xE2, CHR 0x86, CHR 0x92]"

definition shorten :: "string \<Rightarrow> string" where
  "shorten t =
     (if length t \<le> CALL_DETAIL_BYTES then t
      else take (floor_boundary t CALL_DETAIL_BYTES) t @ dots)"

definition strip_suffix :: "string \<Rightarrow> string \<Rightarrow> string option" where
  "strip_suffix p s = map_option rev (strip_prefix (rev p) (rev s))"

text \<open>How a call ended, by the last result of its id.\<close>

fun result_of :: "block \<Rightarrow> (string \<times> string \<times> bool) option" where
  "result_of (ToolResult i c e) = Some (i, c, e)"
| "result_of _ = None"

definition ended :: "message list \<Rightarrow> string \<Rightarrow> (string \<times> bool) option" where
  "ended ms = map_of (rev (List.map_filter result_of (all_blocks ms)))"

definition first_line :: "string \<Rightarrow> string" where
  "first_line s = (case str_lines s of [] \<Rightarrow> [] | x # _ \<Rightarrow> x)"

definition call_line :: "agent_libs \<Rightarrow> (string \<times> bool) option \<Rightarrow> string \<Rightarrow> json \<Rightarrow> string" where
  "call_line l how name input =
     name @ '' '' @ shorten (al_to_string l input) @ '' '' @ arrow @ '' '' @
       (case how of
          Some (content, False) \<Rightarrow> ''ok''
        | Some (content, True) \<Rightarrow> ''error: '' @ shorten (first_line content)
        | None \<Rightarrow> ''no result'')"

definition listed_calls :: "string \<Rightarrow> string list" where
  "listed_calls t =
     (case split_once CALLS t of
        None \<Rightarrow> []
      | Some (_, listed) \<Rightarrow>
          (let listed =
             (case split_once OPERATOR_MESSAGES listed of
                Some (x, _) \<Rightarrow> x
              | None \<Rightarrow> (case split_once CARRY_ON listed of Some (x, _) \<Rightarrow> x | None \<Rightarrow> listed)) in
           List.map_filter (strip_prefix ''- '') (str_lines listed)))"

fun record_block :: "agent_libs \<Rightarrow> (string \<Rightarrow> (string \<times> bool) option) \<Rightarrow> block \<Rightarrow> string list" where
  "record_block l how (Text t) = (if starts_with t SUMMARY_HEADER then listed_calls t else [])"
| "record_block l how (ToolUse i name input) = [call_line l (how i) name input]"
| "record_block l how _ = []"

definition not_listed :: string where
  "not_listed = '' earlier calls not listed)''"

definition carried :: "string \<Rightarrow> nat option" where
  "carried line =
     Option.bind (strip_prefix ''('' line) (\<lambda>r. Option.bind (strip_suffix not_listed r) parse_u64)"

definition call_record :: "agent_libs \<Rightarrow> message list \<Rightarrow> string list" where
  "call_record l ms =
     (let out = concat (map (record_block l (ended ms)) (all_blocks ms));
          dropped = sum_list (map (\<lambda>x. case carried x of Some n \<Rightarrow> n | None \<Rightarrow> 0) out);
          out = filter (\<lambda>x. carried x = None) out;
          excess = length out - MAX_CALLS;
          dropped = dropped + excess;
          out = drop excess out in
      if 0 < dropped then (''('' @ dec dropped @ not_listed) # out else out)"

section \<open>The operator's messages\<close>

definition HEADING_START :: string where
  "HEADING_START = [LF, LF] @ ''--- operator message ''"

definition HEADING_END :: string where
  "HEADING_END = '' ---'' @ [LF]"

definition operator_heading :: "nat \<Rightarrow> string" where
  "operator_heading n = HEADING_START @ dec n @ HEADING_END"

text \<open>
  The pattern \<open>\n\n--- operator message \d+ ---\n\<close>: a space is no digit, so the longest run of
  digits is the only one that can match.
\<close>

function digit_run :: "agent_libs \<Rightarrow> string \<Rightarrow> string" where
  "digit_run l s =
     (if s = [] then []
      else (let n = fst (next_char s) in
        if al_is_nd l (take n s) then digit_run l (drop n s) else s))"
  by auto
termination
proof (relation "measure (\<lambda>(l, s). length s)", goal_cases)
  case (2 l s n)
  then have "0 < n" using next_char_pos by blast
  with 2 show ?case by simp
qed simp

declare digit_run.simps [simp del]

definition match_heading :: "agent_libs \<Rightarrow> string \<Rightarrow> string option" where
  "match_heading l s =
     (case strip_prefix HEADING_START s of
        None \<Rightarrow> None
      | Some r \<Rightarrow> (let r' = digit_run l r in if r' = r then None else strip_prefix HEADING_END r'))"

lemma digit_run_length: "length (digit_run l s) \<le> length s"
proof (induction l s rule: digit_run.induct)
  case (1 l s)
  show ?case
  proof (cases "s = [] \<or> \<not> al_is_nd l (take (fst (next_char s)) s)")
    case True
    then show ?thesis by (subst digit_run.simps) (auto simp: Let_def)
  next
    case False
    with 1 [OF _ refl] show ?thesis by (subst digit_run.simps) (auto simp: Let_def)
  qed
qed

lemma match_heading_length:
  assumes "match_heading l s = Some r"
  shows "length r < length s"
proof -
  from assms obtain x where x: "strip_prefix HEADING_START s = Some x"
    and r: "strip_prefix HEADING_END (digit_run l x) = Some r"
    by (auto simp: match_heading_def Let_def split: option.splits if_splits)
  from x have "length s = length HEADING_START + length x" by (simp add: strip_prefix_Some)
  moreover from r have "digit_run l x = HEADING_END @ r" by (simp only: strip_prefix_Some)
  then have "length r \<le> length x" using digit_run_length [of l x] by simp
  moreover have "0 < length HEADING_START" by (simp add: HEADING_START_def)
  ultimately show ?thesis by linarith
qed

text \<open>\<open>Regex::split\<close>: what stands between the matches, found from the left.\<close>

function split_heading :: "agent_libs \<Rightarrow> string \<Rightarrow> string list" where
  "split_heading l s =
     (case match_heading l s of
        Some r \<Rightarrow> [] # split_heading l r
      | None \<Rightarrow>
          (case s of
             [] \<Rightarrow> [[]]
           | c # s' \<Rightarrow> (case split_heading l s' of p # ps \<Rightarrow> (c # p) # ps | [] \<Rightarrow> [[c]])))"
  by auto
termination
  by (relation "measure (\<lambda>(l, s). length s)") (auto simp: match_heading_length)

declare split_heading.simps [simp del]

fun operator_block :: "agent_libs \<Rightarrow> block \<Rightarrow> string list" where
  "operator_block l (Text t) =
     (if starts_with t SUMMARY_HEADER then
        (case split_once OPERATOR_MESSAGES t of
           None \<Rightarrow> []
         | Some (_, restated) \<Rightarrow>
             (let restated = (case strip_suffix CARRY_ON restated of Some r \<Rightarrow> r | None \<Rightarrow> restated) in
              drop 1 (split_heading l restated)))
      else if starts_with t HARNESS then [] else [t])"
| "operator_block l _ = []"

definition operator_messages :: "agent_libs \<Rightarrow> message list \<Rightarrow> string list" where
  "operator_messages l ms =
     concat (map (operator_block l) (all_blocks (filter (\<lambda>m. m_role m = User) ms)))"

section \<open>The summary\<close>

definition head_and_tail :: "string \<Rightarrow> string \<Rightarrow> string" where
  "head_and_tail content note =
     (if length content \<le> SUMMARY_RESULT_BYTES then content
      else
        (let hd = floor_boundary content (SUMMARY_RESULT_BYTES * 3 div 4);
             tl = ceil_boundary content (length content - SUMMARY_RESULT_BYTES div 4) in
         take hd content @ [LF] @ ''[... '' @ dec (tl - hd) @ '' '' @ note @ '' ...]'' @ [LF]
           @ drop tl content))"

text \<open>The messages between the first and the newest go first.\<close>

fun drop_middle :: "string list \<Rightarrow> nat \<Rightarrow> string list \<times> nat" where
  "drop_middle (a # b # c # ss) n =
     (if MAX_OPERATOR_BYTES < sum_list (map length (a # b # c # ss))
      then drop_middle (a # c # ss) (n + 1) else (a # b # c # ss, n))"
| "drop_middle ss n = (ss, n)"

definition said_before :: "agent_libs \<Rightarrow> message list \<Rightarrow> string list" where
  "said_before l ms =
     (let said = map (\<lambda>m. head_and_tail m ''bytes left out'') (operator_messages l ms);
          (said, dropped) = drop_middle said 0 in
      if 0 < dropped
      then take 1 said @ [''('' @ dec dropped @ '' earlier messages left out)''] @ drop 1 said
      else said)"

fun headed :: "nat \<Rightarrow> string list \<Rightarrow> string" where
  "headed n [] = []"
| "headed n (m # ms) = operator_heading (n + 1) @ m @ headed (n + 1) ms"

definition NOTES :: string where
  "NOTES = '' The notes below were written by the model and may be wrong; the record ''
     @ ''of tool calls and the operator'' @ [CHR 0x27]
     @ ''s messages after them are exact. Where they disagree, ''
     @ ''trust the record and the files. Files may have changed since anything shown; read a ''
     @ ''file again before editing it.'' @ [LF, LF] @ ''Notes on the work so far:'' @ [LF, LF]"

definition summary_message :: "agent_libs \<Rightarrow> conversation \<Rightarrow> nat \<Rightarrow> string \<Rightarrow> string" where
  "summary_message l conv up_to summary =
     (let before = take up_to (cv_messages conv);
          calls = call_record l before;
          said = said_before l before in
      SUMMARY_HEADER @ NOTES @ trim summary
        @ (if calls = [] then [] else CALLS @ join_with [LF] (map (\<lambda>c. ''- '' @ c) calls))
        @ (if said = [] then [] else OPERATOR_MESSAGES @ headed 0 said)
        @ (if up_to = length (cv_messages conv) then CARRY_ON else []))"

definition apply_summary :: "message list \<Rightarrow> string \<Rightarrow> nat \<Rightarrow> message list" where
  "apply_summary ms summary keep =
     (let kept = drop (length ms - keep) ms in
      case kept of
        m # rest \<Rightarrow>
          if m_role m = User then Message User (Text summary # m_blocks m) # rest
          else Message User [Text summary] # kept
      | [] \<Rightarrow> [Message User [Text summary]])"

definition summarise :: "agent_libs \<Rightarrow> conversation \<Rightarrow> string \<Rightarrow> nat \<Rightarrow> nat \<Rightarrow> conversation" where
  "summarise l conv summary keep overhead =
     remeasure l (conv\<lparr>cv_messages := apply_summary (cv_messages conv) summary keep\<rparr>) overhead"

section \<open>What the summariser is asked\<close>

definition CUT_OUTPUT :: string where
  "CUT_OUTPUT = ''bytes of this output are not shown to you; do not guess what they held''"

fun shown_block :: "agent_libs \<Rightarrow> role \<Rightarrow> block \<Rightarrow> (string \<Rightarrow> string option) \<Rightarrow> string \<times> (string \<Rightarrow> string option)" where
  "shown_block l User (Text t) names =
     ((if starts_with t SUMMARY_HEADER then ''[notes from an earlier summary]''
       else if starts_with t HARNESS then HARNESS else ''[operator]'')
        @ [LF] @ t @ [LF, LF], names)"
| "shown_block l Assistant (Text t) names = (''[assistant]'' @ [LF] @ t @ [LF, LF], names)"
| "shown_block l r (ToolUse i name input) names =
     (''[assistant called '' @ name @ ''] '' @ al_to_string l input @ [LF, LF], names(i \<mapsto> name))"
| "shown_block l r (ToolResult i content e) names =
     ([CHR 0x5B] @ (if e then ''error from'' else ''result of'') @ '' ''
        @ (case names i of Some n \<Rightarrow> n | None \<Rightarrow> ''tool'') @ '']'' @ [LF]
        @ head_and_tail (al_strip_anchors l content) CUT_OUTPUT @ [LF, LF], names)"
| "shown_block l r (Opaque v) names = ([], names)"

fun shown_blocks :: "agent_libs \<Rightarrow> role \<Rightarrow> block list \<Rightarrow> (string \<Rightarrow> string option) \<Rightarrow> string \<times> (string \<Rightarrow> string option)" where
  "shown_blocks l r [] names = ([], names)"
| "shown_blocks l r (b # bs) names =
     (let (t, names) = shown_block l r b names; (ts, names) = shown_blocks l r bs names in (t @ ts, names))"

fun transcript :: "agent_libs \<Rightarrow> message list \<Rightarrow> (string \<Rightarrow> string option) \<Rightarrow> string list" where
  "transcript l [] names = []"
| "transcript l (m # ms) names =
     (let (t, names) = shown_blocks l (m_role m) (m_blocks m) names in t # transcript l ms names)"

fun fit_parts :: "double \<Rightarrow> nat \<Rightarrow> string list \<Rightarrow> nat \<Rightarrow> nat \<Rightarrow> string list \<times> nat" where
  "fit_parts r budget (a # b # c # ps) tot n =
     (if budget < tot then fit_parts r budget (a # c # ps) (tot - tokens (length b) r) (n + 1)
      else (a # b # c # ps, n))"
| "fit_parts r budget ps tot n = (ps, n)"

definition SUMMARISER :: string where
  "SUMMARISER =
     ''You write the notes a coding agent works from once its context is cleared. You are given the ''
     @ ''earlier part of its session, up to the line [end of transcript]. The work carries on after that ''
     @ ''point, but you do not see what follows and must not guess at it. The agent will also be given the ''
     @ ''operator'' @ [CHR 0x27] @ ''s messages word for word and a record of every tool call in your transcript, so do not ''
     @ ''copy those out.'' @ [LF, LF] @ ''Write, in plain prose or short lists:'' @ [LF]
     @ ''- what has been done and what it showed: files created or changed and how, test results, the ''
     @ ''exact errors that still matter;'' @ [LF]
     @ ''- what was learned that is still needed: paths, names, line numbers, conventions;'' @ [LF]
     @ ''- decisions taken, and why;'' @ [LF]
     @ ''- what was being done when the transcript ends, and what the operator asked for that is not done ''
     @ ''yet.'' @ [LF, LF]
     @ ''Report only what the transcript shows happening. Anything the operator asked for that the ''
     @ ''transcript does not show being done has not been done: say that it remains, and never describe ''
     @ ''doing it or what it would show. Where an output was cut short, say what was shown and that the ''
     @ ''rest was not. Where something is uncertain, say so and tell the agent to check it. Never describe ''
     @ ''a file from another file'' @ [CHR 0x27] @ ''s output. No more than about 1000 words.''"

definition summary_request :: "agent_libs \<Rightarrow> conversation \<Rightarrow> nat \<Rightarrow> nat option \<Rightarrow> conversation" where
  "summary_request l conv up_to budget =
     (let parts = transcript l (take up_to (cv_messages conv)) Map.empty;
          r = rate conv;
          parts =
            (case budget of
               None \<Rightarrow> parts
             | Some budget \<Rightarrow>
                 (let total = sum_list (map (\<lambda>p. tokens (length p) r) parts);
                      (parts, dropped) = fit_parts r budget parts total 0 in
                  if 0 < dropped then
                    take 1 parts @ [[CHR 0x5B] @ dec dropped
                      @ '' earlier messages left out to fit the summariser'' @ [CHR 0x27]
                      @ ''s window]'' @ [LF, LF]] @ drop 1 parts
                  else parts)) in
      push_message (new_conversation SUMMARISER) User
        [Text (''The transcript:'' @ [LF, LF] @ concat parts
          @ ''[end of transcript]'' @ [LF, LF] @ ''Write the notes now. The work is not ''
          @ ''finished: describe only what happened above.'')])"

end
