(* ===== verification/Compact_Laws.thy ===== *)
theory Compact_Laws
  imports Compact
begin

text \<open>
  What compaction keeps. A cut never falls between a call and its results and is the earliest
  that fits; pruning replaces outputs past the protected ones and nothing else; a summary
  restates the operator's messages word for word, so that the next one finds them again.
\<close>

section \<open>A cut never parts a call from its results\<close>

lemma is_results_iff: "is_results m \<longleftrightarrow> m_role m = User \<and> result_ids (m_blocks m) \<noteq> []"
proof -
  have "list_ex is_result bs \<longleftrightarrow> result_ids bs \<noteq> []" for bs
    by (induction bs) (auto simp: is_result_def split: option.splits)
  then show ?thesis by (simp add: is_results_def)
qed

definition message_tokens :: "agent_libs \<Rightarrow> conversation \<Rightarrow> message \<Rightarrow> nat" where
  "message_tokens l conv m = tokens (message_bytes l m) (rate conv)"

definition fits_from :: "(message \<Rightarrow> nat) \<Rightarrow> nat \<Rightarrow> message list \<Rightarrow> nat \<Rightarrow> bool" where
  "fits_from sz keep ms c \<longleftrightarrow> sum_list (map sz (drop c ms)) \<le> keep"

definition may_cut :: "message list \<Rightarrow> nat \<Rightarrow> bool" where
  "may_cut ms c \<longleftrightarrow> c = length ms \<or> c < length ms \<and> \<not> is_results (ms ! c)"

lemma fits_from_later: "fits_from sz keep ms d \<Longrightarrow> d \<le> c \<Longrightarrow> fits_from sz keep ms c"
proof -
  assume "d \<le> c"
  then have "drop d ms = take (c - d) (drop d ms) @ drop c ms"
    by (metis append_take_drop_id drop_drop le_add_diff_inverse2)
  then have "sum_list (map sz (drop c ms)) \<le> sum_list (map sz (drop d ms))"
    by (metis le_add2 map_append sum_list_append)
  then show "fits_from sz keep ms d \<Longrightarrow> fits_from sz keep ms c" by (simp add: fits_from_def)
qed

lemma kept_next:
  "Suc j < length ms \<Longrightarrow>
    sum_list (map (sz :: message \<Rightarrow> nat) (drop (Suc j) ms)) =
      sum_list (map sz (drop (Suc (Suc j)) ms)) + sz (ms ! Suc j)"
  by (simp add: Cons_nth_drop_Suc [symmetric] add.commute)

lemma cut_walk_may_cut: "may_cut ms c \<Longrightarrow> j \<le> length ms \<Longrightarrow> may_cut ms (cut_walk sz keep ms j kept c)"
  by (induction sz keep ms j kept c rule: cut_walk.induct) (auto simp: may_cut_def Let_def)

lemma cut_walk_pos: "0 < c \<Longrightarrow> 0 < cut_walk sz keep ms j kept c"
  by (induction sz keep ms j kept c rule: cut_walk.induct) (auto simp: Let_def)

lemma cut_walk_fits:
  "kept = sum_list (map sz (drop (Suc j) ms)) \<Longrightarrow> kept \<le> keep \<Longrightarrow> j \<le> length ms \<Longrightarrow>
    fits_from sz keep ms c \<Longrightarrow> fits_from sz keep ms (cut_walk sz keep ms j kept c)"
proof (induction sz keep ms j kept c rule: cut_walk.induct)
  case (2 sz keep ms j kept c)
  show ?case
  proof (cases "Suc j < length ms")
    case True
    note k = kept_next [OF True, of sz]
    show ?thesis
    proof (cases "keep < kept + sz (ms ! Suc j)")
      case False
      with 2(1) [OF True refl] 2(3-6) True k show ?thesis by (auto simp: Let_def fits_from_def)
    qed (use 2(6) True in simp)
  next
    case False
    then have "cut_walk sz keep ms (Suc j) kept c = cut_walk sz keep ms j kept (Suc j)" by simp
    moreover have "fits_from sz keep ms (cut_walk sz keep ms j kept (Suc j))"
      using 2(2) [OF False] 2(3-6) False by (simp add: fits_from_def)
    ultimately show ?thesis by simp
  qed
qed simp

text \<open>No earlier cut would do: it would fall before results, or keep too much.\<close>

lemma cut_walk_earliest:
  "kept = sum_list (map sz (drop (Suc j) ms)) \<Longrightarrow> j \<le> length ms \<Longrightarrow> j < c \<or> j = length ms \<Longrightarrow>
    \<forall>d. j < d \<and> d < c \<longrightarrow> \<not> may_cut ms d \<Longrightarrow>
    0 < d \<Longrightarrow> d < cut_walk sz keep ms j kept c \<Longrightarrow> \<not> may_cut ms d \<or> \<not> fits_from sz keep ms d"
proof (induction sz keep ms j kept c rule: cut_walk.induct)
  case (2 sz keep ms j kept c)
  show ?case
  proof (cases "Suc j < length ms")
    case True
    note k = kept_next [OF True, of sz]
    show ?thesis
    proof (cases "keep < kept + sz (ms ! Suc j)")
      case over: True
      then have "\<not> fits_from sz keep ms (Suc j)" using 2(3) k by (simp add: fits_from_def)
      then have "\<not> fits_from sz keep ms d" if "d \<le> Suc j" using that fits_from_later by blast
      moreover have "\<not> may_cut ms d" if "Suc j < d" using that 2(6,8) True over by simp
      ultimately show ?thesis by (cases "d \<le> Suc j") auto
    next
      case False
      let ?c = "if is_results (ms ! Suc j) then c else Suc j"
      have "\<forall>d. j < d \<and> d < ?c \<longrightarrow> \<not> may_cut ms d"
        using 2(6) True by (auto simp: may_cut_def) (metis Suc_lessI)
      moreover have "j < ?c" using 2(5) True by auto
      ultimately show ?thesis
        using 2(1) [OF True refl False] 2(3,4,7,8) True False k by (simp add: Let_def)
    qed
  next
    case False
    then have c: "cut_walk sz keep ms (Suc j) kept c = cut_walk sz keep ms j kept (Suc j)" by simp
    have "\<not> may_cut ms d \<or> \<not> fits_from sz keep ms d" if "d < cut_walk sz keep ms j kept (Suc j)"
      using 2(2) [OF False] 2(3-8) False that by auto
    with 2(8) c show ?thesis by simp
  qed
qed auto

lemma cut_spec:
  assumes "cut l conv keep = Some c"
  shows "0 < c" and "may_cut (cv_messages conv) c"
    and "fits_from (message_tokens l conv) keep (cv_messages conv) c"
    and "list_ex worked (take c (cv_messages conv))"
    and "0 < d \<Longrightarrow> d < c \<Longrightarrow>
      \<not> may_cut (cv_messages conv) d \<or> \<not> fits_from (message_tokens l conv) keep (cv_messages conv) d"
proof -
  let ?ms = "cv_messages conv" and ?sz = "message_tokens l conv"
  have c: "c = cut_walk ?sz keep ?ms (length ?ms) 0 (length ?ms)"
    and w: "list_ex worked (take c ?ms)"
    using assms by (auto simp: cut_def Let_def message_tokens_def [abs_def] split: if_splits)
  show "list_ex worked (take c ?ms)" by (rule w)
  from w have "0 < length ?ms" by (cases ?ms) auto
  then show "0 < c" unfolding c by (rule cut_walk_pos)
  show "may_cut ?ms c" unfolding c by (rule cut_walk_may_cut) (simp_all add: may_cut_def)
  show "fits_from ?sz keep ?ms c" unfolding c by (rule cut_walk_fits) (simp_all add: fits_from_def)
  show "0 < d \<Longrightarrow> d < c \<Longrightarrow> \<not> may_cut ?ms d \<or> \<not> fits_from ?sz keep ?ms d"
    unfolding c by (rule cut_walk_earliest [of 0]) auto
qed

lemma answered_assistant: "answered ms \<Longrightarrow> m \<in> set ms \<Longrightarrow> m_role m = Assistant \<Longrightarrow> result_ids (m_blocks m) = []"
proof (induction ms rule: answered.induct)
  case (2 x ms)
  show ?case
  proof (cases "calls_made x = []")
    case True
    with 2 show ?thesis by auto
  next
    case False
    with 2(3) obtain r rest where ms: "ms = r # rest" by (auto split: list.splits)
    with False 2 show ?thesis by auto
  qed
qed simp

lemma may_cut_answered:
  assumes "answered ms" and "may_cut ms c"
  shows "answered (drop c ms)"
proof -
  have "c = length ms \<or> c < length ms \<and> result_ids (m_blocks (ms ! c)) = []"
    using assms answered_assistant [of ms "ms ! c"]
    by (cases "m_role (ms ! c)") (auto simp: may_cut_def is_results_iff)
  with assms(1) answered_drop show ?thesis by blast
qed

lemma answered_summary:
  assumes "answered ms" and "may_cut ms (length ms - keep)"
  shows "answered (apply_summary ms t keep)"
proof (cases "drop (length ms - keep) ms")
  case (Cons m rest)
  with may_cut_answered [OF assms] have a: "answered (m # rest)" by simp
  show ?thesis
  proof (cases "m_role m")
    case User
    with a have "answered rest" "result_ids (m_blocks m) = []"
      by (simp_all add: calls_made_def)
    with User Cons show ?thesis by (simp add: apply_summary_def calls_made_def)
  next
    case Assistant
    with a Cons show ?thesis by (simp add: apply_summary_def calls_made_def)
  qed
qed (simp add: apply_summary_def calls_made_def)

section \<open>Pruning changes outputs and nothing else\<close>

lemma prune_result_kind [simp]:
  "result_id (prune_result p b) = result_id b"
  "call_of (prune_result p b) = call_of b"
  "is_result (prune_result p b) = is_result b"
  by (cases b; auto split: option.splits simp: is_result_def)+

lemma prune_ids [simp]:
  "result_ids (map (prune_result p) bs) = result_ids bs"
  "calls_of (map (prune_result p) bs) = calls_of bs"
  "list_all is_result (map (prune_result p) bs) = list_all is_result bs"
  by (induction bs) (auto split: option.splits)

lemma calls_made_prune [simp]:
  "calls_made (m\<lparr>m_blocks := map (prune_result p) (m_blocks m)\<rparr>) = calls_made m"
  by (simp add: calls_made_def)

lemma answered_prune: "answered ms \<Longrightarrow> answered (apply_prune p ms)"
proof (induction ms rule: answered.induct)
  case (2 m ms)
  show ?case
  proof (cases "calls_made m = []")
    case True
    with 2 show ?thesis by (simp add: apply_prune_def)
  next
    case False
    with 2(3) obtain r rest where ms: "ms = r # rest" by (auto split: list.splits)
    with False 2 show ?thesis by (simp add: apply_prune_def)
  qed
qed (simp add: apply_prune_def)

lemma length_apply_prune [simp]: "length (apply_prune p ms) = length ms"
  by (simp add: apply_prune_def)

lemma may_cut_prune [simp]: "may_cut (apply_prune p ms) c = may_cut ms c"
  by (auto simp: may_cut_def apply_prune_def is_results_iff)

section \<open>What pruning may replace\<close>

text \<open>The outputs of a conversation, newest first, and the tokens of the first of them.\<close>

definition outputs :: "block list \<Rightarrow> (string \<times> string \<times> bool) list" where
  "outputs bs = List.map_filter result_of bs"

definition output_tokens :: "double \<Rightarrow> (string \<times> string \<times> bool) list \<Rightarrow> nat" where
  "output_tokens r os = sum_list (map (\<lambda>(_, c, _). tokens (length c) r) os)"

lemma outputs_snoc: "outputs (bs @ [b]) = outputs bs @ (case result_of b of Some x \<Rightarrow> [x] | None \<Rightarrow> [])"
  by (simp add: outputs_def map_filter_simps map_filter_def split: option.split)

definition prunable :: "limits \<Rightarrow> double \<Rightarrow> (string \<Rightarrow> string option) \<Rightarrow> (string \<times> string \<times> bool) list \<Rightarrow> string \<Rightarrow> bool" where
  "prunable bounds r stale os i \<longleftrightarrow>
     (\<exists>k < length os. fst (os ! k) = i \<and>
        MIN_PRUNE_RESULT \<le> tokens (length (fst (snd (os ! k)))) r \<and>
        (stale i \<noteq> None \<or> protect_output bounds \<le> output_tokens r (take k os)))"

lemma prunable_snoc: "prunable bounds r stale os i \<Longrightarrow> prunable bounds r stale (os @ [x]) i"
  unfolding prunable_def by (fastforce simp: nth_append)

lemma prunable_last:
  "MIN_PRUNE_RESULT \<le> tokens (length c) r \<Longrightarrow> stale i \<noteq> None \<or> protect_output bounds \<le> output_tokens r os \<Longrightarrow>
    prunable bounds r stale (os @ [(i, c, e)]) i"
  unfolding prunable_def by (rule exI [of _ "length os"]) simp

lemma prune_fold:
  fixes bounds :: limits and r :: double and stale :: "string \<Rightarrow> string option" and bs :: "block list"
  defines "st \<equiv> fold (prune_block bounds r stale) bs \<lparr>ps_newer = 0, ps_saved = 0, ps_plan = [], ps_elided = []\<rparr>"
  shows "ps_newer st = output_tokens r (outputs bs) \<and>
    (\<forall>p \<in> set (ps_plan st @ ps_elided st). prunable bounds r stale (outputs bs) (pr_id p))"
  unfolding st_def
proof (induction bs rule: rev_induct)
  case (snoc b bs)
  let ?st = "fold (prune_block bounds r stale) bs \<lparr>ps_newer = 0, ps_saved = 0, ps_plan = [], ps_elided = []\<rparr>"
  show ?case
  proof (cases b)
    case (ToolResult i c e)
    have o: "outputs (bs @ [b]) = outputs bs @ [(i, c, e)]" by (simp add: outputs_snoc ToolResult)
    have p: "prunable bounds r stale (outputs bs @ [(i, c, e)]) (pr_id p)"
      if "p \<in> set (ps_plan ?st @ ps_elided ?st)" for p
      using snoc.IH that by (blast intro: prunable_snoc)
    have q: "prunable bounds r stale (outputs bs @ [(i, c, e)]) i"
      if "\<not> tokens (length c) r < MIN_PRUNE_RESULT" "stale i \<noteq> None \<or> \<not> ps_newer ?st < protect_output bounds"
      using that snoc.IH by (intro prunable_last) auto
    have n: "ps_newer ?st = output_tokens r (outputs bs)" using snoc.IH by blast
    show ?thesis
      unfolding o fold_append fold_simps comp_def
      using p q n by (auto simp: ToolResult Let_def output_tokens_def split: option.splits)
  qed (use snoc.IH in \<open>simp_all add: outputs_snoc\<close>)
qed (simp add: outputs_def output_tokens_def map_filter_simps)

lemma prune_plan_prunable:
  assumes "p \<in> set (prune_plan conv bounds)"
  shows "prunable bounds (rate conv) (superseded conv) (outputs (newest_first (cv_messages conv))) (pr_id p)"
  using assms prune_fold [of bounds "rate conv" "superseded conv" "newest_first (cv_messages conv)"]
  by (auto simp: prune_plan_def Let_def split: if_splits)

text \<open>
  C40: pruning replaces the content of tool results and nothing else, and in a conversation
  whose results have ids of their own it replaces an output only when that has at least 50
  tokens and is superseded, or lies past the newest outputs the limits protect.
\<close>

theorem pruning_spares_the_newest:
  fixes conv :: conversation and bounds :: limits
  defines "os \<equiv> outputs (newest_first (cv_messages conv))"
    and "plan \<equiv> prune_plan conv bounds"
  assumes own: "distinct (map fst os)" and k: "k < length os" and nth: "os ! k = (i, c, e)"
    and changed: "prune_result plan (ToolResult i c e) \<noteq> ToolResult i c e"
  shows "MIN_PRUNE_RESULT \<le> tokens (length c) (rate conv) \<and>
    (superseded conv i \<noteq> None \<or> protect_output bounds \<le> output_tokens (rate conv) (take k os)) \<and>
    (\<exists>c'. prune_result plan (ToolResult i c e) = ToolResult i c' e) \<and>
    (\<forall>m \<in> set (cv_messages conv). \<forall>b \<in> set (m_blocks m). result_id b = None \<longrightarrow> prune_result plan b = b)"
proof -
  from changed obtain p where f: "find (\<lambda>p. pr_id p = i) plan = Some p" by (auto split: option.splits)
  then have "p \<in> set plan" "pr_id p = i" by (auto simp: find_Some_iff)
  with prune_plan_prunable [of p conv bounds]
  obtain k' where k': "k' < length os" "fst (os ! k') = i"
    "MIN_PRUNE_RESULT \<le> tokens (length (fst (snd (os ! k')))) (rate conv)"
    "superseded conv i \<noteq> None \<or> protect_output bounds \<le> output_tokens (rate conv) (take k' os)"
    by (auto simp: prunable_def plan_def os_def)
  have "k' = k" using own k k'(1,2) nth by (metis fst_conv length_map nth_eq_iff_index_eq nth_map)
  moreover have "prune_result plan b = b" if "result_id b = None" for b using that by (cases b) auto
  ultimately show ?thesis using k' nth f by (auto simp: find_None_iff)
qed

text \<open>
  Two outputs of 400 bytes, 100 tokens each, under limits that protect the newest 100 tokens:
  the older is replaced.
\<close>

definition sample_output :: string where
  "sample_output = replicate 400 (CHR ''x'')"

definition sample_long :: conversation where
  "sample_long = (new_conversation [])\<lparr>cv_messages :=
     [Message Assistant [ToolUse ''a'' ''shell'' JNull], Message User [ToolResult ''a'' sample_output False],
      Message Assistant [ToolUse ''b'' ''shell'' JNull], Message User [ToolResult ''b'' sample_output False]]\<rparr>"

definition sample_limits :: limits where
  "sample_limits = \<lparr>keep_raw = 0, protect_output = 100, min_prune_saving = 80\<rparr>"

lemma sample_doubles:
  "to_double 400 = 400" "to_double 100 = 100" "to_double 31 = 31" "to_double (31 / 4) = 31 / 4"
proof -
  have l: "floorlog 2 400 = 9" "floorlog 2 100 = 7" "floorlog 2 31 = 5" "floorlog 2 4 = 3" "floorlog 2 1 = 1"
    by (simp_all add: compute_floorlog)
  have q: "quotient_of 400 = (400, 1)" "quotient_of 100 = (100, 1)" "quotient_of 31 = (31, 1)"
    using quotient_of_int [of 400] quotient_of_int [of 100] quotient_of_int [of 31] by simp_all
  have "gcd 31 4 = (1 :: int)" by code_simp
  then have "quotient_of (31 / 4) = (31, 4)"
    using quotient_of_Fract [of 31 4] by (simp add: Fract_of_int_quotient normalize_def Let_def)
  with l q show "to_double 400 = 400" "to_double 100 = 100" "to_double 31 = 31" "to_double (31 / 4) = 31 / 4"
    by (simp_all add: to_double_def binade_def pow2_def round_even_def Let_def)
qed

lemma sample_tokens: "tokens 400 4 = 100" "tokens 31 4 = 8"
proof -
  have "\<lceil>31 / 4 :: rat\<rceil> = 8" by (simp add: ceiling_eq_iff)
  then show "tokens 400 4 = 100" "tokens 31 4 = 8"
    by (simp_all add: tokens_def div_double_def sample_doubles as_u64_def u64_max_def)
qed

lemma sample_output_simps [simp]:
  "length sample_output = 400" "starts_with sample_output ''['' = False"
proof -
  show "length sample_output = 400" by (simp add: sample_output_def)
  have "sample_output = CHR ''x'' # replicate 399 (CHR ''x'')"
    unfolding sample_output_def by (simp only: replicate_Suc [symmetric]) simp
  moreover have "starts_with (CHR ''x'' # replicate 399 (CHR ''x'')) ''['' = False"
    by (simp add: starts_with_def)
  ultimately show "starts_with sample_output ''['' = False" by (simp only:)
qed

lemma sample_long_simps:
  "rate sample_long = 4" "superseded sample_long = (\<lambda>_. None)"
  "newest_first (cv_messages sample_long) =
     [ToolResult ''b'' sample_output False, ToolUse ''b'' ''shell'' JNull,
      ToolResult ''a'' sample_output False, ToolUse ''a'' ''shell'' JNull]"
  by (simp_all add: sample_long_def new_conversation_def rate_def DEFAULT_BYTES_PER_TOKEN_def superseded_def
      all_blocks_def newest_first_def map_filter_simps Let_def fun_eq_iff)

lemma sample_prune_plan:
  "prune_plan sample_long sample_limits = [\<lparr>pr_id = ''a'', pr_content = truncated_note 100\<rparr>]"
proof -
  have "length (truncated_note 100) = 31" by code_simp
  then show ?thesis
    by (simp add: prune_plan_def sample_long_simps sample_limits_def sample_tokens MIN_PRUNE_RESULT_def Let_def)
qed

theorem pruning_spares_the_newest_witness:
  "prune_result (prune_plan sample_long sample_limits) (ToolResult ''a'' sample_output False) \<noteq>
     ToolResult ''a'' sample_output False \<and>
   protect_output sample_limits \<le>
     output_tokens (rate sample_long) (take 1 (outputs (newest_first (cv_messages sample_long))))"
proof -
  let ?os = "outputs (newest_first (cv_messages sample_long))"
  have os: "?os = [(''b'', sample_output, False), (''a'', sample_output, False)]"
    by (simp add: sample_long_simps outputs_def map_filter_simps)
  have "length (truncated_note 100) \<noteq> length sample_output"
  proof -
    have "length (truncated_note 100) = 31" by code_simp
    then show ?thesis by simp
  qed
  then have c: "prune_result (prune_plan sample_long sample_limits) (ToolResult ''a'' sample_output False) \<noteq>
      ToolResult ''a'' sample_output False"
    by (auto simp: sample_prune_plan)
  have "superseded sample_long ''a'' \<noteq> None \<or>
      protect_output sample_limits \<le> output_tokens (rate sample_long) (take 1 ?os)"
    using pruning_spares_the_newest [of sample_long 1 "''a''" sample_output False sample_limits] c
    by (simp add: os)
  with c show ?thesis by (simp add: sample_long_simps)
qed

section \<open>The operator's words survive a summary\<close>

text \<open>A needle that overlaps no shift of itself is found where it was put.\<close>

definition unbordered :: "string \<Rightarrow> bool" where
  "unbordered n \<longleftrightarrow> n \<noteq> [] \<and> list_all (\<lambda>k. take k n \<noteq> drop (length n - k) n) [1..<length n]"

lemma unborderedD: "unbordered n \<Longrightarrow> 0 < k \<Longrightarrow> k < length n \<Longrightarrow> take k n \<noteq> drop (length n - k) n"
  by (auto simp: unbordered_def list_all_iff Suc_le_eq)

lemma split_once_unbordered:
  assumes n: "unbordered n" and a: "\<not> contains_str a n"
  shows "split_once n (a @ n @ b) = Some (a, b)"
proof -
  obtain x y where xy: "split_once n (a @ n @ b) = Some (x, y)" "length b \<le> length y"
    using split_once_first [OF refl, where x = a and n = n and y = b] by blast
  then have eq: "a @ n @ b = x @ n @ y" using split_once_Some by blast
  then have "length x \<le> length a" using arg_cong [OF eq, of length] xy(2)
    unfolding length_append by linarith
  then obtain z where z: "a = x @ z" using eq by (metis append_eq_append_conv_if append_take_drop_id)
  with eq have e: "z @ n @ b = n @ y" by simp
  show ?thesis
  proof (cases "z = []")
    case True
    with z e xy show ?thesis by simp
  next
    case False
    show ?thesis
    proof (cases "length n \<le> length z")
      case True
      then obtain z' where "z = n @ z'" using e by (metis append_eq_append_conv_if append_take_drop_id)
      with z a show ?thesis by (auto simp: contains_str_iff)
    next
      case short: False
      then obtain u where u: "n = z @ u" using e by (metis append_eq_append_conv_if append_take_drop_id nat_le_linear)
      with e have "u @ y = n @ b" by simp
      then have "take (length u) n = u" using u by (metis append_eq_append_conv_if append_eq_conv_conj le_add2 length_append)
      moreover have "drop (length n - length u) n = u" using u by simp
      moreover have "0 < length u" "length u < length n" using u False short by auto
      ultimately show ?thesis using unborderedD [OF n, of "length u"] by simp
    qed
  qed
qed

lemma heading_unbordered: "unbordered HEADING_START"
  by code_simp

lemma operator_unbordered: "unbordered OPERATOR_MESSAGES"
  by code_simp

text \<open>What is relied on of \<open>\d\<close>: the ten ASCII digits are digits, a space is not.\<close>

definition digits_ok :: "agent_libs \<Rightarrow> bool" where
  "digits_ok l \<longleftrightarrow> list_all (\<lambda>d. al_is_nd l [digit d]) [0..<10] \<and> \<not> al_is_nd l '' ''"

lemma is_digit_cases: "is_digit c \<Longrightarrow> \<exists>d < 10. c = digit d"
proof -
  assume d: "is_digit c"
  then have b: "48 \<le> byte c" "byte c \<le> 57" by (auto simp: is_digit_def)
  then have "c = digit (byte c - 48)" by (simp add: digit_def)
  moreover have "byte c - 48 < 10" using b by linarith
  ultimately show ?thesis by blast
qed

lemma digit_run_digits:
  assumes "digits_ok l" and "list_all is_digit ds"
  shows "digit_run l (ds @ HEADING_END @ x) = HEADING_END @ x"
  using assms(2)
proof (induction ds)
  case Nil
  have s: "HEADING_END @ x = CHR '' '' # (tl HEADING_END @ x)" by (simp add: HEADING_END_def)
  show ?case unfolding append_Nil s using assms(1) by (subst digit_run.simps) (simp add: digits_ok_def)
next
  case (Cons c ds)
  then obtain d where d: "d < 10" "c = digit d" using is_digit_cases by auto
  have "byte c < 128" using Cons.prems by (auto simp: is_digit_def)
  then have "fst (next_char (c # ds @ HEADING_END @ x)) = 1" by simp
  moreover have "al_is_nd l [c]" using assms(1) d by (auto simp: digits_ok_def list_all_iff)
  ultimately show ?case using Cons by (subst digit_run.simps) (simp add: Let_def)
qed

lemma strip_prefix_append [simp]: "strip_prefix p (p @ r) = Some r"
  by (simp add: strip_prefix_Some)

lemma match_heading_put:
  assumes "digits_ok l"
  shows "match_heading l (operator_heading n @ x) = Some x"
proof -
  have r: "digit_run l (dec n @ HEADING_END @ x) = HEADING_END @ x"
    by (rule digit_run_digits [OF assms dec_digits])
  moreover have "HEADING_END @ x \<noteq> dec n @ HEADING_END @ x" by simp
  ultimately show ?thesis
    unfolding match_heading_def operator_heading_def append_assoc by (simp add: Let_def)
qed

definition starts_heading :: "string \<Rightarrow> bool" where
  "starts_heading s \<longleftrightarrow> s = [] \<or> starts_with s HEADING_START"

lemma split_heading_skip:
  assumes "\<not> contains_str p HEADING_START" and rest: "starts_heading rest"
  shows "\<exists>ps. split_heading l (p @ rest) = (p @ hd (split_heading l rest)) # ps \<and> ps = tl (split_heading l rest)"
  using assms(1)
proof (induction p)
  case Nil
  have "split_heading l rest \<noteq> []"
    by (subst split_heading.simps) (auto split: option.splits list.splits)
  then show ?case by simp
next
  case (Cons c p)
  have p: "\<not> contains_str p HEADING_START"
    using Cons.prems by (auto simp: contains_str_iff) (metis append_Cons)
  have "strip_prefix HEADING_START (c # p @ rest) = None"
  proof (cases "rest = []")
    case True
    with Cons.prems show ?thesis by (auto simp: strip_prefix_None contains_str_iff) (metis append_Nil)
  next
    case False
    with rest obtain b where "rest = HEADING_START @ b" by (auto simp: starts_heading_def starts_with_iff)
    then have "split_once HEADING_START (c # p @ rest) = Some (c # p, b)"
      using split_once_unbordered [OF heading_unbordered Cons.prems, of b] by simp
    then show ?thesis by (subst (asm) split_once.simps) (auto split: option.splits)
  qed
  then have "match_heading l (c # p @ rest) = None" by (simp add: match_heading_def)
  with Cons.IH [OF p] show ?case
    by (auto simp: split_heading.simps [of l "c # p @ rest"])
qed

lemma starts_heading_headed: "starts_heading (headed n ms)"
  by (cases ms) (auto simp: starts_heading_def starts_with_iff operator_heading_def)

text \<open>Messages without a heading of their own are read back from under their headings.\<close>

lemma split_heading_headed:
  assumes "digits_ok l" and "\<forall>m \<in> set ms. \<not> contains_str m HEADING_START"
    and "\<not> contains_str p HEADING_START"
  shows "split_heading l (p @ headed n ms) = p # ms"
  using assms(2,3)
proof (induction ms arbitrary: p n)
  case Nil
  then show ?case
    using split_heading_skip [of p "[]" l] by (simp add: starts_heading_def split_heading.simps [of l "[]"] match_heading_def strip_prefix_None HEADING_START_def)
next
  case (Cons m ms)
  have "split_heading l (headed n (m # ms)) = [] # split_heading l (m @ headed (n + 1) ms)"
    using match_heading_put [OF assms(1), of "n + 1" "m @ headed (n + 1) ms"]
    by (simp add: split_heading.simps [of l "operator_heading (Suc n) @ m @ headed (Suc n) ms"])
  moreover have "split_heading l (m @ headed (n + 1) ms) = m # ms" using Cons by simp
  ultimately show ?case
    using split_heading_skip [OF Cons.prems(2) starts_heading_headed, of l n "m # ms"] by simp
qed

text \<open>
  A message that can be restated: it holds no heading like the ones it is put under, and
  does not end with the words that end a summary.
\<close>

definition restatable :: "string \<Rightarrow> bool" where
  "restatable m \<longleftrightarrow> \<not> contains_str m HEADING_START \<and> \<not> ends_with (LF # m) CARRY_ON"

lemma strip_suffix_append: "strip_suffix p (s @ p) = Some s"
  using strip_prefix_Some [of "rev p" "rev s"] by (simp add: strip_suffix_def strip_prefix_Some)

lemma strip_suffix_None: "strip_suffix p s = None \<longleftrightarrow> \<not> ends_with s p"
  by (simp add: strip_suffix_def ends_with_def)

lemma headed_snoc: "headed n (ms @ [m]) = headed n ms @ operator_heading (n + length ms + 1) @ m"
  by (induction ms arbitrary: n) auto

lemma headed_no_carry_on:
  assumes "ms \<noteq> []" and "restatable (last ms)"
  shows "\<not> ends_with (headed n ms) CARRY_ON"
proof
  assume e: "ends_with (headed n ms) CARRY_ON"
  obtain xs m where ms: "ms = xs @ [m]" using assms(1) by (metis append_butlast_last_id)
  define y where "y = headed n xs @ HEADING_START @ dec (n + length xs + 1) @ '' --''"
  have h: "headed n ms = y @ CHR ''-'' # LF # m"
    by (simp add: ms headed_snoc operator_heading_def y_def HEADING_END_def)
  with e obtain r where "(y @ [CHR ''-'']) @ (LF # m) = r @ CARRY_ON" by (auto simp: ends_with_iff)
  then obtain u where "y @ [CHR ''-''] = r @ u \<and> u @ LF # m = CARRY_ON \<or> LF # m = u @ CARRY_ON"
    unfolding append_eq_append_conv2 by blast
  moreover have False if u: "y @ [CHR ''-''] = r @ u" "u @ LF # m = CARRY_ON" "u \<noteq> []"
  proof -
    from u(1,3) have "last u = CHR ''-''" by (metis last_appendR last_snoc)
    with u(2,3) have "CHR ''-'' \<in> set CARRY_ON" by (metis UnI1 last_in_set set_append)
    moreover have "CHR ''-'' \<notin> set CARRY_ON" by code_simp
    ultimately show False by contradiction
  qed
  ultimately have "ends_with (LF # m) CARRY_ON" by (metis append_Nil ends_with_iff)
  with assms(2) ms show False by (simp add: restatable_def)
qed

text \<open>What a summary's text has before the operator's messages: the notes and the calls.\<close>

definition notes_part :: "agent_libs \<Rightarrow> conversation \<Rightarrow> nat \<Rightarrow> string \<Rightarrow> string" where
  "notes_part l conv up_to summary =
     (let calls = call_record l (take up_to (cv_messages conv)) in
      SUMMARY_HEADER @ NOTES @ trim summary
        @ (if calls = [] then [] else CALLS @ join_with [LF] (map (\<lambda>c. ''- '' @ c) calls)))"

lemma operator_block_summary:
  fixes l :: agent_libs and conv :: conversation and up_to :: nat
  defines "said \<equiv> said_before l (take up_to (cv_messages conv))"
  assumes l: "digits_ok l" and s: "said \<noteq> []" and r: "\<forall>m \<in> set said. restatable m"
    and n: "\<not> contains_str (notes_part l conv up_to summary) OPERATOR_MESSAGES"
  shows "operator_block l (Text (summary_message l conv up_to summary)) = said"
proof -
  let ?tail = "if up_to = length (cv_messages conv) then CARRY_ON else []"
  have t: "summary_message l conv up_to summary =
      notes_part l conv up_to summary @ OPERATOR_MESSAGES @ headed 0 said @ ?tail"
    using s by (simp add: summary_message_def notes_part_def said_def Let_def)
  have "starts_with (summary_message l conv up_to summary) SUMMARY_HEADER"
    by (simp add: starts_with_iff t notes_part_def Let_def)
  moreover have "split_once OPERATOR_MESSAGES (summary_message l conv up_to summary) =
      Some (notes_part l conv up_to summary, headed 0 said @ ?tail)"
    unfolding t by (rule split_once_unbordered [OF operator_unbordered n])
  moreover have "(case strip_suffix CARRY_ON (headed 0 said @ ?tail) of Some r \<Rightarrow> r | None \<Rightarrow> headed 0 said @ ?tail)
      = headed 0 said"
  proof (cases "up_to = length (cv_messages conv)")
    case True
    then show ?thesis by (simp add: strip_suffix_append)
  next
    case False
    have "\<not> ends_with (headed 0 said) CARRY_ON" by (rule headed_no_carry_on) (use s r in auto)
    then have "strip_suffix CARRY_ON (headed 0 said) = None" by (simp add: strip_suffix_None)
    with False show ?thesis by simp
  qed
  moreover have "split_heading l (headed 0 said) = [] # said"
    using split_heading_headed [OF l, of said "[]" 0] r
    by (simp add: restatable_def contains_str_iff HEADING_START_def)
  ultimately show ?thesis by (simp add: Let_def)
qed

lemma operator_messages_simps [simp]:
  "operator_messages l [] = []"
  "operator_messages l (m # ms) =
     (if m_role m = User then concat (map (operator_block l) (m_blocks m)) else []) @ operator_messages l ms"
  "operator_messages l (ms @ ms') = operator_messages l ms @ operator_messages l ms'"
  by (simp_all add: operator_messages_def all_blocks_def)

lemma drop_middle_fits: "sum_list (map length ss) \<le> MAX_OPERATOR_BYTES \<Longrightarrow> drop_middle ss n = (ss, n)"
  by (induction ss n rule: drop_middle.induct) auto

lemma said_before_fits:
  assumes "\<forall>m \<in> set (operator_messages l ms). length m \<le> SUMMARY_RESULT_BYTES"
    and "sum_list (map length (operator_messages l ms)) \<le> MAX_OPERATOR_BYTES"
  shows "said_before l ms = operator_messages l ms"
proof -
  have "map (\<lambda>m. head_and_tail m ''bytes left out'') (operator_messages l ms) = operator_messages l ms"
    using assms(1) by (intro map_idI) (simp add: head_and_tail_def)
  then show ?thesis using assms(2) by (simp add: said_before_def drop_middle_fits)
qed

lemma operator_messages_summary:
  "operator_messages l (apply_summary ms t keep) =
     operator_block l (Text t) @ operator_messages l (drop (length ms - keep) ms)"
  by (simp add: apply_summary_def Let_def split: list.split)

text \<open>
  C26: replacing the earlier part of a session by a summary keeps the operator's messages word
  for word: what the conversation afterwards restates, read the way the next summary reads
  it, is exactly what the operator said before, however often this is repeated. It holds
  while each message has at most 8000 bytes and those cut at most 16 KiB together, none
  imitates the headings of a summary, and the model's notes do not spell the heading of the
  operator's messages themselves.
\<close>

theorem summaries_keep_the_operators_words:
  fixes l :: agent_libs and conv :: conversation and up_to :: nat
  defines "ms \<equiv> cv_messages conv"
  defines "before \<equiv> operator_messages l (take up_to ms)"
  assumes l: "digits_ok l" and u: "up_to \<le> length ms"
    and s: "before \<noteq> []" and r: "\<forall>m \<in> set before. restatable m"
    and fit: "\<forall>m \<in> set before. length m \<le> SUMMARY_RESULT_BYTES"
      "sum_list (map length before) \<le> MAX_OPERATOR_BYTES"
    and n: "\<not> contains_str (notes_part l conv up_to summary) OPERATOR_MESSAGES"
  shows "operator_messages l
      (apply_summary ms (summary_message l conv up_to summary) (length ms - up_to)) =
    operator_messages l ms"
proof -
  have b: "said_before l (take up_to ms) = before"
    using said_before_fits fit by (simp add: before_def)
  have "operator_block l (Text (summary_message l conv up_to summary)) = before"
    using operator_block_summary [OF l _ _ n] s r b by (simp add: ms_def)
  moreover have "operator_messages l ms = before @ operator_messages l (drop up_to ms)"
    unfolding before_def operator_messages_simps(3) [symmetric] by simp
  ultimately show ?thesis using u by (simp add: operator_messages_summary)
qed


text \<open>Sample conversations the witnesses run on.\<close>

definition sample_agent_libs :: agent_libs where
  "sample_agent_libs =
     \<lparr>al_to_string = (\<lambda>_. ''{}''), al_is_nd = (\<lambda>s. case s of [c] \<Rightarrow> is_digit c | _ \<Rightarrow> False),
      al_strip_anchors = id\<rparr>"

definition sample_conversation :: conversation where
  "sample_conversation = (new_conversation ''be brief'')\<lparr>cv_messages :=
     [Message User [Text ''fix the test''],
      Message Assistant [ToolUse ''a'' ''read'' (JObj [(''path'', JStr ''x'')])],
      Message User [ToolResult ''a'' ''1:0000|x'' False],
      Message Assistant [Text ''done''],
      Message User [Text ''now the docs'']]\<rparr>"

lemma sample_digits_ok: "digits_ok sample_agent_libs"
  by code_simp

theorem summaries_keep_the_operators_words_witness:
  "operator_messages sample_agent_libs
     (apply_summary (cv_messages sample_conversation)
       (summary_message sample_agent_libs sample_conversation 4 ''The test passes.'') 1) =
   [''fix the test'', ''now the docs'']"
proof -
  have "operator_messages sample_agent_libs
     (apply_summary (cv_messages sample_conversation)
       (summary_message sample_agent_libs sample_conversation 4 ''The test passes.'')
       (length (cv_messages sample_conversation) - 4)) =
    operator_messages sample_agent_libs (cv_messages sample_conversation)"
  proof (rule summaries_keep_the_operators_words)
    show "digits_ok sample_agent_libs" by (rule sample_digits_ok)
    show "4 \<le> length (cv_messages sample_conversation)" by code_simp
    show "operator_messages sample_agent_libs (take 4 (cv_messages sample_conversation)) \<noteq> []" by code_simp
    show "\<forall>m \<in> set (operator_messages sample_agent_libs (take 4 (cv_messages sample_conversation))). restatable m"
      by code_simp
    show "\<forall>m \<in> set (operator_messages sample_agent_libs (take 4 (cv_messages sample_conversation))).
        length m \<le> SUMMARY_RESULT_BYTES" by code_simp
    show "sum_list (map length (operator_messages sample_agent_libs (take 4 (cv_messages sample_conversation))))
        \<le> MAX_OPERATOR_BYTES" by code_simp
    show "\<not> contains_str (notes_part sample_agent_libs sample_conversation 4 ''The test passes.'') OPERATOR_MESSAGES"
      by code_simp
  qed
  moreover have "operator_messages sample_agent_libs (cv_messages sample_conversation) =
      [''fix the test'', ''now the docs'']" by code_simp
  moreover have "length (cv_messages sample_conversation) - 4 = 1" by code_simp
  ultimately show ?thesis by simp
qed

end
