(* ===== verification/Journal.thy ===== *)
theory Journal
  imports Compact_Laws
begin

text \<open>
  \<^verbatim>\<open>src/agent/src/journal.rs\<close>: the write-ahead record of a session, and rebuilding the session from
  it. First the records and their replay; then the file they are lines of, with a process
  that dies inside a write; then the protocol the records of a session follow, under which
  every prefix of a journal rebuilds a well-formed conversation.
\<close>

section \<open>Records\<close>

definition NOT_RUN :: string where
  "NOT_RUN = ''not run: the harness restarted before this call ran. Call it again ''
     @ ''if it is still needed.''"

definition OUTCOME_UNKNOWN :: string where
  "OUTCOME_UNKNOWN = ''outcome unknown: the harness stopped while this call ran, so ''
     @ ''whether it finished, and what it changed, is not known. Check ''
     @ ''its effects before running it again.''"

datatype journal_record =
    RSession string string
  | RMessage role "block list"
  | RToolAsked string
  | RToolStarted string
  | RToolResult string string bool
  | RPruned "pruned list"
  | RCompacted string nat

record interrupted =
  in_id :: string
  in_name :: string
  in_input :: json
  in_asked :: bool
  in_content :: string

record restored =
  rs_cwd :: "string option"
  rs_messages :: "message list"
  rs_interrupted :: "interrupted list"

text \<open>The tool calls of the last response, and what the journal says of each.\<close>

record open_calls =
  oc_calls :: "call list"
  oc_asked :: "string set"
  oc_started :: "string set"
  oc_results :: "string \<Rightarrow> (string \<times> bool) option"

section \<open>Rebuilding a session\<close>

fun close_calls :: "open_calls \<Rightarrow> call list \<Rightarrow> (string \<Rightarrow> (string \<times> bool) option) \<Rightarrow> interrupted list \<times> block list" where
  "close_calls oc [] results = ([], [])"
| "close_calls oc ((i, name, input) # cs) results =
     (let (is, bs) = close_calls oc cs (results(i := None)) in
      case results i of
        Some (content, e) \<Rightarrow> (is, ToolResult i content e # bs)
      | None \<Rightarrow>
          (let content = (if i \<in> oc_started oc then OUTCOME_UNKNOWN else NOT_RUN) in
           (\<lparr>in_id = i, in_name = name, in_input = input, in_asked = i \<in> oc_asked oc,
             in_content = content\<rparr> # is,
            ToolResult i content True # bs)))"

definition close :: "open_calls \<Rightarrow> restored \<Rightarrow> restored" where
  "close oc out =
     (let (is, bs) = close_calls oc (oc_calls oc) (oc_results oc) in
      out\<lparr>rs_messages := rs_messages out @ [Message User bs],
          rs_interrupted := rs_interrupted out @ is\<rparr>)"

type_synonym replay = "restored \<times> open_calls option"

definition closed :: "replay \<Rightarrow> restored" where
  "closed st = (case snd st of None \<Rightarrow> fst st | Some oc \<Rightarrow> close oc (fst st))"

definition with_open :: "(open_calls \<Rightarrow> open_calls) \<Rightarrow> replay \<Rightarrow> replay" where
  "with_open f st = (fst st, map_option f (snd st))"

fun replay_step :: "replay \<Rightarrow> journal_record \<Rightarrow> replay" where
  "replay_step st (RSession i cwd) = ((fst st)\<lparr>rs_cwd := Some cwd\<rparr>, snd st)"
| "replay_step st (RMessage r bs) =
     (let out = closed st; calls = calls_of bs in
      (out\<lparr>rs_messages := rs_messages out @ [Message r bs]\<rparr>,
       if r = Assistant \<and> calls \<noteq> []
       then Some \<lparr>oc_calls = calls, oc_asked = {}, oc_started = {}, oc_results = Map.empty\<rparr>
       else None))"
| "replay_step st (RToolAsked i) = with_open (\<lambda>oc. oc\<lparr>oc_asked := insert i (oc_asked oc)\<rparr>) st"
| "replay_step st (RToolStarted i) = with_open (\<lambda>oc. oc\<lparr>oc_started := insert i (oc_started oc)\<rparr>) st"
| "replay_step st (RToolResult i content e) =
     with_open (\<lambda>oc. oc\<lparr>oc_results := (oc_results oc)(i \<mapsto> (content, e))\<rparr>) st"
| "replay_step st (RPruned results) =
     (let out = closed st in (out\<lparr>rs_messages := apply_prune results (rs_messages out)\<rparr>, None))"
| "replay_step st (RCompacted summary keep) =
     (let out = closed st in (out\<lparr>rs_messages := apply_summary (rs_messages out) summary keep\<rparr>, None))"

definition nothing_restored :: restored where
  "nothing_restored = \<lparr>rs_cwd = None, rs_messages = [], rs_interrupted = []\<rparr>"

definition replay_from :: "replay \<Rightarrow> journal_record list \<Rightarrow> replay" where
  "replay_from st rs = foldl replay_step st rs"

definition restore_records :: "journal_record list \<Rightarrow> restored" where
  "restore_records rs = closed (replay_from (nothing_restored, None) rs)"

lemma replay_from_simps [simp]:
  "replay_from st [] = st"
  "replay_from st (r # rs) = replay_from (replay_step st r) rs"
  "replay_from st (rs @ rs') = replay_from (replay_from st rs) rs'"
  by (simp_all add: replay_from_def)

section \<open>The file\<close>

text \<open>
  serde\_json writes a record as one line and reads it back; what it is relied on for is
  \<open>codec_ok\<close>: a line is read back as its record, has no line feed and is valid UTF-8, and no
  line is a proper prefix of another's text that reads as a record.
\<close>

record codec =
  to_line :: "journal_record \<Rightarrow> string option"
  from_line :: "string \<Rightarrow> journal_record option"

definition codec_ok :: "codec \<Rightarrow> bool" where
  "codec_ok c \<longleftrightarrow>
     (\<forall>r t. to_line c r = Some t \<longrightarrow>
        t \<noteq> [] \<and> LF \<notin> set t \<and> last t \<noteq> CR \<and> utf8_valid t \<and> from_line c t = Some r \<and>
        (\<forall>k < length t. from_line c (take k t) = None))"

definition write_record :: "codec \<Rightarrow> string \<Rightarrow> journal_record \<Rightarrow> string" where
  "write_record c disk r = (case to_line c r of None \<Rightarrow> disk | Some t \<Rightarrow> disk @ t @ [LF])"

definition write_records :: "codec \<Rightarrow> string \<Rightarrow> journal_record list \<Rightarrow> string" where
  "write_records c disk rs = foldl (write_record c) disk rs"

datatype journal_error = Invalid_Utf8

definition restore :: "codec \<Rightarrow> string \<Rightarrow> (journal_error, restored) result" where
  "restore c disk =
     (let ls = str_lines disk in
      if list_all utf8_valid ls then Ok (restore_records (List.map_filter (from_line c) ls))
      else Err Invalid_Utf8)"

section \<open>Answering the open calls\<close>

lemma close_calls_ids:
  "result_ids (snd (close_calls oc cs results)) = map fst cs \<and>
   list_all is_result (snd (close_calls oc cs results))"
  by (induction oc cs results rule: close_calls.induct)
    (auto simp: is_result_def Let_def simp del: fun_upd_apply split: option.splits prod.splits)

definition answer_for :: "open_calls \<Rightarrow> call \<Rightarrow> block" where
  "answer_for oc = (\<lambda>(i, _, _).
     case oc_results oc i of
       Some (content, e) \<Rightarrow> ToolResult i content e
     | None \<Rightarrow> ToolResult i (if i \<in> oc_started oc then OUTCOME_UNKNOWN else NOT_RUN) True)"

definition lost_call :: "open_calls \<Rightarrow> call \<Rightarrow> interrupted" where
  "lost_call oc = (\<lambda>(i, name, input).
     \<lparr>in_id = i, in_name = name, in_input = input, in_asked = i \<in> oc_asked oc,
      in_content = (if i \<in> oc_started oc then OUTCOME_UNKNOWN else NOT_RUN)\<rparr>)"

lemma close_calls_distinct:
  assumes "distinct (map fst cs)" and "\<forall>i \<in> fst ` set cs. results i = oc_results oc i"
  shows "close_calls oc cs results =
    (map (lost_call oc) (filter (\<lambda>c. oc_results oc (fst c) = None) cs), map (answer_for oc) cs)"
  using assms
proof (induction cs arbitrary: results)
  case (Cons c cs)
  obtain i name input where c: "c = (i, name, input)" by (cases c)
  have "close_calls oc cs (results(i := None)) =
      (map (lost_call oc) (filter (\<lambda>c. oc_results oc (fst c) = None) cs), map (answer_for oc) cs)"
    using Cons.prems c by (intro Cons.IH) auto
  moreover have "results i = oc_results oc i" using Cons.prems c by simp
  ultimately show ?case by (simp add: c answer_for_def lost_call_def split: option.split)
qed simp

lemma close_simps [simp]:
  "rs_messages (close oc out) = rs_messages out @ [Message User (snd (close_calls oc (oc_calls oc) (oc_results oc)))]"
  "rs_interrupted (close oc out) = rs_interrupted out @ fst (close_calls oc (oc_calls oc) (oc_results oc))"
  by (simp_all add: close_def split: prod.split)

section \<open>The protocol of a session's records\<close>

text \<open>
  A message, a pruning or a summary comes only once every call of the last response has its
  result; the calls of a response have ids of their own; a summary keeps whole pairs of
  calls and results.
\<close>

definition resolved :: "replay \<Rightarrow> bool" where
  "resolved st =
     (case snd st of None \<Rightarrow> True | Some oc \<Rightarrow> list_all (\<lambda>c. oc_results oc (fst c) \<noteq> None) (oc_calls oc))"

fun record_ok :: "replay \<Rightarrow> journal_record \<Rightarrow> bool" where
  "record_ok st (RMessage r bs) \<longleftrightarrow>
     resolved st \<and> result_ids bs = [] \<and> (r = Assistant \<longrightarrow> distinct (map fst (calls_of bs)))"
| "record_ok st (RPruned results) \<longleftrightarrow> resolved st"
| "record_ok st (RCompacted summary keep) \<longleftrightarrow>
     resolved st \<and>
     (let ms = rs_messages (closed st) in may_cut ms (length ms - keep))"
| "record_ok st _ \<longleftrightarrow> True"

fun records_ok :: "replay \<Rightarrow> journal_record list \<Rightarrow> bool" where
  "records_ok st [] \<longleftrightarrow> True"
| "records_ok st (r # rs) \<longleftrightarrow> record_ok st r \<and> records_ok (replay_step st r) rs"

lemma records_ok_append [simp]:
  "records_ok st (rs @ rs') \<longleftrightarrow> records_ok st rs \<and> records_ok (replay_from st rs) rs'"
  by (induction rs arbitrary: st) auto

definition replay_inv :: "replay \<Rightarrow> bool" where
  "replay_inv st \<longleftrightarrow>
     rs_interrupted (fst st) = [] \<and>
     (case snd st of
        None \<Rightarrow> answered (rs_messages (fst st))
      | Some oc \<Rightarrow>
          distinct (map fst (oc_calls oc)) \<and>
          (\<exists>pre bs. rs_messages (fst st) = pre @ [Message Assistant bs] \<and> answered pre \<and>
             calls_of bs = oc_calls oc \<and> oc_calls oc \<noteq> [] \<and> result_ids bs = []))"

lemma replay_inv_closed:
  assumes "replay_inv st"
  shows "answered (rs_messages (closed st))"
proof (cases "snd st")
  case None
  with assms show ?thesis by (simp add: replay_inv_def closed_def)
next
  case (Some oc)
  with assms obtain pre bs where p: "rs_messages (fst st) = pre @ [Message Assistant bs]" "answered pre"
    "calls_of bs = oc_calls oc" "oc_calls oc \<noteq> []" "result_ids bs = []"
    by (auto simp: replay_inv_def)
  have "answered [Message Assistant bs, Message User (snd (close_calls oc (oc_calls oc) (oc_results oc)))]"
    using p by (simp add: calls_made_def close_calls_ids)
  then have "answered (pre @ [Message Assistant bs, Message User (snd (close_calls oc (oc_calls oc) (oc_results oc)))])"
    by (rule answered_append [OF p(2)])
  with p(1) Some show ?thesis by (simp add: closed_def)
qed

lemma replay_inv_resolved:
  assumes "replay_inv st" and "resolved st"
  shows "rs_interrupted (closed st) = []"
proof (cases "snd st")
  case None
  with assms show ?thesis by (simp add: replay_inv_def closed_def)
next
  case (Some oc)
  with assms(1) have d: "distinct (map fst (oc_calls oc))" "rs_interrupted (fst st) = []"
    by (auto simp: replay_inv_def)
  moreover have "filter (\<lambda>c. oc_results oc (fst c) = None) (oc_calls oc) = []"
    using assms(2) Some by (simp add: resolved_def filter_empty_conv list_all_iff)
  ultimately show ?thesis using Some by (simp add: closed_def close_calls_distinct)
qed

lemma replay_inv_step:
  assumes "replay_inv st" and "record_ok st r"
  shows "replay_inv (replay_step st r)"
proof (cases r)
  case (RMessage ro bs)
  have a: "answered (rs_messages (closed st))" by (rule replay_inv_closed [OF assms(1)])
  have i: "rs_interrupted (closed st) = []"
    using replay_inv_resolved [OF assms(1)] assms(2) RMessage by simp
  show ?thesis
  proof (cases "ro = Assistant \<and> calls_of bs \<noteq> []")
    case True
    with a i RMessage assms(2) show ?thesis by (auto simp: replay_inv_def Let_def)
  next
    case False
    then have "answered [Message ro bs]" using assms(2) RMessage by (auto simp: calls_made_def)
    with a i False RMessage answered_append [OF a] show ?thesis by (auto simp: replay_inv_def Let_def)
  qed
next
  case (RPruned results)
  with replay_inv_closed [OF assms(1)] replay_inv_resolved [OF assms(1)] assms(2) show ?thesis
    by (simp add: replay_inv_def Let_def answered_prune)
next
  case (RCompacted summary keep)
  with replay_inv_closed [OF assms(1)] replay_inv_resolved [OF assms(1)] assms(2) show ?thesis
    by (simp add: replay_inv_def Let_def answered_summary)
qed (use assms(1) in \<open>simp_all add: replay_inv_def with_open_def split: option.splits\<close>)

lemma replay_inv_from: "replay_inv st \<Longrightarrow> records_ok st rs \<Longrightarrow> replay_inv (replay_from st rs)"
proof (induction rs arbitrary: st)
  case (Cons r rs)
  then have "replay_inv (replay_step st r)" by (simp add: replay_inv_step)
  with Cons show ?case by simp
qed simp

lemma replay_inv_start: "replay_inv (nothing_restored, None)"
  by (simp add: replay_inv_def nothing_restored_def)

lemma records_ok_take: "records_ok st rs \<Longrightarrow> records_ok st (take k rs)"
  by (metis append_take_drop_id records_ok_append)

text \<open>
  Whatever prefix of a journal was written when its process died, the session rebuilt from it
  is well formed for the next prompt.
\<close>

lemma every_prefix_is_answered:
  "records_ok (nothing_restored, None) rs \<Longrightarrow> answered (rs_messages (restore_records (take k rs)))"
  unfolding restore_records_def
  by (intro replay_inv_closed replay_inv_from replay_inv_start records_ok_take)

section \<open>Reopening a session\<close>

text \<open>\<open>Session::start\<close> of \<^verbatim>\<open>server.rs\<close> writes the results decided for the interrupted calls.\<close>

definition reopen_records :: "restored \<Rightarrow> journal_record list" where
  "reopen_records out = map (\<lambda>i. RToolResult (in_id i) (in_content i) True) (rs_interrupted out)"

lemma replay_results:
  "replay_from (out, Some oc) (map (\<lambda>i. RToolResult (in_id i) (in_content i) True) is) =
    (out, Some (oc\<lparr>oc_results := foldl (\<lambda>m i. m(in_id i \<mapsto> (in_content i, True))) (oc_results oc) is\<rparr>))"
  by (induction "is" arbitrary: oc) (simp_all add: with_open_def)

lemma foldl_results:
  "\<forall>i \<in> set is. in_content i = g (in_id i) \<Longrightarrow>
    foldl (\<lambda>m i. m(in_id i \<mapsto> (in_content i, True))) r is x =
      (if x \<in> in_id ` set is then Some (g x, True) else r x)"
  by (induction "is" arbitrary: r) auto

lemma reopen_settles:
  assumes inv: "replay_inv st"
  defines "st' \<equiv> replay_from st (reopen_records (closed st))"
  shows "rs_messages (closed st') = rs_messages (closed st)" and "resolved st'"
    and "records_ok st (reopen_records (closed st))"
proof -
  have "records_ok st (map (\<lambda>i. RToolResult (in_id i) (in_content i) True) is)" for st "is"
    by (induction "is" arbitrary: st) auto
  then show "records_ok st (reopen_records (closed st))" by (simp add: reopen_records_def)
  have "rs_messages (closed st') = rs_messages (closed st) \<and> resolved st'"
  proof (cases "snd st")
    case None
    with inv have "st' = st" by (simp add: st'_def reopen_records_def closed_def replay_inv_def)
    with None show ?thesis by (simp add: resolved_def)
  next
    case (Some oc)
    let ?g = "\<lambda>i. if i \<in> oc_started oc then OUTCOME_UNKNOWN else NOT_RUN"
    let ?lost = "map (lost_call oc) (filter (\<lambda>c. oc_results oc (fst c) = None) (oc_calls oc))"
    have d: "distinct (map fst (oc_calls oc))" and n: "rs_interrupted (fst st) = []"
      using inv Some by (auto simp: replay_inv_def)
    have cc: "close_calls oc (oc_calls oc) (oc_results oc) = (?lost, map (answer_for oc) (oc_calls oc))"
      by (rule close_calls_distinct [OF d]) simp
    define m where "m = foldl (\<lambda>m i. m(in_id i \<mapsto> (in_content i, True))) (oc_results oc) ?lost"
    define oc' where "oc' = oc\<lparr>oc_results := m\<rparr>"
    have st': "st' = (fst st, Some oc')"
      using Some n cc replay_results [of "fst st" oc ?lost]
      by (cases st) (simp add: st'_def reopen_records_def closed_def oc'_def m_def)
    have ids: "in_id ` set ?lost = {i. \<exists>c \<in> set (oc_calls oc). fst c = i \<and> oc_results oc i = None}"
      by (force simp: lost_call_def image_iff)
    have "m i = (if i \<in> in_id ` set ?lost then Some (?g i, True) else oc_results oc i)" for i
      unfolding m_def by (rule foldl_results [where g = ?g]) (auto simp: lost_call_def)
    then have m: "m (fst c) = (case oc_results oc (fst c) of None \<Rightarrow> Some (?g (fst c), True) | Some r \<Rightarrow> Some r)"
      if "c \<in> set (oc_calls oc)" for c
      using that unfolding ids by (auto split: option.split)
    have ans: "answer_for oc' c = answer_for oc c" if "c \<in> set (oc_calls oc)" for c
      using m [OF that] by (auto simp: answer_for_def oc'_def split: option.splits prod.splits)
    have "close_calls oc' (oc_calls oc') (oc_results oc') =
        (map (lost_call oc') (filter (\<lambda>c. oc_results oc' (fst c) = None) (oc_calls oc')), map (answer_for oc') (oc_calls oc'))"
      using d by (intro close_calls_distinct) (simp_all add: oc'_def)
    then have "snd (close_calls oc' (oc_calls oc') (oc_results oc')) = map (answer_for oc) (oc_calls oc)"
      using ans by (simp add: oc'_def)
    moreover have "resolved st'" using m st' by (auto simp: resolved_def oc'_def list_all_iff split: option.splits)
    ultimately show ?thesis using st' Some cc by (simp add: closed_def)
  qed
  then show "rs_messages (closed st') = rs_messages (closed st)" "resolved st'" by simp_all
qed

text \<open>The records written since the last message of the journal.\<close>

fun is_message :: "journal_record \<Rightarrow> bool" where
  "is_message (RMessage r bs) = True"
| "is_message _ = False"

definition since_message :: "journal_record list \<Rightarrow> journal_record set" where
  "since_message rs = set (takeWhile (\<lambda>r. \<not> is_message r) (rev rs))"

lemma since_message_snoc:
  "since_message (rs @ [r]) = (if is_message r then {} else insert r (since_message rs))"
  by (auto simp: since_message_def)

lemma open_since:
  "replay_from st rs = (out, Some oc) \<Longrightarrow> snd st = None \<Longrightarrow>
    (i \<in> oc_started oc \<longleftrightarrow> RToolStarted i \<in> since_message rs) \<and>
    (i \<in> oc_asked oc \<longleftrightarrow> RToolAsked i \<in> since_message rs)"
proof (induction rs arbitrary: out oc rule: rev_induct)
  case (snoc r rs)
  obtain out' o' where st: "replay_from st rs = (out', o')" by (cases "replay_from st rs")
  show ?case
  proof (cases r)
    case (RMessage ro bs)
    with snoc.prems st show ?thesis by (auto simp: Let_def since_message_snoc split: if_splits)
  next
    case (RPruned x)
    with snoc.prems st show ?thesis by (simp add: Let_def)
  next
    case (RCompacted x y)
    with snoc.prems st show ?thesis by (simp add: Let_def)
  qed (use snoc st in \<open>auto simp: with_open_def since_message_snoc\<close>)
qed simp

text \<open>
  What the records themselves say of the calls of the last answer: which calls it made, the result
  last put on record for a call since then (the records newest first), and from these the calls that a
  rebuilt session has to report, in the order they were made, with the answer each of them gets.
\<close>

definition last_calls :: "journal_record list \<Rightarrow> call list" where
  "last_calls rs = (case dropWhile (\<lambda>r. \<not> is_message r) (rev rs) of
     RMessage r bs # _ \<Rightarrow> if r = Assistant then calls_of bs else []
   | _ \<Rightarrow> [])"

fun result_on_record :: "journal_record list \<Rightarrow> string \<Rightarrow> (string \<times> bool) option" where
  "result_on_record [] i = None"
| "result_on_record (RToolResult j content e # rs) i = (if i = j then Some (content, e) else result_on_record rs i)"
| "result_on_record (r # rs) i = (if is_message r then None else result_on_record rs i)"

definition fate :: "journal_record list \<Rightarrow> string \<Rightarrow> string" where
  "fate rs i = (if RToolStarted i \<in> since_message rs then OUTCOME_UNKNOWN else NOT_RUN)"

definition calls_in_doubt :: "journal_record list \<Rightarrow> interrupted list" where
  "calls_in_doubt rs = map (\<lambda>(i, name, input).
       \<lparr>in_id = i, in_name = name, in_input = input, in_asked = (RToolAsked i \<in> since_message rs), in_content = fate rs i\<rparr>)
     (filter (\<lambda>c. result_on_record (rev rs) (fst c) = None) (last_calls rs))"

definition due_answers :: "journal_record list \<Rightarrow> block list" where
  "due_answers rs = map (\<lambda>(i, name, input).
       case result_on_record (rev rs) i of Some (content, e) \<Rightarrow> ToolResult i content e | None \<Rightarrow> ToolResult i (fate rs i) True)
     (last_calls rs)"

lemma last_calls_snoc:
  "last_calls (rs @ [r]) =
    (case r of RMessage ro bs \<Rightarrow> if ro = Assistant then calls_of bs else [] | _ \<Rightarrow> last_calls rs)"
  by (cases r) (auto simp: last_calls_def)

lemma replay_reads_records:
  "records_ok (nothing_restored, None) rs \<Longrightarrow>
    (case snd (replay_from (nothing_restored, None) rs) of
       Some oc \<Rightarrow> oc_calls oc = last_calls rs \<and> oc_results oc = result_on_record (rev rs)
     | None \<Rightarrow> \<forall>c \<in> set (last_calls rs). result_on_record (rev rs) (fst c) \<noteq> None)"
proof (induction rs rule: rev_induct)
  case Nil
  then show ?case by (simp add: last_calls_def)
next
  case (snoc r rs)
  obtain out' o' where st: "replay_from (nothing_restored, None) rs = (out', o')"
    by (cases "replay_from (nothing_restored, None) rs")
  from snoc have ih: "case o' of Some oc \<Rightarrow> oc_calls oc = last_calls rs \<and> oc_results oc = result_on_record (rev rs)
     | None \<Rightarrow> \<forall>c \<in> set (last_calls rs). result_on_record (rev rs) (fst c) \<noteq> None"
    and ok: "record_ok (out', o') r" by (simp_all add: st)
  show ?case
  proof (cases r)
    case (RMessage ro bs)
    then show ?thesis by (auto simp: Let_def last_calls_snoc)
  next
    case (RPruned x)
    with ih ok st show ?thesis by (auto simp: Let_def last_calls_snoc resolved_def list_all_iff split: option.splits)
  next
    case (RCompacted x y)
    with ih ok st show ?thesis by (auto simp: Let_def last_calls_snoc resolved_def list_all_iff split: option.splits)
  qed (use ih st in \<open>auto simp: with_open_def last_calls_snoc split: option.splits\<close>)
qed

lemma restore_reports_the_records:
  assumes "records_ok (nothing_restored, None) rs"
  shows "rs_interrupted (restore_records rs) = calls_in_doubt rs"
    and "calls_in_doubt rs \<noteq> [] \<Longrightarrow> \<exists>ms. rs_messages (restore_records rs) = ms @ [Message User (due_answers rs)]"
proof -
  let ?st = "replay_from (nothing_restored, None) rs"
  have inv: "replay_inv ?st" by (rule replay_inv_from [OF replay_inv_start assms])
  note reads = replay_reads_records [OF assms]
  have "rs_interrupted (restore_records rs) = calls_in_doubt rs \<and>
    (calls_in_doubt rs \<noteq> [] \<longrightarrow> (\<exists>ms. rs_messages (restore_records rs) = ms @ [Message User (due_answers rs)]))"
  proof (cases "snd ?st")
    case None
    with reads have "calls_in_doubt rs = []" by (simp add: calls_in_doubt_def filter_empty_conv)
    with None inv show ?thesis by (simp add: restore_records_def closed_def replay_inv_def)
  next
    case (Some oc)
    then have oc: "oc_calls oc = last_calls rs" "oc_results oc = result_on_record (rev rs)" using reads by simp_all
    have since: "i \<in> oc_started oc \<longleftrightarrow> RToolStarted i \<in> since_message rs" "i \<in> oc_asked oc \<longleftrightarrow> RToolAsked i \<in> since_message rs" for i
      using open_since [of "(nothing_restored, None)" rs "fst ?st" oc i] Some by (cases ?st; simp)+
    have "distinct (map fst (oc_calls oc))" and n: "rs_interrupted (fst ?st) = []" using inv Some by (auto simp: replay_inv_def)
    then have "close_calls oc (oc_calls oc) (oc_results oc) = (calls_in_doubt rs, due_answers rs)"
      by (simp add: close_calls_distinct oc calls_in_doubt_def due_answers_def lost_call_def answer_for_def since fate_def
          split_def split: option.split)
    with Some n show ?thesis by (simp add: restore_records_def closed_def)
  qed
  then show "rs_interrupted (restore_records rs) = calls_in_doubt rs"
    "calls_in_doubt rs \<noteq> [] \<Longrightarrow> \<exists>ms. rs_messages (restore_records rs) = ms @ [Message User (due_answers rs)]" by simp_all
qed

section \<open>Dying inside a write\<close>

lemma split_on_snoc: "d \<notin> set t \<Longrightarrow> split_on d (s @ d # t) = split_on d s @ [t]"
proof (induction s)
  case Nil
  have "split_on d t = [t]" using Nil by (induction t) auto
  then show ?case by simp
next
  case (Cons c s)
  obtain p ps where "split_on d s = p # ps" by (metis list.exhaust split_on_nonempty)
  with Cons show ?case by simp
qed

definition whole_lines :: "string \<Rightarrow> bool" where
  "whole_lines s \<longleftrightarrow> s = [] \<or> last s = LF"

lemma whole_lines_split: "whole_lines s \<Longrightarrow> last (split_on LF s) = []"
proof (cases "s = []")
  case False
  assume "whole_lines s"
  with False obtain x where "s = x @ [LF]" by (metis append_butlast_last_id whole_lines_def)
  then show ?thesis using split_on_snoc [of LF "[]" x] by simp
qed simp

lemma str_lines_torn:
  assumes w: "whole_lines s" and t: "LF \<notin> set t"
  shows "str_lines (s @ t) = str_lines s @ (if t = [] then [] else [t])"
    and "str_lines (s @ t @ [LF]) = str_lines s @ [strip_cr t]"
proof -
  have nolf: "split_on LF t = [t]" using t by (induction t) auto
  have st: "split_on LF (s @ t) = butlast (split_on LF s) @ [t]"
  proof (cases "s = []")
    case False
    with w obtain x where x: "s = x @ [LF]" by (metis append_butlast_last_id whole_lines_def)
    then show ?thesis using split_on_snoc [OF t, of x] split_on_snoc [of LF "[]" x] by simp
  qed (simp add: nolf)
  show "str_lines (s @ t) = str_lines s @ (if t = [] then [] else [t])"
    using whole_lines_split [OF w] by (simp add: str_lines_def Let_def st)
  have "split_on LF (s @ t @ [LF]) = butlast (split_on LF s) @ [t] @ [[]]"
    using split_on_snoc [of LF "[]" "s @ t"] st by simp
  then show "str_lines (s @ t @ [LF]) = str_lines s @ [strip_cr t]"
    using whole_lines_split [OF w] by (simp add: str_lines_def Let_def butlast_append)
qed

lemma map_filter_append: "List.map_filter f (xs @ ys) = List.map_filter f xs @ List.map_filter f ys"
  by (simp add: map_filter_def)

text \<open>A file of records written whole, which reads back as those records.\<close>

definition holds_records :: "codec \<Rightarrow> string \<Rightarrow> journal_record list \<Rightarrow> bool" where
  "holds_records c disk rs \<longleftrightarrow>
     whole_lines disk \<and> list_all utf8_valid (str_lines disk) \<and>
     List.map_filter (from_line c) (str_lines disk) = rs"

lemma holds_records_restore: "holds_records c disk rs \<Longrightarrow> restore c disk = Ok (restore_records rs)"
  by (simp add: holds_records_def restore_def Let_def)

lemma holds_records_write:
  assumes c: "codec_ok c" and h: "holds_records c disk rs" and t: "to_line c r = Some t"
  shows "holds_records c (write_record c disk r) (rs @ [r])"
proof -
  from c t have f: "LF \<notin> set t" "last t \<noteq> CR" "t \<noteq> []" "utf8_valid t" "from_line c t = Some r"
    by (auto simp: codec_ok_def)
  then have "str_lines (disk @ t @ [LF]) = str_lines disk @ [t]"
    using str_lines_torn(2) [of disk t] h by (simp add: holds_records_def strip_cr_def)
  with f h t show ?thesis
    by (simp add: holds_records_def write_record_def whole_lines_def map_filter_append map_filter_simps)
qed

lemma holds_records_writes:
  assumes "codec_ok c" and "\<forall>r \<in> set rs'. to_line c r \<noteq> None" and "holds_records c disk rs"
  shows "holds_records c (write_records c disk rs') (rs @ rs')"
  using assms(2,3)
proof (induction rs' arbitrary: disk rs)
  case (Cons r rs')
  from Cons.prems obtain t where "to_line c r = Some t" by auto
  then have "holds_records c (write_record c disk r) (rs @ [r])"
    using holds_records_write [OF assms(1)] Cons.prems by blast
  with Cons show ?case by (force simp: write_records_def)
qed (simp add: write_records_def)

text \<open>
  C23: a process that dies while it writes the line of a record, after any number of its bytes,
  leaves a journal that rebuilds the session of the records before it, or with that record
  once all of its text is there; unless the bytes end inside a character, when the journal
  cannot be read at all and the session cannot be loaded.
\<close>

theorem torn_write_restores_or_refuses:
  assumes c: "codec_ok c" and rs: "\<forall>r \<in> set rs. to_line c r \<noteq> None"
    and r: "to_line c r = Some t" and k: "k \<le> length t"
  shows "restore c (write_records c [] rs @ take k t) =
    (if utf8_valid (take k t)
     then Ok (restore_records (if k = length t then rs @ [r] else rs))
     else Err Invalid_Utf8)"
proof -
  let ?disk = "write_records c [] rs"
  have "holds_records c [] []"
    by (simp add: holds_records_def whole_lines_def str_lines_def map_filter_simps)
  then have h: "holds_records c ?disk rs" using holds_records_writes [OF c rs] by force
  have t: "LF \<notin> set (take k t)" "utf8_valid t" "from_line c t = Some r"
    "k < length t \<Longrightarrow> from_line c (take k t) = None"
    using c r by (auto simp: codec_ok_def dest: in_set_takeD)
  have l: "str_lines (?disk @ take k t) = str_lines ?disk @ (if take k t = [] then [] else [take k t])"
    using str_lines_torn(1) t(1) h by (simp add: holds_records_def)
  have p: "List.map_filter (from_line c) (str_lines (?disk @ take k t)) = (if k = length t then rs @ [r] else rs)"
    using h t(3,4) k c r unfolding l
    by (cases "take k t = []") (auto simp: holds_records_def map_filter_append map_filter_simps codec_ok_def le_less)
  have "list_all utf8_valid (str_lines (?disk @ take k t)) = utf8_valid (take k t)"
    using h unfolding l by (cases "take k t = []") (simp_all add: holds_records_def del: take_eq_Nil)
  with p show ?thesis by (simp add: restore_def Let_def)
qed

text \<open>
  The record a new process writes after such a line is joined to it: when the two together
  read as no record, which is so of JSON, the later record is lost.
\<close>

lemma record_after_torn_line_is_lost:
  assumes h: "holds_records c disk rs" and t: "LF \<notin> set torn" "utf8_valid (strip_cr (torn @ t))"
    and r: "to_line c r = Some t" "LF \<notin> set t" and j: "from_line c (strip_cr (torn @ t)) = None"
  shows "restore c (write_record c (disk @ torn) r) = Ok (restore_records rs)"
proof -
  have "str_lines (disk @ (torn @ t) @ [LF]) = str_lines disk @ [strip_cr (torn @ t)]"
    using str_lines_torn(2) [of disk "torn @ t"] h t r(2) by (simp add: holds_records_def)
  then show ?thesis
    using h t(2) r(1) j
    by (simp add: restore_def write_record_def Let_def holds_records_def map_filter_append map_filter_simps)
qed

text \<open>A codec of one record, whose text has a character of two bytes.\<close>

definition sample_record :: journal_record where
  "sample_record = RToolAsked [CHR 0xC3, CHR 0xA9]"

definition sample_line :: string where
  "sample_line = ''a'' @ [CHR 0xC3, CHR 0xA9]"

definition sample_codec :: codec where
  "sample_codec =
     \<lparr>to_line = (\<lambda>r. if r = sample_record then Some sample_line else None),
      from_line = (\<lambda>t. if t = sample_line then Some sample_record else None)\<rparr>"

theorem torn_write_restores_or_refuses_witness:
  "restore sample_codec (write_records sample_codec [] [sample_record] @ take 1 sample_line) =
     Ok (restore_records [sample_record]) \<and>
   restore sample_codec (write_records sample_codec [] [sample_record] @ take 2 sample_line) =
     Err Invalid_Utf8"
proof -
  have c: "codec_ok sample_codec"
    unfolding codec_ok_def
  proof (intro allI impI)
    fix r t
    assume "to_line sample_codec r = Some t"
    then have rt: "r = sample_record" "t = sample_line" by (auto simp: sample_codec_def split: if_splits)
    have "from_line sample_codec (take k sample_line) = None" if "k < length sample_line" for k
    proof -
      have "length (take k sample_line) < length sample_line" using that by simp
      then have "take k sample_line \<noteq> sample_line" by force
      then show ?thesis by (simp add: sample_codec_def)
    qed
    moreover have "sample_line \<noteq> [] \<and> LF \<notin> set sample_line \<and> last sample_line \<noteq> CR \<and> utf8_valid sample_line"
      by code_simp
    ultimately show "t \<noteq> [] \<and> LF \<notin> set t \<and> last t \<noteq> CR \<and> utf8_valid t \<and> from_line sample_codec t = Some r \<and>
        (\<forall>k < length t. from_line sample_codec (take k t) = None)"
      using rt by (simp add: sample_codec_def)
  qed
  have l: "to_line sample_codec sample_record = Some sample_line" by (simp add: sample_codec_def)
  have k: "(1 :: nat) \<le> length sample_line" "(2 :: nat) \<le> length sample_line"
    "(1 :: nat) \<noteq> length sample_line" by (simp_all add: sample_line_def)
  have u: "utf8_valid (take 1 sample_line)" "\<not> utf8_valid (take 2 sample_line)" by code_simp+
  have "\<forall>r \<in> set [sample_record]. to_line sample_codec r \<noteq> None" by (simp add: l)
  note torn = torn_write_restores_or_refuses [OF c this l]
  from torn [OF k(1)] torn [OF k(2)] u k(3) show ?thesis by simp
qed

end
