(* ===== verification/Subagent.thy ===== *)
theory Subagent
  imports Compact
begin

text \<open>
  \<^verbatim>\<open>src/agent/src/subagent.rs\<close>, the task a session hands to a child conversation and the shape of
  what it hands back, with the strict form of a schema from \<^verbatim>\<open>src/agent/src/wire/mod.rs\<close>. A result
  the strict form admits is, once settled, one the parent's own schema admits.
\<close>

section \<open>Schemas and results\<close>

definition SPAWN :: string where
  "SPAWN = ''spawn''"

definition FINISH :: string where
  "FINISH = ''finish''"

definition CHILD_MAX_TURNS :: nat where
  "CHILD_MAX_TURNS = 60"

fun as_array :: "json \<Rightarrow> json list option" where
  "as_array (JArr xs) = Some xs"
| "as_array _ = None"

definition as_array_list :: "json \<Rightarrow> json list" where
  "as_array_list v = (case as_array v of Some xs \<Rightarrow> xs | None \<Rightarrow> [])"

definition default_schema :: json where
  "default_schema =
     JObj [(''properties'', JObj [(''summary'', JObj
              [(''description'', JStr ''What was found or done, with the specifics the caller needs.''),
               (''type'', JStr ''string'')])]),
           (''required'', JArr [JStr ''summary'']),
           (''type'', JStr ''object'')]"

definition finish_spec :: "json \<Rightarrow> json" where
  "finish_spec schema =
     JObj [(''description'', JStr (''Return your result to the agent that gave you the task. Call it once, ''
              @ ''when the task is done or cannot be done; it ends your work.'')),
           (''name'', JStr FINISH), (''own_schema'', JBool True), (''parameters'', schema)]"

definition spawn_spec :: json where
  "spawn_spec =
     JObj [(''description'', JStr (''Hand a self-contained task to a subagent, which works on it with the same ''
              @ ''tools and returns an object in the shape you give. Several spawn calls in one ''
              @ ''response run at the same time: use them for independent pieces of work, such as ''
              @ ''investigating separate parts of the code. The subagent starts with nothing of this ''
              @ ''conversation, so say in `task` everything it needs.'')),
           (''name'', JStr SPAWN), (''own_schema'', JBool False),
           (''parameters'', JObj
             [(''properties'', JObj
                [(''model'', JObj
                    [(''description'', JStr (''A model id under this session'' @ [CHR 0x27]
                        @ ''s provider, for a cheaper or stronger subagent. Default: your own model.'')),
                     (''type'', JStr ''string'')]),
                 (''result_schema'', JObj
                    [(''description'', JStr ''JSON Schema (an object type) for the result. Default: {summary: string}.''),
                     (''type'', JStr ''object'')]),
                 (''task'', JObj
                    [(''description'', JStr ''The task, complete in itself: what to do, where, and what to report.''),
                     (''type'', JStr ''string'')])]),
              (''required'', JArr [JStr ''task'']),
              (''type'', JStr ''object'')])]"

definition required_names :: "json \<Rightarrow> string list" where
  "required_names schema = List.map_filter as_str (as_array_list (jindex schema ''required''))"

fun allows_null_type :: "json \<Rightarrow> bool" where
  "allows_null_type (JStr t) = (t = ''null'')"
| "allows_null_type (JArr ts) = list_ex (\<lambda>t. t = JStr ''null'') ts"
| "allows_null_type _ = True"

definition allows_null :: "json \<Rightarrow> bool" where
  "allows_null schema = allows_null_type (jindex schema ''type'')"

abbreviation property :: "json \<Rightarrow> string \<Rightarrow> json" where
  "property schema k \<equiv> jindex (jindex schema ''properties'') k"

text \<open>A property that \<open>settle\<close> leaves out: null, optional and not meant to be null.\<close>

definition left_out :: "json \<Rightarrow> string \<times> json \<Rightarrow> bool" where
  "left_out schema = (\<lambda>(k, v).
     v = JNull \<and> k \<notin> set (required_names schema) \<and> \<not> allows_null (property schema k))"

function settle :: "json \<Rightarrow> json \<Rightarrow> json" where
  "settle schema (JObj kvs) =
     JObj (map (\<lambda>(k, v). (k, settle (property schema k) v)) (filter (\<lambda>e. \<not> left_out schema e) kvs))"
| "settle schema (JArr xs) = JArr (map (settle (jindex schema ''items'')) xs)"
| "settle schema JNull = JNull"
| "settle schema (JBool b) = JBool b"
| "settle schema (JInt i) = JInt i"
| "settle schema (JFloat f) = JFloat f"
| "settle schema (JStr s) = JStr s"
  by pat_completeness auto
termination
  by (relation "measure (\<lambda>(schema, v). size v)") (auto dest: size_entry size_item)

section \<open>Checking a result\<close>

text \<open>The first error of a loop that stops at one.\<close>

fun first_err :: "('a \<Rightarrow> ('e, unit) result) \<Rightarrow> 'a list \<Rightarrow> ('e, unit) result" where
  "first_err f [] = Ok ()"
| "first_err f (x # xs) = (case f x of Inl e \<Rightarrow> Err e | Inr _ \<Rightarrow> first_err f xs)"

lemma first_err_cong [fundef_cong]:
  "xs = ys \<Longrightarrow> (\<And>x. x \<in> set ys \<Longrightarrow> f x = g x) \<Longrightarrow> first_err f xs = first_err g ys"
  by (induction ys arbitrary: xs) (auto split: sum.split)

lemma first_err_Ok [simp]: "first_err f xs = Ok () \<longleftrightarrow> (\<forall>x \<in> set xs. f x = Ok ())"
  by (induction xs) (auto split: sum.splits)

lemma enumerate_mem: "(i, v) \<in> set (enumerate n xs) \<Longrightarrow> v \<in> set xs"
  by (induction xs arbitrary: n) auto

fun schema_types :: "json \<Rightarrow> string list option" where
  "schema_types (JStr t) = Some [t]"
| "schema_types (JArr ts) = Some (List.map_filter as_str ts)"
| "schema_types _ = None"

definition fits_type :: "json \<Rightarrow> string \<Rightarrow> bool" where
  "fits_type v t =
     (if t = ''object'' then (case v of JObj _ \<Rightarrow> True | _ \<Rightarrow> False)
      else if t = ''array'' then (case v of JArr _ \<Rightarrow> True | _ \<Rightarrow> False)
      else if t = ''string'' then (case v of JStr _ \<Rightarrow> True | _ \<Rightarrow> False)
      else if t = ''integer'' then (case v of JInt _ \<Rightarrow> True | _ \<Rightarrow> False)
      else if t = ''number'' then (case v of JInt _ \<Rightarrow> True | JFloat _ \<Rightarrow> True | _ \<Rightarrow> False)
      else if t = ''boolean'' then (case v of JBool _ \<Rightarrow> True | _ \<Rightarrow> False)
      else if t = ''null'' then v = JNull
      else True)"

definition missing :: "string \<Rightarrow> (string \<times> json) list \<Rightarrow> string \<Rightarrow> (string, unit) result" where
  "missing place kvs r = (if r \<in> fst ` set kvs then Ok () else Err (place @ '' is missing `'' @ r @ ''`''))"

definition member_place :: "string \<Rightarrow> string \<Rightarrow> string" where
  "member_place place k = place @ ''.'' @ k"

definition item_place :: "string \<Rightarrow> nat \<Rightarrow> string" where
  "item_place place i = place @ ''['' @ dec i @ '']''"

definition not_allowed :: "string \<Rightarrow> string \<Rightarrow> string" where
  "not_allowed place k = place @ '' has `'' @ k @ ''`, which the schema does not allow''"

function check :: "(json \<Rightarrow> string) \<Rightarrow> json \<Rightarrow> json \<Rightarrow> string \<Rightarrow> (string, unit) result"
  and check_type :: "(json \<Rightarrow> string) \<Rightarrow> json \<Rightarrow> json \<Rightarrow> string \<Rightarrow> (string, unit) result" where
  "check to_s schema value place =
     (case as_array (jindex schema ''enum'') of
        Some options \<Rightarrow>
          if value \<notin> set options then Err (place @ '' must be one of '' @ to_s (JArr options))
          else check_type to_s schema value place
      | None \<Rightarrow> check_type to_s schema value place)"
| "check_type to_s schema value place =
     (case schema_types (jindex schema ''type'') of
        None \<Rightarrow> Ok ()
      | Some types \<Rightarrow>
          if \<not> list_ex (fits_type value) types
          then Err (place @ '' must be '' @ join_with '' or '' types @ '', not '' @ to_s value)
          else (case value of
              JObj kvs \<Rightarrow>
                (case first_err (missing place kvs) (required_names schema) of
                   Inl e \<Rightarrow> Err e
                 | Inr _ \<Rightarrow>
                     first_err (\<lambda>(k, v).
                       case jget (jindex schema ''properties'') k of
                         Some s \<Rightarrow> check to_s s v (member_place place k)
                       | None \<Rightarrow>
                           if jindex schema ''additionalProperties'' = JBool False
                           then Err (not_allowed place k)
                           else Ok ()) kvs)
            | JArr xs \<Rightarrow>
                first_err (\<lambda>(i, v). check to_s (jindex schema ''items'') v (item_place place i))
                  (enumerate 0 xs)
            | _ \<Rightarrow> Ok ()))"
  by pat_completeness auto
termination
  by (relation "measure (\<lambda>x. case x of Inl (_, _, v, _) \<Rightarrow> 2 * size v + 1 | Inr (_, _, v, _) \<Rightarrow> 2 * size v)")
    (auto dest!: enumerate_mem size_entry size_item)

declare check.simps [simp del] check_type.simps [simp del]

definition validate_result :: "(json \<Rightarrow> string) \<Rightarrow> json \<Rightarrow> json \<Rightarrow> (string, unit) result" where
  "validate_result to_s schema value = check to_s schema value ''result''"

section \<open>The strict form of a schema\<close>

fun map_option_list :: "('a \<Rightarrow> 'b option) \<Rightarrow> 'a list \<Rightarrow> 'b list option" where
  "map_option_list f [] = Some []"
| "map_option_list f (x # xs) =
     (case f x of None \<Rightarrow> None | Some y \<Rightarrow> map_option ((#) y) (map_option_list f xs))"

lemma map_option_list_cong [fundef_cong]:
  "xs = ys \<Longrightarrow> (\<And>x. x \<in> set ys \<Longrightarrow> f x = g x) \<Longrightarrow> map_option_list f xs = map_option_list g ys"
  by (induction ys arbitrary: xs) (auto split: option.split)

definition keys_within :: "string list \<Rightarrow> (string \<times> json) list \<Rightarrow> bool" where
  "keys_within ks kvs = list_all (\<lambda>(k, _). k \<in> set ks) kvs"

definition LEAF :: "string list" where
  "LEAF = [''type'', ''description'', ''enum'']"

definition nullable :: "json \<Rightarrow> json option" where
  "nullable p =
     (case p of
        JObj kvs \<Rightarrow>
          (case Option.bind (map_of kvs ''type'') as_str of
             None \<Rightarrow> None
           | Some ty \<Rightarrow>
               (let kvs = jput ''type'' (JArr [JStr ty, JStr ''null'']) kvs in
                Some (JObj (case map_of kvs ''enum'' of
                              Some (JArr values) \<Rightarrow> jput ''enum'' (JArr (values @ [JNull])) kvs
                            | _ \<Rightarrow> kvs))))
      | _ \<Rightarrow> None)"

definition strict_object :: "(string \<times> json) list \<Rightarrow> (string \<times> json) list \<Rightarrow> json" where
  "strict_object kvs out =
     (let s = jput ''type'' (JStr ''object'') [];
          s = (case map_of kvs ''description'' of Some d \<Rightarrow> jput ''description'' d s | None \<Rightarrow> s);
          s = jput ''required'' (JArr (map (\<lambda>(n, _). JStr n) out)) s;
          s = jput ''properties'' (JObj out) s in
      JObj (jput ''additionalProperties'' (JBool False) s))"

text \<open>
  The properties of an object come in the order of their names, so the map they are put into
  has them in the same order.
\<close>

function strict_schema :: "json \<Rightarrow> json option" where
  "strict_schema (JObj kvs) =
     (case Option.bind (map_of kvs ''type'') as_str of
        None \<Rightarrow> None
      | Some ty \<Rightarrow>
          if ty = ''object'' then
            (if \<not> keys_within [''type'', ''description'', ''properties'', ''required''] kvs then None
             else (case map_of kvs ''properties'' of
                 Some (JObj properties) \<Rightarrow>
                   (case map_option_list (\<lambda>(name, p).
                       case strict_schema p of
                         None \<Rightarrow> None
                       | Some p' \<Rightarrow>
                           map_option (Pair name)
                             (if name \<in> set (required_names (JObj kvs)) then Some p' else nullable p'))
                       properties of
                      None \<Rightarrow> None
                    | Some out \<Rightarrow>
                        Some (strict_object kvs out))
               | _ \<Rightarrow> None))
          else if ty = ''array'' then
            (if \<not> keys_within [''type'', ''description'', ''items''] kvs then None
             else (case map_of kvs ''items'' of
                 None \<Rightarrow> None
               | Some p \<Rightarrow>
                   (case strict_schema p of
                      None \<Rightarrow> None
                    | Some p' \<Rightarrow> Some (JObj (jput ''items'' p' kvs)))))
          else if ty \<in> {''string'', ''integer'', ''number'', ''boolean''} then
            (if keys_within LEAF kvs then Some (JObj kvs) else None)
          else None)"
| "strict_schema (JArr xs) = None"
| "strict_schema JNull = None"
| "strict_schema (JBool b) = None"
| "strict_schema (JInt i) = None"
| "strict_schema (JFloat f) = None"
| "strict_schema (JStr s) = None"
  by pat_completeness auto
termination
proof (relation "measure size", goal_cases)
  case (2 kvs ty v properties e name p)
  then have "size p < size (JObj properties)" using size_entry by auto
  also have "(''properties'', JObj properties) \<in> set kvs" using 2 by (auto dest: map_of_SomeD split: json.splits)
  then have "size (JObj properties) < size (JObj kvs)" by (rule size_entry)
  finally show ?case by simp
next
  case (3 kvs ty p)
  then have "(''items'', p) \<in> set kvs" by (auto dest: map_of_SomeD)
  then have "size p < size (JObj kvs)" by (rule size_entry)
  then show ?case by simp
qed simp

declare strict_schema.simps(1) [simp del]

section \<open>The models a child may be given\<close>

record spawner =
  sp_model :: string
  sp_window :: "nat option"
  sp_siblings :: "(string \<times> nat option) list"

definition allows_model :: "spawner \<Rightarrow> string \<Rightarrow> nat option option" where
  "allows_model sp m =
     (if m = sp_model sp then Some (sp_window sp)
      else map_option snd (find (\<lambda>(i, _). i = m) (sp_siblings sp)))"

definition models :: "spawner \<Rightarrow> string list" where
  "models sp = sp_model sp # filter (\<lambda>i. i \<noteq> sp_model sp) (map fst (sp_siblings sp))"

definition label :: "string \<Rightarrow> string" where
  "label task =
     (let line = trim (first_line task) in
      take_chars 40 line @ (if 40 < char_count line then dots else []))"

section \<open>What a check accepts\<close>

text \<open>The shape a schema describes, without the places an error names.\<close>

definition enum_ok :: "json \<Rightarrow> json \<Rightarrow> bool" where
  "enum_ok schema v \<longleftrightarrow> (case as_array (jindex schema ''enum'') of Some os \<Rightarrow> v \<in> set os | None \<Rightarrow> True)"

function conforms :: "json \<Rightarrow> json \<Rightarrow> bool" and conforms_type :: "json \<Rightarrow> json \<Rightarrow> bool" where
  "conforms schema v \<longleftrightarrow> enum_ok schema v \<and> conforms_type schema v"
| "conforms_type schema v \<longleftrightarrow>
     (case schema_types (jindex schema ''type'') of
        None \<Rightarrow> True
      | Some types \<Rightarrow>
          list_ex (fits_type v) types \<and>
          (case v of
             JObj kvs \<Rightarrow>
               set (required_names schema) \<subseteq> fst ` set kvs \<and>
               (\<forall>(k, x) \<in> set kvs.
                  case jget (jindex schema ''properties'') k of
                    Some s \<Rightarrow> conforms s x
                  | None \<Rightarrow> jindex schema ''additionalProperties'' \<noteq> JBool False)
           | JArr xs \<Rightarrow> (\<forall>x \<in> set xs. conforms (jindex schema ''items'') x)
           | _ \<Rightarrow> True))"
  by pat_completeness auto
termination
  by (relation "measure (\<lambda>x. case x of Inl (_, v) \<Rightarrow> 2 * size v + 1 | Inr (_, v) \<Rightarrow> 2 * size v)")
    (auto dest!: size_entry size_item)

declare conforms.simps [simp del] conforms_type.simps [simp del]

lemma in_enumerate: "x \<in> set xs \<Longrightarrow> \<exists>i. (i, x) \<in> set (enumerate n xs)"
  by (induction xs arbitrary: n) auto

lemma check_conforms:
  "check to_s schema v place = Ok () \<longleftrightarrow> conforms schema v"
  "check_type to_s schema v place = Ok () \<longleftrightarrow> conforms_type schema v"
proof (induction to_s schema v place and to_s schema v place rule: check_check_type.induct)
  case (1 to_s schema v place)
  then show ?case
    by (subst check.simps) (auto simp: enum_ok_def conforms.simps [of schema v] split: option.splits)
next
  case (2 to_s schema v place)
  show ?case
  proof (cases "schema_types (jindex schema ''type'')")
    case None
    then show ?thesis by (subst check_type.simps) (simp add: conforms_type.simps [of schema v])
  next
    case (Some types)
    show ?thesis
    proof (cases v)
      case (JObj kvs)
      let ?f = "\<lambda>(k, v). case jget (jindex schema ''properties'') k of
          Some s \<Rightarrow> check to_s s v (member_place place k)
        | None \<Rightarrow> if jindex schema ''additionalProperties'' = JBool False
            then Err (not_allowed place k) else Ok ()"
      have m: "(case first_err (missing place kvs) (required_names schema) of Inl e \<Rightarrow> Err e | Inr _ \<Rightarrow> first_err ?f kvs) = Ok () \<longleftrightarrow>
          set (required_names schema) \<subseteq> fst ` set kvs \<and> first_err ?f kvs = Ok ()"
      proof -
        have "first_err (missing place kvs) (required_names schema) = Ok () \<longleftrightarrow> set (required_names schema) \<subseteq> fst ` set kvs"
          by (auto simp: missing_def split: if_splits)
        then show ?thesis by (cases "first_err (missing place kvs) (required_names schema)") (auto simp del: first_err_Ok)
      qed
      have f: "?f (k, x) = Ok () \<longleftrightarrow> (case jget (jindex schema ''properties'') k of
            Some s \<Rightarrow> conforms s x | None \<Rightarrow> jindex schema ''additionalProperties'' \<noteq> JBool False)"
        if "(k, x) \<in> set kvs" "list_ex (fits_type v) types" "set (required_names schema) \<subseteq> fst ` set kvs" for k x
      proof -
        have "\<forall>r \<in> set (required_names schema). missing place kvs r = Ok ()"
          using that(3) by (auto simp: missing_def)
        then show ?thesis
          using 2(2) [OF Some _ JObj _ that(1) refl] that(2) by (auto split: option.splits)
      qed
      have g: "first_err ?f kvs = Ok () \<longleftrightarrow> (\<forall>(k, x) \<in> set kvs.
          case jget (jindex schema ''properties'') k of Some s \<Rightarrow> conforms s x
          | None \<Rightarrow> jindex schema ''additionalProperties'' \<noteq> JBool False)"
        if "list_ex (fits_type v) types" "set (required_names schema) \<subseteq> fst ` set kvs"
        unfolding first_err_Ok
      proof (rule ball_cong [OF refl], goal_cases)
        case (1 e)
        obtain k x where "e = (k, x)" by (cases e)
        with 1 f [of k x] that show ?case by simp
      qed
      show ?thesis
      proof (cases "list_ex (fits_type v) types")
        case True
        then have "check_type to_s schema v place =
            (case first_err (missing place kvs) (required_names schema) of Inl e \<Rightarrow> Err e | Inr _ \<Rightarrow> first_err ?f kvs)"
          using Some JObj by (subst check_type.simps) simp
        then have "check_type to_s schema v place = Ok () \<longleftrightarrow>
            set (required_names schema) \<subseteq> fst ` set kvs \<and> first_err ?f kvs = Ok ()"
          by (simp only: m)
        moreover have "conforms_type schema v \<longleftrightarrow> set (required_names schema) \<subseteq> fst ` set kvs \<and>
            (\<forall>(k, x) \<in> set kvs. case jget (jindex schema ''properties'') k of Some s \<Rightarrow> conforms s x
              | None \<Rightarrow> jindex schema ''additionalProperties'' \<noteq> JBool False)"
          using True Some JObj by (simp add: conforms_type.simps [of schema "JObj kvs"])
        ultimately show ?thesis using g [OF True] by blast
      next
        case False
        then show ?thesis using Some by (subst check_type.simps) (simp add: conforms_type.simps [of schema v])
      qed
    next
      case (JArr xs)
      have "(\<forall>e \<in> set (enumerate 0 xs). case e of (i, x) \<Rightarrow> conforms (jindex schema ''items'') x) \<longleftrightarrow>
          (\<forall>x \<in> set xs. conforms (jindex schema ''items'') x)"
        using in_enumerate enumerate_mem by fastforce
      then show ?thesis
        using 2(1) [OF Some _ JArr] Some JArr
        by (subst check_type.simps) (auto simp: conforms_type.simps [of schema "JArr xs"] split: prod.splits)
    qed (use Some in \<open>subst check_type.simps, subst conforms_type.simps, simp\<close>)+
  qed
qed


section \<open>Settling what a strict schema lets through\<close>

text \<open>Every name an object schema requires is one of its properties, at every depth.\<close>

function declares_required :: "json \<Rightarrow> bool" where
  "declares_required (JObj kvs) \<longleftrightarrow>
     (case map_of kvs ''properties'' of
        Some (JObj properties) \<Rightarrow>
          set (required_names (JObj kvs)) \<subseteq> fst ` set properties \<and>
          (\<forall>(name, p) \<in> set properties. declares_required p)
      | _ \<Rightarrow> True) \<and>
     (case map_of kvs ''items'' of Some p \<Rightarrow> declares_required p | None \<Rightarrow> True)"
| "declares_required (JArr xs) \<longleftrightarrow> True"
| "declares_required JNull \<longleftrightarrow> True"
| "declares_required (JBool b) \<longleftrightarrow> True"
| "declares_required (JInt i) \<longleftrightarrow> True"
| "declares_required (JFloat f) \<longleftrightarrow> True"
| "declares_required (JStr s) \<longleftrightarrow> True"
  by pat_completeness auto
termination
proof (relation "measure size", goal_cases)
  case (2 kvs v properties e name p)
  then have "size p < size (JObj properties)" using size_entry by auto
  also have "(''properties'', JObj properties) \<in> set kvs" using 2 by (auto dest: map_of_SomeD)
  then have "size (JObj properties) < size (JObj kvs)" by (rule size_entry)
  finally show ?case by simp
next
  case (3 kvs p)
  then have "(''items'', p) \<in> set kvs" by (auto dest: map_of_SomeD)
  then have "size p < size (JObj kvs)" by (rule size_entry)
  then show ?case by simp
qed simp

declare declares_required.simps(1) [simp del]

lemma jindex_JObj: "jindex (JObj kvs) k = (case map_of kvs k of Some v \<Rightarrow> v | None \<Rightarrow> JNull)"
  by (simp add: jindex_def)

lemma map_of_jput: "map_of (jput k v kvs) x = (if x = k then Some v else map_of kvs x)"
  by simp

lemma keys_within_None: "keys_within ks kvs \<Longrightarrow> k \<notin> set ks \<Longrightarrow> map_of kvs k = None"
  by (auto simp: keys_within_def list_all_iff map_of_eq_None_iff)

lemma map_option_list_Some:
  "map_option_list f xs = Some ys \<longleftrightarrow> list_all2 (\<lambda>x y. f x = Some y) xs ys"
  by (induction xs arbitrary: ys)
    (auto simp: list_all2_Cons1 split: option.splits)

lemma enum_ok_free: "map_of kvs ''enum'' = None \<Longrightarrow> enum_ok (JObj kvs) v"
  by (simp add: enum_ok_def jindex_JObj)

text \<open>Only objects and arrays have anything to settle.\<close>

lemma settle_leaf: "\<not> (\<exists>kvs. v = JObj kvs) \<Longrightarrow> \<not> (\<exists>xs. v = JArr xs) \<Longrightarrow> settle schema v = v"
  by (cases v) auto

definition strict_entry :: "json \<Rightarrow> string \<times> json \<Rightarrow> string \<times> json \<Rightarrow> bool" where
  "strict_entry schema = (\<lambda>(n, p) (n', q). n' = n \<and>
     (\<exists>p'. strict_schema p = Some p' \<and>
        (if n \<in> set (required_names schema) then q = p' else nullable p' = Some q)))"

lemma strict_schema_cases:
  assumes "strict_schema p = Some p'"
  obtains
    (Object) kvs properties out where "p = JObj kvs" "map_of kvs ''type'' = Some (JStr ''object'')"
      "keys_within [''type'', ''description'', ''properties'', ''required''] kvs"
      "map_of kvs ''properties'' = Some (JObj properties)"
      "list_all2 (strict_entry p) properties out" "p' = strict_object kvs out"
  | (Array) kvs q q' where "p = JObj kvs" "map_of kvs ''type'' = Some (JStr ''array'')"
      "keys_within [''type'', ''description'', ''items''] kvs" "map_of kvs ''items'' = Some q"
      "strict_schema q = Some q'" "p' = JObj (jput ''items'' q' kvs)"
  | (Leaf) kvs ty where "p = JObj kvs" "p' = p" "map_of kvs ''type'' = Some (JStr ty)"
      "ty \<in> {''string'', ''integer'', ''number'', ''boolean''}"
proof (cases p)
  case (JObj kvs)
  with assms obtain t where t: "map_of kvs ''type'' = Some t" "as_str t \<noteq> None"
    by (auto simp: strict_schema.simps(1) split: option.splits Option.bind_splits)
  then obtain ty where "t = JStr ty" by (cases t) auto
  with t have ty: "map_of kvs ''type'' = Some (JStr ty)" by simp
  note s = assms [unfolded JObj strict_schema.simps(1) ty, simplified]
  consider "ty = ''object''" | "ty = ''array''" | "ty \<in> {''string'', ''integer'', ''number'', ''boolean''}"
    using s by (auto split: if_splits)
  then show thesis
  proof cases
    case 1
    note s' = s [unfolded 1, simplified]
    from s' have k: "keys_within [''type'', ''description'', ''properties'', ''required''] kvs"
      by (simp split: if_splits)
    from s' k obtain pv where "map_of kvs ''properties'' = Some pv" by (auto split: option.splits)
    with s' k obtain properties where pr: "map_of kvs ''properties'' = Some (JObj properties)"
      by (cases pv) auto
    let ?f = "\<lambda>(name, p). case strict_schema p of None \<Rightarrow> None
        | Some p' \<Rightarrow> map_option (Pair name)
            (if name \<in> set (required_names (JObj kvs)) then Some p' else nullable p')"
    from s' k pr obtain out where out: "map_option_list ?f properties = Some out" "p' = strict_object kvs out"
      by (auto split: option.splits)
    have "?f e = Some e' \<Longrightarrow> strict_entry (JObj kvs) e e'" for e e'
      by (cases e; cases e') (auto simp: strict_entry_def split: option.splits if_splits)
    with out(1) have "list_all2 (strict_entry (JObj kvs)) properties out"
      unfolding map_option_list_Some by (rule list_all2_mono)
    with Object [of kvs properties out] JObj ty 1 k pr out(2) show thesis by simp
  next
    case 2
    note s' = s [unfolded 2, simplified]
    then obtain q q' where "map_of kvs ''items'' = Some q" "strict_schema q = Some q'"
      "keys_within [''type'', ''description'', ''items''] kvs" "p' = JObj (jput ''items'' q' kvs)"
      by (auto split: option.splits if_splits)
    with Array [of kvs q q'] JObj ty 2 show thesis by simp
  next
    case 3
    then have "p' = p" using s JObj by (auto split: if_splits)
    with Leaf [of kvs ty] JObj ty 3 show thesis by simp
  qed
qed (use assms in auto)

text \<open>A value other than null that the nullable form of a schema admits, the schema admits.\<close>

lemma nullable_conforms:
  assumes n: "nullable p = Some q" and c: "conforms q v" and v: "v \<noteq> JNull"
  shows "conforms p v"
proof -
  from n obtain kvs ty where p: "p = JObj kvs" and ty: "map_of kvs ''type'' = Some (JStr ty)"
    by (auto simp: nullable_def split: json.splits option.splits Option.bind_splits elim!: as_str.elims)
  define k1 where "k1 = jput ''type'' (JArr [JStr ty, JStr ''null'']) kvs"
  define k2 where "k2 = (case map_of kvs ''enum'' of
      Some (JArr values) \<Rightarrow> jput ''enum'' (JArr (values @ [JNull])) k1 | _ \<Rightarrow> k1)"
  have q: "q = JObj k2"
    using n p ty unfolding k2_def k1_def by (auto simp: nullable_def Let_def map_of_jput)
  have look: "map_of k2 x = map_of kvs x" if "x \<noteq> ''type''" "x \<noteq> ''enum''" for x
    using that by (auto simp: k2_def k1_def map_of_jput split: option.splits json.splits)
  have tk2: "map_of k2 ''type'' = Some (JArr [JStr ty, JStr ''null''])"
    by (auto simp: k2_def k1_def map_of_jput split: option.splits json.splits)
  have "enum_ok q v \<Longrightarrow> enum_ok p v"
    using v by (auto simp: enum_ok_def p q jindex_JObj k2_def k1_def map_of_jput split: option.splits json.splits if_splits)
  moreover have "conforms_type q v \<Longrightarrow> conforms_type p v"
  proof -
    have ix: "jindex q x = jindex p x" if "x \<noteq> ''type''" "x \<noteq> ''enum''" for x
      using look [OF that] by (simp add: p q jindex_JObj)
    have "fits_type v ''null'' = False" using v by (simp add: fits_type_def)
    then have t: "list_ex (fits_type v) [ty, ''null''] = list_ex (fits_type v) [ty]" by simp
    have st: "schema_types (jindex q ''type'') = Some [ty, ''null'']" "schema_types (jindex p ''type'') = Some [ty]"
      by (simp_all add: p q jindex_JObj tk2 ty map_filter_simps)
    have r: "required_names q = required_names p" by (simp add: required_names_def ix)
    have ixs: "jindex q ''items'' = jindex p ''items''" "jindex q ''properties'' = jindex p ''properties''"
      "jindex q ''additionalProperties'' = jindex p ''additionalProperties''" by (simp_all add: ix)
    show "conforms_type q v \<Longrightarrow> conforms_type p v"
      using t unfolding conforms_type.simps [of q v] conforms_type.simps [of p v] st r ixs by simp
  qed
  ultimately show ?thesis using c by (simp add: conforms.simps)
qed


lemma strict_object_lookup:
  "jindex (strict_object kvs out) ''type'' = JStr ''object''"
  "jindex (strict_object kvs out) ''properties'' = JObj out"
  "jindex (strict_object kvs out) ''additionalProperties'' = JBool False"
  "required_names (strict_object kvs out) = map fst out"
  "enum_ok (strict_object kvs out) v"
proof -
  have "List.map_filter as_str (map (\<lambda>(n, _). JStr n) xs) = map fst xs" for xs :: "(string \<times> json) list"
    by (induction xs) (auto simp: map_filter_simps)
  then show "required_names (strict_object kvs out) = map fst out"
    by (simp add: strict_object_def Let_def jindex_JObj map_of_jput required_names_def as_array_list_def)
qed (auto simp: strict_object_def Let_def jindex_JObj map_of_jput enum_ok_def split: option.split)

text \<open>What the strict form has for a property, the schema has in its own form.\<close>

lemma strict_entry_lookup:
  assumes "list_all2 (strict_entry schema) properties out" and "map_of out k = Some q"
  shows "\<exists>p p'. (k, p) \<in> set properties \<and> map_of properties k = Some p \<and> strict_schema p = Some p' \<and>
    (if k \<in> set (required_names schema) then q = p' else nullable p' = Some q)"
  using assms by (induction rule: list_all2_induct) (auto simp: strict_entry_def split: if_splits)

lemma strict_entry_names:
  "list_all2 (strict_entry schema) properties out \<Longrightarrow> map fst out = map fst properties"
  by (induction rule: list_all2_induct) (auto simp: strict_entry_def)

lemma strict_type_not_null: "strict_schema p = Some p' \<Longrightarrow> \<not> allows_null p"
  by (erule strict_schema_cases) (auto simp: allows_null_def jindex_JObj)

lemma conforms_object:
  assumes "jindex schema ''type'' = JStr ''object''"
  shows "conforms_type schema v \<longleftrightarrow>
    (\<exists>kvs. v = JObj kvs \<and> set (required_names schema) \<subseteq> fst ` set kvs \<and>
       (\<forall>(k, x) \<in> set kvs. case jget (jindex schema ''properties'') k of
          Some s \<Rightarrow> conforms s x | None \<Rightarrow> jindex schema ''additionalProperties'' \<noteq> JBool False))"
  using assms by (subst conforms_type.simps) (auto simp: fits_type_def split: json.splits)

lemma conforms_array:
  assumes "jindex schema ''type'' = JStr ''array''"
  shows "conforms_type schema v \<longleftrightarrow> (\<exists>xs. v = JArr xs \<and> (\<forall>x \<in> set xs. conforms (jindex schema ''items'') x))"
  using assms by (subst conforms_type.simps) (auto simp: fits_type_def split: json.splits)

lemma conforms_leaf:
  assumes "conforms schema v" and "jindex schema ''type'' = JStr ty"
    and "ty \<in> {''string'', ''integer'', ''number'', ''boolean''}"
  shows "settle s v = v"
  using assms
  by (intro settle_leaf) (auto simp: conforms.simps [of schema v] conforms_type.simps [of schema v] fits_type_def)

lemma settled_conforms:
  "strict_schema s = Some s' \<Longrightarrow> declares_required s \<Longrightarrow> conforms s' v \<Longrightarrow> conforms s (settle s v)"
proof (induction s arbitrary: s' v rule: measure_induct_rule [of size])
  case (less s)
  from less.prems(1) show ?case
  proof (cases rule: strict_schema_cases)
    case (Object kvs properties out)
    have pr: "jindex s ''properties'' = JObj properties" and ty: "jindex s ''type'' = JStr ''object''"
      using Object(1,2,4) by (simp_all add: jindex_JObj)
    have "conforms_type (strict_object kvs out) v" using less.prems(3) Object(6) by (simp add: conforms.simps)
    then obtain o' where v: "v = JObj o'" "fst ` set out \<subseteq> fst ` set o'"
      and o': "\<forall>(k, x) \<in> set o'. case map_of out k of Some q \<Rightarrow> conforms q x | None \<Rightarrow> False"
      unfolding conforms_object [OF strict_object_lookup(1)] strict_object_lookup jget.simps simp_thms by auto
    have e: "\<exists>q. map_of out k = Some q \<and> conforms q x" if "(k, x) \<in> set o'" for k x
      using o' that by (auto split: option.splits)
    have dec: "set (required_names s) \<subseteq> fst ` set properties" "\<And>n p. (n, p) \<in> set properties \<Longrightarrow> declares_required p"
      using less.prems(2) Object(1,4) by (auto simp: declares_required.simps(1))
    have names: "fst ` set out = fst ` set properties"
      using strict_entry_names [OF Object(5)] by (metis list.set_map)
    have entry: "\<exists>p. map_of properties k = Some p \<and> conforms p (settle p x)"
      if "(k, x) \<in> set o'" "\<not> left_out s (k, x)" for k x
    proof -
      from e [OF that(1)] obtain q where q: "map_of out k = Some q" "conforms q x" by blast
      from strict_entry_lookup [OF Object(5) q(1)] obtain p p' where p: "(k, p) \<in> set properties"
        "map_of properties k = Some p" "strict_schema p = Some p'"
        "if k \<in> set (required_names s) then q = p' else nullable p' = Some q" by blast
      have "size p < size (JObj properties)" using p(1) by (rule size_entry)
      also have "\<dots> < size s" using Object(1,4) size_entry map_of_SomeD by metis
      finally have sz: "size p < size s" .
      have "conforms p' x"
      proof (cases "k \<in> set (required_names s)")
        case False
        have "property s k = p" using pr p(2) by (simp add: jindex_JObj)
        then have "x \<noteq> JNull"
          using that(2) False strict_type_not_null [OF p(3)] by (auto simp: left_out_def)
        with False p(4) q(2) nullable_conforms show ?thesis by auto
      qed (use p(4) q(2) in simp)
      then have "conforms p (settle p x)" using less.IH [OF sz p(3)] dec(2) [OF p(1)] by blast
      with p(2) show ?thesis by blast
    qed
    let ?o = "map (\<lambda>(k, v). (k, settle (property s k) v)) (filter (\<lambda>e. \<not> left_out s e) o')"
    have "set (required_names s) \<subseteq> fst ` set ?o"
    proof
      fix r
      assume r: "r \<in> set (required_names s)"
      then obtain x where x: "(r, x) \<in> set o'" using dec(1) v(2) names by force
      then have "\<not> left_out s (r, x)" using r by (simp add: left_out_def)
      with x show "r \<in> fst ` set ?o" by (force simp: image_iff)
    qed
    moreover have "\<forall>(k, y) \<in> set ?o. case jget (jindex s ''properties'') k of
        Some p \<Rightarrow> conforms p y | None \<Rightarrow> jindex s ''additionalProperties'' \<noteq> JBool False"
      using entry pr by (fastforce simp: jindex_JObj)
    moreover have "enum_ok s (JObj ?o)"
      using Object(1,3) keys_within_None [of _ kvs "''enum''"] by (simp add: enum_ok_free)
    ultimately show ?thesis using ty v(1) by (simp add: conforms.simps [of s] conforms_object)
  next
    case (Array kvs q q')
    have it: "jindex s ''items'' = q" and ty: "jindex s ''type'' = JStr ''array''"
      using Array(1,2,4) by (simp_all add: jindex_JObj)
    have it': "jindex s' ''items'' = q'" "jindex s' ''type'' = JStr ''array''"
      using Array(2,6) by (simp_all add: jindex_JObj map_of_jput)
    have sz: "size q < size s" using Array(1,4) size_entry map_of_SomeD by metis
    have d: "declares_required q" using less.prems(2) Array(1,4) by (simp add: declares_required.simps(1))
    from less.prems(3) it' obtain xs where xs: "v = JArr xs" "\<forall>x \<in> set xs. conforms q' x"
      by (auto simp: conforms.simps [of s'] conforms_array)
    then have "\<forall>x \<in> set xs. conforms q (settle q x)" using less.IH [OF sz Array(5) d] by blast
    moreover have "enum_ok s (settle s v)"
      using Array(1,3) keys_within_None [of _ kvs "''enum''"] by (simp add: enum_ok_free)
    ultimately show ?thesis using ty it xs(1) by (simp add: conforms.simps [of s] conforms_array)
  next
    case (Leaf kvs ty)
    then have "settle s v = v" using conforms_leaf [of s v ty s] less.prems(3) by (simp add: jindex_JObj)
    with Leaf less.prems(3) show ?thesis by simp
  qed
qed

text \<open>
  C25: when a subagent's schema has a strict form and declares the properties it requires, any
  result the strict form admits, settled, is one the schema the parent gave admits: nulls
  sent for properties left out never make a result fail.
\<close>

theorem settled_result_fits_the_schema:
  assumes "strict_schema s = Some s'" and "declares_required s"
    and "validate_result to_s s' v = Ok ()"
  shows "validate_result to_s s (settle s v) = Ok ()"
  using assms settled_conforms by (simp add: validate_result_def check_conforms)

definition sample_schema :: json where
  "sample_schema =
     JObj [(''properties'', JObj [(''notes'', JObj [(''type'', JStr ''string'')]),
                                  (''ok'', JObj [(''type'', JStr ''boolean'')])]),
           (''required'', JArr [JStr ''ok'']), (''type'', JStr ''object'')]"

definition sample_strict :: json where
  "sample_strict = the (strict_schema sample_schema)"

theorem settled_result_fits_the_schema_witness:
  "validate_result (\<lambda>_. []) sample_schema
     (settle sample_schema (JObj [(''notes'', JNull), (''ok'', JBool True)])) = Ok () \<and>
   validate_result (\<lambda>_. []) sample_schema (JObj [(''notes'', JNull), (''ok'', JBool True)]) \<noteq> Ok ()"
proof
  have "strict_schema sample_schema = Some sample_strict" by code_simp
  moreover have "declares_required sample_schema" by code_simp
  moreover have "validate_result (\<lambda>_. []) sample_strict (JObj [(''notes'', JNull), (''ok'', JBool True)]) = Ok ()"
    by code_simp
  ultimately show "validate_result (\<lambda>_. []) sample_schema
      (settle sample_schema (JObj [(''notes'', JNull), (''ok'', JBool True)])) = Ok ()"
    by (rule settled_result_fits_the_schema)
  show "validate_result (\<lambda>_. []) sample_schema (JObj [(''notes'', JNull), (''ok'', JBool True)]) \<noteq> Ok ()"
    by code_simp
qed

text \<open>
  A schema that requires a property it does not declare has a strict form all the same, and
  no result satisfies both: what the strict form admits lacks the property for ever.
\<close>

lemma undeclared_requirement_unsatisfiable:
  fixes to_s :: "json \<Rightarrow> string"
  defines "s \<equiv> JObj [(''properties'', JObj []), (''required'', JArr [JStr ''x'']), (''type'', JStr ''object'')]"
  shows "\<exists>s'. strict_schema s = Some s' \<and>
    (\<forall>v. validate_result to_s s' v = Ok () \<longrightarrow> validate_result to_s s (settle s v) \<noteq> Ok ())"
proof -
  have s': "strict_schema s = Some (strict_object [(''properties'', JObj []), (''required'', JArr [JStr ''x'']), (''type'', JStr ''object'')] [])"
    by (simp add: s_def strict_schema.simps(1) keys_within_def)
  have "\<not> conforms s (settle s v)" if "conforms (strict_object kvs []) v" for v kvs
  proof -
    from that obtain o' where "v = JObj o'" "\<forall>(k, x) \<in> set o'. False"
      by (auto simp: conforms.simps [of "strict_object kvs []"] conforms_object strict_object_lookup)
    then have "v = JObj []" by (cases o') auto
    moreover have "required_names s = [''x'']"
      by (simp add: s_def required_names_def as_array_list_def jindex_JObj map_filter_simps)
    moreover have "jindex s ''type'' = JStr ''object''" by (simp add: s_def jindex_JObj)
    ultimately show ?thesis by (simp add: conforms.simps [of s] conforms_object)
  qed
  with s' show ?thesis by (auto simp: validate_result_def check_conforms)
qed

end
