(* ===== verification/Agent_Loop.thy ===== *)
theory Agent_Loop
  imports Journal Subagent
begin

text \<open>
  \<^verbatim>\<open>src/agent/src/agent.rs\<close>: the loop that asks the model, runs the tools it called and hands
  back the results, with its retries, its compaction and its journal. What the loop waits
  for is the world's: the model's answers, the permission asked of the node, the tools'
  outputs, a cancel at any wait, and what subagents return, which run at once and share
  nothing with the loop but the totals. The world is a state of any type that each of these
  moves on; a theorem about every world is one about every order of events.
\<close>

section \<open>What the loop sees\<close>

datatype wire_error =
    ContextOverflow string
  | Http nat string "nat option"
  | StreamError string
  | FailedResponse string string
  | Incomplete
  | Transport string

fun retryable :: "wire_error \<Rightarrow> bool" where
  "retryable (Http status body after) = (status \<in> {408, 429, 500, 502, 503, 504, 529})"
| "retryable (FailedResponse code message) =
     (code \<in> {''server_error'', ''server_is_overloaded'', ''rate_limit_exceeded''})"
| "retryable Incomplete = True"
| "retryable (Transport e) = True"
| "retryable (ContextOverflow m) = False"
| "retryable (StreamError m) = False"

text \<open>In seconds.\<close>

fun retry_after :: "wire_error \<Rightarrow> nat option" where
  "retry_after (Http status body after) = after"
| "retry_after _ = None"

record usage =
  ug_input :: nat
  ug_output :: nat
  ug_cache_read :: nat

record completion =
  co_blocks :: "block list"
  co_finish_reason :: "string option"
  co_usage :: "usage option"

record tool_output =
  ou_content :: string
  ou_is_error :: bool

abbreviation output_error :: "string \<Rightarrow> tool_output" where
  "output_error t \<equiv> \<lparr>ou_content = t, ou_is_error = True\<rparr>"

abbreviation output_ok :: "string \<Rightarrow> tool_output" where
  "output_ok t \<equiv> \<lparr>ou_content = t, ou_is_error = False\<rparr>"

datatype permit = Allow | Deny string | Permit_Cancelled

datatype outcome =
    Returned json
  | Finished string
  | Max_Turns
  | Overflowed string
  | Turn_Cancelled
  | Stopped string

datatype trigger = Threshold | Overflow | Manual

datatype compacting = Compacting_Done | Compacting_Nothing | Compacting_Cancelled

record totals =
  to_turns :: nat
  to_usage :: usage
  to_tool_calls :: nat
  to_tool_errors :: nat

definition no_totals :: totals where
  "no_totals = \<lparr>to_turns = 0, to_usage = \<lparr>ug_input = 0, ug_output = 0, ug_cache_read = 0\<rparr>,
                to_tool_calls = 0, to_tool_errors = 0\<rparr>"

definition add_usage :: "totals \<Rightarrow> usage \<Rightarrow> totals" where
  "add_usage t u = t\<lparr>to_usage :=
     \<lparr>ug_input = ug_input (to_usage t) + ug_input u, ug_output = ug_output (to_usage t) + ug_output u,
      ug_cache_read = ug_cache_read (to_usage t) + ug_cache_read u\<rparr>\<rparr>"

record agent =
  ag_journal :: bool
  ag_max_turns :: "nat option"
  ag_window :: "nat option"
  ag_spawner :: "spawner option"
  ag_finish :: "json option"
  ag_tools :: "string list"
  ag_tool_specs :: "json list"

text \<open>One attempt at a request: an answer, an error after some streamed text, or a cancel.\<close>

datatype attempt = Answered completion | Broke wire_error string | Aborted

text \<open>A subagent ready to run, on its own model or another of the provider's.\<close>

record child =
  ch_model :: "string option"
  ch_agent :: agent
  ch_conv :: conversation

record 'w world =
  w_complete :: "'w \<Rightarrow> conversation \<Rightarrow> json list \<Rightarrow> nat option \<Rightarrow> attempt \<times> 'w"
  w_sleep :: "'w \<Rightarrow> nat \<Rightarrow> bool \<times> 'w"
  w_permit :: "'w \<Rightarrow> string \<Rightarrow> string \<Rightarrow> json \<Rightarrow> permit \<times> 'w"
  w_run :: "'w \<Rightarrow> string \<Rightarrow> json \<Rightarrow> tool_output option \<times> 'w"
  w_child :: "'w \<Rightarrow> child \<Rightarrow> ((wire_error, outcome) result \<times> totals) \<times> 'w"
  w_cancelled :: "'w \<Rightarrow> bool"

text \<open>What the loop does that others see or rely on, in order.\<close>

datatype event =
    Wrote journal_record
  | Asked string string json permit
  | Ran string string json

record 'w run_state =
  st_conv :: conversation
  st_totals :: totals
  st_log :: "event list"
  st_world :: 'w

definition log_event :: "event \<Rightarrow> 'w run_state \<Rightarrow> 'w run_state" where
  "log_event e s = s\<lparr>st_log := st_log s @ [e]\<rparr>"

definition record_step :: "agent \<Rightarrow> journal_record \<Rightarrow> 'w run_state \<Rightarrow> 'w run_state" where
  "record_step ag r s = (if ag_journal ag then log_event (Wrote r) s else s)"

definition push :: "agent \<Rightarrow> role \<Rightarrow> block list \<Rightarrow> 'w run_state \<Rightarrow> 'w run_state" where
  "push ag r bs s =
     (let s = record_step ag (RMessage r bs) s in s\<lparr>st_conv := push_message (st_conv s) r bs\<rparr>)"

definition agent_specs :: "agent \<Rightarrow> json list" where
  "agent_specs ag =
     ag_tool_specs ag
       @ (case ag_spawner ag of Some _ \<Rightarrow> [spawn_spec] | None \<Rightarrow> [])
       @ (case ag_finish ag of Some schema \<Rightarrow> [finish_spec schema] | None \<Rightarrow> [])"

definition agent_overhead :: "agent_libs \<Rightarrow> agent \<Rightarrow> nat" where
  "agent_overhead l ag = length (al_to_string l (JArr (agent_specs ag)))"

section \<open>One model request\<close>

definition BACKOFF :: "nat list" where
  "BACKOFF = [1, 2, 4, 8]"

definition MAX_RETRY_AFTER :: nat where
  "MAX_RETRY_AFTER = 60"

datatype request_result = Got completion | Request_Cancelled | Gave_Up wire_error string

text \<open>How long to wait before attempt \<open>attempt + 1\<close>, if another could help.\<close>

definition retry_wait :: "nat \<Rightarrow> wire_error \<Rightarrow> string \<Rightarrow> nat option" where
  "retry_wait attempt error shown =
     (if retryable error \<and> trim shown = [] \<and> attempt < length BACKOFF then
        (let backoff = BACKOFF ! attempt in
         case retry_after error of
           Some asked \<Rightarrow> if MAX_RETRY_AFTER < asked then None else Some (max asked backoff)
         | None \<Rightarrow> Some backoff)
      else None)"

function request_from :: "'w world \<Rightarrow> conversation \<Rightarrow> json list \<Rightarrow> nat option \<Rightarrow> bool \<Rightarrow> nat \<Rightarrow> 'w \<Rightarrow> request_result \<times> 'w" where
  "request_from wd conv specs max_tokens show attempt w =
     (let (a, w) = w_complete wd w conv specs max_tokens in
      case a of
        Answered c \<Rightarrow> (Got c, w)
      | Aborted \<Rightarrow> (Request_Cancelled, w)
      | Broke error streamed \<Rightarrow>
          (let shown = (if show then streamed else []) in
           case retry_wait attempt error shown of
             None \<Rightarrow> (Gave_Up error shown, w)
           | Some wait \<Rightarrow>
               (let (cancelled, w) = w_sleep wd w wait in
                if cancelled then (Request_Cancelled, w)
                else request_from wd conv specs max_tokens show (attempt + 1) w)))"
  by auto
termination
  by (relation "measure (\<lambda>(wd, conv, specs, mt, sh, attempt, w). length BACKOFF - attempt)")
    (auto simp: retry_wait_def split: if_splits)

declare request_from.simps [simp del]

abbreviation request :: "'w world \<Rightarrow> conversation \<Rightarrow> json list \<Rightarrow> nat option \<Rightarrow> bool \<Rightarrow> 'w \<Rightarrow> request_result \<times> 'w" where
  "request wd conv specs max_tokens show w \<equiv> request_from wd conv specs max_tokens show 0 w"

section \<open>Compaction\<close>

definition text_of :: "block list \<Rightarrow> string" where
  "text_of bs = join_with [LF] (List.map_filter (\<lambda>b. case b of Text t \<Rightarrow> Some t | _ \<Rightarrow> None) bs)"

text \<open>Pruning, and the cut the summary would be made at.\<close>

definition compact_prune :: "agent_libs \<Rightarrow> agent \<Rightarrow> nat \<Rightarrow> 'w run_state \<Rightarrow> pruned list \<times> 'w run_state" where
  "compact_prune l ag overhead s =
     (let pruned = prune_plan (st_conv s) (for_window (ag_window ag)) in
      if pruned = [] then (pruned, s)
      else
        (let s = record_step ag (RPruned pruned) s in
         (pruned, s\<lparr>st_conv := prune l (st_conv s) pruned overhead\<rparr>)))"

definition compact_cut :: "agent_libs \<Rightarrow> agent \<Rightarrow> trigger \<Rightarrow> nat \<Rightarrow> conversation \<Rightarrow> nat option" where
  "compact_cut l ag trigger overhead conv =
     (let bounds = for_window (ag_window ag);
          fits = (case ag_window ag of None \<Rightarrow> False | Some w \<Rightarrow> estimate l conv overhead < threshold w) in
      case trigger of
        Threshold \<Rightarrow> if fits then None else cut l conv (keep_raw bounds)
      | _ \<Rightarrow> cut l conv (min (keep_raw bounds) (messages_tokens l conv div 4)))"

definition summary_budget :: "agent \<Rightarrow> nat option" where
  "summary_budget ag = map_option (\<lambda>w. threshold w - (SUMMARY_MAX_TOKENS + 1024)) (ag_window ag)"

definition compact_step :: "'w world \<Rightarrow> agent_libs \<Rightarrow> agent \<Rightarrow> trigger \<Rightarrow> nat \<Rightarrow> 'w run_state \<Rightarrow> compacting \<times> 'w run_state" where
  "compact_step wd l ag trigger overhead s =
     (let (pruned, s) = compact_prune l ag overhead s in
      case compact_cut l ag trigger overhead (st_conv s) of
        None \<Rightarrow> (if pruned = [] then Compacting_Nothing else Compacting_Done, s)
      | Some up_to \<Rightarrow>
          (let conv = st_conv s;
               (asked, w) = request wd (summary_request l conv up_to (summary_budget ag)) []
                              (Some SUMMARY_MAX_TOKENS) False (st_world s);
               s = s\<lparr>st_world := w\<rparr> in
           case asked of
             Request_Cancelled \<Rightarrow> (Compacting_Cancelled, s)
           | Gave_Up error shown \<Rightarrow> (if pruned = [] then Compacting_Nothing else Compacting_Done, s)
           | Got c \<Rightarrow>
               (let text = text_of (co_blocks c);
                    used = trim text \<noteq> [];
                    s = (if used then
                           (let message = summary_message l conv up_to text;
                                keep = length (cv_messages conv) - up_to;
                                s = record_step ag (RCompacted message keep) s in
                            s\<lparr>st_conv := summarise l (st_conv s) message keep overhead\<rparr>)
                         else s);
                    s = (case co_usage c of Some u \<Rightarrow> s\<lparr>st_totals := add_usage (st_totals s) u\<rparr> | None \<Rightarrow> s) in
                (if pruned = [] \<and> \<not> used then Compacting_Nothing else Compacting_Done, s))))"

section \<open>Running the calls of a response\<close>

definition announce :: "agent \<Rightarrow> string \<Rightarrow> 'w run_state \<Rightarrow> 'w run_state" where
  "announce ag i s = record_step ag (RToolAsked i) s"

definition TURN_CANCELLED :: string where
  "TURN_CANCELLED = ''not run: the turn was cancelled''"

definition run_call :: "'w world \<Rightarrow> agent \<Rightarrow> call \<Rightarrow> bool \<Rightarrow> 'w run_state \<Rightarrow> (tool_output \<times> bool) \<times> 'w run_state" where
  "run_call wd ag = (\<lambda>(i, name, input) cancelled s.
     if cancelled then ((output_error TURN_CANCELLED, cancelled), s)
     else
       (let (p, w) = w_permit wd (st_world s) i name input;
            s = log_event (Asked i name input p) (s\<lparr>st_world := w\<rparr>) in
        case p of
          Allow \<Rightarrow>
            (let s = record_step ag (RToolStarted i) s;
                 s = log_event (Ran i name input) s;
                 (out, w) = w_run wd (st_world s) name input;
                 s = s\<lparr>st_world := w\<rparr> in
             case out of
               Some out \<Rightarrow> ((out, cancelled), s)
             | None \<Rightarrow> ((output_error ''stopped: the turn was cancelled'', True), s))
        | Deny why \<Rightarrow> ((output_error why, cancelled), s)
        | Permit_Cancelled \<Rightarrow> ((output_error TURN_CANCELLED, True), s)))"

definition finish_call :: "agent \<Rightarrow> string \<Rightarrow> tool_output \<Rightarrow> 'w run_state \<Rightarrow> block \<times> 'w run_state" where
  "finish_call ag i out s =
     (let s = record_step ag (RToolResult i (ou_content out) (ou_is_error out)) s;
          t = st_totals s in
      (ToolResult i (ou_content out) (ou_is_error out),
       s\<lparr>st_totals := t\<lparr>to_tool_calls := to_tool_calls t + 1,
         to_tool_errors := to_tool_errors t + (if ou_is_error out then 1 else 0)\<rparr>\<rparr>))"

text \<open>The spawn calls of one response are asked in turn; those allowed then run.\<close>

fun decide_spawns :: "'w world \<Rightarrow> agent \<Rightarrow> call list \<Rightarrow> bool \<Rightarrow> 'w run_state \<Rightarrow>
    ((string \<times> json \<times> tool_output option) list \<times> bool) \<times> 'w run_state" where
  "decide_spawns wd ag [] cancelled s = (([], cancelled), s)"
| "decide_spawns wd ag ((i, name, input) # cs) cancelled s =
     (let s = announce ag i s;
          ((refused, cancelled), s) =
            (if cancelled then ((Some (output_error TURN_CANCELLED), cancelled), s)
             else
               (let (p, w) = w_permit wd (st_world s) i name input;
                    s = log_event (Asked i name input p) (s\<lparr>st_world := w\<rparr>) in
                case p of
                  Allow \<Rightarrow> ((None, cancelled), record_step ag (RToolStarted i) s)
                | Deny why \<Rightarrow> ((Some (output_error why), cancelled), s)
                | Permit_Cancelled \<Rightarrow> ((Some (output_error TURN_CANCELLED), True), s)));
          ((rest, cancelled), s) = decide_spawns wd ag cs cancelled s in
      (((i, input, refused) # rest, cancelled), s))"

definition CHILD_ORIENTATION :: string where
  "CHILD_ORIENTATION =
     ''You are a subagent: another agent handed you one task, below, and is waiting for its result. ''
     @ ''Work on that task alone, with the tools you have; you cannot hand work on to further agents. ''
     @ ''When it is done, or cannot be done, call `finish` once with the result in the shape it asks ''
     @ ''for; that ends your work, and nothing you write outside `finish` reaches the agent waiting ''
     @ ''for you.''"

definition child_agent :: "agent \<Rightarrow> json \<Rightarrow> nat option \<Rightarrow> agent" where
  "child_agent ag schema window =
     \<lparr>ag_journal = False, ag_max_turns = Some CHILD_MAX_TURNS, ag_window = window,
      ag_spawner = None, ag_finish = Some schema, ag_tools = ag_tools ag,
      ag_tool_specs = ag_tool_specs ag\<rparr>"

definition child_schema :: "json \<Rightarrow> json option" where
  "child_schema input =
     (case jget input ''result_schema'' of
        None \<Rightarrow> Some default_schema
      | Some JNull \<Rightarrow> Some default_schema
      | Some s \<Rightarrow> if jindex s ''type'' = JStr ''object'' then Some s else None)"

text \<open>The checks before a subagent starts, with what the model is told when one fails.\<close>

definition prepare_child :: "agent \<Rightarrow> spawner \<Rightarrow> string \<Rightarrow> json \<Rightarrow> string \<Rightarrow> string option \<Rightarrow> (tool_output, child) result" where
  "prepare_child ag sp c input system key =
     (case as_str (jindex input ''task'') of
        None \<Rightarrow> Err (output_error ''not run: `task` is empty'')
      | Some task \<Rightarrow>
          if trim task = [] then Err (output_error ''not run: `task` is empty'')
          else
            (case child_schema input of
               None \<Rightarrow> Err (output_error ''not run: `result_schema` must be a JSON Schema of type object'')
             | Some schema \<Rightarrow>
                 (let conv = push_message
                        ((new_conversation (CHILD_ORIENTATION @ [LF, LF] @ system))
                          \<lparr>cv_cache_key := map_option (\<lambda>k. k @ ''/'' @ c) key\<rparr>)
                        User [Text task] in
                  case as_str (jindex input ''model'') of
                    None \<Rightarrow> Ok \<lparr>ch_model = None, ch_agent = child_agent ag schema (ag_window ag), ch_conv = conv\<rparr>
                  | Some m \<Rightarrow>
                      if m = [] then
                        Ok \<lparr>ch_model = None, ch_agent = child_agent ag schema (ag_window ag), ch_conv = conv\<rparr>
                      else
                        (case allows_model sp m of
                           Some window \<Rightarrow>
                             Ok \<lparr>ch_model = Some m, ch_agent = child_agent ag schema window, ch_conv = conv\<rparr>
                         | None \<Rightarrow>
                             Err (output_error (''not run: `'' @ m @ ''` is not a model this session''
                               @ [CHR 0x27] @ ''s provider offers; these are: '' @ join_with '', '' (models sp)))))))"

fun describe_error :: "wire_error \<Rightarrow> string" where
  "describe_error (ContextOverflow m) = ''context window exceeded: '' @ m"
| "describe_error (Http status body after) = ''upstream answered '' @ dec status @ '': '' @ body"
| "describe_error (StreamError m) = ''upstream reported an error mid-stream: '' @ m"
| "describe_error (FailedResponse code m) = ''upstream failed the response ('' @ code @ ''): '' @ m"
| "describe_error Incomplete = ''the stream ended before the response was complete''"
| "describe_error (Transport e) = ''transport: '' @ e"

text \<open>What the parent's call is answered with.\<close>

fun child_output :: "agent_libs \<Rightarrow> (wire_error, outcome) result \<Rightarrow> tool_output" where
  "child_output l (Inr (Returned value)) = output_ok (al_to_string l value)"
| "child_output l (Inr (Finished t)) =
     output_error (''the subagent stopped without calling finish; it last said: '' @ t)"
| "child_output l (Inr Max_Turns) =
     output_error (''the subagent made '' @ dec CHILD_MAX_TURNS @ '' model requests without finishing, and was stopped'')"
| "child_output l (Inr Turn_Cancelled) = output_error ''stopped: the turn was cancelled''"
| "child_output l (Inr (Stopped reason)) = output_error (''the subagent was stopped: '' @ reason)"
| "child_output l (Inr (Overflowed m)) =
     output_error (''the subagent'' @ [CHR 0x27] @ ''s context overflowed: '' @ m)"
| "child_output l (Inl e) = output_error (''the subagent failed: '' @ describe_error e)"

fun run_children :: "'w world \<Rightarrow> agent_libs \<Rightarrow> agent \<Rightarrow> spawner \<Rightarrow> string \<Rightarrow> string option \<Rightarrow>
    (string \<times> json \<times> tool_output option) list \<Rightarrow> 'w \<Rightarrow> (tool_output \<times> totals) list \<times> 'w" where
  "run_children wd l ag sp system key [] w = ([], w)"
| "run_children wd l ag sp system key ((i, input, refused) # ds) w =
     (let ((out, t), w) =
        (case refused of
           Some out \<Rightarrow> ((out, no_totals), w)
         | None \<Rightarrow>
             (case prepare_child ag sp i input system key of
                Inl out \<Rightarrow> ((out, no_totals), w)
              | Inr ch \<Rightarrow>
                  (let ((r, t), w) = w_child wd w ch in ((child_output l r, t), w))));
          (rest, w) = run_children wd l ag sp system key ds w in
      ((out, t) # rest, w))"

definition add_child :: "totals \<Rightarrow> totals \<Rightarrow> totals" where
  "add_child t c =
     (let t = add_usage t (to_usage c) in
      t\<lparr>to_turns := to_turns t + to_turns c, to_tool_calls := to_tool_calls t + to_tool_calls c,
        to_tool_errors := to_tool_errors t + to_tool_errors c\<rparr>)"

definition spawn_group :: "'w world \<Rightarrow> agent_libs \<Rightarrow> agent \<Rightarrow> spawner \<Rightarrow> call list \<Rightarrow> bool \<Rightarrow> 'w run_state \<Rightarrow>
    (tool_output list \<times> bool) \<times> 'w run_state" where
  "spawn_group wd l ag sp cs cancelled s =
     (let ((decided, cancelled), s) = decide_spawns wd ag cs cancelled s;
          (outs, w) = run_children wd l ag sp (cv_system (st_conv s)) (cv_cache_key (st_conv s)) decided (st_world s);
          s = s\<lparr>st_world := w, st_totals := foldl add_child (st_totals s) (map snd outs)\<rparr> in
      ((map fst outs, cancelled \<or> w_cancelled wd w), s))"

fun finish_calls :: "agent \<Rightarrow> (string \<times> tool_output) list \<Rightarrow> 'w run_state \<Rightarrow> block list \<times> 'w run_state" where
  "finish_calls ag [] s = ([], s)"
| "finish_calls ag ((i, out) # ios) s =
     (let (b, s) = finish_call ag i out s; (bs, s) = finish_calls ag ios s in (b # bs, s))"

text \<open>
  The calls in turn; on the left when a subagent has returned its result, which ends its
  work whatever calls come after.
\<close>

function run_calls :: "'w world \<Rightarrow> agent_libs \<Rightarrow> agent \<Rightarrow> call list \<Rightarrow> bool \<Rightarrow> block list \<Rightarrow> 'w run_state \<Rightarrow>
    json \<times> 'w run_state + (block list \<times> bool) \<times> 'w run_state" where
  "run_calls wd l ag [] cancelled results s = Inr ((results, cancelled), s)"
| "run_calls wd l ag ((i, name, input) # cs) cancelled results s =
     (if name = FINISH \<and> ag_finish ag \<noteq> None then
        (let schema = the (ag_finish ag); value = settle schema input in
         case validate_result (al_to_string l) schema value of
           Inr _ \<Rightarrow> Inl (value, s)
         | Inl problem \<Rightarrow>
             run_calls wd l ag cs cancelled
               (results @ [ToolResult i (''not returned: '' @ problem
                  @ ''. Call finish again with a result in the shape it asks for.'') True]) s)
      else if name = SPAWN \<and> ag_spawner ag \<noteq> None then
        (let same = takeWhile (\<lambda>(_, n, _). n = SPAWN) ((i, name, input) # cs);
             ((outs, cancelled), s) = spawn_group wd l ag (the (ag_spawner ag)) same cancelled s;
             (bs, s) = finish_calls ag (zip (map fst same) outs) s in
         run_calls wd l ag (dropWhile (\<lambda>(_, n, _). n = SPAWN) cs) cancelled (results @ bs) s)
      else
        (let s = announce ag i s;
             ((out, cancelled), s) = run_call wd ag (i, name, input) cancelled s;
             (b, s) = finish_call ag i out s in
         run_calls wd l ag cs cancelled (results @ [b]) s))"
  by pat_completeness auto
termination
  by (relation "measure (\<lambda>(wd, l, ag, cs, cancelled, results, s). length cs)")
    (auto simp: le_imp_less_Suc length_dropWhile_le)

declare run_calls.simps(2) [simp del]

section \<open>One turn of the loop\<close>

definition FABRICATED :: "string list" where
  "FABRICATED = [''<tool_response>'', ''<tool_result>'', ''<|im_start|>tool'', ''<function_results>'']"

definition UNPARSED_CALL :: string where
  "UNPARSED_CALL = ''<tool_call>''"

text \<open>Why a call cannot run as written.\<close>

definition call_problem :: "agent \<Rightarrow> string \<Rightarrow> json \<Rightarrow> string option \<Rightarrow> string option" where
  "call_problem ag name input finish_reason =
     (if finish_reason = Some ''length'' then
        Some (''not run: the response hit its output limit while writing this call, so its ''
          @ ''arguments are cut off. Make the call again, with less in it'')
      else if trim name = [] then Some ''not run: the call names no tool''
      else
        (let extra = name = SPAWN \<and> ag_spawner ag \<noteq> None \<or> name = FINISH \<and> ag_finish ag \<noteq> None in
         if name \<notin> set (ag_tools ag) \<and> \<not> extra then
           (let names = ag_tools ag @ (if ag_spawner ag \<noteq> None then [SPAWN] else [])
                  @ (if ag_finish ag \<noteq> None then [FINISH] else []) in
            Some (''not run: there is no tool `'' @ name @ ''`; the tools are: '' @ join_with '', '' names))
         else
           (case input of
              JObj _ \<Rightarrow> None
            | JStr raw \<Rightarrow>
                Some (''not run: the arguments were not valid JSON: '' @ raw @ [LF] @ ''Call '' @ name
                  @ '' again with a JSON object.'')
            | _ \<Rightarrow>
                Some (''not run: the arguments must be a JSON object. Call '' @ name @ '' again with one.''))))"

definition malformed_stop :: "nat \<Rightarrow> string \<Rightarrow> outcome option" where
  "malformed_stop malformed problem =
     (if malformed < 2 then None
      else Some (Stopped (''the model made two malformed responses in a row; the last: '' @ problem)))"

text \<open>Results decided here for calls that are not run: recorded, and pushed as one message.\<close>

fun record_results :: "agent \<Rightarrow> (string \<times> string) list \<Rightarrow> 'w run_state \<Rightarrow> 'w run_state" where
  "record_results ag [] s = s"
| "record_results ag ((i, t) # its) s = record_results ag its (record_step ag (RToolResult i t True) s)"

definition push_results :: "block list \<Rightarrow> 'w run_state \<Rightarrow> 'w run_state" where
  "push_results bs s = s\<lparr>st_conv := push_message (st_conv s) User bs\<rparr>"

definition answer_unrun :: "agent \<Rightarrow> (string \<times> string) list \<Rightarrow> 'w run_state \<Rightarrow> 'w run_state" where
  "answer_unrun ag its s =
     push_results (map (\<lambda>(i, t). ToolResult i t True) its) (record_results ag its s)"

definition close_unrun :: "agent \<Rightarrow> call list \<Rightarrow> string \<Rightarrow> 'w run_state \<Rightarrow> 'w run_state" where
  "close_unrun ag calls why s =
     (if calls = [] then s else answer_unrun ag (map (\<lambda>c. (fst c, why)) calls) s)"

record loop_vars =
  lv_requests :: nat
  lv_malformed :: nat
  lv_overflowed :: bool
  lv_stuck_at :: "nat option"

type_synonym 'w turn = "((wire_error, outcome) result \<times> 'w run_state) + (loop_vars \<times> 'w run_state)"

definition stop_turn :: "(wire_error, outcome) result \<Rightarrow> 'w run_state \<Rightarrow> 'w turn" where
  "stop_turn r s = Inl (r, s)"

text \<open>The model is told what was wrong and asked again, once.\<close>

definition nudge :: "agent \<Rightarrow> string \<Rightarrow> loop_vars \<Rightarrow> 'w run_state \<Rightarrow> 'w turn" where
  "nudge ag problem lv s =
     (let lv = lv\<lparr>lv_malformed := lv_malformed lv + 1\<rparr> in
      case malformed_stop (lv_malformed lv) problem of
        Some stop \<Rightarrow> stop_turn (Ok stop) s
      | None \<Rightarrow> Inr (lv, push ag User [Text (HARNESS @ '' '' @ problem @ ''.'')] s))"

definition ANOTHER_MALFORMED :: string where
  "ANOTHER_MALFORMED = ''not run: another call in the same response was malformed; make each ''
     @ ''call again, well formed''"

text \<open>A response with calls.\<close>

definition handle_calls :: "'w world \<Rightarrow> agent_libs \<Rightarrow> agent \<Rightarrow> call list \<Rightarrow> string option \<Rightarrow> loop_vars \<Rightarrow> 'w run_state \<Rightarrow> 'w turn" where
  "handle_calls wd l ag calls finish_reason lv s =
     (let problems = map (\<lambda>(_, name, input). call_problem ag name input finish_reason) calls in
      case List.map_filter id problems of
        first # _ \<Rightarrow>
          (let lv = lv\<lparr>lv_malformed := lv_malformed lv + 1\<rparr>;
               texts = map (\<lambda>((i, _, _), p). (i, case p of Some t \<Rightarrow> t | None \<Rightarrow> ANOTHER_MALFORMED)) (zip calls problems);
               s = answer_unrun ag texts s in
           case malformed_stop (lv_malformed lv) first of
             Some stop \<Rightarrow> stop_turn (Ok stop) s
           | None \<Rightarrow> Inr (lv, s))
      | [] \<Rightarrow>
          (let lv = lv\<lparr>lv_malformed := 0\<rparr> in
           case run_calls wd l ag calls False [] s of
             Inl (value, s) \<Rightarrow> stop_turn (Ok (Returned value)) s
           | Inr ((results, cancelled), s) \<Rightarrow>
               (let s = push_results results s in
                if cancelled \<or> w_cancelled wd (st_world s) then stop_turn (Ok Turn_Cancelled) s
                else Inr (lv, s))))"

text \<open>What a response leads to, once it is recorded and measured.\<close>

definition fabricated_reason :: "string \<Rightarrow> string" where
  "fabricated_reason marker = ''the model wrote a tool'' @ [CHR 0x27] @ ''s result itself ('' @ marker
     @ '') instead of waiting for one; the turn was stopped so nothing acts on an invented result''"

definition take_response :: "'w world \<Rightarrow> agent_libs \<Rightarrow> agent \<Rightarrow> completion \<Rightarrow> nat \<Rightarrow> loop_vars \<Rightarrow> 'w run_state \<Rightarrow> 'w turn" where
  "take_response wd l ag c sent lv s =
     (let s = (case co_usage c of Some u \<Rightarrow> s\<lparr>st_totals := add_usage (st_totals s) u\<rparr> | None \<Rightarrow> s);
          text = text_of (co_blocks c);
          calls = calls_of (co_blocks c);
          s = (if co_blocks c = [] then s else push ag Assistant (co_blocks c) s);
          s = (case co_usage c of
                 Some u \<Rightarrow> s\<lparr>st_conv := measure_request (st_conv s) sent (ug_input u) (ug_output u)\<rparr>
               | None \<Rightarrow> s) in
      case find (contains_str text) FABRICATED of
        Some marker \<Rightarrow>
          stop_turn (Ok (Stopped (fabricated_reason marker)))
            (close_unrun ag calls ''not run: the turn was stopped'' s)
      | None \<Rightarrow>
          if calls = [] then
            (if contains_str text UNPARSED_CALL then
               nudge ag (''a tool call was written into the text, where it is not a call; nothing ran. ''
                 @ ''Call the tool through the tools interface'') lv s
             else if ag_finish ag \<noteq> None then
               nudge ag ''the task ends only by calling `finish` with the result'' lv s
             else stop_turn (Ok (Finished text)) s)
          else handle_calls wd l ag calls (co_finish_reason c) lv s)"

text \<open>Compaction before a request, when the conversation nears the window.\<close>

definition compact_near :: "'w world \<Rightarrow> agent_libs \<Rightarrow> agent \<Rightarrow> loop_vars \<Rightarrow> 'w run_state \<Rightarrow> 'w turn" where
  "compact_near wd l ag lv s =
     (case ag_window ag of
        None \<Rightarrow> Inr (lv, s)
      | Some window \<Rightarrow>
          (let overhead = agent_overhead l ag;
               sz = estimate l (st_conv s) overhead;
               t = threshold window;
               grown = (case lv_stuck_at lv of None \<Rightarrow> True
                        | Some stuck \<Rightarrow> stuck + keep_raw (for_window (Some window)) div 2 \<le> sz) in
           if t \<le> sz \<and> grown then
             (let (r, s) = compact_step wd l ag Threshold overhead s in
              if r = Compacting_Cancelled then stop_turn (Ok Turn_Cancelled) s
              else
                (let after = estimate l (st_conv s) overhead in
                 Inr (lv\<lparr>lv_stuck_at := (if t \<le> after then Some after else None)\<rparr>, s)))
           else Inr (lv, s)))"

definition ask_model :: "'w world \<Rightarrow> agent_libs \<Rightarrow> agent \<Rightarrow> loop_vars \<Rightarrow> 'w run_state \<Rightarrow> 'w turn" where
  "ask_model wd l ag lv s =
     (let overhead = agent_overhead l ag;
          lv = lv\<lparr>lv_requests := lv_requests lv + 1\<rparr>;
          s = s\<lparr>st_totals := (st_totals s)\<lparr>to_turns := to_turns (st_totals s) + 1\<rparr>\<rparr>;
          sent = request_bytes l (st_conv s) overhead;
          (r, w) = request wd (st_conv s) (agent_specs ag) None True (st_world s);
          s = s\<lparr>st_world := w\<rparr> in
      case r of
        Request_Cancelled \<Rightarrow> stop_turn (Ok Turn_Cancelled) s
      | Gave_Up (ContextOverflow message) _ \<Rightarrow>
          if lv_overflowed lv then stop_turn (Ok (Overflowed message)) s
          else
            (let (c, s) = compact_step wd l ag Overflow overhead s in
             case c of
               Compacting_Done \<Rightarrow> Inr (lv\<lparr>lv_overflowed := True\<rparr>, s)
             | Compacting_Cancelled \<Rightarrow> stop_turn (Ok Turn_Cancelled) s
             | Compacting_Nothing \<Rightarrow> stop_turn (Ok (Overflowed message)) s)
      | Gave_Up error shown \<Rightarrow>
          stop_turn (Err error) (if trim shown = [] then s else push ag Assistant [Text shown] s)
      | Got c \<Rightarrow> take_response wd l ag c sent (lv\<lparr>lv_overflowed := False\<rparr>) s)"

definition turn_step :: "'w world \<Rightarrow> agent_libs \<Rightarrow> agent \<Rightarrow> loop_vars \<Rightarrow> 'w run_state \<Rightarrow> 'w turn" where
  "turn_step wd l ag lv s =
     (if (case ag_max_turns ag of Some m \<Rightarrow> m \<le> lv_requests lv | None \<Rightarrow> False)
      then stop_turn (Ok Max_Turns) s
      else
        (case compact_near wd l ag lv s of
           Inl r \<Rightarrow> Inl r
         | Inr (lv, s) \<Rightarrow> ask_model wd l ag lv s))"

text \<open>The loop, for at most \<open>n\<close> turns: on the right while it still runs.\<close>

fun run_loop :: "'w world \<Rightarrow> agent_libs \<Rightarrow> agent \<Rightarrow> nat \<Rightarrow> loop_vars \<Rightarrow> 'w run_state \<Rightarrow> 'w turn" where
  "run_loop wd l ag 0 lv s = Inr (lv, s)"
| "run_loop wd l ag (Suc n) lv s =
     (case turn_step wd l ag lv s of
        Inl r \<Rightarrow> Inl r
      | Inr (lv, s) \<Rightarrow> run_loop wd l ag n lv s)"

definition fresh_vars :: loop_vars where
  "fresh_vars = \<lparr>lv_requests = 0, lv_malformed = 0, lv_overflowed = False, lv_stuck_at = None\<rparr>"

definition run_turn :: "'w world \<Rightarrow> agent_libs \<Rightarrow> agent \<Rightarrow> nat \<Rightarrow> 'w run_state \<Rightarrow> 'w turn" where
  "run_turn wd l ag n s = run_loop wd l ag n fresh_vars s"

definition compact_on_request :: "'w world \<Rightarrow> agent_libs \<Rightarrow> agent \<Rightarrow> 'w run_state \<Rightarrow> compacting \<times> 'w run_state" where
  "compact_on_request wd l ag s = compact_step wd l ag Manual (agent_overhead l ag) s"

end
