(* ===== verification/Agent_Laws.thy ===== *)
theory Agent_Laws
  imports Agent_Loop
begin

text \<open>
  The loop of \<open>Agent_Loop\<close> against its journal: after every turn the records written rebuild
  exactly the conversation the loop holds, and between turns what was written is always a
  prefix that does; no tool runs that was not announced, allowed and recorded as started
  first; a request is tried five times at most; and a turn limit ends the run.
\<close>

section \<open>What the loop wrote\<close>

fun wrote :: "event \<Rightarrow> journal_record option" where
  "wrote (Wrote r) = Some r"
| "wrote _ = None"

definition written :: "event list \<Rightarrow> journal_record list" where
  "written es = List.map_filter wrote es"

lemma written_simps [simp]:
  "written [] = []"
  "written (es @ es') = written es @ written es'"
  "written (e # es) = (case wrote e of Some r \<Rightarrow> r # written es | None \<Rightarrow> written es)"
  by (simp_all add: written_def map_filter_simps map_filter_def split: option.split)

abbreviation start_replay :: replay where
  "start_replay \<equiv> (nothing_restored, None)"

text \<open>The records rebuild the messages, and leave no call open.\<close>

definition in_step :: "journal_record list \<Rightarrow> message list \<Rightarrow> bool" where
  "in_step rs ms \<longleftrightarrow>
     records_ok start_replay rs \<and> resolved (replay_from start_replay rs) \<and>
     rs_messages (restore_records rs) = ms"

text \<open>The records end with a response whose calls are being answered; so far by \<open>bs\<close>.\<close>

definition pending :: "journal_record list \<Rightarrow> message list \<Rightarrow> call list \<Rightarrow> block list \<Rightarrow> bool" where
  "pending rs ms calls bs \<longleftrightarrow>
     records_ok start_replay rs \<and> distinct (map fst calls) \<and>
     (\<exists>out oc. replay_from start_replay rs = (out, Some oc) \<and> oc_calls oc = calls \<and>
        rs_messages out = ms \<and>
        (\<forall>b \<in> set bs. \<exists>i c e. b = ToolResult i c e \<and> oc_results oc i = Some (c, e)))"

lemma in_step_answered: "in_step rs ms \<Longrightarrow> answered ms"
  using every_prefix_is_answered [of rs "length rs"] by (auto simp: in_step_def)

lemma in_step_message:
  assumes "in_step rs ms" and "result_ids bs = []" and "r = User \<or> calls_of bs = []"
  shows "in_step (rs @ [RMessage r bs]) (ms @ [Message r bs])"
  using assms by (auto simp: in_step_def restore_records_def resolved_def closed_def Let_def)

lemma in_step_prune: "in_step rs ms \<Longrightarrow> in_step (rs @ [RPruned p]) (apply_prune p ms)"
  by (auto simp: in_step_def restore_records_def resolved_def closed_def Let_def)

lemma in_step_summary:
  "in_step rs ms \<Longrightarrow> may_cut ms (length ms - keep) \<Longrightarrow>
    in_step (rs @ [RCompacted t keep]) (apply_summary ms t keep)"
  by (auto simp: in_step_def restore_records_def resolved_def closed_def Let_def)

lemma in_step_session: "in_step [] [] \<and> in_step [RSession i d] []"
  by (simp add: in_step_def restore_records_def closed_def nothing_restored_def resolved_def)

lemma pending_start:
  assumes "in_step rs ms" and "result_ids bs = []" and "distinct (map fst (calls_of bs))" and "calls_of bs \<noteq> []"
  shows "pending (rs @ [RMessage Assistant bs]) (ms @ [Message Assistant bs]) (calls_of bs) []"
  using assms by (auto simp: in_step_def pending_def restore_records_def Let_def)

fun is_note :: "journal_record \<Rightarrow> bool" where
  "is_note (RToolAsked i) = True"
| "is_note (RToolStarted i) = True"
| "is_note _ = False"

lemma pending_note: "pending rs ms calls bs \<Longrightarrow> is_note r \<Longrightarrow> pending (rs @ [r]) ms calls bs"
  by (cases r) (auto simp: pending_def with_open_def)

lemma pending_notes: "list_all is_note ns \<Longrightarrow> pending rs ms calls bs \<Longrightarrow> pending (rs @ ns) ms calls bs"
proof (induction ns arbitrary: rs)
  case (Cons n ns)
  then have "pending ((rs @ [n]) @ ns) ms calls bs" by (intro Cons.IH pending_note) auto
  then show ?case by simp
qed simp

lemma pending_result:
  assumes "pending rs ms calls bs" and "i \<notin> set (result_ids bs)"
  shows "pending (rs @ [RToolResult i c e]) ms calls (bs @ [ToolResult i c e])"
proof -
  from assms(1) obtain out oc where st: "replay_from start_replay rs = (out, Some oc)" "oc_calls oc = calls"
    "rs_messages out = ms" and bs: "\<forall>b \<in> set bs. \<exists>i c e. b = ToolResult i c e \<and> oc_results oc i = Some (c, e)"
    by (auto simp: pending_def)
  have "\<exists>i' c' e'. b = ToolResult i' c' e' \<and> ((oc_results oc)(i \<mapsto> (c, e))) i' = Some (c', e')"
    if b: "b \<in> set (bs @ [ToolResult i c e])" for b
  proof (cases "b \<in> set bs")
    case True
    with bs obtain i' c' e' where b': "b = ToolResult i' c' e'" "oc_results oc i' = Some (c', e')" by blast
    have "i' \<in> set (result_ids bs)" using True b'(1) by (induction bs) (auto split: option.splits)
    with assms(2) b' show ?thesis by auto
  qed (use b in auto)
  then show ?thesis using assms(1) st by (auto simp: pending_def with_open_def)
qed

lemma pending_done:
  assumes p: "pending rs ms calls bs" and ids: "result_ids bs = map fst calls"
  shows "in_step rs (ms @ [Message User bs])"
proof -
  from p obtain out oc where st: "replay_from start_replay rs = (out, Some oc)" "oc_calls oc = calls"
    "rs_messages out = ms" and bs: "\<forall>b \<in> set bs. \<exists>i c e. b = ToolResult i c e \<and> oc_results oc i = Some (c, e)"
    by (auto simp: pending_def)
  have d: "distinct (map fst calls)" using p by (simp add: pending_def)
  have all: "map (answer_for oc) cs = bs' \<and> list_all (\<lambda>c. oc_results oc (fst c) \<noteq> None) cs"
    if "result_ids bs' = map fst cs" "\<forall>b \<in> set bs'. \<exists>i c e. b = ToolResult i c e \<and> oc_results oc i = Some (c, e)" for cs bs'
    using that
  proof (induction bs' arbitrary: cs)
    case (Cons b bs')
    then obtain i c e where b: "b = ToolResult i c e" "oc_results oc i = Some (c, e)" by auto
    with Cons.prems(1) obtain x cs' where cs: "cs = x # cs'" "fst x = i" "result_ids bs' = map fst cs'" by (cases cs) auto
    with Cons b show ?case by (cases x) (auto simp: answer_for_def)
  qed simp
  with ids bs have "map (answer_for oc) calls = bs" "list_all (\<lambda>c. oc_results oc (fst c) \<noteq> None) calls" by blast+
  with st d p show ?thesis
    by (simp add: in_step_def pending_def restore_records_def closed_def resolved_def close_calls_distinct)
qed

section \<open>What each step writes\<close>

definition quiet :: "event list \<Rightarrow> bool" where
  "quiet es \<longleftrightarrow> list_all (\<lambda>e. case e of Ran _ _ _ \<Rightarrow> False | _ \<Rightarrow> True) es"

lemma quiet_simps [simp]:
  "quiet []" "quiet (es @ es') \<longleftrightarrow> quiet es \<and> quiet es'"
  "quiet (e # es) \<longleftrightarrow> (case e of Ran _ _ _ \<Rightarrow> False | _ \<Rightarrow> True) \<and> quiet es"
  by (auto simp: quiet_def)

text \<open>A step that leaves the conversation alone and adds the events \<open>es\<close>.\<close>

definition adds :: "event list \<Rightarrow> 'w run_state \<Rightarrow> 'w run_state \<Rightarrow> bool" where
  "adds es s s' \<longleftrightarrow> st_log s' = st_log s @ es \<and> st_conv s' = st_conv s"

lemma adds_refl [simp]: "adds [] s s"
  by (simp add: adds_def)

lemma adds_trans: "adds es s s' \<Longrightarrow> adds es' s' s'' \<Longrightarrow> adds (es @ es') s s''"
  by (simp add: adds_def)

definition noted :: "agent \<Rightarrow> journal_record \<Rightarrow> event list" where
  "noted ag r = (if ag_journal ag then [Wrote r] else [])"

lemma noted_simps [simp]:
  "ag_journal ag \<Longrightarrow> written (noted ag r) = [r]" "quiet (noted ag r)"
  by (simp_all add: noted_def)

lemma record_step_adds: "adds (noted ag r) s (record_step ag r s)"
  by (simp add: adds_def record_step_def log_event_def noted_def)

lemma push_effect:
  "st_log (push ag r bs s) = st_log s @ noted ag (RMessage r bs)"
  "cv_messages (st_conv (push ag r bs s)) = cv_messages (st_conv s) @ [Message r bs]"
  using record_step_adds [of ag "RMessage r bs" s] by (simp_all add: push_def Let_def adds_def)

text \<open>Announcing, asking and starting write notes only; a tool's run is the last event.\<close>

definition only_notes :: "event list \<Rightarrow> bool" where
  "only_notes es \<longleftrightarrow> list_all is_note (written es)"

lemma only_notes_simps [simp]:
  "only_notes []" "only_notes (es @ es') \<longleftrightarrow> only_notes es \<and> only_notes es'"
  "only_notes (noted ag (RToolAsked i))" "only_notes (noted ag (RToolStarted i))"
  "only_notes [Asked i n v p]" "only_notes [Ran i n v]"
  by (simp_all add: only_notes_def noted_def)

definition preface :: "agent \<Rightarrow> string \<Rightarrow> string \<Rightarrow> json \<Rightarrow> event list" where
  "preface ag i n v = noted ag (RToolAsked i) @ [Asked i n v Allow] @ noted ag (RToolStarted i)"

lemma run_call_effect:
  assumes "run_call wd ag (i, n, v) cancelled s = (r, s')"
  shows "\<exists>es. adds es s s' \<and> only_notes es \<and>
    (quiet es \<or> es = [Asked i n v Allow] @ noted ag (RToolStarted i) @ [Ran i n v])"
proof (cases cancelled)
  case True
  with assms show ?thesis by (intro exI [of _ "[]"]) (simp add: run_call_def)
next
  case False
  obtain p w where p: "w_permit wd (st_world s) i n v = (p, w)" by (cases "w_permit wd (st_world s) i n v")
  show ?thesis
  proof (cases p)
    case Allow
    with False assms p show ?thesis
      by (intro exI [of _ "[Asked i n v Allow] @ noted ag (RToolStarted i) @ [Ran i n v]"])
        (auto simp: run_call_def Let_def adds_def log_event_def record_step_def noted_def only_notes_def
          split: prod.splits option.splits)
  qed (use False assms p in \<open>auto intro!: exI [of _ "[Asked i n v p]"]
      simp: run_call_def Let_def adds_def log_event_def\<close>)
qed

lemma finish_call_effect:
  assumes "finish_call ag i out s = (b, s')"
  shows "adds (noted ag (RToolResult i (ou_content out) (ou_is_error out))) s s' \<and>
    b = ToolResult i (ou_content out) (ou_is_error out)"
  using assms record_step_adds [of ag "RToolResult i (ou_content out) (ou_is_error out)" s]
  by (auto simp: finish_call_def Let_def adds_def)

lemma decide_spawns_effect:
  "decide_spawns wd ag cs cancelled s = ((ds, cancelled'), s') \<Longrightarrow>
    \<exists>es. adds es s s' \<and> only_notes es \<and> quiet es \<and> length ds = length cs"
proof (induction cs arbitrary: cancelled s ds cancelled' s')
  case (Cons c cs)
  obtain i n v where c: "c = (i, n, v)" by (cases c)
  let ?mid = "if cancelled then ((Some (output_error TURN_CANCELLED), cancelled), announce ag i s)
     else (let (p, w) = w_permit wd (st_world (announce ag i s)) i n v;
               s = log_event (Asked i n v p) ((announce ag i s)\<lparr>st_world := w\<rparr>) in
           case p of Allow \<Rightarrow> ((None, cancelled), record_step ag (RToolStarted i) s)
           | Deny why \<Rightarrow> ((Some (output_error why), cancelled), s)
           | Permit_Cancelled \<Rightarrow> ((Some (output_error TURN_CANCELLED), True), s))"
  obtain refused c1 s1 where mid: "?mid = ((refused, c1), s1)" by (cases ?mid) auto
  obtain ds' where rest: "decide_spawns wd ag cs c1 s1 = ((ds', cancelled'), s')" and ds: "ds = (i, v, refused) # ds'"
    using Cons.prems mid unfolding c decide_spawns.simps Let_def by (auto split: prod.splits)
  have a: "adds (noted ag (RToolAsked i)) s (announce ag i s)"
    unfolding announce_def by (rule record_step_adds)
  have "\<exists>es. adds es (announce ag i s) s1 \<and> only_notes es \<and> quiet es"
  proof (cases cancelled)
    case True
    with mid show ?thesis by (intro exI [of _ "[]"]) simp
  next
    case False
    obtain p w where p: "w_permit wd (st_world (announce ag i s)) i n v = (p, w)" by fastforce
    show ?thesis
    proof (cases p)
      case Allow
      with mid False p show ?thesis
        by (intro exI [of _ "[Asked i n v p] @ noted ag (RToolStarted i)"])
          (auto simp: Let_def adds_def log_event_def record_step_def noted_def only_notes_def)
    qed (use mid False p in \<open>auto intro!: exI [of _ "[Asked i n v p]"] simp: Let_def adds_def log_event_def\<close>)
  qed
  then obtain e1 where e1: "adds e1 (announce ag i s) s1" "only_notes e1" "quiet e1" by blast
  from Cons.IH [OF rest] obtain e2 where e2: "adds e2 s1 s'" "only_notes e2" "quiet e2" "length ds' = length cs" by blast
  from adds_trans [OF adds_trans [OF a e1(1)] e2(1)] e1 e2 ds show ?case
    by (intro exI [of _ "(noted ag (RToolAsked i) @ e1) @ e2"]) simp
qed (auto intro: exI [of _ "[]"])


lemma run_children_length: "length (fst (run_children wd l ag sp sys key ds w)) = length ds"
proof (induction ds arbitrary: w)
  case (Cons d ds)
  obtain i v r where "d = (i, v, r)" by (cases d)
  with Cons show ?case by (simp add: Let_def split_beta)
qed simp

lemma spawn_group_effect:
  assumes "spawn_group wd l ag sp cs cancelled s = ((outs, cancelled'), s')"
  shows "\<exists>es. adds es s s' \<and> only_notes es \<and> quiet es \<and> length outs = length cs"
proof -
  obtain ds c1 s1 where d: "decide_spawns wd ag cs cancelled s = ((ds, c1), s1)"
    by (cases "decide_spawns wd ag cs cancelled s") auto
  obtain os w where r: "run_children wd l ag sp (cv_system (st_conv s1)) (cv_cache_key (st_conv s1)) ds (st_world s1) = (os, w)"
    by fastforce
  have "length os = length ds" using run_children_length [of wd l ag sp "cv_system (st_conv s1)" "cv_cache_key (st_conv s1)" ds "st_world s1"] r by simp
  with decide_spawns_effect [OF d] assms d r show ?thesis by (auto simp: spawn_group_def Let_def adds_def)
qed

lemma finish_calls_effect:
  "finish_calls ag ios s = (bs, s') \<Longrightarrow>
    adds (concat (map (\<lambda>(i, out). noted ag (RToolResult i (ou_content out) (ou_is_error out))) ios)) s s' \<and>
    bs = map (\<lambda>(i, out). ToolResult i (ou_content out) (ou_is_error out)) ios"
proof (induction ios arbitrary: s bs)
  case (Cons x ios)
  obtain i out where x: "x = (i, out)" by (cases x)
  obtain b s1 bs' where f: "finish_call ag i out s = (b, s1)" and g: "finish_calls ag ios s1 = (bs', s')" and bs: "bs = b # bs'"
    using Cons.prems x by (auto split: prod.splits)
  from finish_call_effect [OF f] Cons.IH [OF g] bs x show ?case by (auto simp: adds_def)
qed simp

lemma pending_results:
  "pending rs ms calls bs \<Longrightarrow> distinct (result_ids bs @ map fst ios) \<Longrightarrow>
    pending (rs @ map (\<lambda>(i, out). RToolResult i (ou_content out) (ou_is_error out)) ios) ms calls
      (bs @ map (\<lambda>(i, out). ToolResult i (ou_content out) (ou_is_error out)) ios)"
proof (induction ios arbitrary: rs bs)
  case (Cons x ios)
  obtain i out where x: "x = (i, out)" by (cases x)
  have "pending (rs @ [RToolResult i (ou_content out) (ou_is_error out)]) ms calls
      (bs @ [ToolResult i (ou_content out) (ou_is_error out)])"
    using Cons.prems x by (intro pending_result) auto
  from Cons.IH [OF this] Cons.prems(2) x show ?case by simp
qed simp

lemma written_noted_results:
  "ag_journal ag \<Longrightarrow> written (concat (map (\<lambda>(i, out). noted ag (RToolResult i (ou_content out) (ou_is_error out))) ios)) =
    map (\<lambda>(i, out). RToolResult i (ou_content out) (ou_is_error out)) ios"
  by (induction ios) auto

lemma adds_written: "adds es s s' \<Longrightarrow> written (st_log s') = written (st_log s) @ written es \<and> st_conv s' = st_conv s"
  by (simp add: adds_def)

section \<open>The calls of a response are all answered\<close>

text \<open>Taking calls off the front: notes, at most one tool run, and their results.\<close>

definition result_notes :: "agent \<Rightarrow> (string \<times> tool_output) list \<Rightarrow> event list" where
  "result_notes ag ios = concat (map (\<lambda>(i, out). noted ag (RToolResult i (ou_content out) (ou_is_error out))) ios)"

definition result_blocks :: "(string \<times> tool_output) list \<Rightarrow> block list" where
  "result_blocks ios = map (\<lambda>(i, out). ToolResult i (ou_content out) (ou_is_error out)) ios"

definition one_run :: "agent \<Rightarrow> event list \<Rightarrow> bool" where
  "one_run ag es \<longleftrightarrow> quiet es \<or> (\<exists>i n v. es = preface ag i n v @ [Ran i n v])"

lemma result_ids_blocks [simp]: "result_ids (result_blocks ios) = map fst ios"
  unfolding result_blocks_def by (induction ios) auto

lemma quiet_result_notes [simp]: "quiet (result_notes ag ios)"
  unfolding result_notes_def by (induction ios) auto

lemma run_calls_step:
  assumes "ag_finish ag = None"
  shows "\<exists>k c1 s1 es ios. 0 < k \<and>
    run_calls wd l ag (c # cs) cancelled results s = run_calls wd l ag (drop k (c # cs)) c1 (results @ result_blocks ios) s1 \<and>
    map fst ios = map fst (take k (c # cs)) \<and> adds (es @ result_notes ag ios) s s1 \<and> only_notes es \<and> one_run ag es"
proof -
  obtain i name input where c: "c = (i, name, input)" by (cases c)
  show ?thesis
  proof (cases "name = SPAWN \<and> ag_spawner ag \<noteq> None")
    case True
    let ?same = "takeWhile (\<lambda>(_, n, _). n = SPAWN) (c # cs)"
    have k: "take (length ?same) (c # cs) = ?same"
      "drop (length ?same) (c # cs) = dropWhile (\<lambda>(_, n, _). n = SPAWN) cs"
      using True c by (simp_all add: takeWhile_eq_take [symmetric] dropWhile_eq_drop [symmetric])
    obtain outs c1 s1 where g: "spawn_group wd l ag (the (ag_spawner ag)) ?same cancelled s = ((outs, c1), s1)"
      by (cases "spawn_group wd l ag (the (ag_spawner ag)) ?same cancelled s") auto
    let ?ios = "zip (map fst ?same) outs"
    obtain bs s2 where f: "finish_calls ag ?ios s1 = (bs, s2)" by fastforce
    from spawn_group_effect [OF g] obtain es where es: "adds es s s1" "only_notes es" "quiet es" "length outs = length ?same" by blast
    from finish_calls_effect [OF f] have fe: "adds (result_notes ag ?ios) s1 s2" "bs = result_blocks ?ios"
      by (auto simp: result_notes_def result_blocks_def)
    have "run_calls wd l ag (c # cs) cancelled results s =
        run_calls wd l ag (drop (length ?same) (c # cs)) c1 (results @ bs) s2"
      using True assms g f unfolding k(2) by (simp add: c run_calls.simps(2) Let_def)
    moreover have "0 < length ?same" using True c by simp
    moreover have "map fst ?ios = map fst (take (length ?same) (c # cs))" using es(4) unfolding k(1) by simp
    ultimately show ?thesis
      using fe adds_trans [OF es(1) fe(1)] es(2,3) unfolding one_run_def by blast
  next
    case False
    obtain out c1 s1 where r: "run_call wd ag (i, name, input) cancelled (announce ag i s) = ((out, c1), s1)"
      by (cases "run_call wd ag (i, name, input) cancelled (announce ag i s)") auto
    obtain b s2 where f: "finish_call ag i out s1 = (b, s2)" by fastforce
    from run_call_effect [OF r] obtain es where es: "adds es (announce ag i s) s1" "only_notes es"
      "quiet es \<or> es = [Asked i name input Allow] @ noted ag (RToolStarted i) @ [Ran i name input]" by blast
    have a: "adds (noted ag (RToolAsked i)) s (announce ag i s)" unfolding announce_def by (rule record_step_adds)
    from finish_call_effect [OF f] have fe: "adds (result_notes ag [(i, out)]) s1 s2" "[b] = result_blocks [(i, out)]"
      by (auto simp: result_notes_def result_blocks_def)
    have "one_run ag (noted ag (RToolAsked i) @ es)" using es(3) by (auto simp: one_run_def preface_def)
    moreover have "only_notes (noted ag (RToolAsked i) @ es)" using es(2) by simp
    moreover have "run_calls wd l ag (c # cs) cancelled results s =
        run_calls wd l ag (drop 1 (c # cs)) c1 (results @ result_blocks [(i, out)]) s2"
    proof -
      have nf: "\<not> (name = FINISH \<and> ag_finish ag \<noteq> None)" using assms by simp
      show ?thesis
        unfolding c run_calls.simps(2) if_not_P [OF nf] if_not_P [OF False] Let_def
        using r f fe(2) by simp
    qed
    moreover have "map fst [(i, out)] = map fst (take 1 (c # cs))" by (simp add: c)
    ultimately show ?thesis
      using adds_trans [OF adds_trans [OF a es(1)] fe(1)] by (metis zero_less_one)
  qed
qed

lemma pending_step:
  assumes "pending rs ms calls bs" and "only_notes es" and "ag_journal ag"
    and "distinct (result_ids bs @ map fst ios)"
  shows "pending (rs @ written (es @ result_notes ag ios)) ms calls (bs @ result_blocks ios)"
proof -
  have "pending (rs @ written es) ms calls bs" using assms(1,2) by (simp add: only_notes_def pending_notes)
  from pending_results [OF this assms(4)] written_noted_results [OF assms(3), of ios]
  show ?thesis by (simp add: result_notes_def result_blocks_def)
qed

lemma run_calls_pending:
  assumes "ag_journal ag" and fin: "ag_finish ag = None"
    and "pending (written (st_log s)) ms calls results"
    and "result_ids results @ map fst cs = map fst calls"
  shows "\<exists>results' cancelled' s'. run_calls wd l ag cs cancelled results s = Inr ((results', cancelled'), s') \<and>
    pending (written (st_log s')) ms calls results' \<and> result_ids results' = map fst calls \<and> st_conv s' = st_conv s"
  using assms(3,4)
proof (induction cs arbitrary: cancelled results s rule: length_induct)
  case (1 cs)
  show ?case
  proof (cases cs)
    case Nil
    with 1 show ?thesis by simp
  next
    case (Cons c cs')
    from run_calls_step [OF fin, of wd l c cs' cancelled results s]
    obtain k c1 s1 es ios where k: "0 < k"
      and r: "run_calls wd l ag cs cancelled results s = run_calls wd l ag (drop k cs) c1 (results @ result_blocks ios) s1"
      and ids: "map fst ios = map fst (take k cs)" and ad: "adds (es @ result_notes ag ios) s s1" and es: "only_notes es"
      unfolding Cons by blast
    have all: "(result_ids results @ map fst ios) @ map fst (drop k cs) = map fst calls"
      using 1(3) ids by (metis append.assoc append_take_drop_id map_append)
    have "distinct (map fst calls)" using 1(2) by (simp add: pending_def)
    then have "distinct (result_ids results @ map fst ios)" using all by (metis distinct_append)
    from pending_step [OF 1(2) es assms(1) this] adds_written [OF ad]
    have p: "pending (written (st_log s1)) ms calls (results @ result_blocks ios)" by simp
    have n: "length (drop k cs) < length cs" using k Cons by simp
    have "result_ids (results @ result_blocks ios) @ map fst (drop k cs) = map fst calls" using all by simp
    from 1(1) [rule_format, OF n p this, of c1] r ad show ?thesis by (simp add: adds_def)
  qed
qed

section \<open>No tool runs unasked\<close>

definition guarded :: "agent \<Rightarrow> event list \<Rightarrow> bool" where
  "guarded ag es \<longleftrightarrow>
     (\<forall>before i n v after. es = before @ Ran i n v # after \<longrightarrow> (\<exists>first. before = first @ preface ag i n v))"

lemma guarded_Nil [simp]: "guarded ag []"
  by (simp add: guarded_def)

lemma guarded_quiet:
  assumes "guarded ag es" and "quiet qs"
  shows "guarded ag (es @ qs)"
  unfolding guarded_def
proof (intro allI impI)
  fix before i n v after
  assume eq: "es @ qs = before @ Ran i n v # after"
  then obtain us where "es = before @ us \<and> us @ qs = Ran i n v # after \<or> es @ us = before \<and> qs = us @ Ran i n v # after"
    by (auto simp: append_eq_append_conv2)
  then show "\<exists>first. before = first @ preface ag i n v"
  proof
    assume "es = before @ us \<and> us @ qs = Ran i n v # after"
    then show ?thesis using assms by (cases us) (auto simp: guarded_def)
  qed (use assms(2) in auto)
qed

lemma quiet_preface: "quiet (preface ag i n v)"
  by (simp add: preface_def)

lemma guarded_one_run:
  assumes "guarded ag es" and "one_run ag rs"
  shows "guarded ag (es @ rs)"
proof (cases "quiet rs")
  case False
  with assms(2) obtain i n v where rs: "rs = preface ag i n v @ [Ran i n v]" by (auto simp: one_run_def)
  show ?thesis
    unfolding guarded_def
  proof (intro allI impI)
    fix before i' n' v' after
    assume eq: "es @ rs = before @ Ran i' n' v' # after"
    have g: "guarded ag (es @ preface ag i n v)" by (rule guarded_quiet [OF assms(1) quiet_preface])
    show "\<exists>first. before = first @ preface ag i' n' v'"
    proof (cases after rule: rev_cases)
      case Nil
      with eq rs show ?thesis by auto
    next
      case (snoc xs x)
      with eq rs have "es @ preface ag i n v = before @ Ran i' n' v' # xs" by (metis append_Cons append_assoc butlast_snoc)
      with g show ?thesis by (auto simp: guarded_def)
    qed
  qed
qed (use assms guarded_quiet in blast)

lemma run_calls_guarded:
  assumes fin: "ag_finish ag = None" and "guarded ag (st_log s)"
    and "run_calls wd l ag cs cancelled results s = Inr (r, s')"
  shows "guarded ag (st_log s')"
  using assms(2,3)
proof (induction cs arbitrary: cancelled results s rule: length_induct)
  case (1 cs)
  show ?case
  proof (cases cs)
    case Nil
    with 1 show ?thesis by simp
  next
    case (Cons c cs')
    from run_calls_step [OF fin, of wd l c cs' cancelled results s]
    obtain k c1 s1 es ios where k: "0 < k"
      and r: "run_calls wd l ag cs cancelled results s = run_calls wd l ag (drop k cs) c1 (results @ result_blocks ios) s1"
      and ad: "adds (es @ result_notes ag ios) s s1" and es: "one_run ag es"
      unfolding Cons by blast
    have "guarded ag ((st_log s @ es) @ result_notes ag ios)"
      by (intro guarded_quiet guarded_one_run 1(2) es) simp
    then have g: "guarded ag (st_log s1)" using ad by (simp add: adds_def)
    have n: "length (drop k cs) < length cs" using k Cons by simp
    from 1(1) [rule_format, OF n g] 1(3) r show ?thesis by simp
  qed
qed

section \<open>The loop keeps its journal in step\<close>

text \<open>
  What the loop relies on of the model's client: a response holds no results of its own
  making, and the ids of its calls differ.
\<close>

definition completion_ok :: "completion \<Rightarrow> bool" where
  "completion_ok c \<longleftrightarrow> result_ids (co_blocks c) = [] \<and> distinct (map fst (calls_of (co_blocks c)))"

definition world_ok :: "'w world \<Rightarrow> bool" where
  "world_ok wd \<longleftrightarrow> (\<forall>w conv specs mt c w'. w_complete wd w conv specs mt = (Answered c, w') \<longrightarrow> completion_ok c)"

lemma request_completion_ok:
  "world_ok wd \<Longrightarrow> request_from wd conv specs mt sh attempt w = (Got c, w') \<Longrightarrow> completion_ok c"
proof (induction wd conv specs mt sh attempt w rule: request_from.induct)
  case (1 wd conv specs mt sh attempt w)
  obtain a w1 where a: "w_complete wd w conv specs mt = (a, w1)" by fastforce
  show ?case
  proof (cases a)
    case (Answered c')
    with 1(3) a have "c' = c" by (simp add: request_from.simps [of wd conv specs mt sh attempt w])
    with Answered a 1(2) show ?thesis unfolding world_ok_def by blast
  next
    case (Broke error streamed)
    let ?shown = "if sh then streamed else []"
    show ?thesis
    proof (cases "retry_wait attempt error ?shown")
      case None
      with 1(3) a Broke show ?thesis by (simp add: request_from.simps [of wd conv specs mt sh attempt w] Let_def)
    next
      case (Some wait)
      obtain cn w2 where sl: "w_sleep wd w1 wait = (cn, w2)" by fastforce
      show ?thesis
      proof (cases cn)
        case True
        with 1(3) a Broke Some sl show ?thesis by (simp add: request_from.simps [of wd conv specs mt sh attempt w] Let_def)
      next
        case False
        with 1(3) a Broke Some sl have "request_from wd conv specs mt sh (attempt + 1) w2 = (Got c, w')"
          by (simp add: request_from.simps [of wd conv specs mt sh attempt w] Let_def)
        with 1(1) [OF refl a [symmetric] Broke refl Some refl sl [symmetric] False] 1(2) show ?thesis by blast
      qed
    qed
  next
    case Aborted
    with 1(3) a show ?thesis by (simp add: request_from.simps [of wd conv specs mt sh attempt w])
  qed
qed

text \<open>The state of a journaled session's loop between steps.\<close>

definition live :: "agent \<Rightarrow> 'w run_state \<Rightarrow> bool" where
  "live ag s \<longleftrightarrow> in_step (written (st_log s)) (cv_messages (st_conv s)) \<and> guarded ag (st_log s)"

lemma live_cong:
  "live ag s \<Longrightarrow> st_log s' = st_log s \<Longrightarrow> cv_messages (st_conv s') = cv_messages (st_conv s) \<Longrightarrow> live ag s'"
  by (simp add: live_def)

lemma live_push:
  assumes "live ag s" and "ag_journal ag" and "result_ids bs = []" and "r = User \<or> calls_of bs = []"
  shows "live ag (push ag r bs s)"
  using assms in_step_message [of _ _ bs r] by (simp add: live_def push_effect guarded_quiet)

lemma remeasure_messages [simp]: "cv_messages (remeasure l conv overhead) = cv_messages conv"
  by (simp add: remeasure_def)

lemma measure_messages [simp]: "cv_messages (measure_request conv a b c) = cv_messages conv"
  by (simp add: measure_request_def Let_def)

lemma live_prune:
  assumes "live ag s" and "ag_journal ag"
  shows "live ag (snd (compact_prune l ag overhead s))"
  using assms in_step_prune
  by (auto simp: live_def compact_prune_def Let_def prune_def record_step_def log_event_def guarded_quiet)

lemma live_summary:
  assumes "live ag s" and "ag_journal ag" and "may_cut (cv_messages (st_conv s)) up_to"
  shows "live ag ((record_step ag (RCompacted t (length (cv_messages (st_conv s)) - up_to)) s)
    \<lparr>st_conv := summarise l (st_conv s) t (length (cv_messages (st_conv s)) - up_to) overhead\<rparr>)"
proof -
  have "up_to \<le> length (cv_messages (st_conv s))" using assms(3) by (auto simp: may_cut_def)
  with assms in_step_summary show ?thesis
    by (simp add: live_def summarise_def record_step_def log_event_def guarded_quiet)
qed

lemma compact_cut_may_cut: "compact_cut l ag tr overhead conv = Some c \<Longrightarrow> may_cut (cv_messages conv) c"
  by (auto simp: compact_cut_def Let_def dest: cut_spec(2) split: trigger.splits if_splits)

lemma record_step_conv [simp]: "st_conv (record_step ag r s) = st_conv s" "st_world (record_step ag r s) = st_world s"
  by (simp_all add: record_step_def log_event_def)

lemma live_compact:
  assumes "live ag s" and j: "ag_journal ag"
  shows "live ag (snd (compact_step wd l ag tr overhead s))"
proof -
  obtain pruned s1 where p: "compact_prune l ag overhead s = (pruned, s1)" by fastforce
  have s1: "live ag s1" using live_prune [OF assms, of l overhead] p by simp
  show ?thesis
  proof (cases "compact_cut l ag tr overhead (st_conv s1)")
    case None
    with p s1 show ?thesis by (simp add: compact_step_def)
  next
    case (Some up_to)
    obtain a w where a: "request wd (summary_request l (st_conv s1) up_to (summary_budget ag)) []
        (Some SUMMARY_MAX_TOKENS) False (st_world s1) = (a, w)" by fastforce
    define s2 where "s2 = s1\<lparr>st_world := w\<rparr>"
    have s2: "live ag s2" by (rule live_cong [OF s1]) (simp_all add: s2_def)
    show ?thesis
    proof (cases a)
      case (Got c)
      let ?text = "text_of (co_blocks c)" and ?keep = "length (cv_messages (st_conv s1)) - up_to"
      let ?m = "summary_message l (st_conv s1) up_to ?text"
      define s3 where "s3 = (if trim ?text \<noteq> [] then (record_step ag (RCompacted ?m ?keep) s2)
          \<lparr>st_conv := summarise l (st_conv s2) ?m ?keep overhead\<rparr> else s2)"
      have "may_cut (cv_messages (st_conv s2)) up_to" using compact_cut_may_cut [OF Some] by (simp add: s2_def)
      from live_summary [OF s2 j this, where t = ?m and l = l and overhead = overhead] s2 have s3: "live ag s3" by (simp add: s3_def s2_def)
      have "st_log (snd (compact_step wd l ag tr overhead s)) = st_log s3 \<and>
          st_conv (snd (compact_step wd l ag tr overhead s)) = st_conv s3"
        using p Some a Got by (simp add: compact_step_def Let_def s3_def s2_def split: option.split)
      then show ?thesis by (intro live_cong [OF s3]) simp_all
    qed (use p Some a s2 in \<open>simp_all add: compact_step_def Let_def s2_def\<close>)
  qed
qed

lemma live_answer_unrun:
  assumes "pending (written (st_log s)) (cv_messages (st_conv s)) calls []" and "guarded ag (st_log s)"
    and "ag_journal ag" and "map fst its = map fst calls"
  shows "live ag (answer_unrun ag its s)"
proof -
  let ?ios = "map (\<lambda>(i, t). (i, output_error t)) its"
  have "adds (result_notes ag ?ios) s (record_results ag its s)" for s :: "'a run_state"
  proof (induction its arbitrary: s)
    case (Cons x its)
    obtain i t where x: "x = (i, t)" by (cases x)
    from adds_trans [OF record_step_adds Cons.IH] x show ?case by (simp add: result_notes_def)
  qed (simp add: result_notes_def)
  then have ad: "adds (result_notes ag ?ios) s (record_results ag its s)" .
  have ids: "map fst ?ios = map fst calls" using assms(4) by (auto simp: comp_def split_beta)
  have "distinct (map fst calls)" using assms(1) by (simp add: pending_def)
  with pending_step [OF assms(1) _ assms(3), of "[]" ?ios] ids
  have "pending (written (st_log s) @ written (result_notes ag ?ios)) (cv_messages (st_conv s)) calls (result_blocks ?ios)"
    by simp
  from pending_done [OF this] ids
  have "in_step (written (st_log s) @ written (result_notes ag ?ios)) (cv_messages (st_conv s) @ [Message User (result_blocks ?ios)])"
    by simp
  moreover have "result_blocks ?ios = map (\<lambda>(i, t). ToolResult i t True) its"
    by (auto simp: result_blocks_def)
  ultimately show ?thesis
    using ad assms(2) by (simp add: live_def answer_unrun_def push_results_def adds_def guarded_quiet)
qed

text \<open>Where a turn leaves the state, ended or not.\<close>

definition after_turn :: "'w turn \<Rightarrow> 'w run_state" where
  "after_turn t = (case t of Inl (_, s) \<Rightarrow> s | Inr (_, s) \<Rightarrow> s)"

lemma after_turn_simps [simp]:
  "after_turn (stop_turn r s) = s" "after_turn (Inr (lv, s)) = s" "after_turn (Inl (r, s)) = s"
  by (simp_all add: after_turn_def stop_turn_def)

definition journaled :: "agent \<Rightarrow> bool" where
  "journaled ag \<longleftrightarrow> ag_journal ag \<and> ag_finish ag = None"

lemma live_nudge:
  assumes "live ag s" and "journaled ag"
  shows "live ag (after_turn (nudge ag problem lv s))"
  using assms live_push [OF assms(1), of "[Text (HARNESS @ '' '' @ problem @ ''.'')]" User]
  by (auto simp: nudge_def Let_def journaled_def split: option.split)

lemma live_handle_calls:
  assumes p: "pending (written (st_log s)) (cv_messages (st_conv s)) calls []" and g: "guarded ag (st_log s)"
    and j: "journaled ag"
  shows "live ag (after_turn (handle_calls wd l ag calls fr lv s))"
proof -
  have jn: "ag_journal ag" and fin: "ag_finish ag = None" using j by (simp_all add: journaled_def)
  let ?problems = "map (\<lambda>(_, name, input). call_problem ag name input fr) calls"
  let ?texts = "map (\<lambda>((i, _, _), p). (i, case p of Some t \<Rightarrow> t | None \<Rightarrow> ANOTHER_MALFORMED)) (zip calls ?problems)"
  show ?thesis
  proof (cases "List.map_filter id ?problems")
    case (Cons first rest)
    have "map fst (map (\<lambda>((i, _, _), p). (i, case p of Some t \<Rightarrow> t | None \<Rightarrow> ANOTHER_MALFORMED)) (zip cs (map f cs))) = map fst cs"
      for cs :: "call list" and f
      by (induction cs) (auto split: prod.split)
    from this [of calls] have "map fst ?texts = map fst calls" .
    from live_answer_unrun [OF p g jn this] Cons show ?thesis
      by (simp add: handle_calls_def Let_def split: option.split)
  next
    case Nil
    from run_calls_pending [OF jn fin p, of calls wd l False]
    obtain results cancelled s1 where r: "run_calls wd l ag calls False [] s = Inr ((results, cancelled), s1)"
      and p1: "pending (written (st_log s1)) (cv_messages (st_conv s)) calls results"
      and ids: "result_ids results = map fst calls" and c: "st_conv s1 = st_conv s" by auto
    have "live ag (push_results results s1)"
      using pending_done [OF p1 ids] run_calls_guarded [OF fin g r] c by (simp add: live_def push_results_def)
    with Nil r show ?thesis by (simp add: handle_calls_def Let_def)
  qed
qed

lemma live_take_response:
  assumes s: "live ag s" and j: "journaled ag" and c: "completion_ok c"
  shows "live ag (after_turn (take_response wd l ag c sent lv s))"
proof -
  have jn: "ag_journal ag" using j by (simp add: journaled_def)
  let ?calls = "calls_of (co_blocks c)"
  define s1 where "s1 = (case co_usage c of Some u \<Rightarrow> s\<lparr>st_totals := add_usage (st_totals s) u\<rparr> | None \<Rightarrow> s)"
  define s2 where "s2 = (if co_blocks c = [] then s1 else push ag Assistant (co_blocks c) s1)"
  define s3 where "s3 = (case co_usage c of
      Some u \<Rightarrow> s2\<lparr>st_conv := measure_request (st_conv s2) sent (ug_input u) (ug_output u)\<rparr> | None \<Rightarrow> s2)"
  have s1: "live ag s1" by (rule live_cong [OF s]) (simp_all add: s1_def split: option.split)
  have m: "st_log s3 = st_log s2" "cv_messages (st_conv s3) = cv_messages (st_conv s2)"
    by (simp_all add: s3_def split: option.split)
  have g: "guarded ag (st_log s3)"
    using s1 unfolding m by (simp add: s2_def live_def push_effect guarded_quiet)
  have none: "live ag s3" if "?calls = []"
  proof -
    have "live ag s2" using that s1 c jn by (simp add: s2_def completion_ok_def live_push)
    then show ?thesis by (rule live_cong) (simp_all add: m)
  qed
  have some: "pending (written (st_log s3)) (cv_messages (st_conv s3)) ?calls []" if "?calls \<noteq> []"
  proof -
    have "co_blocks c \<noteq> []" using that by auto
    then show ?thesis
      using pending_start [of _ _ "co_blocks c"] s1 that c jn unfolding m
      by (simp add: s2_def push_effect live_def completion_ok_def)
  qed
  have t: "take_response wd l ag c sent lv s =
     (case find (contains_str (text_of (co_blocks c))) FABRICATED of
        Some marker \<Rightarrow>
          stop_turn (Ok (Stopped (fabricated_reason marker)))
            (close_unrun ag ?calls ''not run: the turn was stopped'' s3)
      | None \<Rightarrow>
          if ?calls = [] then
            (if contains_str (text_of (co_blocks c)) UNPARSED_CALL then
               nudge ag (''a tool call was written into the text, where it is not a call; nothing ran. ''
                 @ ''Call the tool through the tools interface'') lv s3
             else if ag_finish ag \<noteq> None then
               nudge ag ''the task ends only by calling `finish` with the result'' lv s3
             else stop_turn (Ok (Finished (text_of (co_blocks c)))) s3)
          else handle_calls wd l ag ?calls (co_finish_reason c) lv s3)"
    unfolding take_response_def Let_def s1_def [symmetric] s2_def [symmetric] s3_def [symmetric] ..
  show ?thesis
  proof (cases "?calls = []")
    case True
    with none live_nudge [OF none j] j show ?thesis
      unfolding t by (simp add: close_unrun_def journaled_def split: option.split)
  next
    case False
    have "map fst (map (\<lambda>c. (fst c, ''not run: the turn was stopped'')) ?calls) = map fst ?calls" by simp
    from live_answer_unrun [OF some [OF False] g jn this] live_handle_calls [OF some [OF False] g j] False
    show ?thesis unfolding t by (simp add: close_unrun_def split: option.split)
  qed
qed

lemma live_ask_model:
  assumes s: "live ag s" and j: "journaled ag" and w: "world_ok wd"
  shows "live ag (after_turn (ask_model wd l ag lv s))"
proof -
  have jn: "ag_journal ag" using j by (simp add: journaled_def)
  let ?o = "agent_overhead l ag"
  define lv1 where "lv1 = lv\<lparr>lv_requests := lv_requests lv + 1\<rparr>"
  define s1 where "s1 = s\<lparr>st_totals := (st_totals s)\<lparr>to_turns := to_turns (st_totals s) + 1\<rparr>\<rparr>"
  obtain r w' where r: "request wd (st_conv s1) (agent_specs ag) None True (st_world s1) = (r, w')" by fastforce
  define s2 where "s2 = s1\<lparr>st_world := w'\<rparr>"
  have s2: "live ag s2" by (rule live_cong [OF s]) (simp_all add: s2_def s1_def)
  have t: "ask_model wd l ag lv s =
     (case r of
        Request_Cancelled \<Rightarrow> stop_turn (Ok Turn_Cancelled) s2
      | Gave_Up (ContextOverflow message) _ \<Rightarrow>
          if lv_overflowed lv1 then stop_turn (Ok (Overflowed message)) s2
          else
            (let (c, s) = compact_step wd l ag Overflow ?o s2 in
             case c of
               Compacting_Done \<Rightarrow> Inr (lv1\<lparr>lv_overflowed := True\<rparr>, s)
             | Compacting_Cancelled \<Rightarrow> stop_turn (Ok Turn_Cancelled) s
             | Compacting_Nothing \<Rightarrow> stop_turn (Ok (Overflowed message)) s)
      | Gave_Up error shown \<Rightarrow>
          stop_turn (Err error) (if trim shown = [] then s2 else push ag Assistant [Text shown] s2)
      | Got c \<Rightarrow> take_response wd l ag c (request_bytes l (st_conv s1) ?o) (lv1\<lparr>lv_overflowed := False\<rparr>) s2)"
    unfolding ask_model_def Let_def lv1_def [symmetric] s1_def [symmetric] r prod.case s2_def [symmetric] ..
  show ?thesis
  proof (cases r)
    case (Got c)
    with live_take_response [OF s2 j request_completion_ok [OF w r [unfolded Got]]] show ?thesis by (simp add: t)
  next
    case Request_Cancelled
    with s2 show ?thesis by (simp add: t)
  next
    case (Gave_Up e shown)
    obtain c s3 where c: "compact_step wd l ag Overflow ?o s2 = (c, s3)" by fastforce
    have s3: "live ag s3" using live_compact [OF s2 jn, of wd l Overflow ?o] c by simp
    have "live ag (push ag Assistant [Text shown] s2)" by (rule live_push [OF s2 jn]) simp_all
    with Gave_Up s2 s3 c show ?thesis
      by (auto simp: t split: wire_error.split compacting.split)
  qed
qed

lemma live_turn_step:
  assumes s: "live ag s" and j: "journaled ag" and w: "world_ok wd"
  shows "live ag (after_turn (turn_step wd l ag lv s))"
proof -
  have near: "live ag (after_turn (compact_near wd l ag lv s))"
    using s live_compact [OF s, of wd l Threshold "agent_overhead l ag"] j
    by (auto simp: compact_near_def Let_def journaled_def split: option.split prod.split)
  show ?thesis
  proof (cases "compact_near wd l ag lv s")
    case (Inl x)
    with near s show ?thesis by (auto simp: turn_step_def)
  next
    case (Inr x)
    obtain lv1 s1 where x: "x = (lv1, s1)" by (cases x)
    with Inr near have "live ag s1" by simp
    with live_ask_model [OF this j w] s Inr x show ?thesis by (auto simp: turn_step_def)
  qed
qed

lemma live_run_loop:
  assumes "journaled ag" and "world_ok wd"
  shows "live ag s \<Longrightarrow> live ag (after_turn (run_loop wd l ag n lv s))"
proof (induction n arbitrary: lv s)
  case (Suc n)
  from live_turn_step [OF Suc.prems assms, of l lv]
  show ?case
    using Suc.IH by (cases "turn_step wd l ag lv s") (auto split: prod.split)
qed simp

section \<open>A turn limit ends the run\<close>

lemma nudge_requests: "nudge ag p lv s = Inr (lv', s') \<Longrightarrow> lv_requests lv' = lv_requests lv"
  by (auto simp: nudge_def Let_def stop_turn_def split: option.splits)

lemma handle_calls_requests: "handle_calls wd l ag cs fr lv s = Inr (lv', s') \<Longrightarrow> lv_requests lv' = lv_requests lv"
  by (auto simp: handle_calls_def Let_def stop_turn_def split: list.splits option.splits sum.splits prod.splits if_splits)

lemma take_response_requests:
  "take_response wd l ag c sent lv s = Inr (lv', s') \<Longrightarrow> lv_requests lv' = lv_requests lv"
  by (auto simp: take_response_def Let_def stop_turn_def split: option.splits if_splits
      dest: nudge_requests handle_calls_requests)

lemma ask_model_requests:
  assumes "ask_model wd l ag lv s = Inr (lv', s')"
  shows "lv_requests lv' = lv_requests lv + 1"
  using assms
  by (auto simp: ask_model_def Let_def stop_turn_def dest!: take_response_requests
      split: prod.splits request_result.splits wire_error.splits compacting.splits if_splits)

lemma compact_near_requests: "compact_near wd l ag lv s = Inr (lv', s') \<Longrightarrow> lv_requests lv' = lv_requests lv"
  by (auto simp: compact_near_def Let_def stop_turn_def split: option.splits prod.splits if_splits)

lemma turn_step_requests:
  assumes "turn_step wd l ag lv s = Inr (lv', s')"
  shows "lv_requests lv' = lv_requests lv + 1"
    and "ag_max_turns ag = Some m \<Longrightarrow> lv_requests lv < m"
proof -
  from assms obtain lv1 s1 where "compact_near wd l ag lv s = Inr (lv1, s1)" "ask_model wd l ag lv1 s1 = Inr (lv', s')"
    by (auto simp: turn_step_def stop_turn_def split: if_splits sum.splits prod.splits)
  then show "lv_requests lv' = lv_requests lv + 1" using compact_near_requests ask_model_requests by fastforce
  show "ag_max_turns ag = Some m \<Longrightarrow> lv_requests lv < m"
    using assms by (auto simp: turn_step_def stop_turn_def split: if_splits)
qed

lemma run_loop_ends:
  assumes m: "ag_max_turns ag = Some m"
  shows "lv_requests lv \<le> m \<Longrightarrow> m < lv_requests lv + n \<Longrightarrow> \<exists>r. run_loop wd l ag n lv s = Inl r"
proof (induction n arbitrary: lv s)
  case 0
  then show ?case by simp
next
  case (Suc n)
  show ?case
  proof (cases "turn_step wd l ag lv s")
    case (Inr x)
    obtain lv1 s1 where x: "x = (lv1, s1)" by (cases x)
    with Inr turn_step_requests [of wd l ag lv s lv1 s1] Suc.prems m
    have "lv_requests lv1 \<le> m" "m < lv_requests lv1 + n" by simp_all
    with Suc.IH Inr x show ?thesis by simp
  qed simp
qed

text \<open>
  C24: a run that is limited to \<open>m\<close> model requests ends, whatever the model answers and the tools
  return: after at most \<open>m + 1\<close> turns of the loop it has an outcome. A subagent always has such
  a limit.
\<close>

theorem turn_limit_ends_the_run:
  assumes "ag_max_turns ag = Some m"
  shows "\<exists>outcome s'. run_turn wd l ag (m + 1) s = Inl (outcome, s')"
  using run_loop_ends [OF assms, of fresh_vars "m + 1" wd l s] by (auto simp: run_turn_def fresh_vars_def)

section \<open>How often a request is made\<close>

text \<open>The same world with its attempts counted.\<close>

definition counted :: "'w world \<Rightarrow> ('w \<times> nat) world" where
  "counted wd =
     \<lparr>w_complete = (\<lambda>(w, n) conv specs mt. let (a, w) = w_complete wd w conv specs mt in (a, (w, n + 1))),
      w_sleep = (\<lambda>(w, n) t. let (c, w) = w_sleep wd w t in (c, (w, n))),
      w_permit = (\<lambda>(w, n) i name v. let (p, w) = w_permit wd w i name v in (p, (w, n))),
      w_run = (\<lambda>(w, n) name v. let (out, w) = w_run wd w name v in (out, (w, n))),
      w_child = (\<lambda>(w, n) c. let (r, w) = w_child wd w c in (r, (w, n))),
      w_cancelled = (\<lambda>(w, n). w_cancelled wd w)\<rparr>"

lemma counted_simps [simp]:
  "w_complete (counted wd) (w, n) conv specs mt = (let (a, w) = w_complete wd w conv specs mt in (a, (w, n + 1)))"
  "w_sleep (counted wd) (w, n) t = (let (c, w) = w_sleep wd w t in (c, (w, n)))"
  by (simp_all add: counted_def)

text \<open>An error another attempt could fix, with no answer shown and no long wait asked for.\<close>

definition worth_retrying :: "wire_error \<Rightarrow> string \<Rightarrow> bool" where
  "worth_retrying e shown \<longleftrightarrow> retryable e \<and> trim shown = [] \<and>
     (case retry_after e of Some t \<Rightarrow> t \<le> MAX_RETRY_AFTER | None \<Rightarrow> True)"

lemma retry_wait_None: "retry_wait attempt e shown = None \<longleftrightarrow> \<not> (worth_retrying e shown \<and> attempt < length BACKOFF)"
  by (auto simp: retry_wait_def worth_retrying_def Let_def split: option.splits)

lemma request_count:
  "request_from (counted wd) conv specs mt sh attempt (w, n) = (r, (w', n')) \<Longrightarrow> attempt \<le> length BACKOFF \<Longrightarrow>
    n < n' \<and> n' + attempt \<le> n + length BACKOFF + 1 \<and>
    (case r of Gave_Up e shown \<Rightarrow> worth_retrying e shown \<longrightarrow> n' + attempt = n + length BACKOFF + 1 | _ \<Rightarrow> True)"
proof (induction k \<equiv> "length BACKOFF - attempt" arbitrary: attempt w n)
  case 0
  then have "\<not> attempt < length BACKOFF" by simp
  with 0(2,3) show ?case
    by (subst (asm) request_from.simps)
      (auto simp: Let_def retry_wait_def split: prod.splits attempt.splits option.splits)
next
  case (Suc k)
  obtain a w1 where a: "w_complete wd w conv specs mt = (a, w1)" by fastforce
  note r = Suc.prems(1) [unfolded request_from.simps [of _ _ _ _ _ attempt]]
  show ?case
  proof (cases a)
    case (Broke e streamed)
    let ?shown = "if sh then streamed else []"
    show ?thesis
    proof (cases "retry_wait attempt e ?shown")
      case None
      then have "\<not> worth_retrying e ?shown" using Suc.hyps(2) by (auto simp: retry_wait_None)
      with None r a Broke Suc.prems(2) show ?thesis by (auto simp: Let_def)
    next
      case (Some wait)
      obtain cn w2 where sl: "w_sleep wd w1 wait = (cn, w2)" by fastforce
      show ?thesis
      proof (cases cn)
        case False
        with r a Broke Some sl
        have "request_from (counted wd) conv specs mt sh (attempt + 1) (w2, n + 1) = (r, (w', n'))"
          by (simp add: Let_def)
        moreover have "k = length BACKOFF - (attempt + 1)" "attempt + 1 \<le> length BACKOFF"
          using Suc.hyps(2) by linarith+
        ultimately show ?thesis using Suc.hyps(1) by (fastforce split: request_result.splits)
      qed (use r a Broke Some sl Suc.prems(2) in \<open>auto simp: Let_def\<close>)
    qed
  qed (use r a Suc.prems(2) in \<open>auto simp: Let_def\<close>)
qed

text \<open>
  C39: one request to the model is made at least once and at most five times, and given up
  before the fifth only over an error that another attempt could not fix, an answer already
  shown, or an upstream that asked for more than a minute.
\<close>

theorem request_tries_five_times_at_most:
  assumes "request (counted wd) conv specs mt show (w, 0) = (r, (w', n))"
  shows "1 \<le> n \<and> n \<le> 5 \<and>
    (\<forall>e shown. r = Gave_Up e shown \<and> worth_retrying e shown \<longrightarrow> n = 5)"
  using request_count [OF assms] by (auto simp: BACKOFF_def)

section \<open>A sample run\<close>

text \<open>A model that calls the shell once and then answers; a number says how far it is.\<close>

definition sample_world :: "nat world" where
  "sample_world =
     \<lparr>w_complete = (\<lambda>w conv specs mt.
        (Answered \<lparr>co_blocks = (if w = 0 then [ToolUse ''a'' ''shell'' (JObj [])] else [Text ''done'']),
                   co_finish_reason = Some ''stop'', co_usage = None\<rparr>, w + 1)),
      w_sleep = (\<lambda>w t. (False, w)),
      w_permit = (\<lambda>w i n v. (Allow, w)),
      w_run = (\<lambda>w n v. (Some (output_ok ''ls''), w)),
      w_child = (\<lambda>w c. ((Ok Turn_Cancelled, no_totals), w)),
      w_cancelled = (\<lambda>w. False)\<rparr>"

definition sample_agent :: agent where
  "sample_agent = \<lparr>ag_journal = True, ag_max_turns = Some 1, ag_window = None, ag_spawner = None,
     ag_finish = None, ag_tools = [''shell''], ag_tool_specs = []\<rparr>"

definition sample_start :: "nat run_state" where
  "sample_start = \<lparr>st_conv = new_conversation [], st_totals = no_totals, st_log = [], st_world = 0\<rparr>"

text \<open>The limit of one request ends this run after its call was answered.\<close>

theorem turn_limit_ends_the_run_witness:
  "\<exists>s'. run_turn sample_world sample_agent_libs sample_agent 2 sample_start = Inl (Ok Max_Turns, s')"
proof -
  have "ag_max_turns sample_agent = Some 1" by (simp add: sample_agent_def)
  from turn_limit_ends_the_run [OF this, of sample_world sample_agent_libs sample_start]
  obtain r s' where "run_turn sample_world sample_agent_libs sample_agent 2 sample_start = Inl (r, s')"
    by (auto simp: numeral_2_eq_2)
  moreover have "(case run_turn sample_world sample_agent_libs sample_agent 2 sample_start of
      Inl (r, _) \<Rightarrow> r = Ok Max_Turns | Inr _ \<Rightarrow> False)" by code_simp
  ultimately show ?thesis by simp
qed

text \<open>An upstream that is always busy is asked five times.\<close>

definition busy_world :: "nat world" where
  "busy_world = sample_world\<lparr>w_complete := (\<lambda>w conv specs mt. (Broke (Http 503 [] None) [], w + 1))\<rparr>"

theorem request_tries_five_times_at_most_witness:
  "\<exists>w'. request (counted busy_world) (new_conversation []) [] None True (0, 0) =
     (Gave_Up (Http 503 [] None) [], (w', 5))"
proof -
  obtain r w' n where r: "request (counted busy_world) (new_conversation []) [] None True (0, 0) = (r, (w', n))"
    by (metis prod.exhaust)
  have "fst (request (counted busy_world) (new_conversation []) [] None True (0, 0)) = Gave_Up (Http 503 [] None) []"
    by code_simp
  with r have g: "r = Gave_Up (Http 503 [] None) []" by simp
  have "worth_retrying (Http 503 [] None) []" by code_simp
  with request_tries_five_times_at_most [OF r] g have "n = 5" by blast
  with r g show ?thesis by simp
qed

end
