(* ===== verification/Agent_Session.thy ===== *)
theory Agent_Session
  imports Agent_Laws
begin

text \<open>
  The session of \<^verbatim>\<open>src/agent/src/server.rs\<close> over the loop and its journal: opened or loaded,
  prompted, compacted on request, its process killed at any record it writes and started
  again. Writing a record is taken to succeed and to be whole; \<open>Journal\<close> has what a torn line
  does.
\<close>

section \<open>Operations\<close>

definition open_session :: "agent \<Rightarrow> string \<Rightarrow> string \<Rightarrow> string \<Rightarrow> 'w \<Rightarrow> 'w run_state" where
  "open_session ag i cwd system w =
     record_step ag (RSession i cwd)
       \<lparr>st_conv = (new_conversation system)\<lparr>cv_cache_key := Some i\<rparr>, st_totals = no_totals,
        st_log = [], st_world = w\<rparr>"

text \<open>
  A new process on the records an earlier one left: the conversation is what they rebuild,
  and the results decided for the interrupted calls are written.
\<close>

definition load_session :: "string \<Rightarrow> string \<Rightarrow> journal_record list \<Rightarrow> 'w \<Rightarrow> 'w run_state" where
  "load_session i system rs w =
     (let out = restore_records rs in
      \<lparr>st_conv = (new_conversation system)\<lparr>cv_messages := rs_messages out, cv_cache_key := Some i\<rparr>,
       st_totals = no_totals, st_log = map Wrote (rs @ reopen_records out), st_world = w\<rparr>)"

definition prompt_session :: "'w world \<Rightarrow> agent_libs \<Rightarrow> agent \<Rightarrow> nat \<Rightarrow> string list \<Rightarrow> 'w run_state \<Rightarrow> 'w turn" where
  "prompt_session wd l ag n texts s =
     run_turn wd l ag n (push ag User [Text (join_with [LF] texts)] s)"

definition compact_session :: "'w world \<Rightarrow> agent_libs \<Rightarrow> agent \<Rightarrow> 'w run_state \<Rightarrow> compacting \<times> 'w run_state" where
  "compact_session wd l ag s = compact_on_request wd l ag s"

text \<open>
  The sessions that are between turns, and the journals that dead processes leave. Time passes
  between turns, so each starts in any state of the world; a process can die before it has
  written anything, in a prompt or a compaction after any of their records, and while it
  writes the results of a load.
\<close>

inductive session :: "'w world \<Rightarrow> agent_libs \<Rightarrow> agent \<Rightarrow> 'w run_state \<Rightarrow> bool"
  and left_behind :: "'w world \<Rightarrow> agent_libs \<Rightarrow> agent \<Rightarrow> journal_record list \<Rightarrow> bool"
  for wd l ag where
  opened: "session wd l ag (open_session ag i cwd system w)"
| loaded: "left_behind wd l ag rs \<Longrightarrow> session wd l ag (load_session i system rs w)"
| prompted: "session wd l ag s \<Longrightarrow>
    prompt_session wd l ag n texts (s\<lparr>st_world := w\<rparr>) = Inl (outcome, s') \<Longrightarrow> session wd l ag s'"
| compacted: "session wd l ag s \<Longrightarrow> compact_session wd l ag (s\<lparr>st_world := w\<rparr>) = (c, s') \<Longrightarrow> session wd l ag s'"
| died_opening: "left_behind wd l ag []"
| died_prompting: "session wd l ag s \<Longrightarrow> length (written (st_log s)) \<le> k \<Longrightarrow>
    left_behind wd l ag (take k (written (st_log
      (after_turn (prompt_session wd l ag n texts (s\<lparr>st_world := w\<rparr>))))))"
| died_compacting: "session wd l ag s \<Longrightarrow> length (written (st_log s)) \<le> k \<Longrightarrow>
    left_behind wd l ag (take k (written (st_log (snd (compact_session wd l ag (s\<lparr>st_world := w\<rparr>))))))"
| died_loading: "left_behind wd l ag rs \<Longrightarrow>
    left_behind wd l ag (rs @ take k (reopen_records (restore_records rs)))"

section \<open>Every death is survived\<close>

lemma live_open: "ag_journal ag \<Longrightarrow> live ag (open_session ag i cwd system w)"
  using in_step_session guarded_quiet [of ag "[]" "[Wrote (RSession i cwd)]"]
  by (simp add: open_session_def live_def record_step_def log_event_def new_conversation_def)

lemma written_map_Wrote [simp]: "written (map Wrote rs) = rs"
  by (induction rs) auto

lemma live_load:
  assumes "records_ok start_replay rs"
  shows "live ag (load_session i system rs w)"
proof -
  let ?st = "replay_from start_replay rs"
  have inv: "replay_inv ?st" by (rule replay_inv_from [OF replay_inv_start assms])
  note r = reopen_settles [OF inv]
  have "quiet (map Wrote (rs @ reopen_records (restore_records rs)))" by (induction "rs @ reopen_records (restore_records rs)") (auto simp: quiet_def list_all_iff)
  then have "guarded ag (map Wrote (rs @ reopen_records (restore_records rs)))"
    using guarded_quiet [of ag "[]"] by simp
  with r assms show ?thesis
    by (simp add: live_def load_session_def Let_def in_step_def restore_records_def)
qed

lemma live_world: "live ag s \<Longrightarrow> live ag (s\<lparr>st_world := w\<rparr>)"
  by (simp add: live_def)

lemma live_prompt:
  assumes "live ag s" and "journaled ag" and "world_ok wd"
  shows "live ag (after_turn (prompt_session wd l ag n texts s))"
  unfolding prompt_session_def run_turn_def
  using assms by (intro live_run_loop live_push) (simp_all add: journaled_def)

lemma session_live:
  assumes j: "journaled ag" and ok: "world_ok wd"
  shows "session wd l ag s \<Longrightarrow> live ag s"
    and "left_behind wd l ag rs \<Longrightarrow> records_ok start_replay rs"
proof (induction rule: session_left_behind.inducts)
  case (opened i cwd system w)
  then show ?case using j by (simp add: journaled_def live_open)
next
  case (loaded rs i system w)
  then show ?case by (simp add: live_load)
next
  case (prompted s n texts w outcome s')
  from live_prompt [OF live_world [OF prompted(2), of w] j ok, of l n texts] prompted show ?case by simp
next
  case (compacted s w c s')
  with live_compact [OF live_world [OF compacted(2)]] j show ?case
    by (metis compact_on_request_def compact_session_def journaled_def snd_conv)
next
  case (died_prompting s k n texts w)
  from live_prompt [OF live_world [OF died_prompting(2), of w] j ok, of l n texts] show ?case
    by (simp add: live_def in_step_def records_ok_take)
next
  case (died_compacting s k w)
  from live_compact [OF live_world [OF died_compacting(2), of w], where wd = wd and l = l and tr = Manual and overhead = "agent_overhead l ag"] j show ?case
    by (simp add: live_def in_step_def records_ok_take compact_session_def compact_on_request_def journaled_def)
next
  case (died_loading rs k)
  have "replay_inv (replay_from start_replay rs)" by (rule replay_inv_from [OF replay_inv_start died_loading(2)])
  from reopen_settles(3) [OF this] died_loading(2) show ?case by (simp add: restore_records_def records_ok_take)
qed simp

text \<open>
  C9: a session's journal always rebuilds the session, for an agent that keeps a journal and a model
  whose answers hold no results and give the calls of one answer different ids. Between turns the
  journal rebuilds exactly the conversation in memory, with every call answered and nothing in doubt.
  And whatever journal a killed process leaves, at any record, again and again, the conversation rebuilt
  from it has every call answered by the message after it; the calls it reports are exactly the calls of
  the last answer that have no result on record, in their order, each as in doubt if its start is on
  record and as never run otherwise; and if there are any, the rebuilt conversation ends with the results:
  the recorded one for each call that has one, and what is reported of each that has none.
\<close>

theorem session_survives_death:
  assumes "journaled ag" and "world_ok wd"
  shows "(session wd l ag s \<longrightarrow>
      rs_messages (restore_records (written (st_log s))) = cv_messages (st_conv s) \<and>
      rs_interrupted (restore_records (written (st_log s))) = [] \<and> answered (cv_messages (st_conv s))) \<and>
    (left_behind wd l ag rs \<longrightarrow>
      answered (rs_messages (restore_records rs)) \<and>
      rs_interrupted (restore_records rs) = calls_in_doubt rs \<and>
      (\<forall>c \<in> set (calls_in_doubt rs).
         in_content c = (if RToolStarted (in_id c) \<in> since_message rs then OUTCOME_UNKNOWN else NOT_RUN)) \<and>
      (calls_in_doubt rs \<noteq> [] \<longrightarrow> (\<exists>ms. rs_messages (restore_records rs) = ms @ [Message User (due_answers rs)])))"
proof (intro conjI impI)
  assume "session wd l ag s"
  then have i: "in_step (written (st_log s)) (cv_messages (st_conv s))"
    using session_live(1) [OF assms] by (simp add: live_def)
  then show "rs_messages (restore_records (written (st_log s))) = cv_messages (st_conv s)" by (simp add: in_step_def)
  from i show "answered (cv_messages (st_conv s))" by (rule in_step_answered)
  have "replay_inv (replay_from start_replay (written (st_log s)))"
    using i by (intro replay_inv_from replay_inv_start) (simp add: in_step_def)
  with i replay_inv_resolved show "rs_interrupted (restore_records (written (st_log s))) = []"
    by (simp add: in_step_def restore_records_def)
next
  assume "left_behind wd l ag rs"
  then have r: "records_ok start_replay rs" by (rule session_live(2) [OF assms])
  from every_prefix_is_answered [OF r, of "length rs"] show "answered (rs_messages (restore_records rs))" by simp
  show "rs_interrupted (restore_records rs) = calls_in_doubt rs" by (rule restore_reports_the_records(1) [OF r])
  show "\<forall>c \<in> set (calls_in_doubt rs).
      in_content c = (if RToolStarted (in_id c) \<in> since_message rs then OUTCOME_UNKNOWN else NOT_RUN)"
    by (auto simp: calls_in_doubt_def fate_def)
  assume "calls_in_doubt rs \<noteq> []"
  then show "\<exists>ms. rs_messages (restore_records rs) = ms @ [Message User (due_answers rs)]"
    by (rule restore_reports_the_records(2) [OF r])
qed

text \<open>
  C10: a tool of a session runs only right after the call was put on record, the node allowed
  that very call and its start was put on record, in this order and with nothing between. It holds for an
  agent that keeps a journal and a model whose answers hold no results and give the calls of one answer
  different ids; spawn calls and the tools subagents run, which keep no journal, are outside it.
\<close>

theorem tools_run_only_when_allowed:
  assumes "journaled ag" and "world_ok wd" and "session wd l ag s"
    and "st_log (after_turn (prompt_session wd l ag n texts s)) = before @ Ran i name input # after"
  shows "\<exists>first. before = first @ [Wrote (RToolAsked i), Asked i name input Allow, Wrote (RToolStarted i)]"
proof -
  have "guarded ag (st_log (after_turn (prompt_session wd l ag n texts s)))"
    using live_prompt [OF session_live(1) [OF assms(1-3)] assms(1,2)] by (simp add: live_def)
  with assms(4) obtain first where "before = first @ preface ag i name input" unfolding guarded_def by blast
  then show ?thesis using assms(1) by (simp add: preface_def noted_def journaled_def)
qed

text \<open>
  The sample model calls the shell in a session; its process is killed while the call runs,
  after the third record of the prompt.
\<close>

definition sample_session :: "nat run_state" where
  "sample_session = open_session sample_agent ''s1'' ''/w'' ''be brief'' 0"

definition sample_prompted :: "nat turn" where
  "sample_prompted = prompt_session sample_world sample_agent_libs sample_agent 2 [''go''] sample_session"

definition sample_left :: "journal_record list" where
  "sample_left = take 5 (written (st_log (after_turn sample_prompted)))"

lemma sample_journaled: "journaled sample_agent"
  by (simp add: journaled_def sample_agent_def)

lemma sample_world_ok: "world_ok sample_world"
  by (auto simp: world_ok_def sample_world_def completion_ok_def)

lemma sample_session_session: "session sample_world sample_agent_libs sample_agent sample_session"
  unfolding sample_session_def by (rule session_left_behind.opened)

theorem session_survives_death_witness:
  "left_behind sample_world sample_agent_libs sample_agent sample_left \<and>
   map fst (last_calls sample_left) = [''a''] \<and>
   map in_content (rs_interrupted (restore_records sample_left)) = [OUTCOME_UNKNOWN] \<and>
   answered (rs_messages (restore_records sample_left)) \<and>
   (\<exists>ms. rs_messages (restore_records sample_left) = ms @ [Message User (due_answers sample_left)])"
proof -
  have "sample_session\<lparr>st_world := 0\<rparr> = sample_session"
    by (simp add: sample_session_def open_session_def record_step_def log_event_def)
  moreover have "length (written (st_log sample_session)) \<le> 5" by code_simp
  ultimately have l: "left_behind sample_world sample_agent_libs sample_agent sample_left"
    using session_left_behind.died_prompting [OF sample_session_session, of 5 2 "[''go'']" 0]
    by (simp add: sample_left_def sample_prompted_def)
  have i: "map in_content (calls_in_doubt sample_left) = [OUTCOME_UNKNOWN]" by code_simp
  have c: "map fst (last_calls sample_left) = [''a'']" by code_simp
  from session_survives_death [OF sample_journaled sample_world_ok, of sample_agent_libs sample_session sample_left] l i c
  show ?thesis by auto
qed

theorem tools_run_only_when_allowed_witness:
  "\<exists>first before after.
     st_log (after_turn sample_prompted) = before @ Ran ''a'' ''shell'' (JObj []) # after \<and>
     before = first @ [Wrote (RToolAsked ''a''), Asked ''a'' ''shell'' (JObj []) Allow, Wrote (RToolStarted ''a'')]"
proof -
  let ?log = "st_log (after_turn sample_prompted)"
  have "6 < length ?log \<and> ?log ! 6 = Ran ''a'' ''shell'' (JObj [])" by code_simp
  then have log: "?log = take 6 ?log @ Ran ''a'' ''shell'' (JObj []) # drop 7 ?log"
    using id_take_nth_drop [of 6 ?log] by simp
  from tools_run_only_when_allowed [OF sample_journaled sample_world_ok sample_session_session
      log [unfolded sample_prompted_def]] log
  show ?thesis unfolding sample_prompted_def by blast
qed

end
