(* ===== verification/Wire.thy ===== *)
theory Wire
  imports Agent_Session Sse
begin

text \<open>
  What the two model clients of \<^verbatim>\<open>src/agent/src/wire\<close> share: the deltas they show, the loop that
  feeds the frames of a stream to an assembler, and the attempt the conversation loop sees.
  The assembler is an argument here; the locale \<open>assembler\<close> says what the loop relies on, and
  \<open>Chat_Wire\<close> and \<open>Responses_Wire\<close> interpret it.
\<close>

section \<open>Reading values\<close>

definition json_u64 :: "json \<Rightarrow> nat option" where
  "json_u64 v = (case v of JInt i \<Rightarrow> if 0 \<le> i \<and> i < 2 ^ 64 then Some (nat i) else None | _ \<Rightarrow> None)"

definition u64_or_0 :: "json \<Rightarrow> nat" where
  "u64_or_0 v = (case json_u64 v of Some n \<Rightarrow> n | None \<Rightarrow> 0)"

definition str_or_empty :: "json \<Rightarrow> string" where
  "str_or_empty v = (case as_str v of Some s \<Rightarrow> s | None \<Rightarrow> [])"

fun first_item :: "json \<Rightarrow> json option" where
  "first_item (JArr (x # _)) = Some x"
| "first_item _ = None"

definition is_object :: "json \<Rightarrow> bool" where
  "is_object v \<longleftrightarrow> as_object v \<noteq> None"

text \<open>\<open>BTreeMap::insert\<close> on entries in the order of their keys.\<close>

fun tree_put :: "nat \<Rightarrow> 'v \<Rightarrow> (nat \<times> 'v) list \<Rightarrow> (nat \<times> 'v) list" where
  "tree_put k v [] = [(k, v)]"
| "tree_put k v ((k', v') # kvs) =
     (if k = k' then (k, v) # kvs
      else if k < k' then (k, v) # (k', v') # kvs
      else (k', v') # tree_put k v kvs)"

lemma map_of_tree_put [simp]: "map_of (tree_put k v kvs) = (map_of kvs)(k \<mapsto> v)"
  by (induction kvs) auto

lemma keys_tree_put [simp]: "fst ` set (tree_put k v kvs) = insert k (fst ` set kvs)"
  unfolding dom_map_of_conv_image_fst [symmetric] by simp

lemma sorted_tree_put: "sorted_wrt (<) (map fst kvs) \<Longrightarrow> sorted_wrt (<) (map fst (tree_put k v kvs))"
proof (induction kvs)
  case (Cons kv kvs)
  obtain k' v' where kv: "kv = (k', v')" by (cases kv)
  have "\<forall>x \<in> set (map fst (tree_put k v kvs)). x = k \<or> x \<in> set (map fst kvs)"
    using keys_tree_put [of k v kvs] by (auto simp: image_iff)
  with Cons kv show ?case by fastforce
qed simp

text \<open>The arguments of a call: an object, or their text when they are not one.\<close>

definition call_input :: "(string \<Rightarrow> json option) \<Rightarrow> string \<Rightarrow> json" where
  "call_input parse arguments =
     (if trim arguments = [] then JObj []
      else (case parse arguments of
              Some v \<Rightarrow> if is_object v then v else JStr arguments
            | None \<Rightarrow> JStr arguments))"

text \<open>The arguments of a call as they are sent again.\<close>

definition arguments_text :: "agent_libs \<Rightarrow> json \<Rightarrow> string" where
  "arguments_text l v = (case v of JStr raw \<Rightarrow> raw | _ \<Rightarrow> al_to_string l v)"

definition shown_result :: "string \<Rightarrow> bool \<Rightarrow> string" where
  "shown_result content e = (if e then ''ERROR: '' @ content else content)"

section \<open>One answer\<close>

datatype delta = Delta_Text string | Delta_Reasoning string | Delta_ToolCall string

record wire_completion = completion +
  co_reasoning :: string
  co_request_id :: "string option"
  co_timings :: "json option"

record sampling =
  sm_temperature :: "f64 option"
  sm_min_p :: "f64 option"
  sm_no_think :: bool
  sm_reasoning_effort :: "string option"

record client =
  cl_model :: string
  cl_sampling :: sampling
  cl_parallel_tools :: bool

definition with_model :: "client \<Rightarrow> string \<Rightarrow> client" where
  "with_model cl model = cl\<lparr>cl_model := model\<rparr>"

definition json_of_f64 :: "f64 \<Rightarrow> json" where
  "json_of_f64 f = (if f div 2 ^ 52 mod 2 ^ 11 = 2047 then JNull else JFloat f)"

text \<open>\<open>HeaderValue::to_str\<close> takes visible characters and tabs.\<close>

definition header_text :: "string \<Rightarrow> string option" where
  "header_text v = (if list_all (\<lambda>c. c = CHR 0x09 \<or> (32 :: nat) \<le> of_char c \<and> of_char c < (127 :: nat)) v then Some v else None)"

definition retry_after_header :: "string option \<Rightarrow> nat option" where
  "retry_after_header h = Option.bind (Option.bind h header_text) (\<lambda>v. parse_u64 (trim v))"

text \<open>
  What comes back over HTTP: nothing, a refusal with its body and its \<open>Retry-After\<close>, or a
  stream of chunks that ends, or breaks with an error.
\<close>

datatype response =
    No_Response string
  | Refused nat string "string option"
  | Streaming "string list" "string option"

type_synonym 'a feed = "'a \<Rightarrow> frame \<Rightarrow> (wire_error, ('a \<times> bool) \<times> delta list) result"

text \<open>The frames of a chunk, until one ends the answer.\<close>

fun read_frames :: "'a feed \<Rightarrow> 'a \<Rightarrow> frame list \<Rightarrow> delta list \<times> (wire_error, 'a \<times> bool) result" where
  "read_frames feed a [] = ([], Ok (a, False))"
| "read_frames feed a (f # fs) =
     (case feed a f of
        Inl e \<Rightarrow> ([], Err e)
      | Inr ((a', stop), ds) \<Rightarrow>
          if stop then (ds, Ok (a', True)) else apfst ((@) ds) (read_frames feed a' fs))"

fun read_chunks :: "'a feed \<Rightarrow> ('a \<Rightarrow> (wire_error, 'c) result) \<Rightarrow> decoder \<Rightarrow> 'a \<Rightarrow> string list \<Rightarrow> string option \<Rightarrow>
    delta list \<times> (wire_error, 'c) result" where
  "read_chunks feed finish d a [] broke =
     ([], case broke of Some e \<Rightarrow> Err (Transport e) | None \<Rightarrow> finish a)"
| "read_chunks feed finish d a (c # cs) broke =
     (let (fs, d') = Sse.push d c; (ds, r) = read_frames feed a fs in
      case r of
        Inl e \<Rightarrow> (ds, Err e)
      | Inr (a', stop) \<Rightarrow>
          if stop then (ds, finish a') else apfst ((@) ds) (read_chunks feed finish d' a' cs broke))"

definition complete_with :: "'a feed \<Rightarrow> ('a \<Rightarrow> (wire_error, 'c) result) \<Rightarrow> 'a \<Rightarrow>
    (nat \<Rightarrow> string \<Rightarrow> nat option \<Rightarrow> wire_error) \<Rightarrow> response \<Rightarrow> delta list \<times> (wire_error, 'c) result" where
  "complete_with feed finish start error_from r =
     (case r of
        No_Response e \<Rightarrow> ([], Err (Transport e))
      | Refused status body header \<Rightarrow> ([], Err (error_from status body (retry_after_header header)))
      | Streaming cs broke \<Rightarrow> read_chunks feed finish new_decoder start cs broke)"

text \<open>What the loop sees of it: the text deltas are what was shown.\<close>

definition shown_text :: "delta list \<Rightarrow> string" where
  "shown_text ds = concat (map (\<lambda>d. case d of Delta_Text t \<Rightarrow> t | _ \<Rightarrow> []) ds)"

definition attempt_of :: "delta list \<times> (wire_error, wire_completion) result \<Rightarrow> attempt" where
  "attempt_of r = (case snd r of Inr c \<Rightarrow> Answered (completion.truncate c) | Inl e \<Rightarrow> Broke e (shown_text (fst r)))"

lemma shown_text_simps [simp]:
  "shown_text [] = []" "shown_text (ds @ ds') = shown_text ds @ shown_text ds'"
  "shown_text (d # ds) = (case d of Delta_Text t \<Rightarrow> t | _ \<Rightarrow> []) @ shown_text ds"
  by (simp_all add: shown_text_def)

section \<open>How a stream is cut does not matter\<close>

lemma read_frames_append:
  "read_frames feed a (fs @ fs') =
     (case read_frames feed a fs of
        (ds, Inl e) \<Rightarrow> (ds, Err e)
      | (ds, Inr (a', stop)) \<Rightarrow> if stop then (ds, Ok (a', True)) else apfst ((@) ds) (read_frames feed a' fs'))"
proof (induction fs arbitrary: a)
  case Nil
  show ?case by (simp add: apfst_def map_prod_def)
next
  case (Cons f fs)
  show ?case
  proof (cases "feed a f")
    case (Inr x)
    obtain a1 stop ds where x: "x = ((a1, stop), ds)" by (metis prod.exhaust)
    obtain ds1 r where r: "read_frames feed a1 fs = (ds1, r)" by fastforce
    show ?thesis
      using Inr x r Cons.IH [of a1]
      by (cases r) (auto simp: apfst_def map_prod_def split: prod.split)
  qed simp
qed

lemma read_chunks_frames:
  assumes "LF \<notin> set (d_buffer d)"
  shows "read_chunks feed finish d a cs broke =
    (case read_frames feed a (fst (push_all d cs)) of
       (ds, Inl e) \<Rightarrow> (ds, Err e)
     | (ds, Inr (a', stop)) \<Rightarrow>
         (ds, if stop then finish a' else (case broke of Some e \<Rightarrow> Err (Transport e) | None \<Rightarrow> finish a')))"
  using assms
proof (induction cs arbitrary: d a)
  case Nil
  then show ?case by (simp add: push_all_def)
next
  case (Cons c cs)
  obtain fs d' where p: "Sse.push d c = (fs, d')" by fastforce
  have "LF \<notin> set (d_buffer d')" using drain_rest [of "d_buffer d @ c" "d_pending d"] p by (simp add: Sse.push_def)
  note IH = Cons.IH [OF this]
  have all: "fst (push_all d (c # cs)) = fs @ fst (push_all d' cs)"
    using p by (simp add: push_all_Cons apfst_def map_prod_def case_prod_unfold)
  obtain ds r where r: "read_frames feed a fs = (ds, r)" by fastforce
  show ?case
  proof (cases r)
    case (Inr x)
    obtain a' stop where x: "x = (a', stop)" by (cases x)
    obtain ds1 r1 where r1: "read_frames feed a' (fst (push_all d' cs)) = (ds1, r1)" by fastforce
    show ?thesis
      unfolding all read_frames_append using p r r1 Inr x IH [of a']
      by (cases r1) (auto simp: apfst_def map_prod_def)
  qed (unfold all read_frames_append, use p r in simp)
qed

lemma cut_streams_read_alike:
  assumes "concat cs = concat cs'"
  shows "complete_with feed finish start error_from (Streaming cs broke) =
    complete_with feed finish start error_from (Streaming cs' broke)"
proof -
  have "LF \<notin> set (d_buffer new_decoder)" by (simp add: new_decoder_def)
  with assms chunking_does_not_matter [of new_decoder] show ?thesis
    by (simp add: complete_with_def read_chunks_frames)
qed

section \<open>What the loop relies on\<close>

text \<open>
  The text an assembler holds is what was shown of it, and an answer holds no results: those
  come from tools alone.
\<close>

locale assembler =
  fixes feed :: "'a feed" and finish :: "'a \<Rightarrow> (wire_error, wire_completion) result"
    and start :: 'a and error_from :: "nat \<Rightarrow> string \<Rightarrow> nat option \<Rightarrow> wire_error"
    and text_in :: "'a \<Rightarrow> string"
  assumes start_text: "text_in start = []"
    and feed_text: "feed a f = Inr ((a', stop), ds) \<Longrightarrow> text_in a' = text_in a @ shown_text ds"
    and no_results: "finish a = Inr c \<Longrightarrow> result_ids (co_blocks c) = []"
begin

lemma read_frames_text:
  "read_frames feed a fs = (ds, Inr (a', stop)) \<Longrightarrow> text_in a' = text_in a @ shown_text ds"
proof (induction fs arbitrary: a ds)
  case (Cons f fs)
  then obtain a1 stop1 ds1 where f: "feed a f = Inr ((a1, stop1), ds1)"
    by (cases "feed a f") (auto split: prod.splits)
  show ?case
  proof (cases stop1)
    case True
    with Cons.prems f feed_text [OF f] show ?thesis by simp
  next
    case False
    obtain ds2 r where r: "read_frames feed a1 fs = (ds2, r)" by fastforce
    with Cons.prems f False have "r = Inr (a', stop)" "ds = ds1 @ ds2" by (simp_all add: apfst_def map_prod_def)
    with Cons.IH [of a1 ds2] r feed_text [OF f] show ?thesis by simp
  qed
qed simp

text \<open>An answer is finished from an assembler whose text is exactly what was shown.\<close>

lemma answer_from:
  assumes "complete_with feed finish start error_from r = (ds, Inr c)"
  shows "\<exists>a. text_in a = shown_text ds \<and> finish a = Inr c"
proof -
  obtain cs broke where r: "r = Streaming cs broke"
    using assms by (cases r) (auto simp: complete_with_def)
  have "LF \<notin> set (d_buffer new_decoder)" by (simp add: new_decoder_def)
  then obtain a stop where "read_frames feed start (fst (push_all new_decoder cs)) = (ds, Inr (a, stop))"
    and "finish a = Inr c"
    using assms r by (auto simp: complete_with_def read_chunks_frames split: prod.splits sum.splits if_splits option.splits)
  with read_frames_text start_text show ?thesis by fastforce
qed

lemma answer_has_no_results:
  assumes "complete_with feed finish start error_from r = (ds, Inr c)"
  shows "result_ids (co_blocks c) = []"
  using answer_from [OF assms] no_results by blast

end

end
