(* ===== verification/Chat_Wire.thy ===== *)
theory Chat_Wire
  imports Wire
begin

text \<open>
  The Chat Completions client, \<^verbatim>\<open>src/agent/src/wire/openai_chat.rs\<close>: the messages a conversation
  becomes, and the completion its stream of chunks becomes.
\<close>

section \<open>The request\<close>

definition chat_call :: "agent_libs \<Rightarrow> call \<Rightarrow> json" where
  "chat_call l = (\<lambda>(i, name, input).
     JObj [(''function'', JObj [(''arguments'', JStr (arguments_text l input)), (''name'', JStr name)]),
           (''id'', JStr i), (''type'', JStr ''function'')])"

fun chat_result :: "block \<Rightarrow> json option" where
  "chat_result (ToolResult i content e) =
     Some (JObj [(''content'', JStr (shown_result content e)), (''role'', JStr ''tool''),
                 (''tool_call_id'', JStr i)])"
| "chat_result _ = None"

fun add_text :: "string \<Rightarrow> block \<Rightarrow> string" where
  "add_text t (Text t') = (if t = [] then t' else t @ [LF] @ t')"
| "add_text t _ = t"

definition chat_text :: "block list \<Rightarrow> string" where
  "chat_text bs = foldl add_text [] bs"

definition chat_message :: "agent_libs \<Rightarrow> message \<Rightarrow> json list" where
  "chat_message l m =
     (let t = chat_text (m_blocks m); calls = map (chat_call l) (calls_of (m_blocks m)) in
      case m_role m of
        Assistant \<Rightarrow>
          [JObj ([(''content'', if t = [] then JNull else JStr t), (''role'', JStr ''assistant'')]
             @ (if calls = [] then [] else [(''tool_calls'', JArr calls)]))]
      | User \<Rightarrow>
          List.map_filter chat_result (m_blocks m)
            @ (if t = [] then [] else [JObj [(''content'', JStr t), (''role'', JStr ''user'')]]))"

definition chat_messages :: "agent_libs \<Rightarrow> conversation \<Rightarrow> json list" where
  "chat_messages l conv =
     JObj [(''content'', JStr (cv_system conv)), (''role'', JStr ''system'')]
       # concat (map (chat_message l) (cv_messages conv))"

definition chat_tool :: "json \<Rightarrow> json" where
  "chat_tool t =
     JObj [(''function'', JObj [(''description'', jindex t ''description''), (''name'', jindex t ''name''),
              (''parameters'', jindex t ''parameters''), (''strict'', JBool False)]),
           (''type'', JStr ''function'')]"

definition put_opt :: "string \<Rightarrow> json option \<Rightarrow> (string \<times> json) list \<Rightarrow> (string \<times> json) list" where
  "put_opt k v kvs = (case v of Some v \<Rightarrow> jput k v kvs | None \<Rightarrow> kvs)"

definition chat_body :: "agent_libs \<Rightarrow> client \<Rightarrow> conversation \<Rightarrow> json list \<Rightarrow> nat option \<Rightarrow> json" where
  "chat_body l cl conv tools max_tokens =
     (let sm = cl_sampling cl;
          o0 = [(''messages'', JArr (chat_messages l conv)), (''model'', JStr (cl_model cl)),
                (''stream'', JBool True), (''stream_options'', JObj [(''include_usage'', JBool True)])];
          o1 = (if tools = [] then o0
                else jput ''parallel_tool_calls'' (JBool (cl_parallel_tools cl))
                  (jput ''tool_choice'' (JStr ''auto'') (jput ''tools'' (JArr (map chat_tool tools)) o0)));
          o2 = put_opt ''max_tokens'' (map_option (\<lambda>n. JInt (int n)) max_tokens) o1;
          o3 = put_opt ''temperature'' (map_option json_of_f64 (sm_temperature sm)) o2;
          o4 = put_opt ''min_p'' (map_option json_of_f64 (sm_min_p sm)) o3 in
      JObj (if sm_no_think sm
            then jput ''chat_template_kwargs'' (JObj [(''enable_thinking'', JBool False)]) o4 else o4))"

definition chat_error_from :: "(string \<Rightarrow> json option) \<Rightarrow> nat \<Rightarrow> string \<Rightarrow> nat option \<Rightarrow> wire_error" where
  "chat_error_from parse status body after =
     (let other = Http status (take_chars 2000 body) after in
      case parse body of
        None \<Rightarrow> other
      | Some v \<Rightarrow>
          (let e = jindex v ''error'' in
           if jindex e ''type'' = JStr ''exceed_context_size_error'' \<or>
              jindex e ''code'' = JStr ''context_length_exceeded''
           then ContextOverflow (case as_str (jindex e ''message'') of Some m \<Rightarrow> m | None \<Rightarrow> body)
           else other))"

section \<open>The answer\<close>

record partial_call =
  pc_id :: string
  pc_name :: string
  pc_arguments :: string

definition no_call :: partial_call where
  "no_call = \<lparr>pc_id = [], pc_name = [], pc_arguments = []\<rparr>"

record chat_assembler =
  ca_text :: string
  ca_reasoning :: string
  ca_calls :: "(nat \<times> partial_call) list"
  ca_finish_reason :: "string option"
  ca_usage :: "usage option"
  ca_request_id :: "string option"
  ca_timings :: "json option"
  ca_done :: bool

definition chat_start :: chat_assembler where
  "chat_start = \<lparr>ca_text = [], ca_reasoning = [], ca_calls = [], ca_finish_reason = None, ca_usage = None,
     ca_request_id = None, ca_timings = None, ca_done = False\<rparr>"

text \<open>A fragment of a call: the id and the name once, the arguments in pieces.\<close>

definition fill_call :: "json \<Rightarrow> partial_call \<Rightarrow> partial_call" where
  "fill_call call p =
     (let p = (case as_str (jindex call ''id'') of
                 Some i \<Rightarrow> if i \<noteq> [] \<and> pc_id p = [] then p\<lparr>pc_id := i\<rparr> else p | None \<Rightarrow> p);
          p = (case as_str (jindex (jindex call ''function'') ''name'') of
                 Some n \<Rightarrow> if pc_name p = [] then p\<lparr>pc_name := n\<rparr> else p | None \<Rightarrow> p) in
      case as_str (jindex (jindex call ''function'') ''arguments'') of
        Some t \<Rightarrow> p\<lparr>pc_arguments := pc_arguments p @ t\<rparr> | None \<Rightarrow> p)"

definition fragment_index :: "(nat \<times> partial_call) list \<Rightarrow> json \<Rightarrow> nat" where
  "fragment_index calls call =
     (case json_u64 (jindex call ''index'') of
        Some k \<Rightarrow> k
      | None \<Rightarrow> if calls = [] then 0 else fst (last calls))"

definition add_fragment :: "json \<Rightarrow> (nat \<times> partial_call) list \<Rightarrow> (nat \<times> partial_call) list" where
  "add_fragment call calls =
     (let k = fragment_index calls call;
          p = (case map_of calls k of Some p \<Rightarrow> p | None \<Rightarrow> no_call) in
      tree_put k (fill_call call p) calls)"

definition fragment_delta :: "json \<Rightarrow> delta list" where
  "fragment_delta call =
     (case as_str (jindex (jindex call ''function'') ''arguments'') of Some t \<Rightarrow> [Delta_ToolCall t] | None \<Rightarrow> [])"

definition chat_usage :: "json \<Rightarrow> usage" where
  "chat_usage u = \<lparr>ug_input = u64_or_0 (jindex u ''prompt_tokens''), ug_output = u64_or_0 (jindex u ''completion_tokens''),
     ug_cache_read = u64_or_0 (jindex (jindex u ''prompt_tokens_details'') ''cached_tokens'')\<rparr>"

definition chunk_error :: "(json \<Rightarrow> string) \<Rightarrow> json \<Rightarrow> wire_error" where
  "chunk_error to_s e =
     (if jindex e ''type'' = JStr ''exceed_context_size_error'' then ContextOverflow (str_or_empty (jindex e ''message''))
      else if jindex e ''type'' = JStr ''stream_incomplete'' then Incomplete
      else StreamError (to_s e))"

text \<open>What a chunk says besides its choice: the id, the usage and the timings.\<close>

definition chunk_facts :: "json \<Rightarrow> chat_assembler \<Rightarrow> chat_assembler" where
  "chunk_facts chunk a =
     (let a = (if ca_request_id a = None then a\<lparr>ca_request_id := as_str (jindex chunk ''id'')\<rparr> else a);
          a = (case jget chunk ''usage'' of
                 Some u \<Rightarrow> if is_object u then a\<lparr>ca_usage := Some (chat_usage u)\<rparr> else a | None \<Rightarrow> a) in
      case jget chunk ''timings'' of Some t \<Rightarrow> a\<lparr>ca_timings := Some t\<rparr> | None \<Rightarrow> a)"

definition take_choice :: "json \<Rightarrow> chat_assembler \<Rightarrow> chat_assembler \<times> delta list" where
  "take_choice choice a =
     (let a = (case as_str (jindex choice ''finish_reason'') of
                 Some r \<Rightarrow> a\<lparr>ca_finish_reason := Some r\<rparr> | None \<Rightarrow> a);
          d = jindex choice ''delta'';
          (a, ds) = (case as_str (jindex d ''content'') of
                 Some t \<Rightarrow> (a\<lparr>ca_text := ca_text a @ t\<rparr>, [Delta_Text t]) | None \<Rightarrow> (a, []));
          (a, ds) = (case as_str (jindex d ''reasoning_content'') of
                 Some t \<Rightarrow> (a\<lparr>ca_reasoning := ca_reasoning a @ t\<rparr>, ds @ [Delta_Reasoning t]) | None \<Rightarrow> (a, ds));
          calls = as_array_list (jindex d ''tool_calls'') in
      (a\<lparr>ca_calls := fold add_fragment calls (ca_calls a)\<rparr>, ds @ concat (map fragment_delta calls)))"

definition chat_push :: "(json \<Rightarrow> string) \<Rightarrow> chat_assembler \<Rightarrow> json \<Rightarrow> (wire_error, chat_assembler \<times> delta list) result" where
  "chat_push to_s a chunk =
     (case jget chunk ''error'' of
        Some e \<Rightarrow> Err (chunk_error to_s e)
      | None \<Rightarrow>
          (let a = chunk_facts chunk a in
           case first_item (jindex chunk ''choices'') of
             None \<Rightarrow> Ok (a, [])
           | Some choice \<Rightarrow> Ok (take_choice choice a)))"

text \<open>The blocks of the calls, in the order of their indices, numbered from \<open>n\<close>.\<close>

fun call_blocks :: "(string \<Rightarrow> json option) \<Rightarrow> nat \<Rightarrow> partial_call list \<Rightarrow> block list" where
  "call_blocks parse n [] = []"
| "call_blocks parse n (p # ps) =
     ToolUse (if pc_id p = [] then ''call_'' @ dec n else pc_id p) (pc_name p) (call_input parse (pc_arguments p))
       # call_blocks parse (n + 1) ps"

definition chat_finish :: "(string \<Rightarrow> json option) \<Rightarrow> chat_assembler \<Rightarrow> (wire_error, wire_completion) result" where
  "chat_finish parse a =
     (if \<not> ca_done a \<and> ca_finish_reason a = None then Err Incomplete
      else Ok \<lparr>co_blocks = (if trim (ca_text a) = [] then [] else [Text (ca_text a)])
                 @ call_blocks parse 0 (map snd (ca_calls a)),
               co_finish_reason = ca_finish_reason a, co_usage = ca_usage a,
               co_reasoning = ca_reasoning a, co_request_id = ca_request_id a, co_timings = ca_timings a\<rparr>)"

definition chat_feed :: "(string \<Rightarrow> json option) \<Rightarrow> (json \<Rightarrow> string) \<Rightarrow> chat_assembler feed" where
  "chat_feed parse to_s a f =
     (case f of
        Done \<Rightarrow> Ok ((a\<lparr>ca_done := True\<rparr>, True), [])
      | Data data \<Rightarrow>
          (case parse data of
             None \<Rightarrow> Ok ((a, False), [])
           | Some v \<Rightarrow>
               (case chat_push to_s a v of
                  Inl e \<Rightarrow> Err e
                | Inr (a', ds) \<Rightarrow> Ok ((a', False), ds))))"

definition chat_complete :: "(string \<Rightarrow> json option) \<Rightarrow> (json \<Rightarrow> string) \<Rightarrow> response \<Rightarrow> delta list \<times> (wire_error, wire_completion) result" where
  "chat_complete parse to_s =
     complete_with (chat_feed parse to_s) (chat_finish parse) chat_start (chat_error_from parse)"

section \<open>The assembler keeps what was shown\<close>

lemma chunk_facts_keeps [simp]:
  "ca_text (chunk_facts chunk a) = ca_text a" "ca_calls (chunk_facts chunk a) = ca_calls a"
  "ca_finish_reason (chunk_facts chunk a) = ca_finish_reason a" "ca_done (chunk_facts chunk a) = ca_done a"
  by (simp_all add: chunk_facts_def Let_def split: option.split)

lemma fragment_deltas_show_nothing [simp]: "shown_text (concat (map fragment_delta cs)) = []"
  by (induction cs) (auto simp: fragment_delta_def split: option.split)

lemma take_choice_effect:
  assumes "take_choice choice a = (a', ds)"
  shows "ca_text a' = ca_text a @ shown_text ds"
    and "shown_text ds = str_or_empty (jindex (jindex choice ''delta'') ''content'')"
    and "ca_calls a' = fold add_fragment (as_array_list (jindex (jindex choice ''delta'') ''tool_calls'')) (ca_calls a)"
    and "ca_finish_reason a' = (case as_str (jindex choice ''finish_reason'') of Some r \<Rightarrow> Some r | None \<Rightarrow> ca_finish_reason a)"
  using assms by (auto simp: take_choice_def Let_def str_or_empty_def split: option.splits prod.splits)

lemma call_blocks_no_results [simp]: "result_ids (call_blocks parse n ps) = []"
  by (induction ps arbitrary: n) auto

lemma chat_finish_blocks:
  "chat_finish parse a = Inr c \<Longrightarrow> co_blocks c =
     (if trim (ca_text a) = [] then [] else [Text (ca_text a)]) @ call_blocks parse 0 (map snd (ca_calls a))"
  by (auto simp: chat_finish_def split: if_splits)

interpretation chat: assembler "chat_feed parse to_s" "chat_finish parse" chat_start "chat_error_from parse" ca_text
proof unfold_locales
  show "ca_text chat_start = []" by (simp add: chat_start_def)
  show "ca_text a' = ca_text a @ shown_text ds"
    if "chat_feed parse to_s a f = Inr ((a', stop), ds)" for a f a' stop ds
  proof (cases f)
    case (Data data)
    show ?thesis
    proof (cases "parse data")
      case (Some v)
      with Data that have "chat_push to_s a v = Inr (a', ds)"
        by (auto simp: chat_feed_def split: sum.splits)
      then show ?thesis
        using take_choice_effect(1)
        by (auto simp: chat_push_def Let_def split: option.splits)
    qed (use Data that in \<open>simp add: chat_feed_def\<close>)
  qed (use that in \<open>auto simp: chat_feed_def\<close>)
  show "result_ids (co_blocks c) = []" if "chat_finish parse a = Inr c" for a c
    using chat_finish_blocks [OF that] by simp
qed

section \<open>Calls are assembled from their fragments\<close>

text \<open>
  What the chunks of a stream say, without the assembler: the text, the fragments, and the
  call that the fragments of one index make together.
\<close>

definition chunk_said :: "json \<Rightarrow> string" where
  "chunk_said chunk = (case first_item (jindex chunk ''choices'') of
     Some choice \<Rightarrow> str_or_empty (jindex (jindex choice ''delta'') ''content'') | None \<Rightarrow> [])"

definition fragments :: "json \<Rightarrow> json list" where
  "fragments chunk = (case first_item (jindex chunk ''choices'') of
     Some choice \<Rightarrow> as_array_list (jindex (jindex choice ''delta'') ''tool_calls'') | None \<Rightarrow> [])"

definition index_of :: "json \<Rightarrow> nat option" where
  "index_of f = json_u64 (jindex f ''index'')"

definition of_index :: "nat \<Rightarrow> json list \<Rightarrow> json list" where
  "of_index k fs = filter (\<lambda>f. index_of f = Some k) fs"

definition indices :: "json list \<Rightarrow> nat list" where
  "indices fs = sorted_list_of_set (set (List.map_filter index_of fs))"

definition first_nonempty :: "string list \<Rightarrow> string" where
  "first_nonempty ss = (case dropWhile (\<lambda>s. s = []) ss of s # _ \<Rightarrow> s | [] \<Rightarrow> [])"

definition whole_call :: "json list \<Rightarrow> partial_call" where
  "whole_call fs =
     \<lparr>pc_id = first_nonempty (map (\<lambda>f. str_or_empty (jindex f ''id'')) fs),
      pc_name = first_nonempty (map (\<lambda>f. str_or_empty (jindex (jindex f ''function'') ''name'')) fs),
      pc_arguments = concat (map (\<lambda>f. str_or_empty (jindex (jindex f ''function'') ''arguments'')) fs)\<rparr>"

lemma first_nonempty_simps [simp]:
  "first_nonempty [] = []" "first_nonempty (s # ss) = (if s = [] then first_nonempty ss else s)"
  by (simp_all add: first_nonempty_def)

lemma fill_call_fields [simp]:
  "pc_id (fill_call f p) = (if pc_id p = [] then str_or_empty (jindex f ''id'') else pc_id p)"
  "pc_name (fill_call f p) = (if pc_name p = [] then str_or_empty (jindex (jindex f ''function'') ''name'') else pc_name p)"
  "pc_arguments (fill_call f p) = pc_arguments p @ str_or_empty (jindex (jindex f ''function'') ''arguments'')"
  by (auto simp: fill_call_def Let_def str_or_empty_def split: option.split)

lemma fill_calls_fields:
  "pc_id (fold fill_call fs p) = first_nonempty (pc_id p # pc_id (whole_call fs) # [])"
  "pc_name (fold fill_call fs p) = first_nonempty (pc_name p # pc_name (whole_call fs) # [])"
  "pc_arguments (fold fill_call fs p) = pc_arguments p @ pc_arguments (whole_call fs)"
  by (induction fs arbitrary: p) (auto simp: whole_call_def)

lemma fill_calls_whole: "fold fill_call fs no_call = whole_call fs"
  by (rule partial_call.equality) (simp_all add: fill_calls_fields no_call_def)

lemma add_fragments_at:
  assumes "\<forall>f \<in> set fs. index_of f \<noteq> None"
  shows "map_of (fold add_fragment fs calls) k =
    (if of_index k fs = [] then map_of calls k
     else Some (fold fill_call (of_index k fs) (case map_of calls k of Some p \<Rightarrow> p | None \<Rightarrow> no_call)))"
  using assms
proof (induction fs arbitrary: calls)
  case (Cons f fs)
  then obtain j where j: "index_of f = Some j" by auto
  then have "fragment_index calls f = j" by (simp add: fragment_index_def index_of_def)
  then have m: "map_of (add_fragment f calls) =
      (map_of calls)(j \<mapsto> fill_call f (case map_of calls j of Some p \<Rightarrow> p | None \<Rightarrow> no_call))"
    by (simp add: add_fragment_def Let_def)
  show ?case
    using Cons.IH [of "add_fragment f calls"] Cons.prems j
    by (simp add: m of_index_def)
qed (simp add: of_index_def)

lemma add_fragments_keys:
  "\<forall>f \<in> set fs. index_of f \<noteq> None \<Longrightarrow>
    fst ` set (fold add_fragment fs calls) = fst ` set calls \<union> set (List.map_filter index_of fs)"
proof (induction fs arbitrary: calls)
  case (Cons f fs)
  then obtain j where j: "index_of f = Some j" by auto
  then have "fragment_index calls f = j" by (simp add: fragment_index_def index_of_def)
  with Cons j show ?case by (simp add: add_fragment_def Let_def List.map_filter_simps)
qed (simp add: List.map_filter_simps)

lemma add_fragments_sorted:
  "sorted_wrt (<) (map fst calls) \<Longrightarrow> sorted_wrt (<) (map fst (fold add_fragment fs calls))"
  by (induction fs arbitrary: calls) (simp_all add: add_fragment_def Let_def sorted_tree_put)

lemma values_in_key_order:
  assumes "sorted_wrt (<) (map fst kvs)"
  shows "map snd kvs = map (\<lambda>k. the (map_of kvs k)) (sorted_list_of_set (fst ` set kvs))"
proof -
  have d: "distinct (map fst kvs)" using assms strict_sorted_iff by blast
  have "map (\<lambda>k. the (map_of kvs k)) (map fst kvs) = map snd kvs"
    using d by (auto simp: comp_def intro!: map_cong)
  moreover have "sorted_list_of_set (fst ` set kvs) = map fst kvs"
    using sorted_list_of_set.idem_if_sorted_distinct [of "map fst kvs"] assms strict_sorted_iff by fastforce
  ultimately show ?thesis by simp
qed

lemma assembled_calls:
  assumes "\<forall>f \<in> set fs. index_of f \<noteq> None"
  shows "map snd (fold add_fragment fs []) = map (\<lambda>k. whole_call (of_index k fs)) (indices fs)"
proof -
  let ?calls = "fold add_fragment fs []"
  have keys: "fst ` set ?calls = set (List.map_filter index_of fs)" using add_fragments_keys [OF assms, of "[]"] by simp
  have "the (map_of ?calls k) = whole_call (of_index k fs)" if "k \<in> set (List.map_filter index_of fs)" for k
  proof -
    have "of_index k fs \<noteq> []" using that by (auto simp: of_index_def List.map_filter_def filter_empty_conv)
    with add_fragments_at [OF assms, of "[]" k] show ?thesis by (simp add: fill_calls_whole)
  qed
  then have "map (\<lambda>k. the (map_of ?calls k)) (indices fs) = map (\<lambda>k. whole_call (of_index k fs)) (indices fs)"
    by (intro map_cong) (simp_all add: indices_def)
  with values_in_key_order [OF add_fragments_sorted [of "[]" fs]] keys show ?thesis by (simp add: indices_def)
qed

lemma chat_push_effect:
  assumes "jget v ''error'' = None"
  shows "\<exists>a' ds. chat_push to_s a v = Inr (a', ds) \<and> shown_text ds = chunk_said v \<and>
    ca_calls a' = fold add_fragment (fragments v) (ca_calls a) \<and> ca_done a' = ca_done a"
proof (cases "first_item (jindex v ''choices'')")
  case None
  with assms show ?thesis by (simp add: chat_push_def Let_def chunk_said_def fragments_def)
next
  case (Some choice)
  obtain a' ds where t: "take_choice choice (chunk_facts v a) = (a', ds)" by fastforce
  have "ca_done a' = ca_done a"
    using t by (auto simp: take_choice_def Let_def split: option.splits prod.splits)
  with assms Some t take_choice_effect [OF t] show ?thesis
    by (simp add: chat_push_def Let_def chunk_said_def fragments_def)
qed

lemma chat_read_data:
  assumes "\<forall>v \<in> set (List.map_filter parse data). jget v ''error'' = None"
  shows "\<exists>a' ds. read_frames (chat_feed parse to_s) a (map Data data) = (ds, Inr (a', False)) \<and>
    shown_text ds = concat (map chunk_said (List.map_filter parse data)) \<and>
    ca_calls a' = fold add_fragment (concat (map fragments (List.map_filter parse data))) (ca_calls a)"
  using assms
proof (induction data arbitrary: a)
  case (Cons x data)
  show ?case
  proof (cases "parse x")
    case None
    then have f: "chat_feed parse to_s a (Data x) = Inr ((a, False), [])" by (simp add: chat_feed_def)
    from None Cons.prems have "\<forall>v \<in> set (List.map_filter parse data). jget v ''error'' = None"
      by (simp add: List.map_filter_simps)
    from Cons.IH [OF this, of a] obtain a' ds where
      r: "read_frames (chat_feed parse to_s) a (map Data data) = (ds, Inr (a', False))"
      "shown_text ds = concat (map chunk_said (List.map_filter parse data))"
      "ca_calls a' = fold add_fragment (concat (map fragments (List.map_filter parse data))) (ca_calls a)" by blast
    with f None show ?thesis by (auto simp: List.map_filter_simps apfst_def map_prod_def)
  next
    case (Some v)
    with Cons.prems have "jget v ''error'' = None" by (simp add: List.map_filter_simps)
    from chat_push_effect [OF this, of to_s a] obtain a1 ds1 where
      p: "chat_push to_s a v = Inr (a1, ds1)" "shown_text ds1 = chunk_said v"
      "ca_calls a1 = fold add_fragment (fragments v) (ca_calls a)" by blast
    have f: "chat_feed parse to_s a (Data x) = Inr ((a1, False), ds1)" using Some p(1) by (simp add: chat_feed_def)
    from Some Cons.prems have "\<forall>v \<in> set (List.map_filter parse data). jget v ''error'' = None"
      by (simp add: List.map_filter_simps)
    from Cons.IH [OF this, of a1] obtain a' ds where
      r: "read_frames (chat_feed parse to_s) a1 (map Data data) = (ds, Inr (a', False))"
      "shown_text ds = concat (map chunk_said (List.map_filter parse data))"
      "ca_calls a' = fold add_fragment (concat (map fragments (List.map_filter parse data))) (ca_calls a1)" by blast
    with f Some p show ?thesis by (auto simp: List.map_filter_simps apfst_def map_prod_def)
  qed
qed (simp add: List.map_filter_simps)

text \<open>
  C22: take a response whose bytes, put together, are one event for each of some pieces of data, an event
  \<open>[DONE]\<close> and whatever follows it; each event is a line \<open>data: ...\<close> and an empty line, with one way to end
  a line throughout, and each piece is UTF-8 without line ends and is not \<open>[DONE]\<close>. Suppose that no piece
  that is JSON carries an error and that every fragment of a call carries its index. Then however these
  bytes are cut into chunks and however the fragments of the calls are mixed, the answer is the one the
  pieces spell: the text is all the text in order, and the calls are those of the indices in order, each with
  the first id and the first name given for it and all its arguments. Data that is not JSON is passed over
  and what follows \<open>[DONE]\<close> is not read.
\<close>

theorem chat_answer_is_what_its_chunks_spell:
  fixes parse :: "string \<Rightarrow> json option" and data :: "string list"
  defines "vs \<equiv> List.map_filter parse data"
  defines "fs \<equiv> concat (map fragments vs)"
  assumes bytes: "concat cs = concat (map (sse_event eol) (data @ [''[DONE]''])) @ rest"
    and eol: "eol = [LF] \<or> eol = [CR, LF]" and data: "\<forall>d \<in> set data. event_data d \<and> d \<noteq> ''[DONE]''"
    and ok: "\<forall>v \<in> set vs. jget v ''error'' = None" and ix: "\<forall>f \<in> set fs. index_of f \<noteq> None"
  shows "\<exists>ds c. chat_complete parse to_s (Streaming cs broke) = (ds, Ok c) \<and>
    shown_text ds = concat (map chunk_said vs) \<and>
    co_blocks c =
      (if trim (concat (map chunk_said vs)) = [] then [] else [Text (concat (map chunk_said vs))])
        @ call_blocks parse 0 (map (\<lambda>k. whole_call (of_index k fs)) (indices fs))"
proof -
  let ?feed = "chat_feed parse to_s"
  obtain a ds where r: "read_frames ?feed chat_start (map Data data) = (ds, Inr (a, False))"
    and ds: "shown_text ds = concat (map chunk_said vs)" and calls: "ca_calls a = fold add_fragment fs []"
    using chat_read_data [of parse data to_s chat_start] ok unfolding vs_def fs_def by (auto simp: chat_start_def)
  have t: "ca_text a = concat (map chunk_said vs)" using chat.read_frames_text [OF r] ds by (simp add: chat_start_def)
  let ?more = "fst (Sse.push new_decoder rest)"
  have "event_data ''[DONE]''" by code_simp
  then have "fst (Sse.push new_decoder (concat cs)) = map frame_of (data @ [''[DONE]'']) @ ?more"
    unfolding bytes using data by (intro push_events [OF _ eol]) auto
  moreover have "map frame_of data = map Data data" using data by (simp add: frame_of_def)
  moreover have "push_all new_decoder cs = Sse.push new_decoder (concat cs)"
    by (rule chunking_does_not_matter) (simp add: new_decoder_def)
  ultimately have frames: "fst (push_all new_decoder cs) = map Data data @ Done # ?more" by (simp add: frame_of_def)
  have "read_frames ?feed chat_start (map Data data @ Done # ?more) = (ds, Inr (a\<lparr>ca_done := True\<rparr>, True))"
    unfolding read_frames_append r by (simp add: chat_feed_def apfst_def map_prod_def)
  moreover have "LF \<notin> set (d_buffer new_decoder)" by (simp add: new_decoder_def)
  ultimately have "chat_complete parse to_s (Streaming cs broke) = (ds, chat_finish parse (a\<lparr>ca_done := True\<rparr>))"
    by (simp add: chat_complete_def complete_with_def read_chunks_frames frames)
  with ds t calls assembled_calls [OF ix] show ?thesis by (simp add: chat_finish_def)
qed

section \<open>A sample answer\<close>

text \<open>Two calls whose fragments are mixed, in chunks cut inside a line.\<close>

definition sample_fragment :: "int \<Rightarrow> string \<Rightarrow> string \<Rightarrow> string \<Rightarrow> json" where
  "sample_fragment k i n t = JObj [(''function'', JObj [(''arguments'', JStr t), (''name'', JStr n)]),
     (''id'', JStr i), (''index'', JInt k)]"

definition sample_chunk :: "string \<Rightarrow> json list \<Rightarrow> json" where
  "sample_chunk t fs = JObj [(''choices'', JArr [JObj [(''delta'', JObj [(''content'', JStr t), (''tool_calls'', JArr fs)])]])]"

definition sample_parse :: "string \<Rightarrow> json option" where
  "sample_parse = map_of
     [(''1'', sample_chunk ''now'' [sample_fragment 1 ''b'' ''grep'' ''{'', sample_fragment 0 ''a'' ''read'' []]),
      (''2'', sample_chunk [] [sample_fragment 1 [] [] ''}'']), (''{}'', JObj [])]"

definition sample_stream :: "string list" where
  "sample_stream = [''data: 1'' @ [LF, LF] @ ''da'', ''ta: 2'' @ [LF, LF], ''data: [DONE]'' @ [LF, LF]]"

theorem chat_answer_is_what_its_chunks_spell_witness:
  "\<exists>ds c. chat_complete sample_parse (\<lambda>_. []) (Streaming sample_stream None) = (ds, Ok c) \<and>
     co_blocks c = [Text ''now'', ToolUse ''a'' ''read'' (JObj []), ToolUse ''b'' ''grep'' (JObj [])]"
proof -
  let ?vs = "List.map_filter sample_parse [''1'', ''2'']"
  let ?fs = "concat (map fragments ?vs)"
  have bytes: "concat sample_stream = concat (map (sse_event [LF]) ([''1'', ''2''] @ [''[DONE]''])) @ []" by code_simp
  have data: "\<forall>d \<in> set [''1'', ''2'']. event_data d \<and> d \<noteq> ''[DONE]''" by code_simp
  have ok: "\<forall>v \<in> set ?vs. jget v ''error'' = None" by code_simp
  have ix: "\<forall>f \<in> set ?fs. index_of f \<noteq> None" by code_simp
  have spoken: "concat (map chunk_said ?vs) = ''now''" by code_simp
  have calls: "call_blocks sample_parse 0 (map (\<lambda>k. whole_call (of_index k ?fs)) (indices ?fs)) =
      [ToolUse ''a'' ''read'' (JObj []), ToolUse ''b'' ''grep'' (JObj [])]" by code_simp
  have trimmed: "trim ''now'' \<noteq> []" by code_simp
  from chat_answer_is_what_its_chunks_spell [OF bytes _ data ok ix, of "\<lambda>_. []" None]
  show ?thesis unfolding spoken calls using trimmed by auto
qed

end
