(* ===== verification/Responses_Wire.thy ===== *)
theory Responses_Wire
  imports Wire
begin

text \<open>
  The Responses client, \<^verbatim>\<open>src/agent/src/wire/openai_responses.rs\<close>: the input items a conversation
  becomes, the completion its stream of events becomes, and that an answer is sent back as
  it came.
\<close>

section \<open>The request\<close>

definition drop_key :: "string \<Rightarrow> (string \<times> json) list \<Rightarrow> (string \<times> json) list" where
  "drop_key k kvs = filter (\<lambda>(k', _). k' \<noteq> k) kvs"

fun without_id :: "json \<Rightarrow> json" where
  "without_id (JObj kvs) = JObj (drop_key ''status'' (drop_key ''id'' kvs))"
| "without_id v = v"

fun input_item :: "agent_libs \<Rightarrow> role \<Rightarrow> block \<Rightarrow> json" where
  "input_item l r (Text t) =
     (let (who, kind) = (case r of User \<Rightarrow> (''user'', ''input_text'') | Assistant \<Rightarrow> (''assistant'', ''output_text'')) in
      JObj [(''content'', JArr [JObj [(''text'', JStr t), (''type'', JStr kind)]]), (''role'', JStr who),
            (''type'', JStr ''message'')])"
| "input_item l r (ToolUse i name v) =
     JObj [(''arguments'', JStr (arguments_text l v)), (''call_id'', JStr i), (''name'', JStr name),
           (''type'', JStr ''function_call'')]"
| "input_item l r (ToolResult i content e) =
     JObj [(''call_id'', JStr i), (''output'', JStr (shown_result content e)),
           (''type'', JStr ''function_call_output'')]"
| "input_item l r (Opaque item) = without_id item"

definition message_items :: "agent_libs \<Rightarrow> message \<Rightarrow> json list" where
  "message_items l m = map (input_item l (m_role m)) (m_blocks m)"

definition responses_input :: "agent_libs \<Rightarrow> conversation \<Rightarrow> json list" where
  "responses_input l conv = concat (map (message_items l) (cv_messages conv))"

definition responses_tool :: "json \<Rightarrow> json" where
  "responses_tool t =
     (let strict = (if jindex t ''own_schema'' = JBool True then strict_schema (jindex t ''parameters'') else None) in
      JObj [(''description'', jindex t ''description''), (''name'', jindex t ''name''),
            (''parameters'', case strict of Some s \<Rightarrow> s | None \<Rightarrow> jindex t ''parameters''),
            (''strict'', JBool (strict \<noteq> None)), (''type'', JStr ''function'')])"

definition responses_body :: "agent_libs \<Rightarrow> client \<Rightarrow> conversation \<Rightarrow> json list \<Rightarrow> json" where
  "responses_body l cl conv tools =
     (let sm = cl_sampling cl;
          reasoning = jput ''summary'' (JStr ''auto'')
            (case sm_reasoning_effort sm of Some effort \<Rightarrow> jput ''effort'' (JStr effort) [] | None \<Rightarrow> []);
          o0 = [(''include'', JArr [JStr ''reasoning.encrypted_content'']),
                (''input'', JArr (responses_input l conv)), (''instructions'', JStr (cv_system conv)),
                (''model'', JStr (cl_model cl)), (''reasoning'', JObj reasoning),
                (''store'', JBool False), (''stream'', JBool True)];
          o1 = (case cv_cache_key conv of Some key \<Rightarrow> jput ''prompt_cache_key'' (JStr key) o0 | None \<Rightarrow> o0);
          o2 = (if tools = [] then o1
                else jput ''parallel_tool_calls'' (JBool (cl_parallel_tools cl))
                  (jput ''tool_choice'' (JStr ''auto'') (jput ''tools'' (JArr (map responses_tool tools)) o1))) in
      JObj (case sm_temperature sm of Some t \<Rightarrow> jput ''temperature'' (json_of_f64 t) o2 | None \<Rightarrow> o2))"

definition is_overflow :: "json \<Rightarrow> bool" where
  "is_overflow e \<longleftrightarrow>
     jindex e ''code'' = JStr ''context_length_exceeded'' \<or>
     jindex e ''type'' = JStr ''context_length_exceeded'' \<or>
     (case as_str (jindex e ''message'') of Some m \<Rightarrow> contains_str m ''exceeds the context window'' | None \<Rightarrow> False)"

definition responses_error_from :: "(string \<Rightarrow> json option) \<Rightarrow> nat \<Rightarrow> string \<Rightarrow> nat option \<Rightarrow> wire_error" where
  "responses_error_from parse status body header =
     (let e = (case parse body of Some v \<Rightarrow> jindex v ''error'' | None \<Rightarrow> JNull) in
      if is_overflow e then ContextOverflow (case as_str (jindex e ''message'') of Some m \<Rightarrow> m | None \<Rightarrow> body)
      else Http status (take_chars 2000 body)
        (case header of Some s \<Rightarrow> Some s | None \<Rightarrow> json_u64 (jindex e ''resets_in_seconds'')))"

section \<open>The answer\<close>

record responses_assembler =
  ra_text :: string
  ra_reasoning :: string
  ra_items :: "(nat \<times> json) list"
  ra_status :: "string option"
  ra_incomplete_reason :: "string option"
  ra_usage :: "usage option"
  ra_request_id :: "string option"
  ra_done :: bool

definition responses_start :: responses_assembler where
  "responses_start = \<lparr>ra_text = [], ra_reasoning = [], ra_items = [], ra_status = None,
     ra_incomplete_reason = None, ra_usage = None, ra_request_id = None, ra_done = False\<rparr>"

definition take_id :: "json \<Rightarrow> responses_assembler \<Rightarrow> responses_assembler" where
  "take_id response a =
     (if ra_request_id a = None then a\<lparr>ra_request_id := as_str (jindex response ''id'')\<rparr> else a)"

definition failure :: "(json \<Rightarrow> string) \<Rightarrow> json \<Rightarrow> wire_error" where
  "failure to_s e =
     (if is_overflow e then ContextOverflow (str_or_empty (jindex e ''message''))
      else FailedResponse
        (case as_str (jindex e ''code'') of Some c \<Rightarrow> c
         | None \<Rightarrow> (case as_str (jindex e ''type'') of Some t \<Rightarrow> t | None \<Rightarrow> ''unknown''))
        (case as_str (jindex e ''message'') of Some m \<Rightarrow> m | None \<Rightarrow> to_s e))"

definition responses_usage :: "json \<Rightarrow> usage" where
  "responses_usage u = \<lparr>ug_input = u64_or_0 (jindex u ''input_tokens''), ug_output = u64_or_0 (jindex u ''output_tokens''),
     ug_cache_read = u64_or_0 (jindex (jindex u ''input_tokens_details'') ''cached_tokens'')\<rparr>"

text \<open>The end of a response; its output counts when no item came before.\<close>

definition take_response_end :: "json \<Rightarrow> responses_assembler \<Rightarrow> responses_assembler" where
  "take_response_end r a =
     (let a = (take_id r a)\<lparr>ra_status := as_str (jindex r ''status''),
                ra_incomplete_reason := as_str (jindex (jindex r ''incomplete_details'') ''reason'')\<rparr>;
          a = (case jget r ''usage'' of
                 Some u \<Rightarrow> if is_object u then a\<lparr>ra_usage := Some (responses_usage u)\<rparr> else a | None \<Rightarrow> a);
          a = (if ra_items a = []
               then a\<lparr>ra_items := fold (\<lambda>(i, item). tree_put i item) (enumerate 0 (as_array_list (jindex r ''output''))) []\<rparr>
               else a) in
      a\<lparr>ra_done := True\<rparr>)"

definition responses_push :: "(json \<Rightarrow> string) \<Rightarrow> responses_assembler \<Rightarrow> json \<Rightarrow> (wire_error, responses_assembler \<times> delta list) result" where
  "responses_push to_s a event =
     (let kind = str_or_empty (jindex event ''type''); d = as_str (jindex event ''delta'') in
      if kind \<in> {''response.created'', ''response.in_progress''} then Ok (take_id (jindex event ''response'') a, [])
      else if kind = ''response.output_text.delta'' then
        (case d of Some t \<Rightarrow> Ok (a\<lparr>ra_text := ra_text a @ t\<rparr>, [Delta_Text t]) | None \<Rightarrow> Ok (a, []))
      else if kind \<in> {''response.reasoning_summary_text.delta'', ''response.reasoning_text.delta''} then
        (case d of Some t \<Rightarrow> Ok (a\<lparr>ra_reasoning := ra_reasoning a @ t\<rparr>, [Delta_Reasoning t]) | None \<Rightarrow> Ok (a, []))
      else if kind = ''response.reasoning_summary_part.done'' then Ok (a, [Delta_Reasoning [LF, LF]])
      else if kind = ''response.function_call_arguments.delta'' then
        (case d of Some t \<Rightarrow> Ok (a, [Delta_ToolCall t]) | None \<Rightarrow> Ok (a, []))
      else if kind = ''response.output_item.done'' then
        (let k = (case json_u64 (jindex event ''output_index'') of Some k \<Rightarrow> k | None \<Rightarrow> length (ra_items a)) in
         Ok (a\<lparr>ra_items := tree_put k (jindex event ''item'') (ra_items a)\<rparr>, []))
      else if kind \<in> {''response.completed'', ''response.incomplete'', ''response.done''} then
        Ok (take_response_end (jindex event ''response'') a, [])
      else if kind = ''response.failed'' then Err (failure to_s (jindex (jindex event ''response'') ''error''))
      else if kind = ''error'' then Err (failure to_s (case jget event ''error'' of Some e \<Rightarrow> e | None \<Rightarrow> event))
      else if kind = [] then
        (case jget event ''error'' of
           Some e \<Rightarrow> Err (if jindex e ''type'' = JStr ''stream_incomplete'' then Incomplete else failure to_s e)
         | None \<Rightarrow> Ok (a, []))
      else Ok (a, []))"

text \<open>The block a finished item becomes, if any.\<close>

definition item_text :: "json \<Rightarrow> string" where
  "item_text item = concat (List.map_filter (\<lambda>c. as_str (jindex c ''text'')) (as_array_list (jindex item ''content'')))"

definition item_block :: "(string \<Rightarrow> json option) \<Rightarrow> json \<Rightarrow> block list" where
  "item_block parse item =
     (let kind = str_or_empty (jindex item ''type'') in
      if kind = ''message'' then (if trim (item_text item) = [] then [] else [Text (item_text item)])
      else if kind = ''function_call'' then
        [ToolUse (str_or_empty (jindex item ''call_id'')) (str_or_empty (jindex item ''name''))
           (call_input parse (str_or_empty (jindex item ''arguments'')))]
      else if kind = ''reasoning'' then [Opaque item]
      else [])"

definition is_text :: "block \<Rightarrow> bool" where
  "is_text b = (case b of Text _ \<Rightarrow> True | _ \<Rightarrow> False)"

definition responses_finish :: "(string \<Rightarrow> json option) \<Rightarrow> responses_assembler \<Rightarrow> (wire_error, wire_completion) result" where
  "responses_finish parse a =
     (if \<not> ra_done a then Err Incomplete
      else
        (let items = map snd (ra_items a);
             blocks = concat (map (item_block parse) items);
             calls = list_ex (\<lambda>item. str_or_empty (jindex item ''type'') = ''function_call'') items;
             blocks = (if \<not> list_ex is_text blocks \<and> trim (ra_text a) \<noteq> [] then blocks @ [Text (ra_text a)] else blocks);
             reason = (case (ra_status a, ra_incomplete_reason a) of
                (Some st, Some r) \<Rightarrow>
                  if st = ''incomplete'' then (if r = ''max_output_tokens'' then ''length'' else r)
                  else if calls then ''tool_calls'' else ''stop''
              | _ \<Rightarrow> if calls then ''tool_calls'' else ''stop'') in
         Ok \<lparr>co_blocks = blocks, co_finish_reason = Some reason, co_usage = ra_usage a,
             co_reasoning = ra_reasoning a, co_request_id = ra_request_id a, co_timings = None\<rparr>))"

definition responses_feed :: "(string \<Rightarrow> json option) \<Rightarrow> (json \<Rightarrow> string) \<Rightarrow> responses_assembler feed" where
  "responses_feed parse to_s a f =
     (case f of
        Done \<Rightarrow> Ok ((a, False), [])
      | Data data \<Rightarrow>
          (case parse data of
             None \<Rightarrow> Ok ((a, False), [])
           | Some v \<Rightarrow>
               (case responses_push to_s a v of
                  Inl e \<Rightarrow> Err e
                | Inr (a', ds) \<Rightarrow> Ok ((a', ra_done a'), ds))))"

definition responses_complete :: "(string \<Rightarrow> json option) \<Rightarrow> (json \<Rightarrow> string) \<Rightarrow> response \<Rightarrow> delta list \<times> (wire_error, wire_completion) result" where
  "responses_complete parse to_s =
     complete_with (responses_feed parse to_s) (responses_finish parse) responses_start (responses_error_from parse)"

section \<open>The assembler keeps what was shown\<close>

lemma take_id_keeps [simp]:
  "ra_text (take_id r a) = ra_text a" "ra_items (take_id r a) = ra_items a" "ra_done (take_id r a) = ra_done a"
  by (simp_all add: take_id_def)

lemma take_response_end_text [simp]: "ra_text (take_response_end r a) = ra_text a"
  by (simp add: take_response_end_def Let_def split: option.split)

lemma responses_push_text: "responses_push to_s a v = Inr (a', ds) \<Longrightarrow> ra_text a' = ra_text a @ shown_text ds"
  by (auto simp: responses_push_def Let_def split: if_splits option.splits)

lemma item_block_no_results [simp]: "result_ids (item_block parse item) = []"
  by (simp add: item_block_def Let_def)

lemma items_no_results [simp]: "result_ids (concat (map (item_block parse) items)) = []"
  by (induction items) simp_all

lemma responses_finish_blocks:
  assumes "responses_finish parse a = Inr c"
  defines "bs \<equiv> concat (map (item_block parse) (map snd (ra_items a)))"
  shows "co_blocks c = (if \<not> list_ex is_text bs \<and> trim (ra_text a) \<noteq> [] then bs @ [Text (ra_text a)] else bs)"
  using assms(1) unfolding bs_def by (auto simp: responses_finish_def Let_def simp del: map_map split: if_splits)

interpretation responses: assembler "responses_feed parse to_s" "responses_finish parse" responses_start
    "responses_error_from parse" ra_text
proof unfold_locales
  show "ra_text responses_start = []" by (simp add: responses_start_def)
  show "ra_text a' = ra_text a @ shown_text ds"
    if "responses_feed parse to_s a f = Inr ((a', stop), ds)" for a f a' stop ds
    using that responses_push_text
    by (fastforce simp: responses_feed_def split: frame.splits option.splits sum.splits)
  show "result_ids (co_blocks c) = []" if "responses_finish parse a = Inr c" for a c
    unfolding responses_finish_blocks [OF that] by (simp del: map_map)
qed

section \<open>Reasoning goes back as it came\<close>

definition has_type :: "string \<Rightarrow> json \<Rightarrow> bool" where
  "has_type t item \<longleftrightarrow> jindex item ''type'' = JStr t"

lemma map_of_drop_key: "k \<noteq> k' \<Longrightarrow> map_of (drop_key k kvs) k' = map_of kvs k'"
  by (induction kvs) (auto simp: drop_key_def)

lemma without_id_type [simp]: "has_type t (without_id item) \<longleftrightarrow> has_type t item"
  by (cases item) (simp_all add: has_type_def jindex_def map_of_drop_key)

lemma item_block_type:
  assumes "b \<in> set (item_block parse item)" and "b = Opaque v"
  shows "v = item \<and> has_type ''reasoning'' item"
  using assms
  by (auto simp: item_block_def Let_def has_type_def str_or_empty_def split: if_splits option.splits elim: as_str.elims)

lemma reasoning_is_sent_back:
  "filter (has_type ''reasoning'') (map (input_item l Assistant) (concat (map (item_block parse) items))) =
     map without_id (filter (has_type ''reasoning'') items)"
proof (induction items)
  case (Cons item items)
  have "filter (has_type ''reasoning'') (map (input_item l Assistant) (item_block parse item)) =
      map without_id (filter (has_type ''reasoning'') [item])"
  proof (cases "has_type ''reasoning'' item")
    case True
    then have "item_block parse item = [Opaque item]"
      by (simp add: item_block_def has_type_def str_or_empty_def)
    with True show ?thesis by simp
  next
    case False
    have "\<not> has_type ''reasoning'' (input_item l Assistant b)" if "b \<in> set (item_block parse item)" for b
      using item_block_type [OF that] False by (cases b) (auto simp: has_type_def jindex_def)
    with False show ?thesis by (auto simp: filter_empty_conv)
  qed
  with Cons show ?case by simp
qed simp

end
