(* ===== verification/Wire_Requests.thy ===== *)
theory Wire_Requests
  imports Chat_Wire Responses_Wire
begin

text \<open>
  The conversation loop over the two wires: an answer read from a stream is one the loop
  relies on, and every request a session makes is one the interfaces accept, each call
  answered right where they want it.
\<close>

section \<open>Requests the interfaces accept\<close>

text \<open>
  Chat Completions: a message with tool calls is followed at once by one tool message per
  call, in the order of the calls, and there is no tool message anywhere else.
\<close>

definition is_tool :: "json \<Rightarrow> bool" where
  "is_tool m \<longleftrightarrow> jindex m ''role'' = JStr ''tool''"

definition made_ids :: "json \<Rightarrow> json list" where
  "made_ids m = map (\<lambda>c. jindex c ''id'') (as_array_list (jindex m ''tool_calls''))"

function chat_ok :: "json list \<Rightarrow> bool" where
  "chat_ok [] = True"
| "chat_ok (m # ms) =
     (let n = length (made_ids m) in
      \<not> is_tool m \<and> list_all is_tool (take n ms) \<and>
      map (\<lambda>r. jindex r ''tool_call_id'') (take n ms) = made_ids m \<and> chat_ok (drop n ms))"
  by pat_completeness auto
termination
  by (relation "measure length") (simp_all add: le_imp_less_Suc)

text \<open>
  Responses: the outputs of calls come in the order of the calls, and every call has its
  output before the user says anything else, and at the end.
\<close>

fun input_ok :: "json list \<Rightarrow> json list \<Rightarrow> bool" where
  "input_ok open_ids [] = (open_ids = [])"
| "input_ok open_ids (x # xs) =
     (if has_type ''function_call'' x then input_ok (open_ids @ [jindex x ''call_id'']) xs
      else if has_type ''function_call_output'' x then
        (case open_ids of [] \<Rightarrow> False | i # is \<Rightarrow> jindex x ''call_id'' = i \<and> input_ok is xs)
      else if has_type ''message'' x \<and> jindex x ''role'' = JStr ''user'' then open_ids = [] \<and> input_ok [] xs
      else input_ok open_ids xs)"

lemma results_only_text: "list_all is_result bs \<Longrightarrow> foldl add_text t bs = t"
  by (induction bs) (auto simp: is_result_def elim: result_id.elims)

lemma no_results_no_tools: "result_ids bs = [] \<Longrightarrow> List.map_filter chat_result bs = []"
proof (induction bs)
  case (Cons b bs)
  then show ?case by (cases b) (simp_all add: List.map_filter_simps)
qed (simp add: List.map_filter_simps)

lemma chat_results:
  "list_all is_tool (List.map_filter chat_result bs) \<and>
    map (\<lambda>r. jindex r ''tool_call_id'') (List.map_filter chat_result bs) = map JStr (result_ids bs)"
proof (induction bs)
  case (Cons b bs)
  then show ?case by (cases b) (simp_all add: List.map_filter_simps is_tool_def jindex_def)
qed (simp add: List.map_filter_simps)

lemma chat_call_ids: "map (\<lambda>c. jindex c ''id'') (map (chat_call l) cs) = map JStr (map fst cs)"
  by (induction cs) (auto simp: chat_call_def jindex_def)

lemma chat_ok_quiet: "\<not> is_tool m \<Longrightarrow> made_ids m = [] \<Longrightarrow> chat_ok (m # ms) \<longleftrightarrow> chat_ok ms"
  by (simp add: Let_def)

lemma answered_chat_ok: "answered ms \<Longrightarrow> chat_ok (concat (map (chat_message l) ms))"
proof (induction ms rule: answered.induct)
  case (2 m ms)
  let ?calls = "calls_of (m_blocks m)"
  show ?case
  proof (cases "calls_made m = []")
    case True
    with 2 have IH: "chat_ok (concat (map (chat_message l) ms))" and r: "result_ids (m_blocks m) = []" by simp_all
    show ?thesis
    proof (cases "m_role m")
      case User
      with IH no_results_no_tools [OF r] show ?thesis
        by (simp add: chat_message_def [of l m] Let_def chat_ok_quiet is_tool_def made_ids_def jindex_def as_array_list_def del: chat_ok.simps(2))
    next
      case Assistant
      with True have "?calls = []" by (simp add: calls_made_def)
      with IH Assistant show ?thesis
        by (simp add: chat_message_def [of l m] Let_def chat_ok_quiet is_tool_def made_ids_def jindex_def as_array_list_def del: chat_ok.simps(2))
    qed
  next
    case False
    with 2(3) obtain r rest where ms: "ms = r # rest" by (auto split: list.splits)
    with False 2(3) have r: "m_role r = User" "list_all is_result (m_blocks r)"
      "result_ids (m_blocks r) = calls_made m" and rest: "answered rest" by simp_all
    from False 2(2) rest ms have IH: "chat_ok (concat (map (chat_message l) rest))" by simp
    from False have role: "m_role m = Assistant" and calls: "calls_made m = map fst ?calls"
      by (auto simp: calls_made_def split: if_splits)
    with False have nonempty: "?calls \<noteq> []" by auto
    let ?tools = "List.map_filter chat_result (m_blocks r)"
    have tools: "chat_message l r = ?tools"
      using r(1) results_only_text [OF r(2), of "[]"] by (simp add: chat_message_def chat_text_def)
    obtain x where x: "chat_message l m = [x]" "\<not> is_tool x" "made_ids x = map JStr (calls_made m)"
      using role nonempty calls chat_call_ids [of l ?calls]
      by (simp add: chat_message_def Let_def is_tool_def made_ids_def jindex_def as_array_list_def)
    have ids: "map (\<lambda>r. jindex r ''tool_call_id'') ?tools = map JStr (calls_made m)" and "list_all is_tool ?tools"
      using chat_results [of "m_blocks r"] r(3) by simp_all
    moreover from arg_cong [OF ids, of length] have "length ?tools = length (calls_made m)" by simp
    ultimately show ?thesis using IH ms tools x by (simp add: Let_def)
  qed
qed simp

lemma system_chat_ok: "answered (cv_messages conv) \<Longrightarrow> chat_ok (chat_messages l conv)"
  unfolding chat_messages_def
  by (subst chat_ok_quiet) (simp_all add: is_tool_def made_ids_def jindex_def as_array_list_def answered_chat_ok)

text \<open>What the Responses client keeps as it came are reasoning items.\<close>

definition opaque_ok :: "block \<Rightarrow> bool" where
  "opaque_ok b = (case b of Opaque v \<Rightarrow> has_type ''reasoning'' v | _ \<Rightarrow> True)"

lemma input_ok_calls:
  assumes "list_all opaque_ok bs" and "result_ids bs = []"
  shows "input_ok is (map (input_item l Assistant) bs @ xs) = input_ok (is @ map JStr (map fst (calls_of bs))) xs"
  using assms
proof (induction bs arbitrary: "is")
  case (Cons b bs)
  show ?case
  proof (cases b)
    case (Opaque v)
    then have "has_type ''reasoning'' (without_id v)" using Cons.prems by (simp add: opaque_ok_def)
    then show ?thesis using Cons Opaque by (simp add: has_type_def)
  qed (use Cons in \<open>simp_all add: has_type_def jindex_def\<close>)
qed simp

lemma input_ok_results:
  "list_all is_result bs \<Longrightarrow>
    input_ok (map JStr (result_ids bs)) (map (input_item l User) bs @ xs) = input_ok [] xs"
proof (induction bs)
  case (Cons b bs)
  then show ?case by (cases b) (simp_all add: is_result_def has_type_def jindex_def)
qed simp

lemma input_ok_user:
  assumes "list_all opaque_ok bs" and "result_ids bs = []" and "calls_of bs = []"
  shows "input_ok [] (map (input_item l r) bs @ xs) = input_ok [] xs"
  using assms
proof (induction bs)
  case (Cons b bs)
  show ?case
  proof (cases b)
    case (Opaque v)
    then have "has_type ''reasoning'' (without_id v)" using Cons.prems by (simp add: opaque_ok_def)
    then show ?thesis using Cons Opaque by (simp add: has_type_def)
  qed (use Cons in \<open>simp_all add: has_type_def jindex_def split: role.split\<close>)
qed simp

text \<open>The messages of the user make no calls.\<close>

definition plain :: "message \<Rightarrow> bool" where
  "plain m \<longleftrightarrow> list_all opaque_ok (m_blocks m) \<and> (m_role m = User \<longrightarrow> calls_of (m_blocks m) = [])"

lemma answered_input_ok:
  "answered ms \<Longrightarrow> list_all plain ms \<Longrightarrow> input_ok [] (concat (map (message_items l) ms))"
proof (induction ms rule: answered.induct)
  case (2 m ms)
  let ?calls = "calls_of (m_blocks m)"
  from 2 have p: "list_all opaque_ok (m_blocks m)" "list_all plain ms" and res: "result_ids (m_blocks m) = []"
    by (simp_all add: plain_def [of m])
  show ?case
  proof (cases "calls_made m = []")
    case True
    have "?calls = []" using True 2(4) by (cases "m_role m") (auto simp: calls_made_def plain_def)
    with 2 True p res input_ok_user [of "m_blocks m" l "m_role m"] show ?thesis by (simp add: message_items_def)
  next
    case False
    with 2(3) obtain r rest where ms: "ms = r # rest" by (auto split: list.splits)
    with False 2(3) have r: "m_role r = User" "list_all is_result (m_blocks r)"
      "result_ids (m_blocks r) = calls_made m" and rest: "answered rest" by simp_all
    from False 2(2) rest ms p(2) have IH: "input_ok [] (concat (map (message_items l) rest))" by simp
    from False have role: "m_role m = Assistant" and calls: "calls_made m = map fst ?calls"
      by (auto simp: calls_made_def split: if_splits)
    with IH r ms input_ok_results [OF r(2)] input_ok_calls [OF p(1) res] show ?thesis
      by (simp add: message_items_def [of l m] message_items_def [of l r])
  qed
qed simp

section \<open>An answer is one the loop relies on\<close>

text \<open>A world whose model answers over one of the wires, or is cut off by a cancel.\<close>

definition wire_world :: "(string \<Rightarrow> json option) \<Rightarrow> (json \<Rightarrow> string) \<Rightarrow> 'w world \<Rightarrow> bool" where
  "wire_world parse to_s wd \<longleftrightarrow>
     (\<forall>w conv specs mt. fst (w_complete wd w conv specs mt) = Aborted \<or>
        (\<exists>r. fst (w_complete wd w conv specs mt) \<in>
           {attempt_of (chat_complete parse to_s r), attempt_of (responses_complete parse to_s r)}))"

definition distinct_calls :: "'w world \<Rightarrow> bool" where
  "distinct_calls wd \<longleftrightarrow>
     (\<forall>w conv specs mt c w'. w_complete wd w conv specs mt = (Answered c, w') \<longrightarrow>
        distinct (map fst (calls_of (co_blocks c))))"

lemma attempt_answered:
  "attempt_of r = Answered c \<Longrightarrow> \<exists>c'. snd r = Inr c' \<and> co_blocks c = co_blocks c'"
  by (auto simp: attempt_of_def completion.defs split: sum.splits)

lemma wire_world_ok:
  assumes "wire_world parse to_s wd" and "distinct_calls wd"
  shows "world_ok wd"
  unfolding world_ok_def completion_ok_def
proof (intro allI impI conjI)
  fix w conv specs mt c w'
  assume a: "w_complete wd w conv specs mt = (Answered c, w')"
  then show "distinct (map fst (calls_of (co_blocks c)))" using assms(2) unfolding distinct_calls_def by blast
  from assms(1) a obtain r where "Answered c \<in> {attempt_of (chat_complete parse to_s r), attempt_of (responses_complete parse to_s r)}"
    unfolding wire_world_def by (metis attempt.distinct(3) fst_conv)
  then consider "attempt_of (chat_complete parse to_s r) = Answered c" | "attempt_of (responses_complete parse to_s r) = Answered c" by auto
  then show "result_ids (co_blocks c) = []"
  proof cases
    case 1
    from attempt_answered [OF this] show ?thesis
      using chat.answer_has_no_results [of parse to_s r] unfolding chat_complete_def [symmetric] by (metis prod.collapse)
  next
    case 2
    from attempt_answered [OF this] show ?thesis
      using responses.answer_has_no_results [of parse to_s r] unfolding responses_complete_def [symmetric] by (metis prod.collapse)
  qed
qed

section \<open>What a session asks the model\<close>

text \<open>The same world with every conversation it is asked about kept, in order.\<close>

definition recorded :: "'w world \<Rightarrow> ('w \<times> conversation list) world" where
  "recorded wd =
     \<lparr>w_complete = (\<lambda>(w, cs) conv specs mt. let (a, w) = w_complete wd w conv specs mt in (a, (w, cs @ [conv]))),
      w_sleep = (\<lambda>(w, cs) t. let (c, w) = w_sleep wd w t in (c, (w, cs))),
      w_permit = (\<lambda>(w, cs) i name v. let (p, w) = w_permit wd w i name v in (p, (w, cs))),
      w_run = (\<lambda>(w, cs) name v. let (out, w) = w_run wd w name v in (out, (w, cs))),
      w_child = (\<lambda>(w, cs) c. let (r, w) = w_child wd w c in (r, (w, cs))),
      w_cancelled = (\<lambda>(w, cs). w_cancelled wd w)\<rparr>"

lemma recorded_keeps:
  "snd (snd (w_sleep (recorded wd) w t)) = snd w"
  "snd (snd (w_permit (recorded wd) w i name v)) = snd w"
  "snd (snd (w_run (recorded wd) w name v)) = snd w"
  "snd (snd (w_child (recorded wd) w ch)) = snd w"
  "snd (snd (w_complete (recorded wd) w conv specs mt)) = snd w @ [conv]"
  by (simp_all add: recorded_def split_beta Let_def)

lemma recorded_kept:
  "w_sleep (recorded wd) w t = (c, w') \<Longrightarrow> snd w' = snd w"
  "w_permit (recorded wd) w i name v = (p, w') \<Longrightarrow> snd w' = snd w"
  "w_run (recorded wd) w name v = (out, w') \<Longrightarrow> snd w' = snd w"
  "w_child (recorded wd) w ch = (r, w') \<Longrightarrow> snd w' = snd w"
  "w_complete (recorded wd) w conv specs mt = (a, w') \<Longrightarrow> snd w' = snd w @ [conv]"
  using recorded_keeps [of wd w] by (metis snd_conv)+

lemma recorded_world_ok: "world_ok wd \<Longrightarrow> world_ok (recorded wd)"
  unfolding world_ok_def recorded_def by (fastforce simp: Let_def split: prod.splits)

abbreviation asked_of :: "('w \<times> conversation list) run_state \<Rightarrow> conversation list" where
  "asked_of s \<equiv> snd (st_world s)"

lemma record_step_world [simp]: "st_world (announce ag i s) = st_world s" "st_world (log_event e s) = st_world s"
  by (simp_all add: announce_def log_event_def)

lemma run_call_asks:
  assumes "run_call (recorded wd) ag (i, n, v) cancelled s = (r, s')"
  shows "asked_of s' = asked_of s"
proof (cases cancelled)
  case False
  obtain p w where p: "w_permit (recorded wd) (st_world s) i n v = (p, w)" by (metis prod.exhaust)
  obtain out w1 where out: "w_run (recorded wd) w n v = (out, w1)" by (metis prod.exhaust)
  show ?thesis
    using assms False p out recorded_kept(2) [OF p] recorded_kept(3) [OF out]
    by (cases p; cases out) (auto simp: run_call_def Let_def)
qed (use assms in \<open>simp add: run_call_def\<close>)

lemma finish_call_asks: "finish_call ag i out s = (b, s') \<Longrightarrow> st_world s' = st_world s"
  by (auto simp: finish_call_def Let_def)

lemma finish_calls_asks: "finish_calls ag ios s = (bs, s') \<Longrightarrow> st_world s' = st_world s"
proof (induction ios arbitrary: s bs)
  case (Cons x ios)
  obtain i out where x: "x = (i, out)" by (cases x)
  obtain b s1 where f: "finish_call ag i out s = (b, s1)" by fastforce
  obtain bs' where g: "finish_calls ag ios s1 = (bs', s')" using Cons.prems x f by (auto split: prod.splits)
  from Cons.IH [OF g] finish_call_asks [OF f] show ?case by simp
qed simp

lemma decide_spawns_asks:
  "decide_spawns (recorded wd) ag cs cancelled s = (r, s') \<Longrightarrow> asked_of s' = asked_of s"
proof (induction cs arbitrary: cancelled s r)
  case (Cons c cs)
  obtain i n v where c: "c = (i, n, v)" by (cases c)
  obtain p w where p: "w_permit (recorded wd) (st_world s) i n v = (p, w)" by (metis prod.exhaust)
  show ?case
    using Cons.prems Cons.IH p recorded_kept(2) [OF p]
    by (cases cancelled; cases p) (fastforce simp: c Let_def split: prod.splits)+
qed simp

lemma run_children_asks: "snd (snd (run_children (recorded wd) l ag sp system key ds w)) = snd w"
proof (induction ds arbitrary: w)
  case (Cons d ds)
  obtain i v refused where d: "d = (i, v, refused)" by (cases d)
  show ?case
  proof (cases refused)
    case None
    show ?thesis
    proof (cases "prepare_child ag sp i v system key")
      case (Inr ch)
      with None Cons.IH d recorded_keeps(4) [of wd w ch] show ?thesis by (simp add: Let_def split_beta)
    qed (use None Cons.IH d in \<open>simp add: Let_def split_beta\<close>)
  qed (use Cons.IH d in \<open>simp add: Let_def split_beta\<close>)
qed simp

lemma spawn_group_asks:
  assumes "spawn_group (recorded wd) l ag sp cs cancelled s = (r, s')"
  shows "asked_of s' = asked_of s"
proof -
  obtain ds c1 s1 where d: "decide_spawns (recorded wd) ag cs cancelled s = ((ds, c1), s1)" by (metis prod.exhaust)
  let ?children = "run_children (recorded wd) l ag sp (cv_system (st_conv s1)) (cv_cache_key (st_conv s1)) ds (st_world s1)"
  have "asked_of s' = snd (snd ?children)"
    using assms d by (cases ?children) (auto simp: spawn_group_def Let_def)
  with decide_spawns_asks [OF d] show ?thesis by (simp add: run_children_asks)
qed

lemma run_calls_asks:
  "(case run_calls (recorded wd) l ag cs cancelled results s of Inl (_, s') \<Rightarrow> s' | Inr (_, s') \<Rightarrow> s') = s'' \<Longrightarrow>
    asked_of s'' = asked_of s"
proof (induction "recorded wd" l ag cs cancelled results s arbitrary: s'' rule: run_calls.induct)
  case (2 l ag i name input cs cancelled results s)
  consider (finish) "name = FINISH \<and> ag_finish ag \<noteq> None"
    | (spawn) "\<not> (name = FINISH \<and> ag_finish ag \<noteq> None)" "name = SPAWN \<and> ag_spawner ag \<noteq> None"
    | (run) "\<not> (name = FINISH \<and> ag_finish ag \<noteq> None)" "\<not> (name = SPAWN \<and> ag_spawner ag \<noteq> None)" by blast
  then show ?case
  proof cases
    case finish
    let ?v = "settle (the (ag_finish ag)) input"
    show ?thesis
    proof (cases "validate_result (al_to_string l) (the (ag_finish ag)) ?v")
      case (Inl problem)
      with 2(1) [OF finish refl refl Inl refl] 2(4) finish show ?thesis
        by (simp add: run_calls.simps(2) [of "recorded wd" l ag i FINISH input cs cancelled results s] Let_def)
    next
      case (Inr u)
      with 2(4) finish show ?thesis
        by (simp add: run_calls.simps(2) [of "recorded wd" l ag i FINISH input cs cancelled results s] Let_def)
    qed
  next
    case spawn
    have spawn_is_not_finish: "SPAWN \<noteq> FINISH" by (simp add: SPAWN_def FINISH_def)
    let ?same = "takeWhile (\<lambda>(_, n, _). n = SPAWN) ((i, name, input) # cs)"
    obtain outs c1 s1 where g: "spawn_group (recorded wd) l ag (the (ag_spawner ag)) ?same cancelled s = ((outs, c1), s1)"
      by (metis prod.exhaust)
    obtain bs s2 where f: "finish_calls ag (zip (map fst ?same) outs) s1 = (bs, s2)" by fastforce
    have "asked_of s'' = asked_of s2"
      using 2(2) [OF spawn refl refl g [symmetric] refl refl f [symmetric] refl] 2(4) spawn g f
      by (simp add: run_calls.simps(2) [of "recorded wd" l ag i SPAWN input cs cancelled results s] Let_def spawn_is_not_finish)
    with finish_calls_asks [OF f] spawn_group_asks [OF g] show ?thesis by simp
  next
    case run
    obtain out c1 s1 where g: "run_call (recorded wd) ag (i, name, input) cancelled (announce ag i s) = ((out, c1), s1)"
      by (metis prod.exhaust)
    obtain b s2 where f: "finish_call ag i out s1 = (b, s2)" by fastforce
    have "asked_of s'' = asked_of s2"
      using 2(3) [OF run refl refl g [symmetric] refl refl f [symmetric] refl]
        2(4) [unfolded run_calls.simps(2) if_not_P [OF run(1)] if_not_P [OF run(2)] Let_def g prod.case f] by simp
    with finish_call_asks [OF f] run_call_asks [OF g] show ?thesis by simp
  qed
qed auto

lemma handle_calls_asks: "asked_of (after_turn (handle_calls (recorded wd) l ag calls fr lv s)) = asked_of s"
proof (cases "List.map_filter id (map (\<lambda>(_, name, input). call_problem ag name input fr) calls)")
  case Nil
  show ?thesis
  proof (cases "run_calls (recorded wd) l ag calls False [] s")
    case (Inl x)
    with Nil run_calls_asks [of wd l ag calls False "[]" s "snd x"] show ?thesis
      by (cases x) (simp add: handle_calls_def Let_def)
  next
    case (Inr x)
    with Nil run_calls_asks [of wd l ag calls False "[]" s "snd x"] show ?thesis
      by (cases x) (auto simp: handle_calls_def Let_def push_results_def split: prod.split)
  qed
next
  case (Cons first rest)
  have r: "st_world (record_results ag its s) = st_world s" for its and s :: "('w \<times> conversation list) run_state"
    by (induction ag its s rule: record_results.induct) simp_all
  from Cons show ?thesis
    by (simp add: handle_calls_def Let_def answer_unrun_def push_results_def r split: option.split)
qed

lemma record_results_world [simp]: "st_world (record_results ag its s) = st_world s"
  by (induction ag its s rule: record_results.induct) simp_all

lemma answer_unrun_world [simp]: "st_world (answer_unrun ag its s) = st_world s"
  by (simp add: answer_unrun_def push_results_def)

lemma push_world [simp]: "st_world (Agent_Loop.push ag r bs s) = st_world s"
  by (simp add: Agent_Loop.push_def Let_def)

lemma nudge_world [simp]: "st_world (after_turn (nudge ag problem lv s)) = st_world s"
  by (simp add: nudge_def Let_def split: option.split)

lemma take_response_asks: "asked_of (after_turn (take_response (recorded wd) l ag c sent lv s)) = asked_of s"
  by (simp add: take_response_def Let_def close_unrun_def handle_calls_asks split: option.split)

lemma request_asks:
  "request_from (recorded wd) conv specs mt sh attempt w = (r, w') \<Longrightarrow> set (snd w') \<subseteq> insert conv (set (snd w))"
proof (induction "recorded wd" conv specs mt sh attempt w arbitrary: r w' rule: request_from.induct)
  case (1 conv specs mt sh attempt w)
  obtain a w1 where a: "w_complete (recorded wd) w conv specs mt = (a, w1)" by (metis prod.exhaust)
  note w1 = recorded_kept(5) [OF a]
  note step = 1(2) [unfolded request_from.simps [of "recorded wd" conv specs mt sh attempt w] a Let_def prod.case]
  show ?case
  proof (cases a)
    case (Broke e streamed)
    let ?shown = "if sh then streamed else []"
    show ?thesis
    proof (cases "retry_wait attempt e ?shown")
      case None
      with step Broke w1 show ?thesis by auto
    next
      case (Some wait)
      obtain c w2 where sl: "w_sleep (recorded wd) w1 wait = (c, w2)" by (metis prod.exhaust)
      note w2 = recorded_kept(1) [OF sl]
      show ?thesis
      proof (cases c)
        case True
        with step Broke Some sl w1 w2 show ?thesis by auto
      next
        case False
        with step Broke Some sl have "request_from (recorded wd) conv specs mt sh (attempt + 1) w2 = (r, w')" by simp
        from 1(1) [OF a [symmetric] refl Broke refl Some sl [symmetric] refl _ this] False w1 w2 show ?thesis by auto
      qed
    qed
  qed (use step w1 in auto)
qed

text \<open>Everything asked so far has its calls answered.\<close>

definition asked_well :: "('w \<times> conversation list) run_state \<Rightarrow> bool" where
  "asked_well s \<longleftrightarrow> (\<forall>conv \<in> set (asked_of s). answered (cv_messages conv))"

lemma summary_request_answered: "answered (cv_messages (summary_request l conv up_to budget))"
  by (simp add: summary_request_def Let_def push_message_def new_conversation_def calls_made_def split: option.split)

lemma asked_well_request:
  assumes "asked_well s" and "answered (cv_messages conv)"
    and "request (recorded wd) conv specs mt sh (st_world s) = (r, w')"
  shows "\<forall>conv \<in> set (snd w'). answered (cv_messages conv)"
  using assms request_asks [OF assms(3)] by (auto simp: asked_well_def)

lemma asked_well_compact:
  assumes "asked_well s"
  shows "asked_well (snd (compact_step (recorded wd) l ag tr overhead s))"
proof -
  obtain pruned s1 where p: "compact_prune l ag overhead s = (pruned, s1)" by fastforce
  have s1: "asked_well s1"
    using assms p by (auto simp: asked_well_def compact_prune_def Let_def split: if_splits)
  show ?thesis
  proof (cases "compact_cut l ag tr overhead (st_conv s1)")
    case None
    with p s1 show ?thesis by (simp add: compact_step_def)
  next
    case (Some up_to)
    obtain a w where a: "request (recorded wd) (summary_request l (st_conv s1) up_to (summary_budget ag)) []
        (Some SUMMARY_MAX_TOKENS) False (st_world s1) = (a, w)" by (metis prod.exhaust)
    have "asked_of (snd (compact_step (recorded wd) l ag tr overhead s)) = snd w"
      using p Some a by (cases a) (simp_all add: compact_step_def Let_def split: option.split)
    with asked_well_request [OF s1 summary_request_answered a] show ?thesis by (simp add: asked_well_def)
  qed
qed

lemma asked_well_ask_model:
  assumes s: "asked_well s" and c: "answered (cv_messages (st_conv s))"
  shows "asked_well (after_turn (ask_model (recorded wd) l ag lv s))"
proof -
  let ?o = "agent_overhead l ag"
  define s1 where "s1 = s\<lparr>st_totals := (st_totals s)\<lparr>to_turns := to_turns (st_totals s) + 1\<rparr>\<rparr>"
  obtain r w where r: "request (recorded wd) (st_conv s1) (agent_specs ag) None True (st_world s1) = (r, w)" by (metis prod.exhaust)
  define s2 where "s2 = s1\<lparr>st_world := w\<rparr>"
  have "asked_well s1" "answered (cv_messages (st_conv s1))" using s c by (simp_all add: s1_def asked_well_def)
  from asked_well_request [OF this r] have s2: "asked_well s2" by (simp add: s2_def asked_well_def)
  show ?thesis
  proof (cases r)
    case (Got c)
    have "asked_of (after_turn (ask_model (recorded wd) l ag lv s)) = asked_of s2"
      using r Got by (simp add: ask_model_def Let_def s1_def s2_def take_response_asks)
    with s2 show ?thesis by (simp add: asked_well_def)
  next
    case Request_Cancelled
    with r s2 show ?thesis by (simp add: ask_model_def Let_def s1_def s2_def)
  next
    case (Gave_Up e shown)
    obtain cc s3 where c3: "compact_step (recorded wd) l ag Overflow ?o s2 = (cc, s3)" by fastforce
    have s3: "asked_well s3" using asked_well_compact [OF s2, of wd l ag Overflow ?o] c3 by simp
    have "asked_well (Agent_Loop.push ag Assistant [Text shown] s2)" using s2 by (simp add: asked_well_def)
    with r Gave_Up s2 s3 c3 show ?thesis
      by (auto simp: ask_model_def Let_def s1_def s2_def split: wire_error.split compacting.split)
  qed
qed

lemma asked_well_turn_step:
  assumes s: "live ag s" "asked_well s" and j: "journaled ag"
  shows "asked_well (after_turn (turn_step (recorded wd) l ag lv s))"
proof -
  have near: "live ag (after_turn (compact_near (recorded wd) l ag lv s)) \<and>
      asked_well (after_turn (compact_near (recorded wd) l ag lv s))"
    using s j live_compact [OF s(1), of "recorded wd" l Threshold "agent_overhead l ag"]
      asked_well_compact [OF s(2), of wd l ag Threshold "agent_overhead l ag"]
    by (auto simp: compact_near_def Let_def journaled_def split: option.split prod.split)
  show ?thesis
  proof (cases "compact_near (recorded wd) l ag lv s")
    case (Inl x)
    with near s show ?thesis by (auto simp: turn_step_def)
  next
    case (Inr x)
    obtain lv1 s1 where x: "x = (lv1, s1)" by (cases x)
    with Inr near have "asked_well s1" "answered (cv_messages (st_conv s1))"
      by (auto simp: live_def dest: in_step_answered)
    from asked_well_ask_model [OF this] s Inr x show ?thesis by (auto simp: turn_step_def)
  qed
qed

lemma asked_well_run_loop:
  assumes j: "journaled ag" and w: "world_ok (recorded wd)"
  shows "live ag s \<Longrightarrow> asked_well s \<Longrightarrow> asked_well (after_turn (run_loop (recorded wd) l ag n lv s))"
proof (induction n arbitrary: lv s)
  case (Suc n)
  from live_turn_step [OF Suc.prems(1) j w, of l lv] asked_well_turn_step [OF Suc.prems j, of wd l lv]
  show ?case using Suc.IH by (cases "turn_step (recorded wd) l ag lv s") (auto split: prod.split)
qed simp

lemma asked_well_prompt:
  assumes "live ag s" and "asked_well s" and j: "journaled ag" and "world_ok (recorded wd)"
  shows "asked_well (after_turn (prompt_session (recorded wd) l ag n texts s))"
proof -
  let ?s = "Agent_Loop.push ag User [Text (join_with [LF] texts)] s"
  have "live ag ?s" using assms by (intro live_push) (simp_all add: journaled_def)
  moreover have "asked_well ?s" using assms(2) by (simp add: asked_well_def)
  ultimately show ?thesis
    unfolding prompt_session_def run_turn_def using asked_well_run_loop [OF j assms(4)] by blast
qed

text \<open>
  C11: every request that a session makes of the model, in a prompt or while compacting, for the
  answer or for a summary, is one the interfaces accept. Over Chat Completions each message
  with calls is followed at once by one tool message per call, in order, and there is no
  other tool message; over Responses every call has its output, in order, before the user
  speaks again, while what is carried as it came are reasoning items and the user's messages
  make no calls. It holds after any prompts, compactions, deaths and loads, when the model
  answers over these clients and the calls of one answer have different ids.
\<close>

theorem session_requests_answer_every_call:
  fixes wd :: "'w world" and w :: 'w and s :: "('w \<times> conversation list) run_state"
  defines "s0 \<equiv> s\<lparr>st_world := (w, [])\<rparr>"
  assumes j: "journaled ag" and wire: "wire_world parse to_s wd" "distinct_calls wd"
    and s: "session (recorded wd) l ag s"
    and conv: "conv \<in> set (snd (st_world (after_turn (prompt_session (recorded wd) l ag n texts s0)))) \<or>
      conv \<in> set (snd (st_world (snd (compact_session (recorded wd) l ag s0))))"
  shows "chat_ok (chat_messages l' conv) \<and>
    (list_all plain (cv_messages conv) \<longrightarrow> input_ok [] (responses_input l' conv))"
proof -
  have w: "world_ok (recorded wd)" by (rule recorded_world_ok [OF wire_world_ok [OF wire]])
  have live: "live ag s0" unfolding s0_def by (rule live_world [OF session_live(1) [OF j w s]])
  have "asked_well s0" by (simp add: asked_well_def s0_def)
  with live w asked_well_prompt [OF live _ j w, of l n texts] asked_well_compact [of s0 wd l ag Manual "agent_overhead l ag"] conv
  have "answered (cv_messages conv)" by (auto simp: asked_well_def compact_session_def compact_on_request_def)
  then show ?thesis using system_chat_ok answered_input_ok by (auto simp: responses_input_def)
qed

section \<open>A sample session over a stream\<close>

definition sample_stop :: "string list" where
  "sample_stop = [''data: [DONE]'' @ [LF, LF]]"

definition stream_world :: "nat world" where
  "stream_world = sample_world\<lparr>w_complete := (\<lambda>w conv specs mt.
     (attempt_of (chat_complete sample_parse (\<lambda>_. []) (Streaming (if w = 0 then sample_stream else sample_stop) None)), w + 1))\<rparr>"

definition stream_agent :: agent where
  "stream_agent = sample_agent\<lparr>ag_max_turns := Some 2, ag_tools := [''read'', ''grep'']\<rparr>"

definition stream_session :: "(nat \<times> conversation list) run_state" where
  "stream_session = open_session stream_agent ''s1'' ''/w'' ''be brief'' (0, [])"

definition stream_asked :: "conversation list" where
  "stream_asked = snd (st_world (after_turn
     (prompt_session (recorded stream_world) sample_agent_libs stream_agent 3 [''go''] stream_session)))"

lemma stream_wire_world: "wire_world sample_parse (\<lambda>_. []) stream_world"
  by (auto simp: wire_world_def stream_world_def)

lemma stream_distinct_calls: "distinct_calls stream_world"
proof -
  define f where "f st = (case attempt_of (chat_complete sample_parse (\<lambda>_. []) (Streaming st None)) of
      Answered c \<Rightarrow> distinct (map fst (calls_of (co_blocks c))) | _ \<Rightarrow> True)" for st
  have "f sample_stream" unfolding f_def by code_simp
  moreover have "f sample_stop" unfolding f_def by code_simp
  ultimately show ?thesis
    by (fastforce simp: distinct_calls_def stream_world_def f_def split: if_splits)
qed

theorem session_requests_answer_every_call_witness:
  "\<exists>conv. conv \<in> set stream_asked \<and> map (map result_id) (map m_blocks (cv_messages conv)) =
       [[None], [None, None, None], [Some ''a'', Some ''b'']] \<and>
     chat_ok (chat_messages sample_agent_libs conv) \<and> input_ok [] (responses_input sample_agent_libs conv)"
proof -
  have j: "journaled stream_agent" by (simp add: journaled_def stream_agent_def sample_agent_def)
  have s: "session (recorded stream_world) sample_agent_libs stream_agent stream_session"
    unfolding stream_session_def by (rule session_left_behind.opened)
  have s0: "stream_session\<lparr>st_world := (0, [])\<rparr> = stream_session"
    by (simp add: stream_session_def open_session_def record_step_def log_event_def)
  have two: "map (\<lambda>conv. map (map result_id) (map m_blocks (cv_messages conv))) stream_asked =
      [[[None]], [[None], [None, None, None], [Some ''a'', Some ''b'']]]" by code_simp
  then obtain conv0 conv where conv: "stream_asked = [conv0, conv]"
    "map (map result_id) (map m_blocks (cv_messages conv)) = [[None], [None, None, None], [Some ''a'', Some ''b'']]"
    by (auto simp: map_eq_Cons_conv)
  have "list_all (\<lambda>conv. list_all plain (cv_messages conv)) stream_asked" by code_simp
  from this [unfolded conv(1)] have p: "list_all plain (cv_messages conv)" unfolding list.pred_inject by blast
  have mem: "conv \<in> set stream_asked" by (simp add: conv)
  then have "conv \<in> set (snd (st_world (after_turn
      (prompt_session (recorded stream_world) sample_agent_libs stream_agent 3 [''go''] (stream_session\<lparr>st_world := (0, [])\<rparr>)))))"
    unfolding s0 stream_asked_def .
  from session_requests_answer_every_call [OF j stream_wire_world stream_distinct_calls s disjI1, OF this, of sample_agent_libs]
  have ok: "chat_ok (chat_messages sample_agent_libs conv)" "list_all plain (cv_messages conv) \<longrightarrow>
      input_ok [] (responses_input sample_agent_libs conv)" by (rule conjunct1, rule conjunct2)
  show ?thesis by (intro exI [of _ conv] conjI mem conv(2) ok(1) mp [OF ok(2) p])
qed

end
