(* ===== verification/Spec2Isabelle.thy ===== *)
theory Spec2Isabelle
  imports
    Work Sync_Replicas
    Hub_Frames Hub_Slots Hub_Auth
    Keyring Snapshot Sni
    Policy_Bundle Doc_Edits Placement
    Hashline Sse Chunks
    Batch Exhaustion Approvals Upstream
    Wire_Requests
begin

text \<open>
  A verification of tracon, a system that runs coding agents on an operator's own machines.

  \<^bold>\<open>The program.\<close> A \<^emph>\<open>node\<close> (\<^verbatim>\<open>src/node\<close>) starts sessions: an agent in a sandbox of some provider,
  whose commands, edits and tool calls a signed policy allows, denies or puts to the operator.
  Nodes replicate notes, documents and a ledger of work through a \<^emph>\<open>hub\<close> (\<^verbatim>\<open>src/hub\<close>), which
  relays frames it cannot read and keeps them for members who are away. \<^verbatim>\<open>src/proto\<close> has the
  messages, envelopes and keys both sides use, \<^verbatim>\<open>src/sync\<close> the replicated tables and how changes
  to them are merged, and \<^verbatim>\<open>src/agent\<close> the agent and its tools.

  \<^bold>\<open>How the code is read.\<close> A Rust struct is a record, an enum a datatype, a function a HOL
  function of the same name where HOL leaves it free; a method that changes its receiver
  returns the new state. A \<open>Result\<close> is a sum with the error on the left (\<open>Prelude\<close>); a panic that
  can be reached is a value. Strings are their UTF-8 bytes (\<open>Text_Prims\<close>, \<open>Utf8_Text\<close>). Integers
  are \<open>nat\<close> or \<open>int\<close> with the bounds written out where the code checks or can exceed them.
  Loops are recursive functions with a termination proof. What is not in the repository is
  an argument: the ciphers, signatures and hashes, SQLite's type affinity, the text of a JSON
  value, the TOML parser, and time and random bytes. What is assumed of them is a predicate
  (\<open>crypto_ok\<close>, \<open>bundle_libs_ok\<close>, the hypotheses on \<open>libs\<close>), met by a concrete instance in the
  witness of each theorem that has it.

  \<^bold>\<open>The replicated tables.\<close> \<open>Hlc\<close> is the hybrid logical clock of \<^verbatim>\<open>src/sync/src/hlc.rs\<close>: stamps strictly
  increase and stay in range. \<open>Sync_Schema\<close> is \<^verbatim>\<open>schema.rs\<close>: every older database is brought to
  the schema of a new one. \<open>Sync_Apply\<close> is \<^verbatim>\<open>apply.rs\<close>: local writes, remote batches, backfill and
  pruning over a record of clock, log and tables. \<open>Convergence\<close> has the locales of updates that
  commute and absorb; \<open>Sync_Laws\<close> interprets them on the last-writer-wins merge, and
  \<open>Sync_Replicas\<close> shows that the tables refine that merge, that replicas with the same changes
  hold the same rows, that delivery again changes nothing, that a batch touches only its
  channel, and what pruning does to sequence numbers. \<open>Work\<close> is the ledger of \<^verbatim>\<open>work.rs\<close>:
  readiness and cycles are what the dependency graph says, in whatever order rows are read.
  \<open>Batch\<close> is the nightly promotion of memories, \<^verbatim>\<open>batch.rs\<close> and \<^verbatim>\<open>src/node/src/corpus/promote.rs\<close>: what a
  verdict does to every memory, and that a decided batch is final.

  \<^bold>\<open>The hub.\<close> \<open>Hub_Frames\<close> is the two frame stores of \<^verbatim>\<open>src/hub/src/store.rs\<close> behind one locale,
  interpreted on both: frame numbers never repeat and a reader that follows a channel misses
  nothing; a crash inside an append is modelled too. \<open>Hub_Slots\<close> is enrollment slots, claims and
  the rate limit. \<open>Hub_Auth\<close> is the signed requests of \<^verbatim>\<open>src/hub/src/auth.rs\<close> and the replay guard.
  \<open>Snapshot\<close> is the sealed backups of \<^verbatim>\<open>src/hub/src/snapshot/format.rs\<close>: they restore exactly or not
  at all and never outside the directory. \<open>Sni\<close> reads the server name of a relayed TLS hello.

  \<^bold>\<open>Keys and bytes.\<close> \<open>Wire_Bytes\<close> has the integer, length-prefix and hexadecimal codecs, \<open>Envelope\<close>
  the sealed and wrapped layouts of \<^verbatim>\<open>src/proto/src/envelope.rs\<close>, \<open>Keyring\<close> the epoch keys of
  \<^verbatim>\<open>keyring.rs\<close> with merging as a union (through the same locale as the tables) and handing on.

  \<^bold>\<open>The policy.\<close> \<open>Shell_Text\<close> is the shell line splitter and the globs of
  \<^verbatim>\<open>src/node/src/policy/mod.rs\<close>, checked against the quoting rules of the shell and the meaning of a
  pattern. \<open>Policy\<close> is the engine: the verdict is a function of the set of rules in which denials
  win, a line is allowed by a rule without conditions or command by command, and the shipped rules gate
  publishing and brokered tools. \<open>Policy_Bundle\<close> is \<^verbatim>\<open>bundle.rs\<close>: the files of a signed bundle, and that neither
  deliveries from the mesh nor a crash while installing put unsigned or older rules in force.
  \<open>Doc_Kinds\<close> and \<open>Doc_Edits\<close> are the part of \<^verbatim>\<open>src/node/src/mcp/docs.rs\<close> that decides without the
  store. \<open>Placement\<close> is \<^verbatim>\<open>src/node/src/provider\<close>: capabilities, requirements and where a session
  runs; \<open>Path_Text\<close> the paths both it and the snapshots compare. \<open>Chunks\<close> is the buffer of streamed
  text of \<^verbatim>\<open>src/node/src/session/chunks.rs\<close>.

  \<^bold>\<open>Approvals, egress and credentials.\<close> \<open>Egress\<close> is the proxies of \<^verbatim>\<open>src/node/src/gateway/proxy.rs\<close>: which
  addresses are never dialled, what a grant admits, and how a session's grant is widened.
  \<open>Approvals\<close> is the table of \<^verbatim>\<open>src/node/src/store/approvals.rs\<close> and the operator's answer in
  \<^verbatim>\<open>src/node/src/mcp/mod.rs\<close>; reading the row, deciding it and settling the call are separate steps
  of a relation, so that other answers and sweeps come between: a call runs once, as it was
  read, and a settled row is final (through the locale \<open>kept_entries\<close> of the prelude, which
  \<open>Batch\<close> interprets too). \<open>Broker\<close> is the credential store of \<^verbatim>\<open>src/node/src/broker/mod.rs\<close>: every way a
  secret leaves, and handoffs, tombstones and revokes between nodes as sequences of events.
  \<open>Upstream\<close> is \<^verbatim>\<open>src/node/src/config/upstreams.rs\<close> and \<^verbatim>\<open>src/node/src/broker/upstream.rs\<close>, with the headers of
  a request that a credential is attached to. At the end of this theory the answer to an
  egress card is followed through to the proxy.

  \<^bold>\<open>Provider limits and dates.\<close> \<open>Calendar\<close> checks the day arithmetic the node does without a date
  library, in 64 bits with their wrap-around, against leap years and lengths of months, for all years and
  days that keep clear of a wrap-around; \<open>Exhaustion\<close> is
  \<^verbatim>\<open>src/node/src/session/exhaustion.rs\<close>: classifying a refusal, reading when a limit lifts, and what
  the session does meanwhile. Doubles are bit patterns and arithmetic on them an argument.

  \<^bold>\<open>The agent's tools.\<close> \<open>Hashline\<close> is anchors, reading and the edit tool of \<^verbatim>\<open>src/agent/src\<close>: an edit is
  planned only on current anchors and replaces exactly the lines it names. \<open>Sse\<close> is the stream
  decoder, whose frames do not depend on how the stream is cut and are those of the events in it.

  \<^bold>\<open>The agent's loop.\<close> \<open>Conversation\<close> is \<^verbatim>\<open>src/agent/src/conversation.rs\<close>, with the doubles it is measured in
  as rationals rounded to 53 bits. \<open>Compact\<close> is \<^verbatim>\<open>compact.rs\<close>: estimates, pruning, the cut and the
  message a summary becomes; \<open>Compact_Laws\<close> shows what pruning spares, where a cut falls and
  that summaries keep the operator's words. \<open>Journal\<close> is \<^verbatim>\<open>journal.rs\<close>: the replay of records, that it reports exactly
  the calls the records leave without a result, and torn lines over an abstract serialisation. \<open>Subagent\<close> is \<^verbatim>\<open>subagent.rs\<close> and the strict schemas of
  \<^verbatim>\<open>wire/mod.rs\<close>. \<open>Agent_Loop\<close> is \<^verbatim>\<open>agent.rs\<close>: requests and their retries, compaction, the calls of a
  response, subagents and the loop, over a state of conversation, totals and what was
  written, asked and run in order. The model, the permissions, the tools and the run of a
  subagent are functions of a \<open>world\<close> whose state changes at every use, so that whatever happens
  outside between two uses is some world; what is assumed of it (\<open>world_ok\<close>) is that a response
  holds no results and that its calls have different ids. \<open>run_loop\<close> counts turns: \<open>m + 1\<close> are enough for an agent
  limited to \<open>m\<close> requests, as \<open>turn_limit_ends_the_run\<close> shows, and the theorems about sessions hold
  for any number. \<open>Agent_Laws\<close> shows that every step keeps journal and conversation in step,
  and \<open>Agent_Session\<close> follows sessions of \<^verbatim>\<open>server.rs\<close> through prompts, compactions, deaths at any record
  and loads. Events and hooks that only report, and the concurrency of subagents, whose
  results are taken in the order of the calls, are left out.

  \<^bold>\<open>The model clients.\<close> \<open>Wire\<close> has what the clients of \<^verbatim>\<open>src/agent/src/wire\<close> share, the loop that reads a
  stream among it, with the locale \<open>assembler\<close> of what is relied on; \<open>Chat_Wire\<close> (\<^verbatim>\<open>openai_chat.rs\<close>)
  and \<open>Responses_Wire\<close> (\<^verbatim>\<open>openai_responses.rs\<close>) interpret it. How a stream is cut does not matter, and
  an answer is what its chunks spell. \<open>Wire_Requests\<close> puts the clients under the loop: every
  request a session makes is one the interfaces accept. The connection, and the reading and
  writing of JSON text, are arguments.

  \<^bold>\<open>Not modelled.\<close> The HTTP interfaces, the session manager and its processes, the other stores
  of the node, the mesh connections, the forges and trackers behind brokered tools, container
  runtimes, the model gateway, the sealed file of the credential store, the agent's
  other tools and the web interface: they are input and output around the parts above,
  or drive software outside the repository. Left for later are the waits of a session.
  Within the modelled parts, failures of the disk other than a missing file or a crash at a
  stated point are left out, and messages for people are values rather than prose where
  nothing depends on their text. The check of a signed request at the hub is one step, though the
  code waits for the body inside it; tables of two replicas are compared by their live rows and the stamps
  of all, not by what stays in the columns of a deleted row; and a context window is taken to be far
  below the size at which its products would leave 64 bits.
\<close>

section \<open>From an egress card to the proxy\<close>

lemma valid_host_lowercase: "valid_host h \<Longrightarrow> lowercase h = h"
  unfolding lowercase_def by (rule map_idI) (rule host_char(1), rule valid_host_chars)

lemma host_of_lowercase:
  assumes "host_of l a = Ok h"
  shows "lowercase h = h"
proof -
  obtain v where "ap_parse l (a_arguments a) = Some v"
    and "normalize_host (case arg_text v ''host'' of Some h \<Rightarrow> h | None \<Rightarrow> []) = Ok h"
    using assms unfolding host_of_def by (simp split: option.splits sum.splits)
  thus ?thesis using normalize_Ok_valid valid_host_lowercase by blast
qed

lemma plan_opens_host:
  assumes "plan_answer l answered_at a ans = Ok p" and "pl_action p = OpenHost sid host opened saved"
  shows "a_tool a = EGRESS_TOOL" and "a_session_id a = Some sid" and "host_of l a = Ok host"
    and "scope_of answered_at (o_option_id ans) = Some opened"
proof -
  have warming: "plan_warming l a opt nt \<noteq> Ok p" for opt nt
    using assms(2) unfolding plan_warming_def by (auto simp: bind_result_eq_Ok split: sum.splits)
  have refusal: "plan_refusal a opt reason nt \<noteq> Ok p" for opt reason nt
    using assms(2) unfolding plan_refusal_def by (auto simp: Let_def split: option.splits if_splits)
  have call: "plan_call l a opt args nt \<noteq> Ok p" for opt args nt
    using assms(2) unfolding plan_call_def by (auto simp: Let_def split: option.splits if_splits)
  have egress: "a_tool a = EGRESS_TOOL \<and> scope_of answered_at (o_option_id ans) \<noteq> None"
    using assms warming refusal call unfolding plan_answer_def Let_def by (auto split: if_splits)
  then obtain sc where sc: "scope_of answered_at (o_option_id ans) = Some sc" by auto
  have plan: "plan_egress l a (o_option_id ans) sc (said (o_notes ans)) = Ok p"
    using assms(1) egress sc unfolding plan_answer_def Let_def by (auto split: if_splits)
  show "a_tool a = EGRESS_TOOL" using egress by simp
  show "a_session_id a = Some sid" and "host_of l a = Ok host" and "scope_of answered_at (o_option_id ans) = Some opened"
    using plan assms(2) sc unfolding plan_egress_def
    by (auto simp: bind_result_eq_Ok split: sum.splits option.splits if_splits)
qed

lemma widened_allows:
  "grant_allows m tm (grant_widen host until g) h \<Longrightarrow>
     grant_allows m tm g h \<or> h = host \<and> (case until of None \<Rightarrow> True | Some u \<Rightarrow> tm < u)"
  by (auto simp: grant_widen_def grant_allows_def AList.update_conv' split: option.splits if_splits)

lemma follow_grants:
  "w_grants (follow l t p w) = (case pl_action p of
      OpenHost sid host opened saved \<Rightarrow> fst (widen_session sid host (snd opened) (w_grants w)) | _ \<Rightarrow> w_grants w)"
  by (simp add: follow_def case_prod_beta Let_def split: action.split)

text \<open>
  C8: An answer opens at most the host that was asked for, to the session that asked. Whatever the
  operator answers to whatever card, a live grant that reaches a host after the answer
  reached it before, or is the grant of the session whose egress card was answered with an
  allowance and the host is the one the card names, and an \<open>allow_once\<close> reaches it only within
  ten minutes of the answer.
\<close>

theorem answer_opens_only_the_asked_host:
  assumes "get_approval rows i = Some a" and "answer_read l now answered_at rows i ans = Ok p"
    and "answer_commit l t t' p w = Ok w'"
    and "map_of (w_grants w) token = Some g" and "map_of (w_grants w') token = Some g'"
    and "grant_allows is_match tm g' h"
  shows "grant_allows is_match tm g h
    \<or> (a_tool a = EGRESS_TOOL \<and> gr_session_id g = a_session_id a \<and> a_session_id a \<noteq> None \<and> host_of l a = Ok h
       \<and> o_option_id ans \<in> {OPTION_ALLOW_ONCE, OPTION_ALLOW_SESSION, OPTION_ALLOW_REPO}
       \<and> (o_option_id ans = OPTION_ALLOW_ONCE \<longrightarrow> tm < answered_at + ONCE))"
proof (cases "pl_action p")
  case (OpenHost sid host opened saved)
  have plan: "plan_answer l answered_at a ans = Ok p"
    using assms(1,2) unfolding answer_read_def by (auto split: option.splits if_splits)
  note opens = plan_opens_host [OF plan OpenHost]
  have "w_grants w' = fst (widen_session sid host (snd opened) (w_grants w))"
    using commit_Ok(2) [OF assms(3)] OpenHost by (simp add: follow_grants)
  hence g': "g' = (if gr_session_id g = Some sid then grant_widen host (snd opened) g else g)"
    using assms(4,5) host_of_lowercase [OF opens(3)] by (auto simp: map_of_widen_session)
  have scope: "o_option_id ans \<in> {OPTION_ALLOW_ONCE, OPTION_ALLOW_SESSION, OPTION_ALLOW_REPO}"
      "o_option_id ans = OPTION_ALLOW_ONCE \<Longrightarrow> snd opened = Some (answered_at + ONCE)"
    using opens(4) by (auto simp: scope_of_def split: if_splits)
  show ?thesis
  proof (cases "gr_session_id g = Some sid")
    case True
    hence "grant_allows is_match tm g h \<or> h = host \<and> (case snd opened of None \<Rightarrow> True | Some u \<Rightarrow> tm < u)"
      using widened_allows [of is_match tm host "snd opened" g h] assms(6) g' by simp
    thus ?thesis using True opens scope by auto
  qed (use g' assms(6) in simp)
qed (use commit_Ok(2) [OF assms(3)] assms(4-6) in \<open>simp_all add: follow_grants\<close>)

definition egress_card :: approval where
  "egress_card = demo_ask\<lparr>a_tool := EGRESS_TOOL, a_arguments := ''card''\<rparr>"

definition card_libs :: approval_libs where
  "card_libs = demo_libs\<lparr>ap_parse := (\<lambda>s. if s = ''card'' then Some (JObj [(''host'', JStr ''pypi.org'')]) else None)\<rparr>"

definition card_plan :: planned where
  "card_plan = \<lparr>pl_id = ''a1'', pl_decision = allow_decision OPTION_ALLOW_ONCE egress_card None None,
     pl_action = OpenHost ''s'' ''pypi.org'' (''once'', Some (0 + ONCE)) None\<rparr>"

definition card_world :: Approvals.world where
  "card_world = idle\<lparr>w_rows := [egress_card], w_grants := [(''t'', sample_grant)]\<rparr>"

theorem answer_opens_only_the_asked_host_witness:
  "\<exists>w' g'. answer_commit card_libs 10 10 card_plan card_world = Ok w' \<and> map_of (w_grants w') ''t'' = Some g'
     \<and> grant_allows (\<lambda>_ _. False) 5 g' ''pypi.org'' \<and> \<not> grant_allows (\<lambda>_ _. False) 5 sample_grant ''pypi.org''
     \<and> gr_session_id sample_grant = a_session_id egress_card"
proof -
  let ?ans = "\<lparr>o_option_id = OPTION_ALLOW_ONCE, o_arguments = None, o_reason = None, o_notes = None, o_arguments_hash = None\<rparr>"
  let ?g = "grant_widen ''pypi.org'' (Some (0 + ONCE)) sample_grant"
  have get: "get_approval [egress_card] ''a1'' = Some egress_card"
    by (simp add: get_approval_def egress_card_def demo_ask_def)
  have read: "answer_read card_libs 5 0 [egress_card] ''a1'' ?ans = Ok card_plan" by code_simp
  obtain w' where commit: "answer_commit card_libs 10 10 card_plan card_world = Ok w'"
    and grants: "map_of (w_grants w') ''t'' = Some ?g"
  proof -
    have landed: "snd (decide_approval 10 (pl_id card_plan) (pl_decision card_plan) (w_rows card_world))" by code_simp
    have "lowercase ''pypi.org'' = ''pypi.org''" by code_simp
    thus thesis using that landed
      by (simp add: answer_commit_def case_prod_beta Let_def follow_grants card_plan_def card_world_def map_of_widen_session
          idle_def sample_grant_def)
  qed
  have before: "map_of (w_grants card_world) ''t'' = Some sample_grant" by (simp add: card_world_def)
  have open_now: "grant_allows (\<lambda>_ _. False) 5 ?g ''pypi.org''" by code_simp
  have closed: "\<not> grant_allows (\<lambda>_ _. False) 5 sample_grant ''pypi.org''" by code_simp
  from answer_opens_only_the_asked_host [OF get read commit before grants open_now] closed
  show ?thesis using commit grants open_now by blast
qed

end
